(* ===== verification/Prelude.thy ===== *)
theory Prelude
  imports "HOL-Library.Word" "HOL-Library.List_Lexorder" "HOL-Library.Char_ord" "HOL-Library.Sublist"
begin

text \<open>
  The types and the small program calculus every component uses.

  A byte string (\<open>std::string\<close>, \<open>std::string_view\<close>) is a list of \<open>char\<close>: an
  Isabelle \<open>char\<close> is one of 256 values, and the lexicographic order on lists of them is
  the order of \<open>std::string::operator<\<close>. A call that can throw and that changes state is
  a function from the state to an exception or a value together with the new state
  (\<open>prog\<close>): effects that happened before a \<open>throw\<close> stay, as in C++.

  \<open>wp m Q R s\<close> says that \<open>m\<close> run from \<open>s\<close> ends normally in \<open>Q\<close> or with an
  exception in \<open>R\<close>. The equations of \<open>wp_simps\<close> push it through the combinators, so
  that a fact about an operation is reduced to facts about the calls it makes.
\<close>

section \<open>Types\<close>

type_synonym bytes = "char list"
type_synonym u64 = "64 word"

text \<open>
  The exceptions the code throws, by C++ type, with their message (\<open>JsonError\<close> is
  \<open>nlohmann::json::exception\<close>; \<open>NixError\<close> and \<open>BadStorePath\<close> are those of Nix). Two values are no
  exceptions of the code: \<open>Undefined\<close> marks a run that has left defined behaviour (a freed
  transaction handle used again, a mapped page behind the end of a truncated file read),
  \<open>Blocked\<close> one that waits for another thread of the process (LMDB has one writer).
\<close>

datatype exn =
    SystemError bytes
  | RuntimeError bytes
  | LogicError bytes
  | InvalidArgument bytes
  | LengthError bytes
  | CorruptError bytes
  | OutOfRange bytes
  | JsonError bytes
  | NixError bytes
  | BadStorePath bytes
  | Undefined bytes
  | Blocked bytes

fun is_corrupt :: "exn \<Rightarrow> bool" where
  "is_corrupt (CorruptError _) = True"
| "is_corrupt _ = False"

fun is_undefined :: "exn \<Rightarrow> bool" where
  "is_undefined (Undefined _) = True"
| "is_undefined _ = False"

section \<open>Programs over a state\<close>

type_synonym ('s, 'a) prog = "'s \<Rightarrow> (exn + 'a) \<times> 's"

definition ret :: "'a \<Rightarrow> ('s, 'a) prog" where
  "ret a = (\<lambda>s. (Inr a, s))"

definition throw :: "exn \<Rightarrow> ('s, 'a) prog" where
  "throw e = (\<lambda>s. (Inl e, s))"

definition bindE :: "('s, 'a) prog \<Rightarrow> ('a \<Rightarrow> ('s, 'b) prog) \<Rightarrow> ('s, 'b) prog" where
  "bindE m f = (\<lambda>s. case m s of (Inl e, s') \<Rightarrow> (Inl e, s') | (Inr a, s') \<Rightarrow> f a s')"

definition thenE :: "('s, 'a) prog \<Rightarrow> ('s, 'b) prog \<Rightarrow> ('s, 'b) prog" where
  "thenE m n = bindE m (\<lambda>_. n)"

text \<open>\<open>tryE m h\<close> is \<open>try { m } catch (e) { h }\<close>.\<close>

definition tryE :: "('s, 'a) prog \<Rightarrow> (exn \<Rightarrow> ('s, 'a) prog) \<Rightarrow> ('s, 'a) prog" where
  "tryE m h = (\<lambda>s. case m s of (Inl e, s') \<Rightarrow> h e s' | (Inr a, s') \<Rightarrow> (Inr a, s'))"

definition readS :: "('s \<Rightarrow> 'a) \<Rightarrow> ('s, 'a) prog" where
  "readS f = (\<lambda>s. (Inr (f s), s))"

definition modS :: "('s \<Rightarrow> 's) \<Rightarrow> ('s, unit) prog" where
  "modS f = (\<lambda>s. (Inr (), f s))"

definition whenE :: "bool \<Rightarrow> ('s, unit) prog \<Rightarrow> ('s, unit) prog" where
  "whenE b m = (if b then m else ret ())"

definition liftE :: "exn + 'a \<Rightarrow> ('s, 'a) prog" where
  "liftE r = (case r of Inl e \<Rightarrow> throw e | Inr a \<Rightarrow> ret a)"

text \<open>A loop over a list, as a range-for.\<close>

fun forE :: "'a list \<Rightarrow> ('a \<Rightarrow> ('s, unit) prog) \<Rightarrow> ('s, unit) prog" where
  "forE [] f = ret ()"
| "forE (x # xs) f = thenE (f x) (forE xs f)"

text \<open>The same with a value carried round the loop.\<close>

fun foldE :: "('a \<Rightarrow> 'b \<Rightarrow> ('s, 'b) prog) \<Rightarrow> 'a list \<Rightarrow> 'b \<Rightarrow> ('s, 'b) prog" where
  "foldE f [] b = ret b"
| "foldE f (x # xs) b = bindE (f x b) (foldE f xs)"

lemma foldE_snoc: "foldE f (xs @ [x]) b = bindE (foldE f xs b) (f x)"
proof (induction xs arbitrary: b)
  case Nil
  show ?case by (simp add: fun_eq_iff bindE_def ret_def split: prod.split sum.split)
next
  case (Cons y xs)
  then show ?case by (simp add: fun_eq_iff bindE_def split: prod.split sum.split)
qed

text \<open>A local variable beside the state: an operation that does not touch it, and a block that
  declares it.\<close>

definition on_store :: "('s, 'a) prog \<Rightarrow> ('s \<times> 'c, 'a) prog" where
  "on_store m = (\<lambda>(s, c). case m s of (r, s') \<Rightarrow> (r, (s', c)))"

definition with_local :: "'c \<Rightarrow> ('s \<times> 'c, 'a) prog \<Rightarrow> ('s, 'a) prog" where
  "with_local c m = (\<lambda>s. case m (s, c) of (r, (s', c')) \<Rightarrow> (r, s'))"

definition get_local :: "('s \<times> 'c, 'c) prog" where
  "get_local = readS snd"

definition mod_local :: "('c \<Rightarrow> 'c) \<Rightarrow> ('s \<times> 'c, unit) prog" where
  "mod_local f = modS (\<lambda>(s, c). (s, f c))"

lemmas prog_defs = bindE_def thenE_def ret_def throw_def readS_def modS_def liftE_def get_local_def mod_local_def

section \<open>What a program establishes\<close>

definition wp ::
  "('s, 'a) prog \<Rightarrow> ('a \<Rightarrow> 's \<Rightarrow> bool) \<Rightarrow> (exn \<Rightarrow> 's \<Rightarrow> bool) \<Rightarrow> 's \<Rightarrow> bool" where
  "wp m Q R s = (case m s of (Inl e, s') \<Rightarrow> R e s' | (Inr a, s') \<Rightarrow> Q a s')"

named_theorems wp_simps "equations that push wp through the combinators"

lemma wp_ret [wp_simps]: "wp (ret a) Q R s = Q a s"
  by (simp add: wp_def ret_def)

lemma wp_throw [wp_simps]: "wp (throw e) Q R s = R e s"
  by (simp add: wp_def throw_def)

lemma wp_bindE [wp_simps]: "wp (bindE m f) Q R s = wp m (\<lambda>a. wp (f a) Q R) R s"
  by (simp add: wp_def bindE_def split: prod.split sum.split)

lemma wp_thenE [wp_simps]: "wp (thenE m n) Q R s = wp m (\<lambda>_. wp n Q R) R s"
  by (simp add: thenE_def wp_bindE)

lemma wp_tryE [wp_simps]: "wp (tryE m h) Q R s = wp m Q (\<lambda>e. wp (h e) Q R) s"
  by (simp add: wp_def tryE_def split: prod.split sum.split)

lemma wp_readS [wp_simps]: "wp (readS f) Q R s = Q (f s) s"
  by (simp add: wp_def readS_def)

lemma wp_modS [wp_simps]: "wp (modS f) Q R s = Q () (f s)"
  by (simp add: wp_def modS_def)

lemma wp_whenE [wp_simps]: "wp (whenE b m) Q R s = (if b then wp m Q R s else Q () s)"
  by (simp add: whenE_def wp_ret)

lemma wp_liftE [wp_simps]:
  "wp (liftE r) Q R s = (case r of Inl e \<Rightarrow> R e s | Inr a \<Rightarrow> Q a s)"
  by (simp add: liftE_def wp_ret wp_throw split: sum.split)

lemma wp_on_store: "wp (on_store m) Q R sc = wp m (\<lambda>a s. Q a (s, snd sc)) (\<lambda>e s. R e (s, snd sc)) (fst sc)"
  by (simp add: wp_def on_store_def split: prod.split sum.split)

lemma wp_with_local: "wp (with_local c m) Q R s = wp m (\<lambda>a sc. Q a (fst sc)) (\<lambda>e sc. R e (fst sc)) (s, c)"
  by (simp add: wp_def with_local_def split: prod.split sum.split)

lemma wp_get_local [wp_simps]: "wp get_local Q R sc = Q (snd sc) sc"
  by (simp add: get_local_def wp_readS)

lemma wp_mod_local [wp_simps]: "wp (mod_local f) Q R sc = Q () (fst sc, f (snd sc))"
  by (simp add: mod_local_def wp_modS split: prod.split)

text \<open>The same for the program that a continuation is, with no state applied.\<close>

lemma wp_fun_eqs:
  "wp (bindE m f) Q R = wp m (\<lambda>a. wp (f a) Q R) R" "wp (thenE m n) Q R = wp m (\<lambda>_. wp n Q R) R"
  "wp (ret a) Q R = Q a" "wp (throw e) Q R = R e"
  by (simp_all add: fun_eq_iff wp_bindE wp_thenE wp_ret wp_throw)

lemma wp_if: "wp (if b then m else n) Q R s = (if b then wp m Q R s else wp n Q R s)"
  by simp

lemma wp_case_option:
  "wp (case x of None \<Rightarrow> m | Some a \<Rightarrow> f a) Q R s =
    (case x of None \<Rightarrow> wp m Q R s | Some a \<Rightarrow> wp (f a) Q R s)"
  by (cases x) simp_all

lemma wp_case_sum:
  "wp (case x of Inl a \<Rightarrow> f a | Inr b \<Rightarrow> g b) Q R s =
    (case x of Inl a \<Rightarrow> wp (f a) Q R s | Inr b \<Rightarrow> wp (g b) Q R s)"
  by (cases x) simp_all

lemma wp_case_prod:
  "wp (case x of (a, b) \<Rightarrow> f a b) Q R s = (case x of (a, b) \<Rightarrow> wp (f a b) Q R s)"
  by (cases x) simp

lemma wp_let: "wp (let x = a in f x) Q R s = (let x = a in wp (f x) Q R s)"
  by simp

lemma wp_mono:
  assumes "wp m Q R s"
    and "\<And>a s'. Q a s' \<Longrightarrow> Q' a s'" and "\<And>e s'. R e s' \<Longrightarrow> R' e s'"
  shows "wp m Q' R' s"
  using assms by (auto simp: wp_def split: prod.splits sum.splits)

lemma wp_conj:
  assumes "wp m Q R s" and "wp m Q' R' s"
  shows "wp m (\<lambda>a s'. Q a s' \<and> Q' a s') (\<lambda>e s'. R e s' \<and> R' e s') s"
  using assms by (auto simp: wp_def split: prod.splits sum.splits)

lemma wp_okD: "wp m Q R s \<Longrightarrow> m s = (Inr a, s') \<Longrightarrow> Q a s'"
  by (simp add: wp_def)

lemma wp_exnD: "wp m Q R s \<Longrightarrow> m s = (Inl e, s') \<Longrightarrow> R e s'"
  by (simp add: wp_def)

lemma wpI:
  assumes "\<And>a s'. m s = (Inr a, s') \<Longrightarrow> Q a s'" and "\<And>e s'. m s = (Inl e, s') \<Longrightarrow> R e s'"
  shows "wp m Q R s"
  using assms by (auto simp: wp_def split: prod.splits sum.splits)

text \<open>An invariant kept by each round is kept by the loop.\<close>

lemma wp_forE_inv:
  assumes "\<And>x s. x \<in> set xs \<Longrightarrow> I s \<Longrightarrow> wp (f x) (\<lambda>_. I) R s" and "I s"
  shows "wp (forE xs f) (\<lambda>_. I) R s"
  using assms
proof (induction xs arbitrary: s)
  case Nil
  then show ?case by (simp add: wp_simps)
next
  case (Cons x xs)
  have "wp (f x) (\<lambda>_. I) R s" using Cons.prems by simp
  then have "wp (f x) (\<lambda>_. wp (forE xs f) (\<lambda>_. I) R) R s"
    by (rule wp_mono) (use Cons in auto)
  then show ?case by (simp add: wp_simps)
qed

section \<open>64-bit words\<close>

lemma unat_of_nat_u64 [simp]: "n < 2 ^ 64 \<Longrightarrow> unat (of_nat n :: u64) = n"
  by (simp add: unat_of_nat take_bit_nat_eq_self)

lemma of_nat_u64_eq:
  "m < 2 ^ 64 \<Longrightarrow> n < 2 ^ 64 \<Longrightarrow> (of_nat m :: u64) = of_nat n \<longleftrightarrow> m = n"
  by (metis unat_of_nat_u64)

section \<open>Slices of byte strings\<close>

definition substr :: "bytes \<Rightarrow> nat \<Rightarrow> nat \<Rightarrow> bytes" where
  "substr xs off n = take n (drop off xs)"

lemma length_substr [simp]: "off + n \<le> length xs \<Longrightarrow> length (substr xs off n) = n"
  by (simp add: substr_def)

lemma substr_take: "off + n \<le> k \<Longrightarrow> substr (take k xs) off n = substr xs off n"
  by (simp add: substr_def drop_take min_def)

lemma substr_append1: "off + n \<le> length xs \<Longrightarrow> substr (xs @ ys) off n = substr xs off n"
  by (simp add: substr_def)

lemma substr_append2 [simp]: "substr (xs @ ys) (length xs) (length ys) = ys"
  by (simp add: substr_def)

lemma substr_split: "substr xs off (n + k) = substr xs off n @ substr xs (off + n) k"
  by (simp add: substr_def take_add add.commute [of off])

lemma substr_zero [simp]: "substr xs off 0 = []"
  by (simp add: substr_def)

lemma substr_same_prefix:
  "off + n \<le> k \<Longrightarrow> take k xs = take k ys \<Longrightarrow> substr xs off n = substr ys off n"
  by (metis substr_take)

end
