(* ===== verification/Platform.thy ===== *)
theory Platform
  imports Prelude
begin

text \<open>
  What the pack CAS stands on.

  Third-party code is a parameter: the record \<open>platform\<close> holds BLAKE3, LZ4 and LMDB as
  functions the model is applied to (the functions of \<open>blake3.h\<close>, \<open>lz4.h\<close> and
  \<open>lmdb.h\<close> that \<open>src/src/pack_cas.cpp\<close> calls), the result every system call will have
  (\<open>outcome\<close>, indexed by a count of the calls made so far), what other processes do to
  the shared directory before each call (\<open>others\<close>), the clock, and the identity of the
  calling process and thread. \<open>mdb_table\<close> and \<open>mdb_committed\<close> are the contents of a
  transaction and of an environment: no operation of the model reads them, only statements
  do. What the code relies on is stated by \<open>lz4_ok\<close>, \<open>lmdb_ok\<close> and \<open>blake3_ok\<close>.

  The system calls are those of a POSIX directory: files are inodes with contents,
  names point to inodes, a file keeps its contents while a descriptor is open even when its
  name is gone, a write or a read may be short, and every call may fail.
\<close>

section \<open>Third-party code\<close>

datatype dbi = Blobs | Meta

type_synonym errno = bytes

text \<open>How the kernel answers a call: in full, with an error, or with a short count (of at
  least one byte: a regular file never returns 0 for a non-empty request).\<close>

datatype outcome = Fine | Fail errno | Short nat

record 'e world =
  inodes :: "nat \<Rightarrow> bytes"
  dirents :: "(bytes \<times> nat) list"
  next_inode :: nat
  mdb_env :: 'e
  flock_owner :: "nat option"

record ('e, 't) platform =
  blake3 :: "bytes \<Rightarrow> bytes"
  lz4_compress :: "bytes \<Rightarrow> nat \<Rightarrow> bytes"
  lz4_decompress :: "bytes \<Rightarrow> nat \<Rightarrow> bytes option"
  mdb_txn_begin :: "'e \<Rightarrow> int \<times> 't"
  mdb_txn_commit :: "'t \<Rightarrow> 'e \<Rightarrow> int \<times> 'e"
  mdb_env_sync :: "'e \<Rightarrow> int"
  mdb_get :: "'t \<Rightarrow> dbi \<Rightarrow> bytes \<Rightarrow> int \<times> bytes"
  mdb_put :: "'t \<Rightarrow> dbi \<Rightarrow> bytes \<Rightarrow> bytes \<Rightarrow> bool \<Rightarrow> int \<times> 't"
  mdb_del :: "'t \<Rightarrow> dbi \<Rightarrow> bytes \<Rightarrow> int \<times> 't"
  mdb_drop :: "'t \<Rightarrow> dbi \<Rightarrow> int \<times> 't"
  mdb_stat_entries :: "'t \<Rightarrow> dbi \<Rightarrow> int \<times> nat"
  mdb_cursor_open :: "'t \<Rightarrow> dbi \<Rightarrow> int"
  mdb_scan :: "'t \<Rightarrow> dbi \<Rightarrow> bytes \<Rightarrow> (bytes \<times> bytes) list \<times> int"
  mdb_open :: "'e \<Rightarrow> int \<times> 'e"
  mdb_fresh :: 'e
  mdb_strerror :: "int \<Rightarrow> bytes"
  mdb_table :: "'t \<Rightarrow> dbi \<Rightarrow> bytes \<Rightarrow> bytes option"
  mdb_committed :: "'e \<Rightarrow> dbi \<Rightarrow> bytes \<Rightarrow> bytes option"
  outcome :: "nat \<Rightarrow> outcome"
  others :: "nat \<Rightarrow> 'e world \<Rightarrow> 'e world"
  clock :: "nat \<Rightarrow> u64"
  self :: nat
  thread :: nat

abbreviation MDB_SUCCESS :: int where "MDB_SUCCESS \<equiv> 0"
abbreviation MDB_NOTFOUND :: int where "MDB_NOTFOUND \<equiv> -30798"

subsection \<open>What the code relies on\<close>

text \<open>\<open>LZ4_compress_default\<close> returns 0 (here: no bytes) when the result does not fit the
  capacity, and what it returns otherwise decompresses to the input.\<close>

definition lz4_ok :: "('e, 't) platform \<Rightarrow> bool" where
  "lz4_ok E \<longleftrightarrow> (\<forall>d cap. lz4_compress E d cap \<noteq> [] \<longrightarrow>
     length (lz4_compress E d cap) \<le> cap \<and>
     lz4_decompress E (lz4_compress E d cap) (length d) = Some d)"

text \<open>A BLAKE3 digest has 32 bytes.\<close>

definition blake3_ok :: "('e, 't) platform \<Rightarrow> bool" where
  "blake3_ok E \<longleftrightarrow> (\<forall>d. length (blake3 E d) = 32)"

text \<open>
  LMDB, as \<open>lmdb.h\<close> documents it: a transaction starts as a snapshot of the committed
  state; a commit installs the transaction's contents, all or nothing; \<open>mdb_get\<close> reads and
  \<open>mdb_put\<close>, \<open>mdb_del\<close>, \<open>mdb_drop\<close> update the transaction's own contents, and a
  call that fails leaves them as they were (a transaction LMDB has marked as broken answers
  every later call with an error, so its contents are what they last were); a cursor returns
  records in key order without leaving one out and ends with \<open>MDB_NOTFOUND\<close> after the last
  one. Every call may also fail with some other code.
\<close>

definition mdb_reads_ok :: "('e, 't) platform \<Rightarrow> bool" where
  "mdb_reads_ok E \<longleftrightarrow>
     (\<forall>e t. mdb_txn_begin E e = (MDB_SUCCESS, t) \<longrightarrow> mdb_table E t = mdb_committed E e) \<and>
     (\<forall>t d k v. mdb_get E t d k = (MDB_SUCCESS, v) \<longrightarrow> mdb_table E t d k = Some v) \<and>
     (\<forall>t d k v. mdb_get E t d k = (MDB_NOTFOUND, v) \<longrightarrow> mdb_table E t d k = None) \<and>
     (\<forall>t d n. mdb_stat_entries E t d = (MDB_SUCCESS, n) \<longrightarrow>
        (n = 0 \<longleftrightarrow> mdb_table E t d = Map.empty))"

definition mdb_scan_ok :: "('e, 't) platform \<Rightarrow> bool" where
  "mdb_scan_ok E \<longleftrightarrow> (\<forall>t d from kvs rc. mdb_scan E t d from = (kvs, rc) \<longrightarrow>
     rc \<noteq> MDB_SUCCESS \<and> sorted_wrt (<) (map fst kvs) \<and>
     (\<forall>k v. (k, v) \<in> set kvs \<longrightarrow> from \<le> k \<and> mdb_table E t d k = Some v) \<and>
     (\<forall>k v k' v'. (k, v) \<in> set kvs \<and> from \<le> k' \<and> k' \<le> k \<and> mdb_table E t d k' = Some v' \<longrightarrow> (k', v') \<in> set kvs) \<and>
     (rc = MDB_NOTFOUND \<longrightarrow> (\<forall>k v. from \<le> k \<and> mdb_table E t d k = Some v \<longrightarrow> (k, v) \<in> set kvs)))"

definition mdb_writes_ok :: "('e, 't) platform \<Rightarrow> bool" where
  "mdb_writes_ok E \<longleftrightarrow>
     (\<forall>t d k v b t' rc. mdb_put E t d k v b = (rc, t') \<longrightarrow> mdb_table E t' =
        (if rc = MDB_SUCCESS then (mdb_table E t)(d := (mdb_table E t d)(k \<mapsto> v))
         else mdb_table E t)) \<and>
     (\<forall>t d k v t'. mdb_put E t d k v True = (MDB_SUCCESS, t') \<longrightarrow> mdb_table E t d k = None) \<and>
     (\<forall>t d k t' rc. mdb_del E t d k = (rc, t') \<longrightarrow> mdb_table E t' =
        (if rc = MDB_SUCCESS then (mdb_table E t)(d := (mdb_table E t d)(k := None))
         else mdb_table E t)) \<and>
     (\<forall>t d k t'. mdb_del E t d k = (MDB_NOTFOUND, t') \<longrightarrow> mdb_table E t d k = None) \<and>
     (\<forall>t d t' rc. mdb_drop E t d = (rc, t') \<longrightarrow> mdb_table E t' =
        (if rc = MDB_SUCCESS then (mdb_table E t)(d := Map.empty) else mdb_table E t))"

definition mdb_env_ok :: "('e, 't) platform \<Rightarrow> bool" where
  "mdb_env_ok E \<longleftrightarrow>
     (\<forall>t e rc e'. mdb_txn_commit E t e = (rc, e') \<longrightarrow> mdb_committed E e' =
        (if rc = MDB_SUCCESS then mdb_table E t else mdb_committed E e)) \<and>
     (\<forall>e rc e'. mdb_open E e = (rc, e') \<longrightarrow> mdb_committed E e' = mdb_committed E e) \<and>
     mdb_committed E (mdb_fresh E) = (\<lambda>_. Map.empty)"

definition lmdb_ok :: "('e, 't) platform \<Rightarrow> bool" where
  "lmdb_ok E \<longleftrightarrow> mdb_reads_ok E \<and> mdb_scan_ok E \<and> mdb_writes_ok E \<and> mdb_env_ok E"

text \<open>No other process acts on the directory during the calls.\<close>

definition quiet :: "('e, 't) platform \<Rightarrow> bool" where
  "quiet E \<longleftrightarrow> (\<forall>n w. others E n w = w)"

definition platform_ok :: "('e, 't) platform \<Rightarrow> bool" where
  "platform_ok E \<longleftrightarrow> lz4_ok E \<and> blake3_ok E \<and> lmdb_ok E \<and> quiet E"

text \<open>Every system call succeeds in full.\<close>

definition faultless :: "('e, 't) platform \<Rightarrow> bool" where
  "faultless E \<longleftrightarrow> (\<forall>n. outcome E n = Fine)"

section \<open>System calls\<close>

record 'e machine =
  world :: "'e world"
  tick :: nat

definition sys :: "('e, 't) platform \<Rightarrow> (('e, 'z) machine_scheme, outcome) prog" where
  "sys E = (\<lambda>s. (Inr (outcome E (tick s)),
     s\<lparr>world := others E (tick s) (world s), tick := Suc (tick s)\<rparr>))"

definition modW :: "('e world \<Rightarrow> 'e world) \<Rightarrow> (('e, 'z) machine_scheme, unit) prog" where
  "modW f = modS (\<lambda>s. s\<lparr>world := f (world s)\<rparr>)"

text \<open>\<open>off_t\<close> is signed: no offset and no file size reaches 2^63.\<close>

definition max_off :: nat where
  "max_off = 2 ^ 63 - 1"

definition write_at :: "bytes \<Rightarrow> nat \<Rightarrow> bytes \<Rightarrow> bytes" where
  "write_at f off d =
     take off f @ replicate (off - length f) (CHR 0x00) @ d @ drop (off + length d) f"

definition set_inode :: "nat \<Rightarrow> bytes \<Rightarrow> 'e world \<Rightarrow> 'e world" where
  "set_inode i c w = w\<lparr>inodes := (inodes w)(i := c)\<rparr>"

definition link_new :: "bytes \<Rightarrow> 'e world \<Rightarrow> 'e world" where
  "link_new name w = w\<lparr>dirents := dirents w @ [(name, next_inode w)],
     inodes := (inodes w)(next_inode w := []), next_inode := Suc (next_inode w)\<rparr>"

definition find_inode :: "'e world \<Rightarrow> bytes \<Rightarrow> nat option" where
  "find_inode w = map_of (dirents w)"

definition sys_open ::
  "('e, 't) platform \<Rightarrow> bytes \<Rightarrow> bool \<Rightarrow> bool \<Rightarrow> (('e, 'z) machine_scheme, errno + nat) prog" where
  "sys_open E name creat trunc = bindE (sys E) (\<lambda>r. case r of
     Fail err \<Rightarrow> ret (Inl err)
   | _ \<Rightarrow> bindE (readS world) (\<lambda>w. case find_inode w name of
       Some i \<Rightarrow> thenE (whenE trunc (modW (set_inode i []))) (ret (Inr i))
     | None \<Rightarrow> if creat then thenE (modW (link_new name)) (ret (Inr (next_inode w)))
               else ret (Inl ''ENOENT'')))"

definition sys_fstat_size ::
  "('e, 't) platform \<Rightarrow> nat \<Rightarrow> (('e, 'z) machine_scheme, errno + u64) prog" where
  "sys_fstat_size E fd = bindE (sys E) (\<lambda>r. case r of
     Fail err \<Rightarrow> ret (Inl err)
   | _ \<Rightarrow> bindE (readS world) (\<lambda>w. ret (Inr (of_nat (length (inodes w fd))))))"

definition short_count :: "outcome \<Rightarrow> nat \<Rightarrow> nat" where
  "short_count r n = (case r of Short k \<Rightarrow> min (Suc k) n | _ \<Rightarrow> n)"

definition sys_pwrite ::
  "('e, 't) platform \<Rightarrow> nat \<Rightarrow> bytes \<Rightarrow> u64 \<Rightarrow> (('e, 'z) machine_scheme, errno + nat) prog" where
  "sys_pwrite E fd data off = bindE (sys E) (\<lambda>r. case r of
     Fail err \<Rightarrow> ret (Inl err)
   | _ \<Rightarrow> if max_off < unat off then ret (Inl ''EINVAL'')
     else if max_off \<le> unat off then ret (Inl ''EFBIG'')
     else bindE (readS world) (\<lambda>w.
       let n = min (short_count r (length data)) (max_off - unat off)
       in thenE (modW (set_inode fd (write_at (inodes w fd) (unat off) (take n data))))
            (ret (Inr n))))"

definition sys_pread ::
  "('e, 't) platform \<Rightarrow> nat \<Rightarrow> nat \<Rightarrow> u64 \<Rightarrow> (('e, 'z) machine_scheme, errno + bytes) prog" where
  "sys_pread E fd len off = bindE (sys E) (\<lambda>r. case r of
     Fail err \<Rightarrow> ret (Inl err)
   | _ \<Rightarrow> if max_off < unat off then ret (Inl ''EINVAL'')
     else bindE (readS world) (\<lambda>w.
       ret (Inr (substr (inodes w fd) (unat off) (short_count r len)))))"

definition sys_fdatasync ::
  "('e, 't) platform \<Rightarrow> nat \<Rightarrow> (('e, 'z) machine_scheme, errno + unit) prog" where
  "sys_fdatasync E fd = bindE (sys E) (\<lambda>r. case r of
     Fail err \<Rightarrow> ret (Inl err) | _ \<Rightarrow> ret (Inr ()))"

definition sys_ftruncate ::
  "('e, 't) platform \<Rightarrow> nat \<Rightarrow> u64 \<Rightarrow> (('e, 'z) machine_scheme, errno + unit) prog" where
  "sys_ftruncate E fd len = bindE (sys E) (\<lambda>r. case r of
     Fail err \<Rightarrow> ret (Inl err)
   | _ \<Rightarrow> if max_off < unat len then ret (Inl ''EINVAL'')
     else bindE (readS world) (\<lambda>w.
       let c = inodes w fd
       in thenE (modW (set_inode fd
            (take (unat len) c @ replicate (unat len - length c) (CHR 0x00)))) (ret (Inr ()))))"

definition sys_flock_nb ::
  "('e, 't) platform \<Rightarrow> (('e, 'z) machine_scheme, errno + unit) prog" where
  "sys_flock_nb E = bindE (sys E) (\<lambda>r. case r of
     Fail err \<Rightarrow> ret (Inl err)
   | _ \<Rightarrow> bindE (readS world) (\<lambda>w.
       if flock_owner w = None \<or> flock_owner w = Some (self E)
       then thenE (modW (\<lambda>w. w\<lparr>flock_owner := Some (self E)\<rparr>)) (ret (Inr ()))
       else ret (Inl ''EWOULDBLOCK'')))"

definition sys_flock_un :: "('e, 't) platform \<Rightarrow> (('e, 'z) machine_scheme, unit) prog" where
  "sys_flock_un E = bindE (sys E) (\<lambda>r. case r of
     Fail _ \<Rightarrow> ret ()
   | _ \<Rightarrow> bindE (readS world) (\<lambda>w. whenE (flock_owner w = Some (self E))
       (modW (\<lambda>w. w\<lparr>flock_owner := None\<rparr>))))"

definition sys_unlink ::
  "('e, 't) platform \<Rightarrow> bytes \<Rightarrow> (('e, 'z) machine_scheme, unit) prog" where
  "sys_unlink E name = bindE (sys E) (\<lambda>r. case r of
     Fail _ \<Rightarrow> ret ()
   | _ \<Rightarrow> modW (\<lambda>w. w\<lparr>dirents := filter (\<lambda>x. fst x \<noteq> name) (dirents w)\<rparr>))"

definition sys_mmap ::
  "('e, 't) platform \<Rightarrow> nat \<Rightarrow> (('e, 'z) machine_scheme, errno + unit) prog" where
  "sys_mmap E fd = bindE (sys E) (\<lambda>r. case r of
     Fail err \<Rightarrow> ret (Inl err) | _ \<Rightarrow> ret (Inr ()))"

text \<open>Reading mapped pages is no system call. Behind the end of the file it is a bus error
  (or stale zeros of the last page): not a run of the program any more.\<close>

definition mmap_read ::
  "nat \<Rightarrow> nat \<Rightarrow> nat \<Rightarrow> (('e, 'z) machine_scheme, bytes) prog" where
  "mmap_read fd off len = bindE (readS world) (\<lambda>w.
     if off + len \<le> length (inodes w fd) then ret (substr (inodes w fd) off len)
     else throw (Undefined ''SIGBUS''))"

definition sys_readdir ::
  "('e, 't) platform \<Rightarrow> (('e, 'z) machine_scheme, errno + bytes list) prog" where
  "sys_readdir E = bindE (sys E) (\<lambda>r. case r of
     Fail err \<Rightarrow> ret (Inl err)
   | _ \<Rightarrow> bindE (readS world) (\<lambda>w. ret (Inr (map fst (dirents w)))))"

definition now_ns :: "('e, 't) platform \<Rightarrow> (('e, 'z) machine_scheme, u64) prog" where
  "now_ns E = bindE (readS tick) (\<lambda>n. thenE (sys E) (ret (clock E n)))"

end
