(* ===== verification/Encodings.thy ===== *)
theory Encodings
  imports Prelude
begin

text \<open>
  The byte encodings of \<open>src/src/tree.cpp\<close> and \<open>src/src/pack_cas.cpp\<close>: \<open>to_hex\<close> and
  \<open>from_hex\<close>, the big-endian time stamps \<open>be64\<close> and \<open>rbe64\<close> of the meta table, the
  little-endian 64-bit words that a \<open>memcpy\<close> of a \<open>uint64_t\<close> leaves on the machines Nix
  supports, and the decimal numbers of the pack file names (\<open>std::to_string\<close> and
  \<open>std::from_chars\<close>). Each pair comes with its round trip.
\<close>

unbundle bit_operations_syntax

section \<open>64-bit words as bytes\<close>

definition low_byte :: "u64 \<Rightarrow> char" where
  "low_byte w = char_of (unat (w AND 0xff))"

fun le_bytes :: "nat \<Rightarrow> u64 \<Rightarrow> bytes" where
  "le_bytes 0 w = []"
| "le_bytes (Suc n) w = low_byte w # le_bytes n (drop_bit 8 w)"

fun of_le_bytes :: "bytes \<Rightarrow> u64" where
  "of_le_bytes [] = 0"
| "of_le_bytes (c # cs) = of_char c OR push_bit 8 (of_le_bytes cs)"

lemma length_le_bytes [simp]: "length (le_bytes n w) = n"
  by (induction n arbitrary: w) simp_all

lemma of_char_low_byte: "(of_char (low_byte w) :: u64) = take_bit 8 w"
proof -
  have "(of_nat (of_char (low_byte w)) :: u64) = of_nat (unat (w AND 0xff) mod 256)"
    by (simp only: low_byte_def of_char_of)
  also have "\<dots> = w AND 0xff"
  proof -
    have "unat (w AND 0xff) \<le> unat (0xff :: u64)"
      by (rule word_and_le1 [THEN word_le_nat_alt [THEN iffD1]])
    then have "unat (w AND 0xff) mod 256 = unat (w AND 0xff)" by simp
    then show ?thesis by simp
  qed
  also have "\<dots> = take_bit 8 w"
    by (simp add: take_bit_eq_mask mask_eq_exp_minus_1)
  finally show ?thesis by (simp only: of_nat_of_char)
qed

lemma of_le_bytes_le_bytes: "of_le_bytes (le_bytes n w) = take_bit (8 * n) w"
proof (induction n arbitrary: w)
  case 0
  then show ?case by simp
next
  case (Suc n)
  have "of_le_bytes (le_bytes (Suc n) w) = take_bit 8 w OR push_bit 8 (take_bit (8 * n) (drop_bit 8 w))"
    by (simp add: Suc.IH of_char_low_byte)
  also have "\<dots> = take_bit (8 * Suc n) w"
    by (rule bit_eqI) (auto simp: bit_simps)
  finally show ?case .
qed

lemma of_le_bytes_inverse [simp]: "of_le_bytes (le_bytes 8 w) = w"
  by (simp add: of_le_bytes_le_bytes take_bit_word_eq_self)

subsection \<open>Big-endian time stamps\<close>

text \<open>The loop of \<open>be64\<close> fills its buffer from the last byte to the first.\<close>

definition be64 :: "u64 \<Rightarrow> bytes" where
  "be64 value = rev (le_bytes 8 value)"

definition rbe64 :: "bytes \<Rightarrow> u64" where
  "rbe64 encoded = foldl (\<lambda>value byte. push_bit 8 value OR of_char byte) 0 encoded"

definition is_timestamp :: "bytes \<Rightarrow> bool" where
  "is_timestamp encoded \<longleftrightarrow> length encoded = 8"

lemma rbe64_rev: "rbe64 (rev xs) = of_le_bytes xs"
  by (induction xs) (simp_all add: rbe64_def or.commute)

lemma rbe64_be64 [simp]: "rbe64 (be64 w) = w"
  by (simp add: be64_def rbe64_rev)

lemma is_timestamp_be64 [simp]: "is_timestamp (be64 w)"
  by (simp add: is_timestamp_def be64_def)

section \<open>Numbers as text\<close>

text \<open>\<open>std::from_chars\<close> on an unsigned type with values below \<open>limit\<close>: the longest run of
  digits, an error (\<open>None\<close>) when there is none or the value does not fit, else the value and
  the characters after it.\<close>

definition digit_value :: "nat \<Rightarrow> char \<Rightarrow> nat option" where
  "digit_value base c =
     (let n = of_char c :: nat;
          v = (if 48 \<le> n \<and> n \<le> 57 then n - 48
               else if 97 \<le> n \<and> n \<le> 122 then n - 87
               else if 65 \<le> n \<and> n \<le> 90 then n - 55 else 36)
      in if v < base then Some v else None)"

definition digits_value :: "nat \<Rightarrow> bytes \<Rightarrow> nat" where
  "digits_value base cs =
     foldl (\<lambda>v c. v * base + (case digit_value base c of None \<Rightarrow> 0 | Some d \<Rightarrow> d)) 0 cs"

definition is_digit :: "nat \<Rightarrow> char \<Rightarrow> bool" where
  "is_digit base c \<longleftrightarrow> digit_value base c \<noteq> None"

definition from_chars :: "nat \<Rightarrow> nat \<Rightarrow> bytes \<Rightarrow> (nat \<times> bytes) option" where
  "from_chars base limit cs =
     (let ds = takeWhile (is_digit base) cs
      in if ds = [] \<or> limit \<le> digits_value base ds then None
         else Some (digits_value base ds, dropWhile (is_digit base) cs))"

definition dec_digit :: "nat \<Rightarrow> char" where
  "dec_digit d = char_of (48 + d)"

text \<open>\<open>std::to_string\<close> of an unsigned number.\<close>

fun dec_string :: "nat \<Rightarrow> bytes" where
  "dec_string n = (if n < 10 then [dec_digit n] else dec_string (n div 10) @ [dec_digit (n mod 10)])"

declare dec_string.simps [simp del]

lemma digit_value_dec_digit: "d < 10 \<Longrightarrow> digit_value 10 (dec_digit d) = Some d"
  by (simp add: digit_value_def dec_digit_def)

lemma digits_value_append:
  "digits_value base (xs @ [c]) =
     digits_value base xs * base + (case digit_value base c of None \<Rightarrow> 0 | Some d \<Rightarrow> d)"
  by (simp add: digits_value_def)

lemma dec_string_digits: "\<forall>c\<in>set (dec_string n). is_digit 10 c"
proof (induction n rule: dec_string.induct)
  case (1 n)
  then show ?case
    by (subst dec_string.simps) (auto simp: is_digit_def digit_value_dec_digit)
qed

lemma digits_value_dec_string: "digits_value 10 (dec_string n) = n"
proof (induction n rule: dec_string.induct)
  case (1 n)
  show ?case
  proof (cases "n < 10")
    case True
    then show ?thesis
      by (simp add: dec_string.simps [of n] digits_value_def digit_value_dec_digit)
  next
    case False
    with 1 have "digits_value 10 (dec_string (n div 10)) = n div 10" by simp
    with False show ?thesis
      by (simp add: dec_string.simps [of n] digits_value_append digit_value_dec_digit)
  qed
qed

lemma dec_string_not_Nil [simp]: "dec_string n \<noteq> []"
  by (subst dec_string.simps) simp

lemma from_chars_dec_string:
  assumes "n < limit"
  shows "from_chars 10 limit (dec_string n) = Some (n, [])"
proof -
  have *: "\<And>c. c \<in> set (dec_string n) \<Longrightarrow> is_digit 10 c"
    using dec_string_digits [of n] by blast
  have tw: "takeWhile (is_digit 10) (dec_string n) = dec_string n"
    using * by (simp add: takeWhile_eq_all_conv)
  have dw: "dropWhile (is_digit 10) (dec_string n) = []"
    using * by (simp add: dropWhile_eq_Nil_conv)
  show ?thesis
    unfolding from_chars_def Let_def tw dw
    using assms by (simp add: digits_value_dec_string)
qed

lemma dec_string_inj: "dec_string m = dec_string n \<Longrightarrow> m = n"
  by (metis digits_value_dec_string)

section \<open>Hexadecimal\<close>

definition hex_digit :: "nat \<Rightarrow> char" where
  "hex_digit n = ''0123456789abcdef'' ! n"

definition to_hex :: "bytes \<Rightarrow> bytes" where
  "to_hex raw = concat (map (\<lambda>byte. [hex_digit (of_char byte div 16), hex_digit (of_char byte mod 16)]) raw)"

text \<open>The loop reads pairs while a whole pair is left: the last character of an odd-length
  string is ignored.\<close>

fun from_hex :: "bytes \<Rightarrow> exn + bytes" where
  "from_hex (a # b # rest) = (case from_chars 16 256 [a, b] of
     Some (byte, []) \<Rightarrow> (case from_hex rest of Inl e \<Rightarrow> Inl e | Inr out \<Rightarrow> Inr (char_of byte # out))
   | _ \<Rightarrow> Inl (InvalidArgument ''bad hex string''))"
| "from_hex _ = Inr []"

lemma less_16_cases:
  assumes "(n :: nat) < 16"
  shows "n \<in> {0, 1, 2, 3, 4, 5, 6, 7, 8, 9, 10, 11, 12, 13, 14, 15}"
  using assms by (simp add: numeral_eq_Suc less_Suc_eq)

lemma digit_value_hex_digit: "n < 16 \<Longrightarrow> digit_value 16 (hex_digit n) = Some n"
  using less_16_cases [of n] by (auto simp: hex_digit_def digit_value_def)

lemma from_chars_hex_pair:
  assumes "h < 16" and "l < 16"
  shows "from_chars 16 256 [hex_digit h, hex_digit l] = Some (h * 16 + l, [])"
  using assms by (simp add: from_chars_def is_digit_def digits_value_def digit_value_hex_digit)

lemma from_hex_to_hex: "from_hex (to_hex raw) = Inr raw"
proof (induction raw)
  case Nil
  then show ?case by (simp add: to_hex_def)
next
  case (Cons c raw)
  have c: "(of_char c :: nat) < 256" by (rule nat_of_char_less_256)
  then have "from_chars 16 256 [hex_digit (of_char c div 16), hex_digit (of_char c mod 16)]
      = Some (of_char c div 16 * 16 + of_char c mod 16, [])"
    by (intro from_chars_hex_pair) arith+
  then have "from_chars 16 256 [hex_digit (of_char c div 16), hex_digit (of_char c mod 16)]
      = Some (of_char c, [])"
    by simp
  moreover have "to_hex (c # raw) =
      hex_digit (of_char c div 16) # hex_digit (of_char c mod 16) # to_hex raw"
    by (simp add: to_hex_def)
  ultimately show ?case using Cons.IH by simp
qed

end
