(* ===== verification/Pack_Index.thy ===== *)
theory Pack_Index
  imports Platform Encodings
begin

text \<open>
  Index entries (\<open>IndexEntry\<close>, \<open>decode_entry\<close>), the stored form of a blob (the
  compression step of \<open>PackCas::put\<close> and \<open>decompress\<close>) of \<open>src/src/pack_cas.cpp\<close>, and
  what an index over a pack file denotes: \<open>entry_blob\<close> is the blob an index record stands
  for, \<open>index_view\<close> the map from hashes to blobs, \<open>index_ok\<close> says that every record is
  in bounds and decodes to a blob with the record's hash. The lemmas show that the record
  encoding and the stored form round-trip and that an index keeps its meaning when the pack
  grows.
\<close>

section \<open>Entries\<close>

record index_entry =
  ie_off :: u64
  ie_len :: u64
  ie_raw_len :: u64

definition compressed :: "index_entry \<Rightarrow> bool" where
  "compressed e \<longleftrightarrow> ie_raw_len e \<noteq> ie_len e"

text \<open>The bytes of the struct, as \<open>mdb_put\<close> copies them.\<close>

definition encode_entry :: "index_entry \<Rightarrow> bytes" where
  "encode_entry e = le_bytes 8 (ie_off e) @ le_bytes 8 (ie_len e) @ le_bytes 8 (ie_raw_len e)"

definition decode_entry :: "bytes \<Rightarrow> exn + index_entry" where
  "decode_entry val =
     (if length val \<noteq> 24 then Inl (CorruptError ''corrupt index entry'')
      else let entry = \<lparr>ie_off = of_le_bytes (take 8 val), ie_len = of_le_bytes (take 8 (drop 8 val)),
                 ie_raw_len = of_le_bytes (drop 16 val)\<rparr>
           in if ie_off entry + ie_len entry < ie_off entry
              then Inl (CorruptError ''pack index out of bounds'') else Inr entry)"

lemma decode_encode_entry:
  assumes "unat (ie_off e) + unat (ie_len e) < 2 ^ 64"
  shows "decode_entry (encode_entry e) = Inr e"
proof -
  have "\<not> ie_off e + ie_len e < ie_off e"
    using assms by (simp add: word_less_nat_alt unat_word_ariths)
  then show ?thesis
    by (simp add: decode_entry_def encode_entry_def)
qed

lemma decode_entry_no_wrap:
  assumes "decode_entry val = Inr e"
  shows "unat (ie_off e + ie_len e) = unat (ie_off e) + unat (ie_len e)"
proof -
  have "\<not> ie_off e + ie_len e < ie_off e"
    using assms by (auto simp: decode_entry_def Let_def split: if_splits)
  then show ?thesis
    by (metis unat_plus_simple linorder_not_le)
qed

section \<open>The stored form of a blob\<close>

definition LZ4_MAX_INPUT_SIZE :: nat where "LZ4_MAX_INPUT_SIZE = 0x7E000000"
definition INT32_MAX :: nat where "INT32_MAX = 2 ^ 31 - 1"
definition kMinCompressSize :: nat where "kMinCompressSize = 64"
definition kHashLen :: nat where "kHashLen = 32"

definition stored_form :: "('e, 't) platform \<Rightarrow> bytes \<Rightarrow> bytes" where
  "stored_form E data =
     (if kMinCompressSize \<le> length data \<and> length data \<le> LZ4_MAX_INPUT_SIZE
      then let packed = lz4_compress E data (length data - 1)
           in if packed \<noteq> [] then packed else data
      else data)"

definition decompress :: "('e, 't) platform \<Rightarrow> bytes \<Rightarrow> u64 \<Rightarrow> exn + bytes" where
  "decompress E stored raw_len =
     (if LZ4_MAX_INPUT_SIZE < unat raw_len \<or> INT32_MAX < length stored
      then Inl (CorruptError ''corrupt index entry: blob too large'')
      else case lz4_decompress E stored (unat raw_len) of
        None \<Rightarrow> Inl (CorruptError ''corrupt compressed blob'')
      | Some out \<Rightarrow> if length out \<noteq> unat raw_len
          then Inl (CorruptError ''corrupt compressed blob'') else Inr out)"

text \<open>What the bytes of an entry stand for.\<close>

definition unpack :: "('e, 't) platform \<Rightarrow> index_entry \<Rightarrow> bytes \<Rightarrow> exn + bytes" where
  "unpack E entry stored =
     (if compressed entry then decompress E stored (ie_raw_len entry) else Inr stored)"

definition entry_for :: "u64 \<Rightarrow> bytes \<Rightarrow> bytes \<Rightarrow> index_entry" where
  "entry_for end stored data =
     \<lparr>ie_off = end, ie_len = of_nat (length stored), ie_raw_len = of_nat (length data)\<rparr>"

lemma lz4_okD:
  assumes "lz4_ok E" and "lz4_compress E d cap \<noteq> []"
  shows "length (lz4_compress E d cap) \<le> cap"
    and "lz4_decompress E (lz4_compress E d cap) (length d) = Some d"
  using assms by (simp_all add: lz4_ok_def)

lemma stored_form_cases:
  assumes "lz4_ok E"
  obtains (raw) "stored_form E data = data"
    | (packed) "stored_form E data = lz4_compress E data (length data - 1)"
      "lz4_compress E data (length data - 1) \<noteq> []"
      "64 \<le> length data" "length data \<le> LZ4_MAX_INPUT_SIZE"
      "length (stored_form E data) < length data"
proof (cases "kMinCompressSize \<le> length data \<and> length data \<le> LZ4_MAX_INPUT_SIZE
    \<and> lz4_compress E data (length data - 1) \<noteq> []")
  case True
  then have "length (lz4_compress E data (length data - 1)) \<le> length data - 1"
    using lz4_okD(1) [OF assms] by blast
  with True show ?thesis
    by (intro packed) (auto simp: stored_form_def Let_def kMinCompressSize_def)
next
  case False
  then show ?thesis by (intro raw) (auto simp: stored_form_def Let_def)
qed

lemma stored_form_length: "lz4_ok E \<Longrightarrow> length (stored_form E data) \<le> length data"
  by (rule stored_form_cases [of E data]) simp_all

text \<open>Storing a blob and unpacking it gives the blob back.\<close>

lemma unpack_stored_form:
  assumes "lz4_ok E" and len: "length data < 2 ^ 64"
  shows "unpack E (entry_for end (stored_form E data) data) (stored_form E data) = Inr data"
proof (rule stored_form_cases [OF assms(1), of data])
  assume "stored_form E data = data"
  then show ?thesis by (simp add: unpack_def compressed_def entry_for_def)
next
  assume packed: "stored_form E data = lz4_compress E data (length data - 1)"
    "lz4_compress E data (length data - 1) \<noteq> []"
    "64 \<le> length data" "length data \<le> LZ4_MAX_INPUT_SIZE"
    "length (stored_form E data) < length data"
  have "length (stored_form E data) < 2 ^ 64" using packed len by simp
  then have "compressed (entry_for end (stored_form E data) data)"
    using packed len by (simp add: compressed_def entry_for_def of_nat_u64_eq)
  moreover have "length (stored_form E data) \<le> INT32_MAX"
    using packed by (simp add: LZ4_MAX_INPUT_SIZE_def INT32_MAX_def)
  ultimately show ?thesis
    using packed len lz4_okD(2) [OF assms(1) packed(2)]
    by (simp add: unpack_def decompress_def entry_for_def)
qed

section \<open>What an index over a pack denotes\<close>

definition in_pack :: "bytes \<Rightarrow> index_entry \<Rightarrow> bool" where
  "in_pack content e \<longleftrightarrow> unat (ie_off e) + unat (ie_len e) \<le> length content"

definition entry_bytes :: "bytes \<Rightarrow> index_entry \<Rightarrow> bytes" where
  "entry_bytes content e = substr content (unat (ie_off e)) (unat (ie_len e))"

definition entry_blob :: "('e, 't) platform \<Rightarrow> bytes \<Rightarrow> bytes \<Rightarrow> bytes option" where
  "entry_blob E content val = (case decode_entry val of
     Inl _ \<Rightarrow> None
   | Inr e \<Rightarrow> if in_pack content e
       then (case unpack E e (entry_bytes content e) of Inl _ \<Rightarrow> None | Inr d \<Rightarrow> Some d) else None)"

definition index_view ::
  "('e, 't) platform \<Rightarrow> bytes \<Rightarrow> (bytes \<Rightarrow> bytes option) \<Rightarrow> bytes \<Rightarrow> bytes option" where
  "index_view E content tbl h = Option.bind (tbl h) (entry_blob E content)"

definition index_ok :: "('e, 't) platform \<Rightarrow> bytes \<Rightarrow> (bytes \<Rightarrow> bytes option) \<Rightarrow> bool" where
  "index_ok E content tbl \<longleftrightarrow> (\<forall>h val. tbl h = Some val \<longrightarrow>
     length h = kHashLen \<and> (\<exists>d. entry_blob E content val = Some d \<and> blake3 E d = h))"

lemma entry_blobE:
  assumes "entry_blob E content val = Some d"
  obtains e where "decode_entry val = Inr e" "in_pack content e"
    "unpack E e (entry_bytes content e) = Inr d"
  using assms by (auto simp: entry_blob_def split: sum.splits if_splits)

lemma entry_blobI:
  "decode_entry val = Inr e \<Longrightarrow> in_pack content e \<Longrightarrow>
   unpack E e (entry_bytes content e) = Inr d \<Longrightarrow> entry_blob E content val = Some d"
  by (simp add: entry_blob_def)

text \<open>Growing the pack behind what an entry covers does not change the entry's meaning.\<close>

lemma entry_blob_prefix:
  assumes "entry_blob E content val = Some d" and "prefix content content'"
  shows "entry_blob E content' val = Some d"
proof -
  from assms(1) obtain e where e: "decode_entry val = Inr e" "in_pack content e"
    "unpack E e (entry_bytes content e) = Inr d"
    by (rule entry_blobE)
  from assms(2) obtain zs where zs: "content' = content @ zs" by (auto simp: prefix_def)
  have "entry_bytes content' e = entry_bytes content e"
    using e(2) by (simp add: entry_bytes_def in_pack_def zs substr_append1)
  with e show ?thesis by (intro entry_blobI [of _ e]) (simp_all add: in_pack_def zs)
qed

lemma index_ok_prefix:
  "index_ok E content tbl \<Longrightarrow> prefix content content' \<Longrightarrow> index_ok E content' tbl"
  unfolding index_ok_def by (meson entry_blob_prefix)

lemma index_view_prefix:
  assumes "index_ok E content tbl" and "prefix content content'"
  shows "index_view E content' tbl = index_view E content tbl"
proof
  fix h
  show "index_view E content' tbl h = index_view E content tbl h"
  proof (cases "tbl h")
    case None
    then show ?thesis by (simp add: index_view_def)
  next
    case (Some val)
    then obtain d where "entry_blob E content val = Some d"
      using assms(1) unfolding index_ok_def by blast
    with Some show ?thesis
      by (simp add: index_view_def entry_blob_prefix [OF _ assms(2)])
  qed
qed

lemma index_ok_empty [simp]: "index_ok E content Map.empty"
  by (simp add: index_ok_def)

lemma dom_index_view: "index_ok E content tbl \<Longrightarrow> dom (index_view E content tbl) = dom tbl"
  by (fastforce simp: index_ok_def index_view_def dom_def bind_eq_Some_conv)

lemma index_view_hash:
  "index_ok E content tbl \<Longrightarrow> index_view E content tbl h = Some d \<Longrightarrow> blake3 E d = h"
  by (fastforce simp: index_view_def index_ok_def bind_eq_Some_conv)

text \<open>Appending a stored blob and its entry adds the blob to the map.\<close>

lemma entry_blob_appended:
  assumes "lz4_ok E" and "length content + length data < 2 ^ 64"
  shows "entry_blob E (content @ stored_form E data)
    (encode_entry (entry_for (of_nat (length content)) (stored_form E data) data)) = Some data"
proof -
  let ?st = "stored_form E data"
  let ?e = "entry_for (of_nat (length content)) ?st data"
  have st: "length content + length ?st < 2 ^ 64"
    using assms(2) stored_form_length [OF assms(1), of data] by simp
  have off: "unat (ie_off ?e) = length content" and len: "unat (ie_len ?e) = length ?st"
    using st by (simp_all add: entry_for_def)
  have "decode_entry (encode_entry ?e) = Inr ?e"
    by (rule decode_encode_entry) (use st off len in simp)
  moreover have "in_pack (content @ ?st) ?e"
    by (simp add: in_pack_def off len)
  moreover have "entry_bytes (content @ ?st) ?e = ?st"
    by (simp add: entry_bytes_def off len)
  moreover have "unpack E ?e ?st = Inr data"
    using assms by (intro unpack_stored_form) simp_all
  ultimately show ?thesis by (intro entry_blobI [of _ ?e]) simp_all
qed

lemma index_ok_update:
  assumes "index_ok E content tbl" and "prefix content content'" and "length h = kHashLen"
    and "entry_blob E content' val = Some d" and "blake3 E d = h"
  shows "index_ok E content' (tbl(h \<mapsto> val))"
  using assms index_ok_prefix [OF assms(1,2)] by (simp add: index_ok_def)

lemma index_view_update:
  assumes "index_ok E content tbl" and "prefix content content'"
    and "entry_blob E content' val = Some d"
  shows "index_view E content' (tbl(h \<mapsto> val)) = (index_view E content tbl)(h \<mapsto> d)"
  using assms index_view_prefix [OF assms(1,2)] by (auto simp: fun_eq_iff index_view_def)

end
