(* ===== verification/Pack_Map.thy ===== *)
theory Pack_Map
  imports Pack_Index
begin

text \<open>
  The pack file under a shared memory map (\<open>Mapping\<close>, \<open>map_pack\<close>, \<open>mapping_for\<close>,
  \<open>current\<close> of \<open>src/src/pack_cas.cpp\<close>), the writer lock and the read and write loops.

  A \<open>shared_ptr<Mapping>\<close> is an index into \<open>maps\<close>, the list of all mappings made so
  far, so that two holders of one mapping see each other's updates of its cached size. A file
  descriptor is the inode it was opened on.
\<close>

section \<open>State\<close>

record mapping =
  m_fd :: nat
  m_gen :: u64
  m_size :: u64

record ('e, 't) cas = "'e machine" +
  cas_dir :: bytes
  maps :: "mapping list"
  cur :: "nat option"
  retired :: "nat list"
  wtxn :: "'t option"
  wtxn_freed :: bool
  writer_thread :: nat
  committed_end :: u64
  pack_end :: u64
  batch_bytes :: u64

definition sys_err :: "bytes \<Rightarrow> errno \<Rightarrow> ('s, 'a) prog" where
  "sys_err what err = throw (SystemError (what @ '': '' @ err))"

definition mdb_check :: "('e, 't) platform \<Rightarrow> int \<Rightarrow> bytes \<Rightarrow> ('s, unit) prog" where
  "mdb_check E res what =
     whenE (res \<noteq> MDB_SUCCESS) (throw (RuntimeError (what @ '': '' @ mdb_strerror E res)))"

definition kMapSize :: nat where "kMapSize = 2 ^ 40"
definition kPackPrefix :: bytes where "kPackPrefix = ''pack.''"

definition pack_name :: "u64 \<Rightarrow> bytes" where
  "pack_name gen = kPackPrefix @ dec_string (unat gen)"

definition pack_path :: "('e, 't, 'z) cas_scheme \<Rightarrow> u64 \<Rightarrow> bytes" where
  "pack_path s gen = cas_dir s @ ''/'' @ pack_name gen"

section \<open>Reading and writing in full\<close>

lemma sys_pwrite_progress:
  "data \<noteq> [] \<Longrightarrow> sys_pwrite E fd data off s = (Inr (Inr n), s') \<Longrightarrow> 0 < n"
  by (auto simp: sys_pwrite_def bindE_def thenE_def ret_def readS_def modW_def modS_def sys_def
      Let_def short_count_def split: outcome.splits if_splits)

lemma sys_pwrite_decreases:
  assumes "data \<noteq> []" and "(Inr (Inr n), s') = sys_pwrite E fd data off s"
  shows "length data - n < length data"
  using sys_pwrite_progress [OF assms(1) assms(2) [symmetric]] assms(1) by simp

text \<open>\<open>write_all\<close> writes at the descriptor's own offset, which \<open>pos\<close> carries: the new
  pack is opened truncated and written by nobody else.\<close>

function pwrite_all ::
  "('e, 't) platform \<Rightarrow> nat \<Rightarrow> bytes \<Rightarrow> u64 \<Rightarrow> (('e, 'z) machine_scheme, unit) prog" where
  "pwrite_all E fd data off s =
     (if data = [] then (Inr (), s)
      else case sys_pwrite E fd data off s of
        (Inl e, s') \<Rightarrow> (Inl e, s')
      | (Inr (Inl err), s') \<Rightarrow> sys_err ''pwrite pack'' err s'
      | (Inr (Inr written), s') \<Rightarrow>
          pwrite_all E fd (drop written data) (off + of_nat written) s')"
  by pat_completeness auto

termination
  by (relation "measure (\<lambda>(E, fd, data, off, s). length data)")
    (auto intro: sys_pwrite_decreases)

declare pwrite_all.simps [simp del]

function write_all ::
  "('e, 't) platform \<Rightarrow> nat \<Rightarrow> bytes \<Rightarrow> u64 \<Rightarrow> (('e, 'z) machine_scheme, u64) prog" where
  "write_all E fd data pos s =
     (if data = [] then (Inr pos, s)
      else case sys_pwrite E fd data pos s of
        (Inl e, s') \<Rightarrow> (Inl e, s')
      | (Inr (Inl err), s') \<Rightarrow> sys_err ''write pack'' err s'
      | (Inr (Inr written), s') \<Rightarrow>
          write_all E fd (drop written data) (pos + of_nat written) s')"
  by pat_completeness auto

termination
  by (relation "measure (\<lambda>(E, fd, data, pos, s). length data)")
    (auto intro: sys_pwrite_decreases)

declare write_all.simps [simp del]

text \<open>The read loop returns the bytes it was asked for, in the span \<open>dst\<close> of the code.\<close>

function pread_all ::
  "('e, 't) platform \<Rightarrow> nat \<Rightarrow> nat \<Rightarrow> u64 \<Rightarrow> (('e, 'z) machine_scheme, bytes) prog" where
  "pread_all E fd n off s =
     (if n = 0 then (Inr [], s)
      else case sys_pread E fd n off s of
        (Inl e, s') \<Rightarrow> (Inl e, s')
      | (Inr (Inl err), s') \<Rightarrow> sys_err ''pread pack'' err s'
      | (Inr (Inr got), s') \<Rightarrow>
          if got = [] then throw (CorruptError ''pack truncated'') s'
          else bindE (pread_all E fd (n - length got) (off + of_nat (length got)))
                 (\<lambda>rest. ret (got @ rest)) s')"
  by pat_completeness auto
termination
  by (relation "measure (\<lambda>(E, fd, n, off, s). n)") auto

declare pread_all.simps [simp del]

section \<open>Mappings\<close>

definition map_at :: "('e, 't, 'z) cas_scheme \<Rightarrow> nat \<Rightarrow> mapping" where
  "map_at s p = maps s ! p"

definition set_map_size :: "nat \<Rightarrow> u64 \<Rightarrow> (('e, 't, 'z) cas_scheme, unit) prog" where
  "set_map_size p n = modS (\<lambda>s. s\<lparr>maps := (maps s)[p := (map_at s p)\<lparr>m_size := n\<rparr>]\<rparr>)"

definition file_size :: "('e, 't) platform \<Rightarrow> nat \<Rightarrow> (('e, 't, 'z) cas_scheme, u64) prog" where
  "file_size E p = bindE (readS (\<lambda>s. map_at s p)) (\<lambda>m.
     bindE (sys_fstat_size E (m_fd m)) (\<lambda>r. case r of
       Inl err \<Rightarrow> sys_err ''fstat pack'' err | Inr n \<Rightarrow> ret n))"

definition view ::
  "('e, 't) platform \<Rightarrow> nat \<Rightarrow> u64 \<Rightarrow> u64 \<Rightarrow> (('e, 't, 'z) cas_scheme, bytes) prog" where
  "view E p off len = bindE (readS (\<lambda>s. map_at s p)) (\<lambda>m.
     if kMapSize < unat (off + len) then throw (CorruptError ''pack index out of bounds'')
     else thenE (whenE (m_size m < off + len)
         (bindE (sys_fstat_size E (m_fd m)) (\<lambda>r. case r of
            Inl err \<Rightarrow> sys_err ''fstat pack'' err
          | Inr known \<Rightarrow> thenE (set_map_size p known)
              (whenE (known < off + len) (throw (CorruptError ''pack index out of bounds''))))))
       (mmap_read (m_fd m) (unat off) (unat len)))"

text \<open>\<open>None\<close> is the null pointer: the file is not there and was not to be created. A mapping
  that failed to build is destroyed, so it never enters \<open>maps\<close>.\<close>

definition map_pack ::
  "('e, 't) platform \<Rightarrow> u64 \<Rightarrow> bool \<Rightarrow> (('e, 't, 'z) cas_scheme, nat option) prog" where
  "map_pack E gen creat = bindE (readS (\<lambda>s. pack_path s gen)) (\<lambda>path.
     bindE (sys_open E (pack_name gen) creat False) (\<lambda>r. case r of
       Inl err \<Rightarrow> if \<not> creat \<and> err = ''ENOENT'' then ret None else sys_err (''open '' @ path) err
     | Inr fd \<Rightarrow> bindE (sys_fstat_size E fd) (\<lambda>r. case r of
         Inl err \<Rightarrow> sys_err ''fstat pack'' err
       | Inr n \<Rightarrow> bindE (sys_mmap E fd) (\<lambda>r. case r of
           Inl err \<Rightarrow> sys_err ''mmap pack'' err
         | Inr _ \<Rightarrow> bindE (readS (\<lambda>s. length (maps s))) (\<lambda>p.
             thenE (modS (\<lambda>s. s\<lparr>maps := maps s @ [\<lparr>m_fd = fd, m_gen = gen, m_size = n\<rparr>]\<rparr>))
               (ret (Some p)))))))"

definition find_mapping :: "('e, 't, 'z) cas_scheme \<Rightarrow> u64 \<Rightarrow> nat option" where
  "find_mapping s gen = (case cur s of
     Some p \<Rightarrow> if m_gen (map_at s p) = gen then Some p
               else find (\<lambda>p. m_gen (map_at s p) = gen) (retired s)
   | None \<Rightarrow> find (\<lambda>p. m_gen (map_at s p) = gen) (retired s))"

definition install_mapping :: "u64 \<Rightarrow> nat \<Rightarrow> ('e, 't, 'z) cas_scheme \<Rightarrow> ('e, 't, 'z) cas_scheme" where
  "install_mapping gen p s = (case cur s of
     None \<Rightarrow> s\<lparr>cur := Some p\<rparr>
   | Some q \<Rightarrow> if m_gen (map_at s q) < gen
       then s\<lparr>retired := retired s @ [q], cur := Some p\<rparr>
       else s\<lparr>retired := retired s @ [p]\<rparr>)"

definition mapping_for ::
  "('e, 't) platform \<Rightarrow> u64 \<Rightarrow> bool \<Rightarrow> (('e, 't, 'z) cas_scheme, nat option) prog" where
  "mapping_for E gen creat = bindE (readS (\<lambda>s. find_mapping s gen)) (\<lambda>found. case found of
     Some p \<Rightarrow> ret (Some p)
   | None \<Rightarrow> bindE (map_pack E gen creat) (\<lambda>r. case r of
       None \<Rightarrow> ret None
     | Some p \<Rightarrow> thenE (modS (install_mapping gen p)) (ret (Some p))))"

text \<open>A null \<open>shared_ptr\<close> dereferenced is undefined behaviour.\<close>

definition deref :: "'a option \<Rightarrow> ('s, 'a) prog" where
  "deref x = (case x of None \<Rightarrow> throw (Undefined ''null pointer'') | Some a \<Rightarrow> ret a)"

definition current :: "(('e, 't, 'z) cas_scheme, nat) prog" where
  "current = bindE (readS cur) deref"

section \<open>The writer lock\<close>

text \<open>Milliseconds: \<open>kLockTimeout\<close> is ten minutes, \<open>kLockPoll\<close> 50 ms. The loop counts the
  time it has slept.\<close>

definition kLockTimeout :: nat where "kLockTimeout = 600000"
definition kLockPoll :: nat where "kLockPoll = 50"

function lock_writer_loop ::
  "('e, 't) platform \<Rightarrow> nat \<Rightarrow> (('e, 'z) machine_scheme, unit) prog" where
  "lock_writer_loop E waited s = (case sys_flock_nb E s of
     (Inl e, s') \<Rightarrow> (Inl e, s')
   | (Inr (Inr _), s') \<Rightarrow> (Inr (), s')
   | (Inr (Inl err), s') \<Rightarrow>
       if err \<noteq> ''EWOULDBLOCK'' then sys_err ''flock'' err s'
       else if kLockTimeout \<le> waited
         then throw (RuntimeError ''timed out waiting for the pack writer lock; is another process stuck?'') s'
       else lock_writer_loop E (waited + kLockPoll) s')"
  by pat_completeness auto
termination
  by (relation "measure (\<lambda>(E, waited, s). kLockTimeout - waited)")
    (auto simp: kLockTimeout_def kLockPoll_def)

declare lock_writer_loop.simps [simp del]

definition lock_writer :: "('e, 't) platform \<Rightarrow> (('e, 'z) machine_scheme, unit) prog" where
  "lock_writer E = lock_writer_loop E 0"

definition unlock_writer :: "('e, 't) platform \<Rightarrow> (('e, 'z) machine_scheme, unit) prog" where
  "unlock_writer E = sys_flock_un E"

end
