(* ===== verification/Pack_Cas.thy ===== *)
theory Pack_Cas
  imports Pack_Map
begin

text \<open>
  The operations of \<open>PackCas\<close> (\<open>src/src/pack_cas.cpp\<close>) on an open store: the write
  batch (\<open>begin_batch\<close>, \<open>commit_batch\<close>, \<open>abort_batch\<close>), lookups (\<open>lookup\<close>, \<open>locate\<close>),
  \<open>put\<close>, \<open>get\<close>, \<open>get_view\<close>, \<open>size\<close>, \<open>has\<close>, \<open>sync\<close>, \<open>pack_size\<close>, the meta
  table and the destructor. \<open>Pack_Compact\<close> and \<open>Pack_Open\<close> hold \<open>compact\<close> and \<open>open\<close>.

  The batch transaction is \<open>wtxn\<close>. LMDB frees a transaction handle when it is committed or
  aborted, whether or not the commit succeeds; \<open>wtxn_freed\<close> says that the pointer still held
  in \<open>wtxn\<close> has been freed that way, and \<open>use_batch\<close> makes its use undefined behaviour.
\<close>

section \<open>Transactions\<close>

definition batch_txn :: "('e, 't) platform \<Rightarrow> ('e, 't, 'z) cas_scheme \<Rightarrow> 't option" where
  "batch_txn E s = (if wtxn s \<noteq> None \<and> writer_thread s = thread E then wtxn s else None)"

definition use_batch :: "(('e, 't, 'z) cas_scheme, 't) prog" where
  "use_batch = bindE (readS wtxn_freed) (\<lambda>freed.
     if freed then throw (Undefined ''transaction used after free'') else bindE (readS wtxn) deref)"

definition txn_begin :: "('e, 't) platform \<Rightarrow> (('e, 't, 'z) cas_scheme, 't) prog" where
  "txn_begin E = thenE (sys E) (bindE (readS (\<lambda>s. mdb_txn_begin E (mdb_env (world s))))
     (\<lambda>(res, t). thenE (mdb_check E res ''txn_begin'') (ret t)))"

text \<open>A second write transaction waits until the open one ends.\<close>

definition write_txn_begin :: "('e, 't) platform \<Rightarrow> (('e, 't, 'z) cas_scheme, 't) prog" where
  "write_txn_begin E = bindE (readS wtxn) (\<lambda>w.
     if w \<noteq> None then throw (Blocked ''write batch of another thread'') else txn_begin E)"

definition txn_commit :: "('e, 't) platform \<Rightarrow> 't \<Rightarrow> (('e, 't, 'z) cas_scheme, int) prog" where
  "txn_commit E t = thenE (sys E) (\<lambda>s. case mdb_txn_commit E t (mdb_env (world s)) of
     (res, e') \<Rightarrow> (Inr res, s\<lparr>world := (world s)\<lparr>mdb_env := e'\<rparr>\<rparr>))"

definition commit_owned :: "('e, 't) platform \<Rightarrow> 't \<Rightarrow> (('e, 't, 'z) cas_scheme, unit) prog" where
  "commit_owned E t = bindE (txn_commit E t) (\<lambda>res. mdb_check E res ''txn_commit'')"

definition env_sync :: "('e, 't) platform \<Rightarrow> (('e, 't, 'z) cas_scheme, unit) prog" where
  "env_sync E = thenE (sys E) (bindE (readS (\<lambda>s. mdb_env_sync E (mdb_env (world s))))
     (\<lambda>res. mdb_check E res ''env_sync''))"

definition read_txn :: "('e, 't) platform \<Rightarrow> (('e, 't, 'z) cas_scheme, 't) prog" where
  "read_txn E = bindE (readS (batch_txn E)) (\<lambda>b. case b of
     Some _ \<Rightarrow> use_batch | None \<Rightarrow> txn_begin E)"

definition mdb_exn :: "('e, 't) platform \<Rightarrow> int \<Rightarrow> bytes \<Rightarrow> exn" where
  "mdb_exn E res what = RuntimeError (what @ '': '' @ mdb_strerror E res)"

definition read_gen :: "('e, 't) platform \<Rightarrow> 't \<Rightarrow> exn + u64" where
  "read_gen E t = (case mdb_get E t Meta ''gen'' of (res, val) \<Rightarrow>
     if res = MDB_NOTFOUND then Inr 0
     else if res \<noteq> MDB_SUCCESS then Inl (mdb_exn E res ''mdb_get gen'')
     else if length val \<noteq> 8 then Inl (CorruptError ''corrupt generation record'')
     else Inr (of_le_bytes val))"

section \<open>The write batch\<close>

text \<open>\<open>batch_ends\<close>: the end of the pack is where the batch starts to append;
  \<open>drop_batch\<close>: the \<open>catch\<close> block.\<close>

definition batch_ends :: "('e, 't) platform \<Rightarrow> nat \<Rightarrow> (('e, 't, 'z) cas_scheme, unit) prog" where
  "batch_ends E p = bindE (file_size E p) (\<lambda>n.
     thenE (modS (\<lambda>s. s\<lparr>committed_end := n, pack_end := n\<rparr>))
     (thenE (set_map_size p n) (modS (\<lambda>s. s\<lparr>batch_bytes := 0\<rparr>))))"

definition drop_batch :: "('e, 't) platform \<Rightarrow> exn \<Rightarrow> (('e, 't, 'z) cas_scheme, unit) prog" where
  "drop_batch E e = thenE (modS (\<lambda>s. s\<lparr>wtxn := None\<rparr>)) (thenE (unlock_writer E) (throw e))"

definition begin_batch :: "('e, 't) platform \<Rightarrow> (('e, 't, 'z) cas_scheme, unit) prog" where
  "begin_batch E = thenE (lock_writer E) (tryE
     (bindE (txn_begin E) (\<lambda>t.
      thenE (modS (\<lambda>s. s\<lparr>wtxn := Some t, wtxn_freed := False, writer_thread := thread E\<rparr>))
      (bindE (liftE (read_gen E t)) (\<lambda>gen.
       bindE (mapping_for E gen True) (\<lambda>r. bindE (deref r) (batch_ends E))))))
     (drop_batch E))"

text \<open>\<open>batch_done\<close>: what \<open>commit_batch\<close> does once LMDB has committed and synced.\<close>

definition batch_done :: "('e, 't) platform \<Rightarrow> nat \<Rightarrow> (('e, 't, 'z) cas_scheme, unit) prog" where
  "batch_done E p = thenE (modS (\<lambda>s. s\<lparr>committed_end := pack_end s\<rparr>))
     (thenE (bindE (readS pack_end) (set_map_size p)) (unlock_writer E))"

definition commit_batch :: "('e, 't) platform \<Rightarrow> (('e, 't, 'z) cas_scheme, unit) prog" where
  "commit_batch E = bindE current (\<lambda>p. bindE (readS (\<lambda>s. m_fd (map_at s p))) (\<lambda>fd.
     bindE (sys_fdatasync E fd) (\<lambda>r. case r of
       Inl err \<Rightarrow> sys_err ''fdatasync pack'' err
     | Inr _ \<Rightarrow> bindE use_batch (\<lambda>t. bindE (txn_commit E t) (\<lambda>res.
        thenE (modS (\<lambda>s. s\<lparr>wtxn_freed := True\<rparr>)) (thenE (mdb_check E res ''txn_commit'')
        (thenE (modS (\<lambda>s. s\<lparr>wtxn := None, wtxn_freed := False\<rparr>))
        (thenE (env_sync E) (batch_done E p)))))))))"

text \<open>\<open>cut_pack\<close>: what \<open>abort_batch\<close> does once LMDB has dropped the transaction; a failed
  \<open>ftruncate\<close> leaves the tail for the next writer to append after.\<close>

definition cut_pack :: "('e, 't) platform \<Rightarrow> nat \<Rightarrow> (('e, 't, 'z) cas_scheme, unit) prog" where
  "cut_pack E p = bindE (readS (\<lambda>s. m_fd (map_at s p))) (\<lambda>fd. bindE (readS committed_end) (\<lambda>n.
     bindE (sys_ftruncate E fd n) (\<lambda>r.
     thenE (case r of Inr _ \<Rightarrow> modS (\<lambda>s. s\<lparr>pack_end := committed_end s\<rparr>) | Inl _ \<Rightarrow> ret ())
     (thenE (bindE (readS pack_end) (set_map_size p)) (unlock_writer E)))))"

definition abort_batch :: "('e, 't) platform \<Rightarrow> (('e, 't, 'z) cas_scheme, unit) prog" where
  "abort_batch E = thenE use_batch (thenE (modS (\<lambda>s. s\<lparr>wtxn := None\<rparr>))
     (bindE current (cut_pack E)))"

definition sync :: "('e, 't) platform \<Rightarrow> (('e, 't, 'z) cas_scheme, unit) prog" where
  "sync E = bindE (readS wtxn) (\<lambda>w. whenE (w \<noteq> None) (commit_batch E))"

text \<open>\<open>~Impl\<close>: closing the lock file gives up the lock.\<close>

definition destroy :: "('e, 't) platform \<Rightarrow> (('e, 't, 'z) cas_scheme, unit) prog" where
  "destroy E = thenE (bindE (readS wtxn) (\<lambda>w. whenE (w \<noteq> None) (abort_batch E)))
     (modS (\<lambda>s. s\<lparr>retired := [], cur := None, world := (if flock_owner (world s) = Some (self E)
        then (world s)\<lparr>flock_owner := None\<rparr> else world s)\<rparr>))"

section \<open>Lookups\<close>

definition lookup ::
  "('e, 't) platform \<Rightarrow> bytes \<Rightarrow> bool \<Rightarrow> (('e, 't, 'z) cas_scheme, index_entry option \<times> u64) prog" where
  "lookup E hash want_gen =
     (if length hash \<noteq> kHashLen then throw (InvalidArgument ''bad hash length'')
      else bindE (read_txn E) (\<lambda>t.
        bindE (if want_gen then liftE (read_gen E t) else ret 0) (\<lambda>gen.
        case mdb_get E t Blobs hash of (res, val) \<Rightarrow>
          if res = MDB_NOTFOUND then ret (None, gen)
          else thenE (mdb_check E res ''mdb_get'')
            (bindE (liftE (decode_entry val)) (\<lambda>entry. ret (Some entry, gen))))))"

definition kMaxGenerationRetries :: nat where "kMaxGenerationRetries = 8"

fun locate_loop ::
  "('e, 't) platform \<Rightarrow> bytes \<Rightarrow> nat \<Rightarrow> (('e, 't, 'z) cas_scheme, (index_entry \<times> nat) option) prog" where
  "locate_loop E hash 0 = throw (RuntimeError ''pack generation churn'')"
| "locate_loop E hash (Suc n) = bindE (lookup E hash True) (\<lambda>(found, gen). case found of
     None \<Rightarrow> ret None
   | Some entry \<Rightarrow> bindE (readS (\<lambda>s. wtxn s \<noteq> None)) (\<lambda>creat.
       bindE (mapping_for E gen creat) (\<lambda>r. case r of
         Some p \<Rightarrow> ret (Some (entry, p)) | None \<Rightarrow> locate_loop E hash n)))"

definition locate ::
  "('e, 't) platform \<Rightarrow> bytes \<Rightarrow> (('e, 't, 'z) cas_scheme, (index_entry \<times> nat) option) prog" where
  "locate E hash = locate_loop E hash kMaxGenerationRetries"

section \<open>Blobs\<close>

definition kAutoSyncBytes :: nat where "kAutoSyncBytes = 2 ^ 28"

text \<open>\<open>put\<close> for a blob that is not stored yet: \<open>append_blob\<close> writes it behind the end of the
  batch, \<open>index_blob\<close> records it, and a batch that has grown too large is committed.\<close>

definition auto_sync :: "('e, 't) platform \<Rightarrow> (('e, 't, 'z) cas_scheme, unit) prog" where
  "auto_sync E = bindE (readS batch_bytes) (\<lambda>b. whenE (kAutoSyncBytes \<le> unat b) (sync E))"

definition index_blob ::
  "('e, 't) platform \<Rightarrow> bytes \<Rightarrow> index_entry \<Rightarrow> u64 \<Rightarrow> (('e, 't, 'z) cas_scheme, unit) prog" where
  "index_blob E hash entry n = bindE use_batch (\<lambda>t.
     case mdb_put E t Blobs hash (encode_entry entry) True of (res, t') \<Rightarrow>
        thenE (modS (\<lambda>s. s\<lparr>wtxn := Some t'\<rparr>)) (thenE (mdb_check E res ''mdb_put'')
        (thenE (modS (\<lambda>s. s\<lparr>pack_end := pack_end s + n, batch_bytes := batch_bytes s + n\<rparr>))
        (auto_sync E))))"

definition append_blob ::
  "('e, 't) platform \<Rightarrow> bytes \<Rightarrow> bytes \<Rightarrow> (('e, 't, 'z) cas_scheme, unit) prog" where
  "append_blob E hash data = (let stored = stored_form E data in
     bindE current (\<lambda>p. bindE (readS (\<lambda>s. m_fd (map_at s p))) (\<lambda>fd. bindE (readS pack_end) (\<lambda>end.
     thenE (pwrite_all E fd stored end)
       (index_blob E hash (entry_for end stored data) (of_nat (length stored)))))))"

text \<open>The batch \<open>put\<close> needs: opened if there is none, refused if it is another thread's.\<close>

definition need_batch :: "('e, 't) platform \<Rightarrow> (('e, 't, 'z) cas_scheme, unit) prog" where
  "need_batch E = bindE (readS wtxn) (\<lambda>w. if w = None then begin_batch E
     else bindE (readS (batch_txn E)) (\<lambda>b. whenE (b = None) (throw (LogicError
       ''pack write batch is open in another thread; serialize writers''))))"

definition put :: "('e, 't) platform \<Rightarrow> bytes \<Rightarrow> (('e, 't, 'z) cas_scheme, bytes) prog" where
  "put E data = (let hash = blake3 E data in
     thenE (need_batch E)
     (bindE (lookup E hash False) (\<lambda>(found, _).
      if found \<noteq> None then ret hash else thenE (append_blob E hash data) (ret hash))))"

text \<open>\<open>std::string\<close> refuses lengths above its \<open>max_size\<close> of 2^63 - 1; memory exhaustion
  below it is not modelled.\<close>

definition string_resize :: "u64 \<Rightarrow> ('s, unit) prog" where
  "string_resize n = whenE (max_off < unat n) (throw (LengthError ''basic_string::resize''))"

definition get :: "('e, 't) platform \<Rightarrow> bytes \<Rightarrow> (('e, 't, 'z) cas_scheme, bytes option) prog" where
  "get E hash = bindE (locate E hash) (\<lambda>r. case r of
     None \<Rightarrow> ret None
   | Some (entry, p) \<Rightarrow> bindE (readS (\<lambda>s. m_fd (map_at s p))) (\<lambda>fd.
       thenE (string_resize (ie_len entry))
       (bindE (pread_all E fd (unat (ie_len entry)) (ie_off entry)) (\<lambda>stored.
        if \<not> compressed entry then ret (Some stored)
        else bindE (liftE (decompress E stored (ie_raw_len entry))) (\<lambda>out. ret (Some out))))))"

definition get_view ::
  "('e, 't) platform \<Rightarrow> bytes \<Rightarrow> (('e, 't, 'z) cas_scheme, bytes option) prog" where
  "get_view E hash = bindE (locate E hash) (\<lambda>r. case r of
     None \<Rightarrow> ret None
   | Some (entry, p) \<Rightarrow> bindE (view E p (ie_off entry) (ie_len entry)) (\<lambda>stored.
       if \<not> compressed entry then ret (Some stored)
       else bindE (liftE (decompress E stored (ie_raw_len entry))) (\<lambda>out. ret (Some out))))"

definition blob_size :: "('e, 't) platform \<Rightarrow> bytes \<Rightarrow> (('e, 't, 'z) cas_scheme, u64 option) prog" where
  "blob_size E hash = bindE (lookup E hash False) (\<lambda>(found, _). ret (map_option ie_raw_len found))"

definition has :: "('e, 't) platform \<Rightarrow> bytes \<Rightarrow> (('e, 't, 'z) cas_scheme, bool) prog" where
  "has E hash = bindE (lookup E hash False) (\<lambda>(found, _). ret (found \<noteq> None))"

definition pack_size :: "('e, 't) platform \<Rightarrow> (('e, 't, 'z) cas_scheme, u64) prog" where
  "pack_size E = bindE current (file_size E)"

section \<open>The meta table\<close>

definition meta_put ::
  "('e, 't) platform \<Rightarrow> bytes \<Rightarrow> bytes \<Rightarrow> (('e, 't, 'z) cas_scheme, unit) prog" where
  "meta_put E key val = bindE (readS (batch_txn E)) (\<lambda>b. case b of
     Some _ \<Rightarrow> bindE use_batch (\<lambda>t. case mdb_put E t Meta key val False of (res, t') \<Rightarrow>
       thenE (modS (\<lambda>s. s\<lparr>wtxn := Some t'\<rparr>)) (mdb_check E res ''mdb_put meta''))
   | None \<Rightarrow> bindE (write_txn_begin E) (\<lambda>t. case mdb_put E t Meta key val False of (res, t') \<Rightarrow>
       thenE (mdb_check E res ''mdb_put meta'') (commit_owned E t')))"

definition meta_get ::
  "('e, 't) platform \<Rightarrow> bytes \<Rightarrow> (('e, 't, 'z) cas_scheme, bytes option) prog" where
  "meta_get E key = bindE (read_txn E) (\<lambda>t. case mdb_get E t Meta key of (res, val) \<Rightarrow>
     if res = MDB_NOTFOUND then ret None
     else thenE (mdb_check E res ''mdb_get meta'') (ret (Some val)))"

definition meta_del :: "('e, 't) platform \<Rightarrow> bytes \<Rightarrow> (('e, 't, 'z) cas_scheme, unit) prog" where
  "meta_del E key = bindE (readS (batch_txn E)) (\<lambda>b. case b of
     Some _ \<Rightarrow> bindE use_batch (\<lambda>t. case mdb_del E t Meta key of (res, t') \<Rightarrow>
       thenE (modS (\<lambda>s. s\<lparr>wtxn := Some t'\<rparr>))
         (whenE (res \<noteq> MDB_NOTFOUND) (mdb_check E res ''mdb_del meta'')))
   | None \<Rightarrow> bindE (write_txn_begin E) (\<lambda>t. case mdb_del E t Meta key of (res, t') \<Rightarrow>
       thenE (whenE (res \<noteq> MDB_NOTFOUND) (mdb_check E res ''mdb_del meta'')) (commit_owned E t')))"

text \<open>The cursor loop of \<open>meta_scan\<close>: \<open>rc\<close> is what the cursor answers after its last
  record; the result is the code the loop is left with.\<close>

fun scan_loop ::
  "bytes \<Rightarrow> (bytes \<Rightarrow> bytes \<Rightarrow> ('s, bool) prog) \<Rightarrow> (bytes \<times> bytes) list \<Rightarrow> int \<Rightarrow> ('s, int) prog" where
  "scan_loop pre callback [] rc = ret rc"
| "scan_loop pre callback ((key, val) # kvs) rc =
     (if \<not> prefix pre key then ret MDB_SUCCESS
      else bindE (callback key val) (\<lambda>more. if \<not> more then ret MDB_SUCCESS
        else scan_loop pre callback kvs rc))"

text \<open>The callback may use a local variable of the caller's.\<close>

definition meta_scan ::
  "('e, 't) platform \<Rightarrow> bytes \<Rightarrow> (bytes \<Rightarrow> bytes \<Rightarrow> (('e, 't, 'z) cas_scheme \<times> 'c, bool) prog) \<Rightarrow>
     (('e, 't, 'z) cas_scheme \<times> 'c, unit) prog" where
  "meta_scan E pre callback = bindE (on_store (read_txn E)) (\<lambda>t.
     thenE (on_store (mdb_check E (mdb_cursor_open E t Meta) ''cursor_open''))
     (case mdb_scan E t Meta pre of (kvs, rc) \<Rightarrow> bindE (scan_loop pre callback kvs rc) (\<lambda>res.
        whenE (res \<noteq> MDB_SUCCESS \<and> res \<noteq> MDB_NOTFOUND) (on_store (mdb_check E res ''cursor_get'')))))"

end
