(* ===== verification/Pack_Compact.thy ===== *)
theory Pack_Compact
  imports Pack_Cas
begin

text \<open>
  \<open>PackCas::compact\<close> of \<open>src/src/pack_cas.cpp\<close>: under the writer lock, in one write
  transaction, the live blobs are copied to the pack of the next generation, the index is
  rebuilt and the generation moves on.

  The code has one \<open>catch\<close> whose effect depends on \<open>new_fd\<close>; here each region has its own:
  before the new pack is open an exception only gives up the lock, from then to
  \<open>close(new_fd)\<close> (\<open>compact_copy\<close>) it also removes the new pack, after that it only gives up
  the lock again.
\<close>

definition kCompactChunk :: nat where "kCompactChunk = 2 ^ 22"

text \<open>What the copy loop carries: the entries kept, the write buffer, the new pack's write
  position and the offset of the next blob in it.\<close>

record copy_state =
  cp_keep :: "(bytes \<times> index_entry) list"
  cp_buf :: bytes
  cp_pos :: u64
  cp_off :: u64

definition copy_step ::
  "('e, 't) platform \<Rightarrow> (bytes \<Rightarrow> bool) \<Rightarrow> nat \<Rightarrow> nat \<Rightarrow> bytes \<times> bytes \<Rightarrow> copy_state \<Rightarrow>
     (('e, 't, 'z) cas_scheme, copy_state) prog" where
  "copy_step E live p new_fd kv c = bindE (liftE (decode_entry (snd kv))) (\<lambda>entry.
     if \<not> live (fst kv) then ret c
     else bindE (view E p (ie_off entry) (ie_len entry)) (\<lambda>blob.
       let c' = c\<lparr>cp_keep := cp_keep c @ [(fst kv, entry\<lparr>ie_off := cp_off c\<rparr>)],
                  cp_buf := cp_buf c @ blob, cp_off := cp_off c + ie_len entry\<rparr>
       in if kCompactChunk \<le> length (cp_buf c')
          then bindE (write_all E new_fd (cp_buf c') (cp_pos c')) (\<lambda>pos.
            ret (c'\<lparr>cp_buf := [], cp_pos := pos\<rparr>))
          else ret c'))"

definition put_entry ::
  "('e, 't) platform \<Rightarrow> bytes \<times> index_entry \<Rightarrow> 't \<Rightarrow> ('s, 't) prog" where
  "put_entry E kv t = (case mdb_put E t Blobs (fst kv) (encode_entry (snd kv)) False of
     (res, t') \<Rightarrow> thenE (mdb_check E res ''mdb_put'') (ret t'))"

definition write_gen :: "('e, 't) platform \<Rightarrow> 't \<Rightarrow> u64 \<Rightarrow> ('s, 't) prog" where
  "write_gen E t gen = (case mdb_put E t Meta ''gen'' (le_bytes 8 gen) False of
     (res, t') \<Rightarrow> thenE (mdb_check E res ''mdb_put gen'') (ret t'))"

definition rebuild_index ::
  "('e, 't) platform \<Rightarrow> 't \<Rightarrow> (bytes \<times> index_entry) list \<Rightarrow> u64 \<Rightarrow> ('s, 't) prog" where
  "rebuild_index E t keep gen = (case mdb_drop E t Blobs of (res, t0) \<Rightarrow>
     thenE (mdb_check E res ''mdb_drop'')
       (bindE (foldE (put_entry E) keep t0) (\<lambda>t'. write_gen E t' gen)))"

text \<open>After the copy loop, which the cursor left with \<open>res\<close>.\<close>

definition install_index ::
  "('e, 't) platform \<Rightarrow> 't \<Rightarrow> u64 \<Rightarrow> copy_state \<Rightarrow> (('e, 't, 'z) cas_scheme, u64) prog" where
  "install_index E t gen c = bindE (rebuild_index E t (cp_keep c) (gen + 1)) (\<lambda>t'.
     thenE (commit_owned E t') (thenE (env_sync E) (ret (cp_off c))))"

definition copy_done ::
  "('e, 't) platform \<Rightarrow> 't \<Rightarrow> u64 \<Rightarrow> nat \<Rightarrow> int \<Rightarrow> copy_state \<Rightarrow> (('e, 't, 'z) cas_scheme, u64) prog" where
  "copy_done E t gen new_fd res c =
     thenE (whenE (res \<noteq> MDB_NOTFOUND) (mdb_check E res ''cursor_get''))
     (bindE (write_all E new_fd (cp_buf c) (cp_pos c)) (\<lambda>_.
     bindE (sys_fdatasync E new_fd) (\<lambda>r. case r of
       Inl err \<Rightarrow> sys_err ''fdatasync new pack'' err
     | Inr _ \<Rightarrow> install_index E t gen c)))"

definition compact_copy ::
  "('e, 't) platform \<Rightarrow> (bytes \<Rightarrow> bool) \<Rightarrow> 't \<Rightarrow> u64 \<Rightarrow> nat \<Rightarrow> nat \<Rightarrow> (('e, 't, 'z) cas_scheme, u64) prog" where
  "compact_copy E live t gen p new_fd =
     thenE (mdb_check E (mdb_cursor_open E t Blobs) ''cursor_open'')
     (case mdb_scan E t Blobs [] of (kvs, res) \<Rightarrow>
      bindE (foldE (copy_step E live p new_fd) kvs
          \<lparr>cp_keep = [], cp_buf = [], cp_pos = 0, cp_off = 0\<rparr>) (copy_done E t gen new_fd res))"

definition compact_finish ::
  "('e, 't) platform \<Rightarrow> u64 \<Rightarrow> u64 \<Rightarrow> (('e, 't, 'z) cas_scheme, unit) prog" where
  "compact_finish E gen new_off = thenE (sys_unlink E (pack_name gen))
     (bindE (mapping_for E (gen + 1) True) (\<lambda>_.
      thenE (modS (\<lambda>s. s\<lparr>committed_end := new_off, pack_end := new_off\<rparr>)) (unlock_writer E)))"

definition compact_locked ::
  "('e, 't) platform \<Rightarrow> (bytes \<Rightarrow> bool) \<Rightarrow> (('e, 't, 'z) cas_scheme, unit) prog" where
  "compact_locked E live = bindE (write_txn_begin E) (\<lambda>t.
     bindE (liftE (read_gen E t)) (\<lambda>gen.
     bindE (mapping_for E gen True) (\<lambda>r. bindE (deref r) (\<lambda>p.
     bindE (file_size E p) (\<lambda>n. thenE (set_map_size p n)
     (bindE (readS (\<lambda>s. pack_path s (gen + 1))) (\<lambda>new_path.
      bindE (sys_open E (pack_name (gen + 1)) True True) (\<lambda>r. case r of
        Inl err \<Rightarrow> sys_err (''open '' @ new_path) err
      | Inr new_fd \<Rightarrow> bindE (tryE (compact_copy E live t gen p new_fd)
            (\<lambda>e. thenE (sys_unlink E (pack_name (gen + 1))) (throw e)))
          (compact_finish E gen)))))))))"

definition compact ::
  "('e, 't) platform \<Rightarrow> (bytes \<Rightarrow> bool) \<Rightarrow> (('e, 't, 'z) cas_scheme, unit) prog" where
  "compact E live = thenE (sync E) (thenE (lock_writer E)
     (tryE (compact_locked E live) (\<lambda>e. thenE (unlock_writer E) (throw e))))"

end
