(* ===== verification/Pack_Open.thy ===== *)
theory Pack_Open
  imports Pack_Compact
begin

text \<open>
  Opening a store (\<open>PackCas::open\<close>, \<open>open_once\<close>, \<open>check_format\<close>, \<open>cleanup_orphans\<close> of
  \<open>src/src/pack_cas.cpp\<close>) on a directory that earlier processes left in any state. The
  handle starts with \<open>fresh_impl\<close>, the members' initial values.
\<close>

definition fresh_impl :: "bytes \<Rightarrow> ('e, 't, 'z) cas_scheme \<Rightarrow> ('e, 't, 'z) cas_scheme" where
  "fresh_impl dir s = s\<lparr>cas_dir := dir, maps := [], cur := None, retired := [], wtxn := None,
     wtxn_freed := False, committed_end := 0, pack_end := 0, batch_bytes := 0\<rparr>"

definition kFormat :: bytes where "kFormat = ''2''"

definition check_format :: "('e, 't) platform \<Rightarrow> 't \<Rightarrow> exn + 't" where
  "check_format E t = (case mdb_get E t Meta ''format'' of (res, val) \<Rightarrow>
     if res = MDB_SUCCESS
     then (if val \<noteq> kFormat then Inl (CorruptError ''unsupported cache format'') else Inr t)
     else if res \<noteq> MDB_NOTFOUND then Inl (mdb_exn E res ''mdb_get format'')
     else case mdb_stat_entries E t Blobs of (res, n) \<Rightarrow>
       if res \<noteq> MDB_SUCCESS then Inl (mdb_exn E res ''mdb_stat'')
       else if n \<noteq> 0 then Inl (CorruptError ''cache predates format versioning'')
       else case mdb_put E t Meta ''format'' kFormat False of (res, t') \<Rightarrow>
         if res \<noteq> MDB_SUCCESS then Inl (mdb_exn E res ''mdb_put format'') else Inr t')"

text \<open>The generation a pack file's name carries, if the name has the form the code writes.\<close>

definition orphan_gen :: "bytes \<Rightarrow> nat option" where
  "orphan_gen name = (if \<not> prefix kPackPrefix name then None
     else case from_chars 10 (2 ^ 64) (drop (length kPackPrefix) name) of
       Some (gen, []) \<Rightarrow> Some gen | _ \<Rightarrow> None)"

definition cleanup_orphans :: "('e, 't) platform \<Rightarrow> u64 \<Rightarrow> (('e, 't, 'z) cas_scheme, unit) prog" where
  "cleanup_orphans E live_gen = bindE (sys_readdir E) (\<lambda>r. case r of
     Inl err \<Rightarrow> sys_err ''directory_iterator'' err
   | Inr names \<Rightarrow> forE names (\<lambda>name. case orphan_gen name of
       None \<Rightarrow> ret ()
     | Some gen \<Rightarrow> whenE (of_nat gen \<noteq> live_gen) (sys_unlink E name)))"

definition sys_mkdir ::
  "('e, 't) platform \<Rightarrow> (('e, 'z) machine_scheme, errno + unit) prog" where
  "sys_mkdir E = bindE (sys E) (\<lambda>r. case r of Fail err \<Rightarrow> ret (Inl err) | _ \<Rightarrow> ret (Inr ()))"

text \<open>\<open>mdb_open\<close> stands for \<open>mdb_env_create\<close>, \<open>mdb_env_set_mapsize\<close>,
  \<open>mdb_env_set_maxdbs\<close> and \<open>mdb_env_open\<close>, then the two \<open>mdb_dbi_open\<close>.\<close>

definition open_index :: "('e, 't) platform \<Rightarrow> (('e, 't, 'z) cas_scheme, u64) prog" where
  "open_index E = thenE (sys E) (bindE (readS (\<lambda>s. mdb_open E (mdb_env (world s)))) (\<lambda>(res, e').
     thenE (modW (\<lambda>w. w\<lparr>mdb_env := e'\<rparr>)) (thenE (mdb_check E res ''env_open'')
     (bindE (txn_begin E) (\<lambda>t. bindE (liftE (check_format E t)) (\<lambda>t'.
      bindE (liftE (read_gen E t')) (\<lambda>gen. thenE (commit_owned E t') (ret gen))))))))"

definition open_once :: "('e, 't) platform \<Rightarrow> bytes \<Rightarrow> (('e, 't, 'z) cas_scheme, unit) prog" where
  "open_once E dir = thenE (modS (fresh_impl dir))
     (bindE (sys_mkdir E) (\<lambda>r. case r of
        Inl err \<Rightarrow> sys_err ''create_directories'' err
      | Inr _ \<Rightarrow> bindE (sys_mkdir E) (\<lambda>r. case r of
          Inl err \<Rightarrow> sys_err (''mkdir '' @ dir @ ''/index'') err
        | Inr _ \<Rightarrow> bindE (open_index E) (\<lambda>gen.
            bindE (sys_open E ''lock'' True False) (\<lambda>r. case r of
              Inl err \<Rightarrow> sys_err (''open '' @ dir @ ''/lock'') err
            | Inr _ \<Rightarrow> bindE (sys_flock_nb E) (\<lambda>r.
                thenE (case r of Inl _ \<Rightarrow> ret () | Inr _ \<Rightarrow> thenE (cleanup_orphans E gen) (unlock_writer E))
                (bindE (mapping_for E gen True) (\<lambda>p.
                 whenE (p = None) (throw (RuntimeError ''cannot map pack''))))))))))"

text \<open>\<open>std::filesystem::remove_all\<close> on the directory, its error code ignored. A new lock
  file is a new inode, on which nobody holds a lock.\<close>

definition remove_all :: "('e, 't) platform \<Rightarrow> (('e, 't, 'z) cas_scheme, unit) prog" where
  "remove_all E = bindE (sys E) (\<lambda>r. case r of
     Fail _ \<Rightarrow> ret ()
   | _ \<Rightarrow> modW (\<lambda>w. w\<lparr>dirents := [], mdb_env := mdb_fresh E, flock_owner := None\<rparr>))"

text \<open>An exception of \<open>open_once\<close> destroys its half-built \<open>Impl\<close> before the handler runs.\<close>

definition pack_open :: "('e, 't) platform \<Rightarrow> bytes \<Rightarrow> (('e, 't, 'z) cas_scheme, unit) prog" where
  "pack_open E dir = tryE (open_once E dir)
     (\<lambda>_. thenE (destroy E) (thenE (remove_all E) (open_once E dir)))"

end
