(* ===== verification/Platform_Rules.thy ===== *)
theory Platform_Rules
  imports Platform
begin

text \<open>
  What each system call establishes when no other process acts (\<open>quiet\<close>): one rule per
  call, in the collection \<open>wp_rules\<close>, that leaves a goal for every way the call can end. The
  count of calls made, which every call moves, is a fresh variable in them.
\<close>

named_theorems wp_rules "introduction rules for wp"

lemma wp_bindE_I [wp_rules]: "wp m (\<lambda>a. wp (f a) Q R) R s \<Longrightarrow> wp (bindE m f) Q R s"
  by (simp add: wp_simps)

lemma wp_thenE_I [wp_rules]: "wp m (\<lambda>_. wp n Q R) R s \<Longrightarrow> wp (thenE m n) Q R s"
  by (simp add: wp_simps)

lemma wp_tryE_I [wp_rules]: "wp m Q (\<lambda>e. wp (h e) Q R) s \<Longrightarrow> wp (tryE m h) Q R s"
  by (simp add: wp_simps)

lemma wp_ret_I [wp_rules]: "Q a s \<Longrightarrow> wp (ret a) Q R s"
  by (simp add: wp_simps)

lemma wp_throw_I [wp_rules]: "R e s \<Longrightarrow> wp (throw e) Q R s"
  by (simp add: wp_simps)

lemma wp_readS_I [wp_rules]: "Q (f s) s \<Longrightarrow> wp (readS f) Q R s"
  by (simp add: wp_simps)

lemma wp_modS_I [wp_rules]: "Q () (f s) \<Longrightarrow> wp (modS f) Q R s"
  by (simp add: wp_simps)

lemma wp_whenE_I [wp_rules]:
  "(b \<Longrightarrow> wp m Q R s) \<Longrightarrow> (\<not> b \<Longrightarrow> Q () s) \<Longrightarrow> wp (whenE b m) Q R s"
  by (simp add: wp_simps)

lemma wp_if_I [wp_rules]:
  "(b \<Longrightarrow> wp m Q R s) \<Longrightarrow> (\<not> b \<Longrightarrow> wp n Q R s) \<Longrightarrow> wp (if b then m else n) Q R s"
  by simp

lemma wp_option_I [wp_rules]:
  "(x = None \<Longrightarrow> wp m Q R s) \<Longrightarrow> (\<And>a. x = Some a \<Longrightarrow> wp (f a) Q R s) \<Longrightarrow>
     wp (case x of None \<Rightarrow> m | Some a \<Rightarrow> f a) Q R s"
  by (cases x) simp_all

lemma wp_sum_I [wp_rules]:
  "(\<And>a. x = Inl a \<Longrightarrow> wp (f a) Q R s) \<Longrightarrow> (\<And>b. x = Inr b \<Longrightarrow> wp (g b) Q R s) \<Longrightarrow>
     wp (case x of Inl a \<Rightarrow> f a | Inr b \<Rightarrow> g b) Q R s"
  by (cases x) simp_all

lemma wp_prod_I [wp_rules]:
  "(\<And>a b. x = (a, b) \<Longrightarrow> wp (f a b) Q R s) \<Longrightarrow> wp (case x of (a, b) \<Rightarrow> f a b) Q R s"
  by (cases x) simp

lemma wp_liftE_I [wp_rules]:
  "(\<And>e. r = Inl e \<Longrightarrow> R e s) \<Longrightarrow> (\<And>a. r = Inr a \<Longrightarrow> Q a s) \<Longrightarrow> wp (liftE r) Q R s"
  by (cases r) (simp_all add: wp_simps)

section \<open>The calls\<close>

lemma sys_quiet:
  "quiet E \<Longrightarrow> sys E s = (Inr (outcome E (tick s)), s\<lparr>tick := Suc (tick s)\<rparr>)"
  by (simp add: sys_def quiet_def)

lemma wp_sys_eq:
  "quiet E \<Longrightarrow> wp (sys E) Q R s = Q (outcome E (tick s)) (s\<lparr>tick := Suc (tick s)\<rparr>)"
  by (simp add: wp_def sys_quiet)

lemma wp_sys [wp_rules]: "quiet E \<Longrightarrow> (\<And>r n. Q r (s\<lparr>tick := n\<rparr>)) \<Longrightarrow> wp (sys E) Q R s"
  by (simp add: wp_sys_eq)

lemma wp_modW [wp_rules]: "Q () (s\<lparr>world := f (world s)\<rparr>) \<Longrightarrow> wp (modW f) Q R s"
  by (simp add: modW_def wp_simps)

lemmas sys_call_defs = wp_simps wp_sys_eq modW_def wp_case_option wp_let

lemma wp_sys_open [wp_rules]:
  assumes "quiet E" and "\<And>err n. Q (Inl err) (s\<lparr>tick := n\<rparr>)"
    and "\<And>i n. find_inode (world s) name = Some i \<Longrightarrow> \<not> trunc \<Longrightarrow> Q (Inr i) (s\<lparr>tick := n\<rparr>)"
    and "\<And>i n. find_inode (world s) name = Some i \<Longrightarrow> trunc \<Longrightarrow>
      Q (Inr i) (s\<lparr>tick := n, world := set_inode i [] (world s)\<rparr>)"
    and "\<And>n. find_inode (world s) name = None \<Longrightarrow> creat \<Longrightarrow>
      Q (Inr (next_inode (world s))) (s\<lparr>tick := n, world := link_new name (world s)\<rparr>)"
  shows "wp (sys_open E name creat trunc) Q R s"
  using assms by (simp add: sys_open_def sys_call_defs split: outcome.split option.split)

lemma wp_sys_fstat_size [wp_rules]:
  assumes "quiet E" and "\<And>err n. Q (Inl err) (s\<lparr>tick := n\<rparr>)"
    and "\<And>n. Q (Inr (of_nat (length (inodes (world s) fd)))) (s\<lparr>tick := n\<rparr>)"
  shows "wp (sys_fstat_size E fd) Q R s"
  using assms by (simp add: sys_fstat_size_def sys_call_defs split: outcome.split)

lemma wp_sys_fdatasync [wp_rules]:
  assumes "quiet E" and "\<And>r n. Q r (s\<lparr>tick := n\<rparr>)"
  shows "wp (sys_fdatasync E fd) Q R s"
  using assms by (simp add: sys_fdatasync_def sys_call_defs split: outcome.split)

lemma wp_sys_mmap [wp_rules]:
  assumes "quiet E" and "\<And>r n. Q r (s\<lparr>tick := n\<rparr>)"
  shows "wp (sys_mmap E fd) Q R s"
  using assms by (simp add: sys_mmap_def sys_call_defs split: outcome.split)

lemma wp_sys_unlink [wp_rules]:
  assumes "quiet E" and "\<And>n. Q () (s\<lparr>tick := n\<rparr>)"
    and "\<And>n. Q () (s\<lparr>tick := n, world := (world s)\<lparr>dirents :=
      filter (\<lambda>x. fst x \<noteq> name) (dirents (world s))\<rparr>\<rparr>)"
  shows "wp (sys_unlink E name) Q R s"
  using assms by (simp add: sys_unlink_def sys_call_defs split: outcome.split)

lemma wp_sys_flock_nb [wp_rules]:
  assumes "quiet E" and "\<And>err n. Q (Inl err) (s\<lparr>tick := n\<rparr>)"
    and "\<And>n. flock_owner (world s) = None \<or> flock_owner (world s) = Some (self E) \<Longrightarrow>
      Q (Inr ()) (s\<lparr>tick := n, world := (world s)\<lparr>flock_owner := Some (self E)\<rparr>\<rparr>)"
  shows "wp (sys_flock_nb E) Q R s"
  using assms by (simp add: sys_flock_nb_def sys_call_defs split: outcome.split)

lemma wp_sys_flock_un [wp_rules]:
  assumes "quiet E" and "\<And>n. Q () (s\<lparr>tick := n\<rparr>)"
    and "\<And>n. flock_owner (world s) = Some (self E) \<Longrightarrow>
      Q () (s\<lparr>tick := n, world := (world s)\<lparr>flock_owner := None\<rparr>\<rparr>)"
  shows "wp (sys_flock_un E) Q R s"
  using assms by (simp add: sys_flock_un_def sys_call_defs split: outcome.split)

lemma wp_sys_ftruncate [wp_rules]:
  assumes "quiet E" and "\<And>err n. Q (Inl err) (s\<lparr>tick := n\<rparr>)"
    and "\<And>n. unat len \<le> max_off \<Longrightarrow> Q (Inr ()) (s\<lparr>tick := n, world := set_inode fd
      (take (unat len) (inodes (world s) fd) @
       replicate (unat len - length (inodes (world s) fd)) (CHR 0x00)) (world s)\<rparr>)"
  shows "wp (sys_ftruncate E fd len) Q R s"
  using assms by (simp add: sys_ftruncate_def sys_call_defs split: outcome.split)

lemma wp_sys_readdir [wp_rules]:
  assumes "quiet E" and "\<And>err n. Q (Inl err) (s\<lparr>tick := n\<rparr>)"
    and "\<And>n. Q (Inr (map fst (dirents (world s)))) (s\<lparr>tick := n\<rparr>)"
  shows "wp (sys_readdir E) Q R s"
  using assms by (simp add: sys_readdir_def sys_call_defs split: outcome.split)

lemma wp_sys_pwrite [wp_rules]:
  assumes "quiet E" and "data \<noteq> []" and "\<And>err n. Q (Inl err) (s\<lparr>tick := n\<rparr>)"
    and "\<And>k n. 0 < k \<Longrightarrow> k \<le> length data \<Longrightarrow> unat off + k \<le> max_off \<Longrightarrow> Q (Inr k)
      (s\<lparr>tick := n, world := set_inode fd (write_at (inodes (world s) fd) (unat off) (take k data)) (world s)\<rparr>)"
  shows "wp (sys_pwrite E fd data off) Q R s"
proof -
  have "0 < length data" using assms(2) by simp
  then have *: "0 < short_count r (length data)" "short_count r (length data) \<le> length data" for r
    by (auto simp: short_count_def split: outcome.split)
  have "unat off < max_off \<Longrightarrow>
      0 < min (short_count r (length data)) (max_off - unat off) \<and>
      min (short_count r (length data)) (max_off - unat off) \<le> length data \<and>
      unat off + min (short_count r (length data)) (max_off - unat off) \<le> max_off" for r
    using * [of r] by auto
  with assms show ?thesis
    by (simp add: sys_pwrite_def sys_call_defs not_le split: outcome.split)
qed

lemma wp_sys_pread [wp_rules]:
  assumes "quiet E" and "0 < len" and "\<And>err n. Q (Inl err) (s\<lparr>tick := n\<rparr>)"
    and "\<And>k n. 0 < k \<Longrightarrow> k \<le> len \<Longrightarrow> Q (Inr (substr (inodes (world s) fd) (unat off) k)) (s\<lparr>tick := n\<rparr>)"
  shows "wp (sys_pread E fd len off) Q R s"
proof -
  have *: "0 < short_count r len" "short_count r len \<le> len" for r
    using assms(2) by (auto simp: short_count_def split: outcome.split)
  with assms show ?thesis
    by (simp add: sys_pread_def sys_call_defs split: outcome.split)
qed

lemma wp_mmap_read [wp_rules]:
  assumes "off + len \<le> length (inodes (world s) fd)"
    and "Q (substr (inodes (world s) fd) off len) s"
  shows "wp (mmap_read fd off len) Q R s"
  using assms by (simp add: mmap_read_def wp_simps)

section \<open>Contents of files\<close>

lemma inodes_set_inode [simp]: "inodes (set_inode i c w) = (inodes w)(i := c)"
  by (simp add: set_inode_def)

lemma set_inode_fields [simp]:
  "dirents (set_inode i c w) = dirents w" "next_inode (set_inode i c w) = next_inode w"
  "mdb_env (set_inode i c w) = mdb_env w" "flock_owner (set_inode i c w) = flock_owner w"
  by (simp_all add: set_inode_def)

lemma find_set_inode [simp]: "find_inode (set_inode i c w) = find_inode w"
  by (simp add: find_inode_def)

lemma length_write_at: "off \<le> length f \<Longrightarrow> length (write_at f off d) = max (length f) (off + length d)"
  by (simp add: write_at_def)

lemma take_write_at: "off \<le> length f \<Longrightarrow> k \<le> off \<Longrightarrow> take k (write_at f off d) = take k f"
  by (simp add: write_at_def)

lemma take_write_at_end:
  "off \<le> length f \<Longrightarrow> take (off + length d) (write_at f off d) = take off f @ d"
  by (simp add: write_at_def)

lemma lmdb_readsD:
  assumes "lmdb_ok E"
  shows "mdb_txn_begin E e = (MDB_SUCCESS, t) \<Longrightarrow> mdb_table E t = mdb_committed E e"
    and "mdb_get E t d k = (MDB_SUCCESS, v) \<Longrightarrow> mdb_table E t d k = Some v"
    and "mdb_get E t d k = (MDB_NOTFOUND, v) \<Longrightarrow> mdb_table E t d k = None"
    and "mdb_stat_entries E t d = (MDB_SUCCESS, n) \<Longrightarrow> n = 0 \<longleftrightarrow> mdb_table E t d = Map.empty"
  using assms by (simp_all add: lmdb_ok_def mdb_reads_ok_def)

lemma lmdb_writesD:
  assumes "lmdb_ok E"
  shows "mdb_put E t d k v b = (rc, t') \<Longrightarrow> mdb_table E t' =
      (if rc = MDB_SUCCESS then (mdb_table E t)(d := (mdb_table E t d)(k \<mapsto> v)) else mdb_table E t)"
    and "mdb_del E t d k = (rc, t') \<Longrightarrow> mdb_table E t' =
      (if rc = MDB_SUCCESS then (mdb_table E t)(d := (mdb_table E t d)(k := None)) else mdb_table E t)"
    and "mdb_drop E t d = (rc, t') \<Longrightarrow> mdb_table E t' =
      (if rc = MDB_SUCCESS then (mdb_table E t)(d := Map.empty) else mdb_table E t)"
  using assms by (simp_all add: lmdb_ok_def mdb_writes_ok_def)

lemma lmdb_put_newD:
  "lmdb_ok E \<Longrightarrow> mdb_put E t d k v True = (MDB_SUCCESS, t') \<Longrightarrow> mdb_table E t d k = None"
  unfolding lmdb_ok_def mdb_writes_ok_def by blast

lemma lmdb_del_absentD:
  "lmdb_ok E \<Longrightarrow> mdb_del E t d k = (MDB_NOTFOUND, t') \<Longrightarrow> mdb_table E t d k = None"
  unfolding lmdb_ok_def mdb_writes_ok_def by blast

lemma lmdb_envD:
  assumes "lmdb_ok E"
  shows "mdb_txn_commit E t e = (rc, e') \<Longrightarrow> mdb_committed E e' =
      (if rc = MDB_SUCCESS then mdb_table E t else mdb_committed E e)"
    and "mdb_open E e = (rc, e') \<Longrightarrow> mdb_committed E e' = mdb_committed E e"
    and "mdb_committed E (mdb_fresh E) = (\<lambda>_. Map.empty)"
  using assms by (simp_all add: lmdb_ok_def mdb_env_ok_def)

lemma lmdb_scanD:
  assumes "lmdb_ok E" and "mdb_scan E t d from = (kvs, rc)"
  shows "rc \<noteq> MDB_SUCCESS" and "sorted_wrt (<) (map fst kvs)"
    and "(k, v) \<in> set kvs \<Longrightarrow> from \<le> k \<and> mdb_table E t d k = Some v"
    and "rc = MDB_NOTFOUND \<Longrightarrow> from \<le> k \<Longrightarrow> mdb_table E t d k = Some v \<Longrightarrow> (k, v) \<in> set kvs"
    and "(k', v') \<in> set kvs \<Longrightarrow> from \<le> k \<Longrightarrow> k \<le> k' \<Longrightarrow> mdb_table E t d k = Some v \<Longrightarrow> (k, v) \<in> set kvs"
  using assms unfolding lmdb_ok_def mdb_scan_ok_def by blast+

end
