(* ===== verification/Pack_Inv.thy ===== *)
theory Pack_Inv
  imports Pack_Open Platform_Rules
begin

text \<open>
  What holds of a pack directory and of an open handle between operations, and the loops and
  mappings over it.

  \<open>world_inv\<close> is the invariant of the shared directory: files have representable sizes, no
  two names share an inode, and the committed index is sound over the pack of the committed
  generation. \<open>maps_inv\<close> is the handle's: every mapping is of the file its generation names,
  as long as that name exists, its cached size is within the file, and the current mapping is
  the newest. \<open>batch_inv\<close> says that an open batch holds the lock, works on the committed
  generation, and that its index is sound over the bytes appended so far while the committed
  index needs only the bytes below \<open>committed_end\<close>. \<open>cas_inv\<close> is all three.
\<close>

section \<open>The directory\<close>

definition files_ok :: "'e world \<Rightarrow> bool" where
  "files_ok w \<longleftrightarrow> (\<forall>i. length (inodes w i) \<le> max_off) \<and> distinct (map snd (dirents w)) \<and>
     (\<forall>x\<in>set (dirents w). snd x < next_inode w)"

definition table_gen :: "(dbi \<Rightarrow> bytes \<Rightarrow> bytes option) \<Rightarrow> u64 option" where
  "table_gen tbl = (case tbl Meta ''gen'' of
     None \<Rightarrow> Some 0 | Some v \<Rightarrow> if length v = 8 then Some (of_le_bytes v) else None)"

definition live_pack :: "('e, 't) platform \<Rightarrow> 'e world \<Rightarrow> u64 \<Rightarrow> nat \<Rightarrow> bool" where
  "live_pack E w g i \<longleftrightarrow> table_gen (mdb_committed E (mdb_env w)) = Some g \<and>
     find_inode w (pack_name g) = Some i"

definition world_inv :: "('e, 't) platform \<Rightarrow> 'e world \<Rightarrow> bool" where
  "world_inv E w \<longleftrightarrow> files_ok w \<and> (\<exists>g i. live_pack E w g i \<and>
     index_ok E (inodes w i) (mdb_committed E (mdb_env w) Blobs))"

text \<open>What the committed store holds.\<close>

definition committed_view :: "('e, 't) platform \<Rightarrow> 'e world \<Rightarrow> bytes \<Rightarrow> bytes option" where
  "committed_view E w = (case table_gen (mdb_committed E (mdb_env w)) of
     None \<Rightarrow> Map.empty
   | Some g \<Rightarrow> (case find_inode w (pack_name g) of
       None \<Rightarrow> Map.empty
     | Some i \<Rightarrow> index_view E (inodes w i) (mdb_committed E (mdb_env w) Blobs)))"

lemma pack_name_inj: "pack_name g = pack_name g' \<longleftrightarrow> g = g'"
  by (auto simp: pack_name_def word_unat_eq_iff dest: dec_string_inj)

lemma live_pack_unique: "live_pack E w g i \<Longrightarrow> live_pack E w g' i' \<Longrightarrow> g' = g \<and> i' = i"
  by (auto simp: live_pack_def)

lemma committed_view_live:
  "live_pack E w g i \<Longrightarrow>
     committed_view E w = index_view E (inodes w i) (mdb_committed E (mdb_env w) Blobs)"
  by (simp add: live_pack_def committed_view_def)

lemma find_inode_in: "find_inode w name = Some i \<Longrightarrow> (name, i) \<in> set (dirents w)"
  by (simp add: find_inode_def map_of_SomeD)

lemma files_ok_length: "files_ok w \<Longrightarrow> length (inodes w i) \<le> max_off"
  by (simp add: files_ok_def)

lemma files_ok_less: "files_ok w \<Longrightarrow> find_inode w name = Some i \<Longrightarrow> i < next_inode w"
  unfolding files_ok_def using find_inode_in by fastforce

lemma files_ok_inj:
  assumes "files_ok w" and "find_inode w n1 = Some i" and "find_inode w n2 = Some i"
  shows "n1 = n2"
proof -
  have "inj_on snd (set (dirents w))"
    using assms(1) by (simp add: files_ok_def distinct_map)
  then show ?thesis
    using inj_onD [of snd _ "(n1, i)" "(n2, i)"] find_inode_in [OF assms(2)]
      find_inode_in [OF assms(3)] by simp
qed

lemma files_ok_set_inode [simp]:
  "files_ok w \<Longrightarrow> length c \<le> max_off \<Longrightarrow> files_ok (set_inode i c w)"
  by (simp add: files_ok_def)

lemma unat_of_nat_max_off: "n \<le> max_off \<Longrightarrow> unat (of_nat n :: u64) = n"
  by (rule unat_of_nat_u64) (simp add: max_off_def)

lemma files_ok_unat: "files_ok w \<Longrightarrow> unat (of_nat (length (inodes w i)) :: u64) = length (inodes w i)"
  by (rule unat_of_nat_max_off) (rule files_ok_length)

section \<open>The mappings\<close>

definition map_ok :: "'e world \<Rightarrow> mapping \<Rightarrow> bool" where
  "map_ok w m \<longleftrightarrow> m_fd m < next_inode w \<and> unat (m_size m) \<le> length (inodes w (m_fd m)) \<and>
     (\<forall>name i. find_inode w name = Some i \<longrightarrow> (i = m_fd m \<longleftrightarrow> name = pack_name (m_gen m)))"

definition maps_inv :: "'e world \<Rightarrow> mapping list \<Rightarrow> nat option \<Rightarrow> nat list \<Rightarrow> bool" where
  "maps_inv w ms c rs \<longleftrightarrow> (\<forall>m\<in>set ms. map_ok w m) \<and>
     distinct (map m_gen ms) \<and> distinct (map m_fd ms) \<and>
     (\<forall>p<length ms. p \<in> set rs \<or> c = Some p) \<and> (\<forall>p\<in>set rs. p < length ms) \<and>
     (\<forall>p. c = Some p \<longrightarrow> p < length ms \<and> (\<forall>m\<in>set ms. m_gen m \<le> m_gen (ms ! p))) \<and>
     (c = None \<longrightarrow> ms = [])"

definition handle_maps_inv :: "('e, 't, 'z) cas_scheme \<Rightarrow> bool" where
  "handle_maps_inv s \<longleftrightarrow> maps_inv (world s) (maps s) (cur s) (retired s)"

text \<open>No mapping is of a generation that has not been committed.\<close>

definition maps_below :: "u64 \<Rightarrow> ('e, 't, 'z) cas_scheme \<Rightarrow> bool" where
  "maps_below g s \<longleftrightarrow> (\<forall>m\<in>set (maps s). m_gen m \<le> g)"

section \<open>The batch\<close>

definition batch_at ::
  "('e, 't) platform \<Rightarrow> ('e, 't, 'z) cas_scheme \<Rightarrow> 't \<Rightarrow> u64 \<Rightarrow> nat \<Rightarrow> nat \<Rightarrow> bool" where
  "batch_at E s t g i p \<longleftrightarrow> \<not> wtxn_freed s \<and> flock_owner (world s) = Some (self E) \<and>
     cur s = Some p \<and> m_gen (map_at s p) = g \<and> m_fd (map_at s p) = i \<and>
     table_gen (mdb_table E t) = Some g \<and>
     unat (committed_end s) \<le> unat (pack_end s) \<and> unat (pack_end s) \<le> length (inodes (world s) i) \<and>
     index_ok E (take (unat (committed_end s)) (inodes (world s) i))
       (mdb_committed E (mdb_env (world s)) Blobs) \<and>
     index_ok E (take (unat (pack_end s)) (inodes (world s) i)) (mdb_table E t Blobs)"

definition batch_inv :: "('e, 't) platform \<Rightarrow> ('e, 't, 'z) cas_scheme \<Rightarrow> u64 \<Rightarrow> nat \<Rightarrow> bool" where
  "batch_inv E s g i \<longleftrightarrow> (\<forall>t. wtxn s = Some t \<longrightarrow> (\<exists>p. batch_at E s t g i p))"

definition cas_inv :: "('e, 't) platform \<Rightarrow> ('e, 't, 'z) cas_scheme \<Rightarrow> bool" where
  "cas_inv E s \<longleftrightarrow> world_inv E (world s) \<and> handle_maps_inv s \<and>
     (\<forall>g i. live_pack E (world s) g i \<longrightarrow> maps_below g s \<and> batch_inv E s g i)"

text \<open>What the handle's own batch makes of the store: the committed store when there is none.\<close>

definition batch_view :: "('e, 't) platform \<Rightarrow> ('e, 't, 'z) cas_scheme \<Rightarrow> bytes \<Rightarrow> bytes option" where
  "batch_view E s = (case (wtxn s, cur s) of
     (Some t, Some p) \<Rightarrow> index_view E (inodes (world s) (m_fd (map_at s p))) (mdb_table E t Blobs)
   | _ \<Rightarrow> committed_view E (world s))"

lemma cas_inv_tick [simp]: "cas_inv E (s\<lparr>tick := n\<rparr>) = cas_inv E s"
  by (simp add: cas_inv_def handle_maps_inv_def maps_below_def batch_inv_def batch_at_def map_at_def)

lemma batch_view_tick [simp]: "batch_view E (s\<lparr>tick := n\<rparr>) = batch_view E s"
  by (simp add: batch_view_def map_at_def split: option.split)

lemma cas_inv_live:
  assumes "cas_inv E s"
  obtains g i where "live_pack E (world s) g i" "files_ok (world s)"
    "index_ok E (inodes (world s) i) (mdb_committed E (mdb_env (world s)) Blobs)"
    "maps_below g s" "batch_inv E s g i"
  using assms by (auto simp: cas_inv_def world_inv_def)

lemma cas_invI:
  assumes "files_ok (world s)" and "live_pack E (world s) g i"
    and "index_ok E (inodes (world s) i) (mdb_committed E (mdb_env (world s)) Blobs)"
    and "handle_maps_inv s" and "maps_below g s" and "batch_inv E s g i"
  shows "cas_inv E s"
proof -
  have "world_inv E (world s)" using assms(1-3) by (auto simp: world_inv_def)
  moreover have "maps_below g' s \<and> batch_inv E s g' i'" if "live_pack E (world s) g' i'" for g' i'
    using live_pack_unique [OF assms(2) that] assms(5,6) by simp
  ultimately show ?thesis using assms(4) by (simp add: cas_inv_def)
qed

lemma cas_inv_maps: "cas_inv E s \<Longrightarrow> handle_maps_inv s"
  by (simp add: cas_inv_def)

lemma cas_inv_files: "cas_inv E s \<Longrightarrow> files_ok (world s)"
  by (simp add: cas_inv_def world_inv_def)

lemma cas_inv_batch:
  assumes "cas_inv E s" and "wtxn s = Some t"
  obtains g i p where "live_pack E (world s) g i" "batch_at E s t g i p"
proof (rule cas_inv_live [OF assms(1)])
  fix g i
  assume "live_pack E (world s) g i" "batch_inv E s g i"
  with assms(2) that show thesis by (auto simp: batch_inv_def)
qed

section \<open>Exceptions of the environment\<close>

text \<open>What a system call or LMDB may make an operation throw: never a report of corruption,
  never a run outside defined behaviour.\<close>

fun io_exn :: "exn \<Rightarrow> bool" where
  "io_exn (SystemError _) = True"
| "io_exn (RuntimeError _) = True"
| "io_exn _ = False"

lemma io_exn_not_corrupt: "io_exn e \<Longrightarrow> \<not> is_corrupt e \<and> \<not> is_undefined e"
  by (cases e) simp_all

lemma wp_sys_err [wp_rules]:
  "(\<And>e. io_exn e \<Longrightarrow> R e s) \<Longrightarrow> wp (sys_err what err) Q R s"
  by (simp add: sys_err_def wp_simps)

lemma wp_mdb_check [wp_rules]:
  "(res = MDB_SUCCESS \<Longrightarrow> Q () s) \<Longrightarrow> (\<And>e. res \<noteq> MDB_SUCCESS \<Longrightarrow> io_exn e \<Longrightarrow> R e s) \<Longrightarrow>
     wp (mdb_check E res what) Q R s"
  by (simp add: mdb_check_def wp_simps)

end
