(* ===== verification/Pack_Io.thy ===== *)
theory Pack_Io
  imports Pack_Inv
begin

text \<open>
  The read, write and lock loops and the mappings, as rules over the invariants of
  \<open>Pack_Inv\<close>: a write that completes leaves the file with the data at the offset and
  unchanged below it, one that fails still leaves everything below the offset alone; a read
  within the file returns its bytes; asking for the live generation's mapping makes it current.
\<close>

section \<open>Read and write loops\<close>

lemma set_inode_twice [simp]: "set_inode i c (set_inode i c' w) = set_inode i c w"
  by (simp add: set_inode_def)

lemma set_inode_self: "set_inode i (inodes w i) w = w"
  by (simp add: set_inode_def)

lemma machine_self: "s\<lparr>tick := tick s, world := world s\<rparr> = s"
  by simp

lemma wp_pwrite_all_step:
  "wp (pwrite_all E fd data off) Q R s =
     (if data = [] then Q () s
      else wp (sys_pwrite E fd data off) (\<lambda>r. case r of
          Inl err \<Rightarrow> wp (sys_err ''pwrite pack'' err) Q R
        | Inr k \<Rightarrow> wp (pwrite_all E fd (drop k data) (off + of_nat k)) Q R) R s)"
  by (simp add: wp_def pwrite_all.simps [of E fd data off s] split: prod.split sum.split)

lemma wp_write_all_step:
  "wp (write_all E fd data pos) Q R s =
     (if data = [] then Q pos s
      else wp (sys_pwrite E fd data pos) (\<lambda>r. case r of
          Inl err \<Rightarrow> wp (sys_err ''write pack'' err) Q R
        | Inr k \<Rightarrow> wp (write_all E fd (drop k data) (pos + of_nat k)) Q R) R s)"
  by (simp add: wp_def write_all.simps [of E fd data pos s] split: prod.split sum.split)

lemma unat_add_max_off:
  assumes "unat (off :: u64) + k \<le> max_off"
  shows "unat (off + of_nat k) = unat off + k"
proof -
  have "unat (of_nat k :: u64) = k" using assms by (intro unat_of_nat_max_off) simp
  then show ?thesis using assms by (simp add: unat_word_ariths max_off_def)
qed

lemma write_at_chain:
  assumes "off \<le> length c" and "k \<le> length data"
    and "take (off + k + length (drop k data)) c' = take (off + k) (write_at c off (take k data)) @ drop k data"
  shows "take (off + length data) c' = take off c @ data"
proof -
  have len: "length (take k data) = k" using assms(2) by simp
  have "take (off + k) (write_at c off (take k data)) = take off c @ take k data"
    using take_write_at_end [OF assms(1), of "take k data"] unfolding len .
  with assms show ?thesis by simp
qed

lemma wp_pwrite_all:
  assumes "quiet E" and "unat off \<le> length (inodes (world s) fd)"
    and "length (inodes (world s) fd) \<le> max_off"
    and "\<And>c n. take (unat off + length data) c = take (unat off) (inodes (world s) fd) @ data \<Longrightarrow>
      length (inodes (world s) fd) \<le> length c \<Longrightarrow> unat off + length data \<le> length c \<Longrightarrow>
      length c \<le> max_off \<Longrightarrow> Q () (s\<lparr>tick := n, world := set_inode fd c (world s)\<rparr>)"
    and "\<And>c n e. io_exn e \<Longrightarrow> take (unat off) c = take (unat off) (inodes (world s) fd) \<Longrightarrow>
      length (inodes (world s) fd) \<le> length c \<Longrightarrow> length c \<le> max_off \<Longrightarrow>
      R e (s\<lparr>tick := n, world := set_inode fd c (world s)\<rparr>)"
  shows "wp (pwrite_all E fd data off) Q R s"
  using assms(2-)
proof (induction "length data" arbitrary: data off s rule: less_induct)
  case less
  let ?c = "inodes (world s) fd"
  show ?case
  proof (cases "data = []")
    case True
    have "Q () (s\<lparr>tick := tick s, world := set_inode fd ?c (world s)\<rparr>)"
      by (rule less.prems(3)) (use True less.prems in auto)
    with True show ?thesis
      unfolding wp_pwrite_all_step [of E fd data] by (simp add: set_inode_self)
  next
    case False
    show ?thesis
      unfolding wp_pwrite_all_step [of E fd data] if_not_P [OF False]
    proof (rule wp_sys_pwrite [OF assms(1) False], unfold sum.case)
      fix err n
      have "R e (s\<lparr>tick := n, world := set_inode fd ?c (world s)\<rparr>)" if "io_exn e" for e
        by (rule less.prems(4)) (use that less.prems in auto)
      then show "wp (sys_err ''pwrite pack'' err) Q R (s\<lparr>tick := n\<rparr>)"
        by (intro wp_rules) (simp add: set_inode_self)
    next
      fix k n
      assume k: "0 < k" "k \<le> length data" "unat off + k \<le> max_off"
      let ?c1 = "write_at ?c (unat off) (take k data)"
      let ?s1 = "s\<lparr>tick := n, world := set_inode fd ?c1 (world s)\<rparr>"
      have off1: "unat (off + of_nat k) = unat off + k" by (rule unat_add_max_off [OF k(3)])
      have len1: "length ?c1 = max (length ?c) (unat off + k)"
        using less.prems(1) k(2) by (simp add: length_write_at)
      have below: "take (unat off) c' = take (unat off) ?c"
        if "take (unat off + k) c' = take (unat off + k) ?c1" for c'
        using arg_cong [OF that, of "take (unat off)"] less.prems(1)
        by (simp add: take_write_at)
      have "wp (pwrite_all E fd (drop k data) (off + of_nat k)) Q R ?s1"
      proof (rule less.hyps)
        show "length (drop k data) < length data" using k False by simp
      next
        show "unat (off + of_nat k) \<le> length (inodes (world ?s1) fd)"
          "length (inodes (world ?s1) fd) \<le> max_off"
          using len1 off1 k less.prems(2) by simp_all
      next
        fix c m
        assume c: "take (unat (off + of_nat k) + length (drop k data)) c =
            take (unat (off + of_nat k)) (inodes (world ?s1) fd) @ drop k data"
          "length (inodes (world ?s1) fd) \<le> length c"
          "unat (off + of_nat k) + length (drop k data) \<le> length c" "length c \<le> max_off"
        have "Q () (s\<lparr>tick := m, world := set_inode fd c (world s)\<rparr>)"
        proof (rule less.prems(3))
          show "take (unat off + length data) c = take (unat off) ?c @ data"
            using c(1) by (intro write_at_chain [OF less.prems(1) k(2)]) (simp add: off1)
        qed (use c len1 off1 k in simp_all)
        then show "Q () (?s1\<lparr>tick := m, world := set_inode fd c (world ?s1)\<rparr>)" by simp
      next
        fix c m e
        assume c: "io_exn e" "take (unat (off + of_nat k)) c =
            take (unat (off + of_nat k)) (inodes (world ?s1) fd)"
          "length (inodes (world ?s1) fd) \<le> length c" "length c \<le> max_off"
        have "R e (s\<lparr>tick := m, world := set_inode fd c (world s)\<rparr>)"
          by (rule less.prems(4)) (use c len1 off1 below [of c] in simp_all)
        then show "R e (?s1\<lparr>tick := m, world := set_inode fd c (world ?s1)\<rparr>)" by simp
      qed
      then show "wp (pwrite_all E fd (drop k data) (off + of_nat k)) Q R ?s1" .
    qed
  qed
qed

text \<open>The sequential write differs only in the message and the position it returns.\<close>

lemma sys_pwrite_no_throw: "sys_pwrite E fd data off s \<noteq> (Inl e, s')"
  by (auto simp: sys_pwrite_def bindE_def thenE_def ret_def readS_def modW_def modS_def sys_def
      Let_def split: outcome.splits if_splits)

lemma sys_pwrite_bound: "sys_pwrite E fd data off s = (Inr (Inr k), s') \<Longrightarrow> k \<le> length data"
  by (auto simp: sys_pwrite_def bindE_def thenE_def ret_def readS_def modW_def modS_def sys_def
      Let_def short_count_def split: outcome.splits if_splits)

lemma wp_write_all_pwrite_all:
  "wp (pwrite_all E fd data pos) (\<lambda>_. Q (pos + of_nat (length data)))
     (\<lambda>_ s'. \<forall>e. io_exn e \<longrightarrow> R e s') s \<Longrightarrow> wp (write_all E fd data pos) Q R s"
proof (induction E fd data pos s rule: write_all.induct)
  case (1 E fd data pos s)
  show ?case
  proof (cases "data = []")
    case True
    with "1.prems" show ?thesis
      unfolding wp_pwrite_all_step [of E fd data] wp_write_all_step [of E fd data] by simp
  next
    case False
    show ?thesis
    proof (cases "sys_pwrite E fd data pos s")
      case (Pair r s')
      then consider (throw) e where "r = Inl e" | (err) err where "r = Inr (Inl err)"
        | (ok) k where "r = Inr (Inr k)" "k \<le> length data"
        using sys_pwrite_bound [of E fd data pos s] by (metis sum.exhaust)
      then show ?thesis
      proof cases
        case throw
        then show ?thesis using sys_pwrite_no_throw [of E fd data pos s e s'] Pair by simp
      next
        case err
        then show ?thesis
          using "1.prems" Pair False
          unfolding wp_pwrite_all_step [of E fd data] wp_write_all_step [of E fd data]
          by (simp add: wp_def sys_err_def throw_def)
      next
        case ok
        then show ?thesis
          using "1.prems" "1.IH" [OF False Pair [symmetric]] Pair False
          unfolding wp_pwrite_all_step [of E fd data] wp_write_all_step [of E fd data]
          by (simp add: wp_def of_nat_diff)
      qed
    qed
  qed
qed

text \<open>A read within the file returns the bytes, or fails.\<close>

lemma wp_pread_all_step:
  "wp (pread_all E fd n off) Q R s =
     (if n = 0 then Q [] s
      else wp (sys_pread E fd n off) (\<lambda>r. case r of
          Inl err \<Rightarrow> wp (sys_err ''pread pack'' err) Q R
        | Inr got \<Rightarrow> if got = [] then R (CorruptError ''pack truncated'')
            else wp (pread_all E fd (n - length got) (off + of_nat (length got)))
                   (\<lambda>rest. Q (got @ rest)) R) R s)"
  by (simp add: wp_def pread_all.simps [of E fd n off s] bindE_def ret_def throw_def
      split: prod.split sum.split)

lemma wp_pread_all [wp_rules]:
  assumes "quiet E" and "unat off + n \<le> length (inodes (world s) fd)"
    and "length (inodes (world s) fd) \<le> max_off"
    and "\<And>m. Q (substr (inodes (world s) fd) (unat off) n) (s\<lparr>tick := m\<rparr>)"
    and "\<And>m e. io_exn e \<Longrightarrow> R e (s\<lparr>tick := m\<rparr>)"
  shows "wp (pread_all E fd n off) Q R s"
  using assms(2-)
proof (induction n arbitrary: off Q s rule: less_induct)
  case (less n)
  let ?c = "inodes (world s) fd"
  show ?case
  proof (cases "n = 0")
    case True
    then show ?thesis
      using less.prems(3) [of "tick s"] unfolding wp_pread_all_step [of E fd n] by simp
  next
    case False
    then have "0 < n" by simp
    show ?thesis
      unfolding wp_pread_all_step [of E fd n] if_not_P [OF False]
    proof (rule wp_sys_pread [OF assms(1) \<open>0 < n\<close>], unfold sum.case)
      fix err m
      show "wp (sys_err ''pread pack'' err) Q R (s\<lparr>tick := m\<rparr>)"
        by (intro wp_rules) (rule less.prems(4))
    next
      fix k m
      assume k: "0 < k" "k \<le> n"
      let ?got = "substr ?c (unat off) k"
      have len: "length ?got = k" using less.prems(1) k by simp
      have off: "unat (off + of_nat k) = unat off + k"
        by (rule unat_add_max_off) (use less.prems k in simp)
      have cat: "substr ?c (unat off) n = ?got @ substr ?c (unat off + k) (n - k)"
        using substr_split [of ?c "unat off" k "n - k"] k by simp
      have "wp (pread_all E fd (n - k) (off + of_nat k)) (\<lambda>rest. Q (?got @ rest)) R (s\<lparr>tick := m\<rparr>)"
      proof (rule less.IH)
        fix m'
        show "Q (?got @ substr (inodes (world (s\<lparr>tick := m\<rparr>)) fd) (unat (off + of_nat k)) (n - k))
            (s\<lparr>tick := m, tick := m'\<rparr>)"
          using less.prems(3) [of m'] by (simp add: off cat)
      next
        fix m' e
        assume "io_exn e"
        then show "R e (s\<lparr>tick := m, tick := m'\<rparr>)"
          using less.prems(4) [of e m'] by simp
      qed (use k less.prems(1,2) in \<open>simp_all add: off\<close>)
      then show "(if ?got = [] then R (CorruptError ''pack truncated'')
          else wp (pread_all E fd (n - length ?got) (off + of_nat (length ?got)))
                 (\<lambda>rest. Q (?got @ rest)) R) (s\<lparr>tick := m\<rparr>)"
        using len k by auto
    qed
  qed
qed

section \<open>The lock\<close>

lemma wp_lock_writer_loop_step:
  "wp (lock_writer_loop E waited) Q R s = wp (sys_flock_nb E) (\<lambda>r. case r of
       Inr _ \<Rightarrow> Q ()
     | Inl err \<Rightarrow> if err \<noteq> ''EWOULDBLOCK'' then wp (sys_err ''flock'' err) Q R
         else if kLockTimeout \<le> waited
           then R (RuntimeError ''timed out waiting for the pack writer lock; is another process stuck?'')
           else wp (lock_writer_loop E (waited + kLockPoll)) Q R) R s"
  by (simp add: wp_def lock_writer_loop.simps [of E waited s] throw_def
      split: prod.split sum.split)

lemma wp_lock_writer_loop:
  assumes "quiet E"
    and "\<And>n. flock_owner (world s) = None \<or> flock_owner (world s) = Some (self E) \<Longrightarrow>
      Q () (s\<lparr>tick := n, world := (world s)\<lparr>flock_owner := Some (self E)\<rparr>\<rparr>)"
    and "\<And>n e. io_exn e \<Longrightarrow> R e (s\<lparr>tick := n\<rparr>)"
  shows "wp (lock_writer_loop E waited) Q R s"
  using assms(2-)
proof (induction "kLockTimeout - waited" arbitrary: waited s rule: less_induct)
  case less
  show ?case
    unfolding wp_lock_writer_loop_step [of E waited]
  proof (rule wp_sys_flock_nb [OF assms(1)], unfold sum.case)
    fix err n
    have "wp (lock_writer_loop E (waited + kLockPoll)) Q R (s\<lparr>tick := n\<rparr>)"
      if "\<not> kLockTimeout \<le> waited"
      by (rule less.hyps) (use that less.prems in \<open>auto simp: kLockPoll_def\<close>)
    moreover have "wp (sys_err ''flock'' err) Q R (s\<lparr>tick := n\<rparr>)"
      by (intro wp_rules) (rule less.prems(2))
    ultimately show "(if err \<noteq> ''EWOULDBLOCK'' then wp (sys_err ''flock'' err) Q R
         else if kLockTimeout \<le> waited
           then R (RuntimeError ''timed out waiting for the pack writer lock; is another process stuck?'')
           else wp (lock_writer_loop E (waited + kLockPoll)) Q R) (s\<lparr>tick := n\<rparr>)"
      using less.prems(2) by simp
  qed (rule less.prems(1))
qed

lemma wp_lock_writer [wp_rules]:
  assumes "quiet E"
    and "\<And>n. flock_owner (world s) = None \<or> flock_owner (world s) = Some (self E) \<Longrightarrow>
      Q () (s\<lparr>tick := n, world := (world s)\<lparr>flock_owner := Some (self E)\<rparr>\<rparr>)"
    and "\<And>n e. io_exn e \<Longrightarrow> R e (s\<lparr>tick := n\<rparr>)"
  shows "wp (lock_writer E) Q R s"
  unfolding lock_writer_def using assms by (rule wp_lock_writer_loop)

lemma wp_unlock_writer [wp_rules]:
  assumes "quiet E" and "\<And>n. Q () (s\<lparr>tick := n\<rparr>)"
    and "\<And>n. flock_owner (world s) = Some (self E) \<Longrightarrow>
      Q () (s\<lparr>tick := n, world := (world s)\<lparr>flock_owner := None\<rparr>\<rparr>)"
  shows "wp (unlock_writer E) Q R s"
  unfolding unlock_writer_def using assms by (rule wp_sys_flock_un)

section \<open>Asking for a mapping\<close>

text \<open>\<open>mapped g s s'\<close>: between the two states only mappings (and the count of calls) moved,
  none is of a generation above \<open>g\<close>, and those there were are still there.\<close>

definition mapped :: "u64 \<Rightarrow> ('e, 't, 'z) cas_scheme \<Rightarrow> ('e, 't, 'z) cas_scheme \<Rightarrow> bool" where
  "mapped g s s' \<longleftrightarrow> (\<exists>n ms c rs. s' = s\<lparr>tick := n, maps := ms, cur := c, retired := rs\<rparr>) \<and>
     handle_maps_inv s' \<and> maps_below g s' \<and>
     (\<forall>p<length (maps s). p < length (maps s') \<and> m_gen (map_at s' p) = m_gen (map_at s p) \<and>
        m_fd (map_at s' p) = m_fd (map_at s p)) \<and>
     (\<forall>p. cur s = Some p \<longrightarrow> m_gen (map_at s p) = g \<longrightarrow> cur s' = Some p)"

lemma mapped_fields:
  assumes "mapped g s s'"
  shows "world s' = world s" "cas_dir s' = cas_dir s" "wtxn s' = wtxn s"
    "wtxn_freed s' = wtxn_freed s" "writer_thread s' = writer_thread s"
    "committed_end s' = committed_end s" "pack_end s' = pack_end s"
    "batch_bytes s' = batch_bytes s" "cas.more s' = cas.more s"
    "handle_maps_inv s'" "maps_below g s'"
  using assms by (auto simp: mapped_def)

lemma mapped_tick [simp]:
  assumes "handle_maps_inv s" and "maps_below g s"
  shows "mapped g s (s\<lparr>tick := n\<rparr>)"
proof -
  have "s\<lparr>tick := n\<rparr> = s\<lparr>tick := n, maps := maps s, cur := cur s, retired := retired s\<rparr>" by simp
  then have "\<exists>m ms c rs. s\<lparr>tick := n\<rparr> = s\<lparr>tick := m, maps := ms, cur := c, retired := rs\<rparr>" by blast
  with assms show ?thesis
    by (simp add: mapped_def handle_maps_inv_def maps_below_def map_at_def)
qed

lemma mapped_refl: "handle_maps_inv s \<Longrightarrow> maps_below g s \<Longrightarrow> mapped g s s"
  using mapped_tick [of s g "tick s"] by simp

lemma mapped_trans:
  assumes "mapped g s s'" and "mapped g s' s''" and "handle_maps_inv s"
  shows "mapped g s s''"
proof -
  from assms(1,2) obtain n ms c rs
    where s'': "s'' = s\<lparr>tick := n, maps := ms, cur := c, retired := rs\<rparr>"
    unfolding mapped_def by (elim conjE exE) simp
  have "p < length (maps s)" if "cur s = Some p" for p
    using assms(3) that by (simp add: handle_maps_inv_def maps_inv_def)
  with assms(1,2) show ?thesis
    unfolding mapped_def using s'' by (intro conjI) (blast, auto)
qed

end
