(* ===== verification/Pack_Lookup.thy ===== *)
theory Pack_Lookup
  imports Pack_Io
begin

text \<open>
  The mapping of the live generation and the lookups: \<open>mapping_for\<close> on the generation whose
  pack exists returns a mapping of that file and leaves the store alone; \<open>lookup\<close>,
  \<open>locate\<close> and the readers \<open>get\<close>, \<open>get_view\<close>, \<open>size\<close>, \<open>has\<close> answer from the
  store's view and never report corruption while the invariant holds.
\<close>

section \<open>The live mapping\<close>

lemma wp_map_pack_found:
  assumes "quiet E" and "find_inode (world s) (pack_name gen) = Some i"
    and "\<And>n. Q (Some (length (maps s))) (s\<lparr>tick := n, maps := maps s @
      [\<lparr>m_fd = i, m_gen = gen, m_size = of_nat (length (inodes (world s) i))\<rparr>]\<rparr>)"
    and "\<And>n e. io_exn e \<Longrightarrow> R e (s\<lparr>tick := n\<rparr>)" and "\<And>n. \<not> creat \<Longrightarrow> Q None (s\<lparr>tick := n\<rparr>)"
  shows "wp (map_pack E gen creat) Q R s"
  using assms unfolding map_pack_def
  by (intro wp_rules) (auto intro: wp_rules)

lemma maps_inv_cur:
  assumes "maps_inv w ms c rs" and "c = Some p"
  shows "p < length ms" and "map_ok w (ms ! p)" and "m \<in> set ms \<Longrightarrow> m_gen m \<le> m_gen (ms ! p)"
  using assms by (auto simp: maps_inv_def)

text \<open>A mapping of the newest possible generation is the current one, if there is any.\<close>

lemma find_mapping_top:
  assumes "handle_maps_inv s" and "maps_below g s" and "find_mapping s g = Some p"
  shows "cur s = Some p" and "m_gen (map_at s p) = g" and "p < length (maps s)"
proof -
  from assms(1) have inv: "maps_inv (world s) (maps s) (cur s) (retired s)"
    by (simp add: handle_maps_inv_def)
  have found: "m_gen (map_at s p) = g \<and> p < length (maps s)"
  proof (cases "cur s = Some p \<and> m_gen (map_at s p) = g")
    case True
    with maps_inv_cur(1) [OF inv] show ?thesis by simp
  next
    case False
    then have "find (\<lambda>p. m_gen (map_at s p) = g) (retired s) = Some p"
      using assms(3) by (auto simp: find_mapping_def split: option.splits if_splits)
    then have "p \<in> set (retired s)" "m_gen (map_at s p) = g"
      by (auto simp: find_Some_iff)
    with inv show ?thesis by (simp add: maps_inv_def)
  qed
  then show "m_gen (map_at s p) = g" "p < length (maps s)" by simp_all
  from found obtain q where q: "cur s = Some q"
    using inv by (cases "cur s") (auto simp: maps_inv_def)
  have "maps s ! p \<in> set (maps s)" "maps s ! q \<in> set (maps s)"
    using found maps_inv_cur(1) [OF inv q] by simp_all
  then have "m_gen (map_at s q) = g"
    using found maps_inv_cur(3) [OF inv q] assms(2)
    by (metis antisym map_at_def maps_below_def)
  with q assms(3) show "cur s = Some p"
    by (simp add: find_mapping_def)
qed

lemma find_mapping_None:
  assumes "handle_maps_inv s" and "find_mapping s g = None" and "m \<in> set (maps s)"
  shows "m_gen m \<noteq> g"
proof -
  from assms(3) obtain p where p: "p < length (maps s)" "m = map_at s p"
    by (auto simp: in_set_conv_nth map_at_def)
  then have "p \<in> set (retired s) \<or> cur s = Some p"
    using assms(1) by (auto simp: handle_maps_inv_def maps_inv_def)
  with assms(2) p(2) show ?thesis
    by (auto simp: find_mapping_def find_None_iff split: option.splits if_splits)
qed

lemma map_ok_live:
  "map_ok w m \<Longrightarrow> find_inode w (pack_name g) = Some i \<Longrightarrow> m_fd m = i \<longleftrightarrow> m_gen m = g"
  unfolding map_ok_def using pack_name_inj by metis

lemma map_ok_new:
  assumes "files_ok w" and "find_inode w (pack_name g) = Some i"
  shows "map_ok w \<lparr>m_fd = i, m_gen = g, m_size = of_nat (length (inodes w i))\<rparr>"
  using assms files_ok_less [OF assms] files_ok_inj [OF assms(1)]
  by (auto simp: map_ok_def files_ok_unat)

text \<open>Mapping the live pack for the first time.\<close>

lemma mapped_install:
  assumes "files_ok (world s)" and "find_inode (world s) (pack_name g) = Some i"
    and "handle_maps_inv s" and "maps_below g s" and "find_mapping s g = None"
  shows "mapped g s (install_mapping g (length (maps s)) (s\<lparr>tick := n, maps := maps s @
      [\<lparr>m_fd = i, m_gen = g, m_size = of_nat (length (inodes (world s) i))\<rparr>]\<rparr>))"
    (is "mapped g s (install_mapping g ?p ?s1)")
proof -
  let ?m = "\<lparr>m_fd = i, m_gen = g, m_size = of_nat (length (inodes (world s) i))\<rparr>"
  from assms(3) have inv: "maps_inv (world s) (maps s) (cur s) (retired s)"
    by (simp add: handle_maps_inv_def)
  have gens: "m_gen m < g" if "m \<in> set (maps s)" for m
    using that find_mapping_None [OF assms(3,5) that] assms(4) by (auto simp: maps_below_def less_le)
  have fds: "m_fd m \<noteq> i" if "m \<in> set (maps s)" for m
  proof -
    have "map_ok (world s) m" using that inv by (simp add: maps_inv_def)
    from map_ok_live [OF this assms(2)] gens [OF that] show ?thesis by auto
  qed
  have older: "m_gen (map_at ?s1 q) < g" if "cur s = Some q" for q
    using maps_inv_cur(1) [OF inv that] gens by (simp add: map_at_def nth_append)
  define rs where "rs = (case cur s of None \<Rightarrow> retired s | Some q \<Rightarrow> retired s @ [q])"
  have eq: "install_mapping g ?p ?s1 =
      s\<lparr>tick := n, maps := maps s @ [?m], cur := Some ?p, retired := rs\<rparr>"
    using older by (auto simp: install_mapping_def rs_def split: option.split)
  have set_rs: "set rs = set (retired s) \<union> set_option (cur s)"
    by (simp add: rs_def split: option.split)
  have "maps_inv (world s) (maps s @ [?m]) (Some ?p) rs"
    unfolding maps_inv_def
  proof (intro conjI)
    show "\<forall>m\<in>set (maps s @ [?m]). map_ok (world s) m"
      using inv map_ok_new [OF assms(1,2)] by (auto simp: maps_inv_def)
    show "distinct (map m_gen (maps s @ [?m]))" "distinct (map m_fd (maps s @ [?m]))"
      using inv gens fds by (auto simp: maps_inv_def)
    show "\<forall>p<length (maps s @ [?m]). p \<in> set rs \<or> Some ?p = Some p"
      using inv by (auto simp: maps_inv_def set_rs less_Suc_eq)
    show "\<forall>p\<in>set rs. p < length (maps s @ [?m])"
      using inv by (auto simp: maps_inv_def set_rs)
  qed (use gens in \<open>auto simp: less_imp_le nth_append\<close>)
  moreover have "maps_below g (s\<lparr>tick := n, maps := maps s @ [?m], cur := Some ?p, retired := rs\<rparr>)"
    using gens by (auto simp: maps_below_def less_imp_le)
  moreover have "m_gen (map_at s p) \<noteq> g" if "cur s = Some p" for p
    using gens [of "map_at s p"] maps_inv_cur(1) [OF inv that] by (auto simp: map_at_def)
  ultimately show ?thesis
    unfolding eq mapped_def
    by (auto simp: handle_maps_inv_def map_at_def nth_append)
qed

lemma install_mapping_cur:
  assumes "handle_maps_inv s" and "maps_below g s" and "find_mapping s g = None"
  shows "cur (install_mapping g (length (maps s)) (s\<lparr>tick := n, maps := maps s @ [m]\<rparr>)) =
      Some (length (maps s))"
    and "map_at (install_mapping g (length (maps s)) (s\<lparr>tick := n, maps := maps s @ [m]\<rparr>))
      (length (maps s)) = m"
proof -
  have "m_gen (maps s ! q) < g" if "cur s = Some q" for q
    using that assms find_mapping_None [OF assms(1,3)] nth_mem [of q "maps s"]
    by (fastforce simp: handle_maps_inv_def maps_inv_def maps_below_def less_le)
  then show "cur (install_mapping g (length (maps s)) (s\<lparr>tick := n, maps := maps s @ [m]\<rparr>)) =
      Some (length (maps s))"
    using assms(1)
    by (auto simp: install_mapping_def map_at_def nth_append handle_maps_inv_def maps_inv_def
        split: option.split)
  show "map_at (install_mapping g (length (maps s)) (s\<lparr>tick := n, maps := maps s @ [m]\<rparr>))
      (length (maps s)) = m"
    by (simp add: install_mapping_def map_at_def split: option.split)
qed

lemma wp_mapping_for_live:
  assumes "quiet E" and "files_ok (world s)" and "find_inode (world s) (pack_name g) = Some i"
    and "handle_maps_inv s" and "maps_below g s"
    and "\<And>p s'. mapped g s s' \<Longrightarrow> cur s' = Some p \<Longrightarrow> p < length (maps s') \<Longrightarrow>
      m_gen (map_at s' p) = g \<Longrightarrow> m_fd (map_at s' p) = i \<Longrightarrow> Q (Some p) s'"
    and "\<And>n. \<not> creat \<Longrightarrow> Q None (s\<lparr>tick := n\<rparr>)"
    and "\<And>n e. io_exn e \<Longrightarrow> R e (s\<lparr>tick := n\<rparr>)"
  shows "wp (mapping_for E g creat) Q R s"
proof (cases "find_mapping s g")
  case (Some p)
  note top = find_mapping_top [OF assms(4,5) Some]
  have "map_ok (world s) (map_at s p)"
    using assms(4) top(3) by (simp add: handle_maps_inv_def maps_inv_def map_at_def)
  then have "m_fd (map_at s p) = i"
    using map_ok_live [OF _ assms(3)] top(2) by blast
  with Some show ?thesis
    unfolding mapping_for_def
    by (simp add: wp_simps assms(4,5,6) mapped_refl top)
next
  case None
  let ?p = "length (maps s)"
  let ?s1 = "\<lambda>n. s\<lparr>tick := n, maps := maps s @
      [\<lparr>m_fd = i, m_gen = g, m_size = of_nat (length (inodes (world s) i))\<rparr>]\<rparr>"
  have "Q (Some ?p) (install_mapping g ?p (?s1 n))" for n
  proof (rule assms(6))
    show m: "mapped g s (install_mapping g ?p (?s1 n))"
      by (rule mapped_install [OF assms(2-5) None])
    note cur = install_mapping_cur [OF assms(4,5) None, where n = n]
    show "cur (install_mapping g ?p (?s1 n)) = Some ?p"
      "m_gen (map_at (install_mapping g ?p (?s1 n)) ?p) = g"
      "m_fd (map_at (install_mapping g ?p (?s1 n)) ?p) = i"
      by (simp_all add: cur)
    have "handle_maps_inv (install_mapping g ?p (?s1 n))" by (rule mapped_fields(10) [OF m])
    then show "?p < length (maps (install_mapping g ?p (?s1 n)))"
      using maps_inv_cur(1) cur(1) unfolding handle_maps_inv_def by blast
  qed
  with None show ?thesis
    unfolding mapping_for_def
    by (simp only: wp_bindE wp_readS option.case)
      (rule wp_map_pack_found [OF assms(1,3)];
       simp add: wp_simps assms(7,8))
qed

section \<open>Sizes and views\<close>

lemma wp_file_size [wp_rules]:
  assumes "quiet E"
    and "\<And>n. Q (of_nat (length (inodes (world s) (m_fd (map_at s p))))) (s\<lparr>tick := n\<rparr>)"
    and "\<And>n e. io_exn e \<Longrightarrow> R e (s\<lparr>tick := n\<rparr>)"
  shows "wp (file_size E p) Q R s"
  using assms unfolding file_size_def by (intro wp_rules) (auto intro: wp_rules)

text \<open>Updating the cached size of a mapping within its file.\<close>

lemma mapped_set_size:
  assumes "handle_maps_inv s" and "maps_below g s" and "p < length (maps s)"
    and "unat n \<le> length (inodes (world s) (m_fd (map_at s p)))"
  shows "mapped g s (s\<lparr>tick := k, maps := (maps s)[p := (map_at s p)\<lparr>m_size := n\<rparr>]\<rparr>)"
    (is "mapped g s ?s'")
proof -
  let ?ms = "(maps s)[p := (map_at s p)\<lparr>m_size := n\<rparr>]"
  have gen: "map m_gen ?ms = map m_gen (maps s)" and fd: "map m_fd ?ms = map m_fd (maps s)"
    using assms(3) by (simp_all add: map_update map_at_def list_update_same_conv)
  have nth: "m_gen (?ms ! q) = m_gen (maps s ! q)" "m_fd (?ms ! q) = m_fd (maps s ! q)"
    if "q < length (maps s)" for q
    using that assms(3) by (simp_all add: nth_list_update map_at_def)
  have inv: "maps_inv (world s) (maps s) (cur s) (retired s)"
    using assms(1) by (simp add: handle_maps_inv_def)
  have "map_ok (world s) (maps s ! p)"
    using inv assms(3) by (simp add: maps_inv_def)
  then have "map_ok (world s) ((map_at s p)\<lparr>m_size := n\<rparr>)"
    using assms(4) by (simp add: map_ok_def map_at_def)
  then have ok: "\<forall>m\<in>set ?ms. map_ok (world s) m"
    using inv set_update_subset_insert [of "maps s" p] by (auto simp: maps_inv_def)
  have "m_gen ` set ?ms = m_gen ` set (maps s)"
    using gen by (metis image_set)
  then have below: "(\<forall>m\<in>set ?ms. m_gen m \<le> h) \<longleftrightarrow> (\<forall>m\<in>set (maps s). m_gen m \<le> h)" for h
    by (metis (no_types, lifting) image_iff)
  have "maps_inv (world s) ?ms (cur s) (retired s)"
    using inv ok unfolding maps_inv_def gen fd by (auto simp: below nth)
  moreover have "length ?ms = length (maps s)" by simp
  moreover define ms where "ms = ?ms"
  ultimately have ms: "maps_inv (world s) ms (cur s) (retired s)" "length ms = length (maps s)"
    by simp_all
  note nth' = nth [folded ms_def] and below' = below [folded ms_def]
  have "\<exists>n' ms' c rs. s\<lparr>tick := k, maps := ms\<rparr> = s\<lparr>tick := n', maps := ms', cur := c, retired := rs\<rparr>"
    by (rule exI [of _ k], rule exI [of _ ms], rule exI [of _ "cur s"], rule exI [of _ "retired s"]) simp
  with assms(2) ms show ?thesis unfolding ms_def [symmetric]
    by (simp add: mapped_def handle_maps_inv_def maps_below_def below' nth' map_at_def)
qed

lemma wp_view_live:
  assumes "quiet E" and "files_ok (world s)" and "handle_maps_inv s" and "maps_below g s"
    and "p < length (maps s)"
    and "unat off + unat len \<le> length (inodes (world s) (m_fd (map_at s p)))"
    and "unat off + unat len \<le> kMapSize"
    and "\<And>s'. mapped g s s' \<Longrightarrow> cur s' = cur s \<Longrightarrow>
      Q (substr (inodes (world s) (m_fd (map_at s p))) (unat off) (unat len)) s'"
    and "\<And>n e. io_exn e \<Longrightarrow> R e (s\<lparr>tick := n\<rparr>)"
  shows "wp (view E p off len) Q R s"
proof -
  let ?c = "inodes (world s) (m_fd (map_at s p))"
  have len: "unat (off + len) = unat off + unat len"
    using assms(7) by (simp add: unat_word_ariths kMapSize_def)
  have size: "unat (of_nat (length ?c) :: u64) = length ?c"
    by (rule files_ok_unat [OF assms(2)])
  then have known: "\<not> of_nat (length ?c) < off + len"
    using assms(6) len by (simp add: word_less_nat_alt)
  have grown: "mapped g s (s\<lparr>tick := k, maps := (maps s)[p := (map_at s p)\<lparr>m_size := of_nat (length ?c)\<rparr>]\<rparr>)" for k
    by (rule mapped_set_size [OF assms(3-5)]) (simp add: size)
  have size_le: "\<not> kMapSize < unat (off + len)" using assms(7) len by simp
  have read: "wp (mmap_read (m_fd (map_at s p)) (unat off) (unat len)) Q R s'"
    if "mapped g s s'" "cur s' = cur s" for s'
    using mapped_fields(1) [OF that(1)] assms(6,8) that by (intro wp_mmap_read) simp_all
  show ?thesis
  proof (cases "m_size (map_at s p) < off + len")
    case True
    have "wp (sys_err ''fstat pack'' err) Q' R (s\<lparr>tick := n\<rparr>)" for err n Q'
      by (intro wp_rules) (rule assms(9))
    moreover have "wp (mmap_read (m_fd (map_at s p)) (unat off) (unat len)) Q R
        (s\<lparr>tick := n, maps := (maps s)[p := (map_at s p)\<lparr>m_size := of_nat (length ?c)\<rparr>]\<rparr>)" for n
      by (rule read [OF grown]) simp
    ultimately show ?thesis
      using True known unfolding view_def
      by (simp only: wp_bindE wp_thenE wp_readS wp_whenE if_not_P [OF size_le] if_True)
        (intro wp_sys_fstat_size [OF assms(1)]; simp add: set_map_size_def wp_simps map_at_def)
  next
    case False
    have "wp (mmap_read (m_fd (map_at s p)) (unat off) (unat len)) Q R s"
      by (rule read) (simp_all add: mapped_refl assms(3,4))
    with False show ?thesis
      unfolding view_def
      by (simp only: wp_bindE wp_thenE wp_readS wp_whenE if_not_P [OF size_le] if_False)
  qed
qed

section \<open>What a reader sees\<close>

lemma mapped_cas_inv:
  assumes "cas_inv E s" and "live_pack E (world s) g i" and "mapped g s s'"
  shows "cas_inv E s'" and "batch_view E s' = batch_view E s"
proof -
  note f = mapped_fields [OF assms(3)]
  from assms(1) have world: "world_inv E (world s)" and b: "batch_inv E s g i"
    and maps: "handle_maps_inv s"
    using assms(2) by (auto simp: cas_inv_def)
  have keep: "batch_at E s' t g i p" if "batch_at E s t g i p" for t p
  proof -
    have "p < length (maps s)"
      using that maps by (simp add: batch_at_def handle_maps_inv_def maps_inv_def)
    with that assms(3) show ?thesis
      by (simp add: batch_at_def mapped_def f)
  qed
  from b have b': "batch_inv E s' g i"
    using keep unfolding batch_inv_def f by blast
  have "world_inv E (world s')" using world f by simp
  then show "cas_inv E s'"
    using assms(2) b' f by (auto simp: cas_inv_def dest: live_pack_unique)
  show "batch_view E s' = batch_view E s"
  proof (cases "wtxn s")
    case None
    then show ?thesis by (simp add: batch_view_def f)
  next
    case (Some t)
    with b obtain p where "batch_at E s t g i p" by (auto simp: batch_inv_def)
    moreover from keep [OF this] have "batch_at E s' t g i p" .
    ultimately show ?thesis
      using Some by (simp add: batch_view_def f batch_at_def)
  qed
qed

text \<open>The tables the calling thread reads, and the store they make: its own batch, else what is
  committed.\<close>

definition reader_table :: "('e, 't) platform \<Rightarrow> ('e, 't, 'z) cas_scheme \<Rightarrow> dbi \<Rightarrow> bytes \<Rightarrow> bytes option" where
  "reader_table E s = (case batch_txn E s of
     Some t \<Rightarrow> mdb_table E t | None \<Rightarrow> mdb_committed E (mdb_env (world s)))"

definition store_view :: "('e, 't) platform \<Rightarrow> ('e, 't, 'z) cas_scheme \<Rightarrow> bytes \<Rightarrow> bytes option" where
  "store_view E s = (if batch_txn E s = None then committed_view E (world s) else batch_view E s)"

lemma batch_txn_Some: "batch_txn E s = Some t \<longleftrightarrow> wtxn s = Some t \<and> writer_thread s = thread E"
  by (auto simp: batch_txn_def)

lemma mapped_reader:
  "mapped g s s' \<Longrightarrow> batch_txn E s' = batch_txn E s"
  "mapped g s s' \<Longrightarrow> reader_table E s' = reader_table E s"
  by (simp_all add: batch_txn_def reader_table_def mapped_fields split: option.split)

lemma mapped_store_view:
  "cas_inv E s \<Longrightarrow> live_pack E (world s) g i \<Longrightarrow> mapped g s s' \<Longrightarrow> store_view E s' = store_view E s"
  by (simp add: store_view_def mapped_reader mapped_fields mapped_cas_inv(2))

lemma prefix_take: "prefix (take n xs) xs"
  by (rule take_is_prefix)

lemma reader_ok:
  assumes "cas_inv E s" and "live_pack E (world s) g i"
  shows "table_gen (reader_table E s) = Some g"
    and "index_ok E (inodes (world s) i) (reader_table E s Blobs)"
    and "store_view E s = index_view E (inodes (world s) i) (reader_table E s Blobs)"
proof -
  have b: "batch_inv E s g i" using assms by (simp add: cas_inv_def)
  have ok: "index_ok E (inodes (world s) i) (mdb_committed E (mdb_env (world s)) Blobs)"
    using assms by (auto simp: cas_inv_def world_inv_def dest: live_pack_unique)
  show "table_gen (reader_table E s) = Some g"
    "index_ok E (inodes (world s) i) (reader_table E s Blobs)"
    "store_view E s = index_view E (inodes (world s) i) (reader_table E s Blobs)"
  proof (atomize (full), cases "batch_txn E s")
    case None
    then show "table_gen (reader_table E s) = Some g \<and>
        index_ok E (inodes (world s) i) (reader_table E s Blobs) \<and>
        store_view E s = index_view E (inodes (world s) i) (reader_table E s Blobs)"
      using ok assms(2) committed_view_live [OF assms(2)]
      by (simp add: reader_table_def store_view_def live_pack_def)
  next
    case (Some t)
    then have t: "wtxn s = Some t" by (simp add: batch_txn_Some)
    with b obtain p where p: "batch_at E s t g i p" by (auto simp: batch_inv_def)
    then have "index_ok E (inodes (world s) i) (mdb_table E t Blobs)"
      by (auto simp: batch_at_def intro: index_ok_prefix [OF _ prefix_take])
    with Some t p show "table_gen (reader_table E s) = Some g \<and>
        index_ok E (inodes (world s) i) (reader_table E s Blobs) \<and>
        store_view E s = index_view E (inodes (world s) i) (reader_table E s Blobs)"
      by (simp add: reader_table_def store_view_def batch_view_def batch_at_def)
  qed
qed

section \<open>Lookups\<close>

lemma platform_okD:
  assumes "platform_ok E"
  shows "lz4_ok E" "lmdb_ok E" "quiet E" "length (blake3 E d) = 32"
  using assms by (simp_all add: platform_ok_def blake3_ok_def)

lemma wp_txn_begin:
  assumes "platform_ok E"
    and "\<And>t n. mdb_table E t = mdb_committed E (mdb_env (world s)) \<Longrightarrow> Q t (s\<lparr>tick := n\<rparr>)"
    and "\<And>n e. io_exn e \<Longrightarrow> R e (s\<lparr>tick := n\<rparr>)"
  shows "wp (txn_begin E) Q R s"
  unfolding txn_begin_def
  by (intro wp_rules platform_okD(3) [OF assms(1)] assms(2,3))
    (use lmdb_readsD(1) [OF platform_okD(2) [OF assms(1)]] in auto)

lemma wp_use_batch:
  assumes "cas_inv E s" and "wtxn s = Some t" and "Q t s"
  shows "wp use_batch Q R s"
proof (rule cas_inv_batch [OF assms(1,2)])
  fix g i p
  assume "batch_at E s t g i p"
  then have "\<not> wtxn_freed s" by (simp add: batch_at_def)
  with assms(2,3) show ?thesis by (simp add: use_batch_def deref_def wp_simps)
qed

lemma wp_read_txn:
  assumes "platform_ok E" and "cas_inv E s"
    and "\<And>t n. mdb_table E t = reader_table E s \<Longrightarrow> Q t (s\<lparr>tick := n\<rparr>)"
    and "\<And>n e. io_exn e \<Longrightarrow> R e (s\<lparr>tick := n\<rparr>)"
  shows "wp (read_txn E) Q R s"
proof (cases "batch_txn E s")
  case None
  have "wp (txn_begin E) Q R s"
    by (rule wp_txn_begin [OF assms(1)])
      (use None assms(3,4) in \<open>auto simp: reader_table_def\<close>)
  with None show ?thesis by (simp add: read_txn_def wp_simps)
next
  case (Some t)
  have "wtxn s = Some t" using Some by (simp add: batch_txn_Some)
  moreover have "Q t s" using Some assms(3) [of t "tick s"] by (simp add: reader_table_def)
  ultimately have "wp use_batch Q R s" by (rule wp_use_batch [OF assms(2)])
  with Some show ?thesis by (simp add: read_txn_def wp_simps)
qed

lemma read_gen_cases:
  assumes "lmdb_ok E" and "table_gen (mdb_table E t) = Some g"
  obtains "read_gen E t = Inr g" | e where "read_gen E t = Inl e" "io_exn e"
proof (cases "mdb_get E t Meta ''gen''")
  case (Pair res val)
  consider "res = MDB_NOTFOUND" | "res = MDB_SUCCESS" | "res \<noteq> MDB_NOTFOUND" "res \<noteq> MDB_SUCCESS"
    by blast
  then show thesis
  proof cases
    case 1
    with Pair have "mdb_table E t Meta ''gen'' = None"
      using lmdb_readsD(3) [OF assms(1)] by metis
    with 1 Pair assms(2) show thesis by (intro that(1)) (simp add: read_gen_def table_gen_def)
  next
    case 2
    with Pair have "mdb_table E t Meta ''gen'' = Some val"
      using lmdb_readsD(2) [OF assms(1)] by metis
    with 2 Pair assms(2) show thesis
      by (intro that(1)) (simp add: read_gen_def table_gen_def split: if_splits)
  next
    case 3
    with Pair show thesis by (intro that(2)) (auto simp: read_gen_def mdb_exn_def)
  qed
qed

lemma wp_read_gen:
  assumes "lmdb_ok E" and "table_gen (mdb_table E t) = Some g"
    and "Q g s" and "\<And>e. io_exn e \<Longrightarrow> R e s"
  shows "wp (liftE (read_gen E t)) Q R s"
  by (rule read_gen_cases [OF assms(1,2)]) (simp_all add: wp_simps assms(3,4))

text \<open>An index record that is sound decodes.\<close>

lemma index_ok_entry:
  assumes "index_ok E content tbl" and "tbl h = Some val"
  obtains entry d where "decode_entry val = Inr entry" "in_pack content entry"
    "unpack E entry (entry_bytes content entry) = Inr d" "index_view E content tbl h = Some d"
    "length h = kHashLen" "blake3 E d = h"
proof -
  from assms obtain d where d: "length h = kHashLen" "entry_blob E content val = Some d" "blake3 E d = h"
    by (auto simp: index_ok_def)
  from d(2) obtain entry where "decode_entry val = Inr entry" "in_pack content entry"
    "unpack E entry (entry_bytes content entry) = Inr d"
    by (rule entry_blobE)
  with d assms(2) show thesis by (intro that) (auto simp: index_view_def)
qed

definition found_ok :: "('e, 't) platform \<Rightarrow> bytes \<Rightarrow> bytes option \<Rightarrow> index_entry option \<Rightarrow> bool" where
  "found_ok E content v found \<longleftrightarrow> (case found of
     None \<Rightarrow> v = None
   | Some entry \<Rightarrow> in_pack content entry \<and>
       (\<exists>d. unpack E entry (entry_bytes content entry) = Inr d \<and> v = Some d))"

lemma wp_lookup:
  assumes "platform_ok E" and "cas_inv E s" and "live_pack E (world s) g i"
    and "length hash = kHashLen"
    and "\<And>found gen n. found_ok E (inodes (world s) i) (store_view E s hash) found \<Longrightarrow>
      (want_gen \<longrightarrow> gen = g) \<Longrightarrow> Q (found, gen) (s\<lparr>tick := n\<rparr>)"
    and "\<And>n e. io_exn e \<Longrightarrow> R e (s\<lparr>tick := n\<rparr>)"
  shows "wp (lookup E hash want_gen) Q R s"
proof -
  note lmdb = platform_okD(2) [OF assms(1)]
  note ok = reader_ok [OF assms(2,3)]
  let ?rest = "\<lambda>t gen. case mdb_get E t Blobs hash of (res, val) \<Rightarrow>
      if res = MDB_NOTFOUND then ret (None, gen)
      else thenE (mdb_check E res ''mdb_get'')
        (bindE (liftE (decode_entry val)) (\<lambda>entry. ret (Some entry, gen)))"
  have rest: "wp (?rest t gen) Q R (s\<lparr>tick := n\<rparr>)"
    if t: "mdb_table E t = reader_table E s" and gen: "want_gen \<longrightarrow> gen = g" for t gen n
  proof (cases "mdb_get E t Blobs hash")
    case (Pair res val)
    consider "res = MDB_NOTFOUND" | "res = MDB_SUCCESS" | "res \<noteq> MDB_NOTFOUND" "res \<noteq> MDB_SUCCESS"
      by blast
    then show ?thesis
    proof cases
      case 1
      with Pair have "reader_table E s Blobs hash = None"
        using lmdb_readsD(3) [OF lmdb] t by metis
      then have "found_ok E (inodes (world s) i) (store_view E s hash) None"
        by (simp add: found_ok_def ok(3) index_view_def)
      from assms(5) [OF this gen] 1 Pair show ?thesis by (simp add: wp_simps)
    next
      case 2
      with Pair have "reader_table E s Blobs hash = Some val"
        using lmdb_readsD(2) [OF lmdb] t by metis
      from index_ok_entry [OF ok(2) this] obtain entry d where entry: "decode_entry val = Inr entry"
        "in_pack (inodes (world s) i) entry"
        "unpack E entry (entry_bytes (inodes (world s) i) entry) = Inr d"
        "index_view E (inodes (world s) i) (reader_table E s Blobs) hash = Some d"
        by metis
      then have "found_ok E (inodes (world s) i) (store_view E s hash) (Some entry)"
        by (simp add: found_ok_def ok(3))
      from assms(5) [OF this gen] 2 Pair entry(1) show ?thesis
        by (simp add: wp_simps mdb_check_def)
    next
      case 3
      with Pair assms(6) show ?thesis by (auto simp: wp_simps mdb_check_def)
    qed
  qed
  have "wp (bindE (if want_gen then liftE (read_gen E t) else ret 0) (?rest t)) Q R (s\<lparr>tick := n\<rparr>)"
    if t: "mdb_table E t = reader_table E s" for t n
  proof (cases want_gen)
    case True
    have "wp (liftE (read_gen E t)) (\<lambda>gen. wp (?rest t gen) Q R) R (s\<lparr>tick := n\<rparr>)"
      by (rule wp_read_gen [OF lmdb]) (use t ok(1) rest [OF t] assms(6) in auto)
    with True show ?thesis by (simp only: wp_bindE if_True)
  next
    case False
    with rest [OF t] show ?thesis by (simp only: wp_bindE if_False wp_ret) simp
  qed
  then have "wp (read_txn E) (\<lambda>t. wp (bindE (if want_gen then liftE (read_gen E t) else ret 0) (?rest t)) Q R) R s"
    by (intro wp_read_txn [OF assms(1,2)] assms(6))
  then show ?thesis
    unfolding lookup_def using assms(4) by (simp only: wp_bindE simp_thms if_False)
qed

lemma lookup_bad_length:
  "length hash \<noteq> kHashLen \<Longrightarrow>
     lookup E hash want_gen s = (Inl (InvalidArgument ''bad hash length''), s)"
  by (simp add: lookup_def throw_def)

lemma wp_locate_loop:
  assumes ok: "platform_ok E" and inv: "cas_inv E s" and live: "live_pack E (world s) g i"
    and hash: "length hash = kHashLen"
    and none: "\<And>s'. mapped g s s' \<Longrightarrow> store_view E s hash = None \<Longrightarrow> Q None s'"
    and some: "\<And>entry p s' d. mapped g s s' \<Longrightarrow> p < length (maps s') \<Longrightarrow> m_fd (map_at s' p) = i \<Longrightarrow>
      in_pack (inodes (world s) i) entry \<Longrightarrow>
      unpack E entry (entry_bytes (inodes (world s) i) entry) = Inr d \<Longrightarrow>
      store_view E s hash = Some d \<Longrightarrow> Q (Some (entry, p)) s'"
    and exn: "\<And>s' e. mapped g s s' \<Longrightarrow> io_exn e \<Longrightarrow> R e s'"
  shows "mapped g s s1 \<Longrightarrow> wp (locate_loop E hash n) Q R s1"
proof (induction n arbitrary: s1)
  case 0
  then show ?case by (simp add: wp_simps exn)
next
  case (Suc n)
  have hm: "handle_maps_inv s" using inv by (rule cas_inv_maps)
  note f1 = mapped_fields [OF Suc.prems]
  have inv1: "cas_inv E s1" by (rule mapped_cas_inv [OF inv live Suc.prems])
  have live1: "live_pack E (world s1) g i" using live f1 by simp
  have view1: "store_view E s1 = store_view E s" by (rule mapped_store_view [OF inv live Suc.prems])
  have step: "mapped g s s'" if "mapped g s1 s'" for s'
    by (rule mapped_trans [OF Suc.prems that hm])
  have tick: "mapped g s (s1\<lparr>tick := m\<rparr>)" for m
    by (rule step) (simp add: f1)
  have found: "wp (mapping_for E g creat) (\<lambda>r. wp (case r of
         Some p \<Rightarrow> ret (Some (entry, p)) | None \<Rightarrow> locate_loop E hash n) Q R) R (s1\<lparr>tick := m\<rparr>)"
    if d: "in_pack (inodes (world s) i) entry"
      "unpack E entry (entry_bytes (inodes (world s) i) entry) = Inr d" "store_view E s hash = Some d"
    for entry m creat d
  proof (rule wp_mapping_for_live [where g = g and i = i])
    show "quiet E" by (rule platform_okD [OF ok])
    show "files_ok (world (s1\<lparr>tick := m\<rparr>))" "find_inode (world (s1\<lparr>tick := m\<rparr>)) (pack_name g) = Some i"
      using cas_inv_files [OF inv1] live1 by (simp_all add: live_pack_def)
    show "handle_maps_inv (s1\<lparr>tick := m\<rparr>)" "maps_below g (s1\<lparr>tick := m\<rparr>)"
      using mapped_fields [OF tick [of m]] by simp_all
  next
    fix p s'
    assume p: "mapped g (s1\<lparr>tick := m\<rparr>) s'" "p < length (maps s')" "m_fd (map_at s' p) = i"
    show "wp (case Some p of Some p \<Rightarrow> ret (Some (entry, p)) | None \<Rightarrow> locate_loop E hash n) Q R s'"
      using some [OF mapped_trans [OF tick p(1) hm] p(2,3) d] by (simp add: wp_simps)
  next
    fix m'
    show "wp (case None of Some p \<Rightarrow> ret (Some (entry, p)) | None \<Rightarrow> locate_loop E hash n) Q R
        (s1\<lparr>tick := m, tick := m'\<rparr>)"
      using Suc.IH [OF tick] by simp
  next
    fix m' e
    assume "io_exn e"
    then show "R e (s1\<lparr>tick := m, tick := m'\<rparr>)" using exn [OF tick] by simp
  qed
  let ?cont = "\<lambda>(found, gen). case found of None \<Rightarrow> ret None
     | Some entry \<Rightarrow> bindE (readS (\<lambda>s. wtxn s \<noteq> None)) (\<lambda>creat.
       bindE (mapping_for E gen creat) (\<lambda>r. case r of
         Some p \<Rightarrow> ret (Some (entry, p)) | None \<Rightarrow> locate_loop E hash n))"
  have "wp (lookup E hash True) (\<lambda>r. wp (?cont r) Q R) R s1"
  proof (rule wp_lookup [OF ok inv1 live1 hash])
    fix fd gen m
    assume fd: "found_ok E (inodes (world s1) i) (store_view E s1 hash) fd" and "True \<longrightarrow> gen = g"
    then have gen: "gen = g" by simp
    show "wp (?cont (fd, gen)) Q R (s1\<lparr>tick := m\<rparr>)"
    proof (cases fd)
      case None
      with fd none [OF tick] show ?thesis by (simp add: wp_simps found_ok_def view1)
    next
      case (Some entry)
      with fd obtain d where "in_pack (inodes (world s) i) entry"
        "unpack E entry (entry_bytes (inodes (world s) i) entry) = Inr d" "store_view E s hash = Some d"
        by (auto simp: found_ok_def view1 f1)
      from found [OF this] Some gen show ?thesis by (simp add: wp_bindE wp_readS)
    qed
  qed (rule exn [OF tick])
  then show ?case by (simp only: locate_loop.simps wp_bindE)
qed

lemmas wp_locate = wp_locate_loop [where n = kMaxGenerationRetries, folded locate_def]

lemma cas_inv_mapped_refl: "cas_inv E s \<Longrightarrow> live_pack E (world s) g i \<Longrightarrow> mapped g s s"
  by (simp add: cas_inv_def mapped_refl)

section \<open>Readers\<close>

text \<open>The length of a record in the pack, and how \<open>get\<close> decodes its bytes.\<close>

lemma wp_get:
  assumes ok: "platform_ok E" and inv: "cas_inv E s" and live: "live_pack E (world s) g i"
    and hash: "length hash = kHashLen"
    and some: "\<And>s'. mapped g s s' \<Longrightarrow> Q (store_view E s hash) s'"
    and exn: "\<And>s' e. mapped g s s' \<Longrightarrow> io_exn e \<Longrightarrow> R e s'"
  shows "wp (get E hash) Q R s"
proof -
  let ?c = "inodes (world s) i"
  have hm: "handle_maps_inv s" using inv by (rule cas_inv_maps)
  have len: "length ?c \<le> max_off" by (rule files_ok_length [OF cas_inv_files [OF inv]])
  let ?cont = "\<lambda>r. case r of
     None \<Rightarrow> ret None
   | Some (entry, p) \<Rightarrow> bindE (readS (\<lambda>s. m_fd (map_at s p))) (\<lambda>fd.
       thenE (string_resize (ie_len entry))
       (bindE (pread_all E fd (unat (ie_len entry)) (ie_off entry)) (\<lambda>stored.
        if \<not> compressed entry then ret (Some stored)
        else bindE (liftE (decompress E stored (ie_raw_len entry))) (\<lambda>out. ret (Some out)))))"
  have "wp (locate E hash) (\<lambda>r. wp (?cont r) Q R) R s"
  proof (rule wp_locate [OF ok inv live hash])
    fix s'
    assume "mapped g s s'" "store_view E s hash = None"
    then show "wp (?cont None) Q R s'" using some by (simp add: wp_simps)
  next
    fix entry p s' d
    assume m: "mapped g s s'" and p: "p < length (maps s')" "m_fd (map_at s' p) = i"
      and e: "in_pack ?c entry" "unpack E entry (entry_bytes ?c entry) = Inr d"
      "store_view E s hash = Some d"
    have tick: "mapped g s (s'\<lparr>tick := n\<rparr>)" for n
      by (rule mapped_trans [OF m _ hm]) (simp add: mapped_fields [OF m])
    have Qd: "Q (Some d) (s'\<lparr>tick := n\<rparr>)" for n using some [OF tick] e(3) by simp
    have "wp (pread_all E i (unat (ie_len entry)) (ie_off entry)) (\<lambda>stored.
        wp (if \<not> compressed entry then ret (Some stored)
          else bindE (liftE (decompress E stored (ie_raw_len entry))) (\<lambda>out. ret (Some out))) Q R) R s'"
      by (rule wp_pread_all [OF platform_okD(3) [OF ok]])
        (use e len Qd exn [OF tick] in
          \<open>auto simp: mapped_fields [OF m] in_pack_def unpack_def entry_bytes_def wp_simps split: if_splits\<close>)
    moreover have "\<not> max_off < unat (ie_len entry)"
      using e(1) len by (simp add: in_pack_def)
    ultimately show "wp (?cont (Some (entry, p))) Q R s'"
      by (simp add: wp_bindE wp_thenE wp_readS wp_whenE string_resize_def p(2))
  next
    fix s' e
    assume "mapped g s s'" "io_exn e"
    then show "R e s'" by (rule exn)
  qed (rule cas_inv_mapped_refl [OF inv live])
  then show ?thesis by (simp only: get_def wp_bindE)
qed

text \<open>\<open>get_view\<close> also needs the pack to fit the 1 TiB it maps.\<close>

lemma wp_get_view:
  assumes ok: "platform_ok E" and inv: "cas_inv E s" and live: "live_pack E (world s) g i"
    and hash: "length hash = kHashLen" and fits: "length (inodes (world s) i) \<le> kMapSize"
    and some: "\<And>s'. mapped g s s' \<Longrightarrow> Q (store_view E s hash) s'"
    and exn: "\<And>s' e. mapped g s s' \<Longrightarrow> io_exn e \<Longrightarrow> R e s'"
  shows "wp (get_view E hash) Q R s"
proof -
  let ?c = "inodes (world s) i"
  have hm: "handle_maps_inv s" using inv by (rule cas_inv_maps)
  let ?cont = "\<lambda>r. case r of
     None \<Rightarrow> ret None
   | Some (entry, p) \<Rightarrow> bindE (view E p (ie_off entry) (ie_len entry)) (\<lambda>stored.
       if \<not> compressed entry then ret (Some stored)
       else bindE (liftE (decompress E stored (ie_raw_len entry))) (\<lambda>out. ret (Some out)))"
  have "wp (locate E hash) (\<lambda>r. wp (?cont r) Q R) R s"
  proof (rule wp_locate [OF ok inv live hash])
    fix s'
    assume "mapped g s s'" "store_view E s hash = None"
    then show "wp (?cont None) Q R s'" using some by (simp add: wp_simps)
  next
    fix entry p s' d
    assume m: "mapped g s s'" and p: "p < length (maps s')" "m_fd (map_at s' p) = i"
      and e: "in_pack ?c entry" "unpack E entry (entry_bytes ?c entry) = Inr d"
      "store_view E s hash = Some d"
    have trans: "mapped g s s''" if "mapped g s' s''" for s''
      by (rule mapped_trans [OF m that hm])
    have Qd: "Q (Some d) s''" if "mapped g s' s''" for s''
      using some [OF trans [OF that]] e(3) by simp
    have "wp (view E p (ie_off entry) (ie_len entry)) (\<lambda>stored.
        wp (if \<not> compressed entry then ret (Some stored)
          else bindE (liftE (decompress E stored (ie_raw_len entry))) (\<lambda>out. ret (Some out))) Q R) R s'"
    proof (rule wp_view_live [where g = g])
      show "quiet E" by (rule platform_okD [OF ok])
      show "files_ok (world s')" "handle_maps_inv s'" "maps_below g s'" "p < length (maps s')"
        using cas_inv_files [OF inv] p by (simp_all add: mapped_fields [OF m])
      show "unat (ie_off entry) + unat (ie_len entry) \<le> length (inodes (world s') (m_fd (map_at s' p)))"
        "unat (ie_off entry) + unat (ie_len entry) \<le> kMapSize"
        using e(1) p(2) fits by (simp_all add: in_pack_def mapped_fields [OF m])
    qed (use e Qd p(2) exn [OF trans] mapped_fields(10,11) [OF m] in
          \<open>auto simp: mapped_fields [OF m] unpack_def entry_bytes_def wp_simps split: if_splits\<close>)
    then show "wp (?cont (Some (entry, p))) Q R s'" by (simp add: wp_bindE)
  next
    fix s' e
    assume "mapped g s s'" "io_exn e"
    then show "R e s'" by (rule exn)
  qed (rule cas_inv_mapped_refl [OF inv live])
  then show ?thesis by (simp only: get_view_def wp_bindE)
qed

end
