(* ===== verification/Pack_Batch.thy ===== *)
theory Pack_Batch
  imports Pack_Lookup
begin

text \<open>
  The write batch: opening one keeps the store, a commit makes the batch's store the committed
  one, an abort goes back to the committed one, whatever calls fail on the way; only a failed
  LMDB commit leaves the handle outside its invariant, with a freed transaction.
\<close>

section \<open>The invariant without the batch\<close>

definition idle_inv :: "('e, 't) platform \<Rightarrow> u64 \<Rightarrow> nat \<Rightarrow> ('e, 't, 'z) cas_scheme \<Rightarrow> bool" where
  "idle_inv E g i s \<longleftrightarrow> files_ok (world s) \<and> live_pack E (world s) g i \<and>
     index_ok E (inodes (world s) i) (mdb_committed E (mdb_env (world s)) Blobs) \<and>
     handle_maps_inv s \<and> maps_below g s"

lemma cas_inv_idle: "cas_inv E s \<longleftrightarrow> (\<exists>g i. idle_inv E g i s \<and> batch_inv E s g i)"
proof
  assume "cas_inv E s"
  moreover from this have "handle_maps_inv s" by (rule cas_inv_maps)
  ultimately show "\<exists>g i. idle_inv E g i s \<and> batch_inv E s g i"
    by (elim cas_inv_live) (auto simp: idle_inv_def)
next
  assume "\<exists>g i. idle_inv E g i s \<and> batch_inv E s g i"
  then show "cas_inv E s"
    by (auto simp: idle_inv_def intro: cas_invI)
qed

lemma idle_cas_inv: "idle_inv E g i s \<Longrightarrow> wtxn s = None \<Longrightarrow> cas_inv E s"
  by (auto simp: cas_inv_idle batch_inv_def)

lemma cas_inv_idleD:
  assumes "cas_inv E s" and "live_pack E (world s) g i"
  shows "idle_inv E g i s" and "batch_inv E s g i"
  using assms by (auto simp: cas_inv_idle idle_inv_def dest: live_pack_unique)

lemma idle_live: "idle_inv E g i s \<Longrightarrow> live_pack E (world s) g i"
  by (simp add: idle_inv_def)

text \<open>Whatever becomes of the lock.\<close>

lemma flock_self [simp]: "\<exists>y. w = w\<lparr>flock_owner := y\<rparr>"
  by (rule exI [of _ "flock_owner w"]) simp

lemma flock_other [simp]: "\<exists>y. w\<lparr>flock_owner := x\<rparr> = w\<lparr>flock_owner := y\<rparr>"
  by blast

lemma map_ok_flock [simp]: "map_ok (w\<lparr>flock_owner := x\<rparr>) m = map_ok w m"
  by (simp add: map_ok_def find_inode_def)

lemma maps_inv_flock [simp]: "maps_inv (w\<lparr>flock_owner := x\<rparr>) ms c rs = maps_inv w ms c rs"
  by (simp add: maps_inv_def)

lemma files_ok_flock [simp]: "files_ok (w\<lparr>flock_owner := x\<rparr>) = files_ok w"
  by (simp add: files_ok_def)

lemma live_pack_flock [simp]: "live_pack E (w\<lparr>flock_owner := x\<rparr>) g i = live_pack E w g i"
  by (simp add: live_pack_def find_inode_def)

lemma committed_view_flock [simp]: "committed_view E (w\<lparr>flock_owner := x\<rparr>) = committed_view E w"
  by (simp add: committed_view_def find_inode_def cong: option.case_cong)

lemma map_at_simps [simp]:
  "map_at (s\<lparr>tick := n\<rparr>) p = map_at s p" "map_at (s\<lparr>world := w\<rparr>) p = map_at s p"
  "map_at (s\<lparr>wtxn := x\<rparr>) p = map_at s p" "map_at (s\<lparr>wtxn_freed := b\<rparr>) p = map_at s p"
  "map_at (s\<lparr>writer_thread := k\<rparr>) p = map_at s p" "map_at (s\<lparr>committed_end := u\<rparr>) p = map_at s p"
  "map_at (s\<lparr>pack_end := u\<rparr>) p = map_at s p" "map_at (s\<lparr>batch_bytes := u\<rparr>) p = map_at s p"
  by (simp_all add: map_at_def)

lemmas idle_defs = idle_inv_def handle_maps_inv_def maps_below_def

lemma idle_inv_simps [simp]:
  "idle_inv E g i (s\<lparr>tick := n\<rparr>) = idle_inv E g i s"
  "idle_inv E g i (s\<lparr>wtxn := x\<rparr>) = idle_inv E g i s"
  "idle_inv E g i (s\<lparr>wtxn_freed := b\<rparr>) = idle_inv E g i s"
  "idle_inv E g i (s\<lparr>writer_thread := k\<rparr>) = idle_inv E g i s"
  "idle_inv E g i (s\<lparr>committed_end := u\<rparr>) = idle_inv E g i s"
  "idle_inv E g i (s\<lparr>pack_end := u\<rparr>) = idle_inv E g i s"
  "idle_inv E g i (s\<lparr>batch_bytes := u\<rparr>) = idle_inv E g i s"
  "idle_inv E g i (s\<lparr>world := w\<lparr>flock_owner := x'\<rparr>\<rparr>) = idle_inv E g i (s\<lparr>world := w\<rparr>)"
  by (simp_all add: idle_defs)

lemma idle_mapped: "idle_inv E g i s \<Longrightarrow> mapped g s s' \<Longrightarrow> idle_inv E g i s'"
  by (simp add: idle_inv_def mapped_fields)

lemma idle_same:
  assumes "idle_inv E g i s" and "world s' = (world s)\<lparr>flock_owner := x\<rparr>"
    and "maps s' = maps s" and "cur s' = cur s" and "retired s' = retired s"
  shows "idle_inv E g i s'"
  using assms by (simp add: idle_defs)

lemma idle_refl: "idle_inv E g i s \<Longrightarrow> mapped g s s"
  by (simp add: idle_inv_def mapped_refl)

lemma wp_mapping_for_idle:
  assumes "quiet E" and "idle_inv E g i s"
    and "\<And>p s'. mapped g s s' \<Longrightarrow> cur s' = Some p \<Longrightarrow> p < length (maps s') \<Longrightarrow>
      m_gen (map_at s' p) = g \<Longrightarrow> m_fd (map_at s' p) = i \<Longrightarrow> Q (Some p) s'"
    and "\<And>n e. io_exn e \<Longrightarrow> R e (s\<lparr>tick := n\<rparr>)"
  shows "wp (mapping_for E g True) Q R s"
  by (rule wp_mapping_for_live [OF assms(1)])
    (use assms(2-) in \<open>simp_all add: idle_inv_def live_pack_def\<close>)

section \<open>Opening a batch\<close>

text \<open>The tables and the length of the pack, which the batch starts from.\<close>

definition committed_tables :: "('e, 't) platform \<Rightarrow> ('e, 't, 'z) cas_scheme \<Rightarrow> dbi \<Rightarrow> bytes \<Rightarrow> bytes option" where
  "committed_tables E s = mdb_committed E (mdb_env (world s))"

lemma batch_view_at:
  "batch_at E s t g i p \<Longrightarrow> wtxn s = Some t \<Longrightarrow>
     batch_view E s = index_view E (inodes (world s) i) (mdb_table E t Blobs)"
  by (simp add: batch_view_def batch_at_def)

text \<open>Two states that hold the same stores, to readers and on disk.\<close>

definition same_store :: "('e, 't) platform \<Rightarrow> ('e, 't, 'z) cas_scheme \<Rightarrow> ('e, 't, 'z) cas_scheme \<Rightarrow> bool" where
  "same_store E s s' \<longleftrightarrow> committed_tables E s' = committed_tables E s \<and>
     committed_view E (world s') = committed_view E (world s) \<and>
     reader_table E s' = reader_table E s \<and> store_view E s' = store_view E s \<and>
     cas.more s' = cas.more s"

lemma same_store_trans: "same_store E s s' \<Longrightarrow> same_store E s' s'' \<Longrightarrow> same_store E s s''"
  by (simp add: same_store_def)

lemma mapped_same_store:
  "cas_inv E s \<Longrightarrow> live_pack E (world s) g i \<Longrightarrow> mapped g s s' \<Longrightarrow> same_store E s s'"
  by (simp add: same_store_def mapped_store_view mapped_reader mapped_fields committed_tables_def)

lemma reader_table_idle: "batch_txn E s = None \<Longrightarrow> reader_table E s = committed_tables E s"
  by (simp add: reader_table_def committed_tables_def)

lemma batch_txn_None: "wtxn s = None \<Longrightarrow> batch_txn E s = None"
  by (simp add: batch_txn_def)

text \<open>Closing a failed \<open>begin_batch\<close>.\<close>

lemma same_store_closed:
  assumes "batch_txn E s = None" and "batch_txn E s' = None" and "cas.more s' = cas.more s"
    and "\<exists>x. world s' = (world s)\<lparr>flock_owner := x\<rparr>"
  shows "same_store E s s'"
  using assms by (auto simp: same_store_def reader_table_idle store_view_def committed_tables_def)

lemma wp_drop_batch:
  assumes ok: "platform_ok E" and idle: "idle_inv E g i s'" and "wtxn s = None"
    and w: "world s' = (world s)\<lparr>flock_owner := x\<rparr>" and more: "cas.more s' = cas.more s"
    and R: "\<And>s''. cas_inv E s'' \<Longrightarrow> wtxn s'' = None \<Longrightarrow> same_store E s s'' \<Longrightarrow> R e s''"
  shows "wp (drop_batch E e) Q R s'"
proof -
  let ?s = "\<lambda>n y. s'\<lparr>wtxn := None, tick := n, world := (world s)\<lparr>flock_owner := y\<rparr>\<rparr>"
  have "cas_inv E (?s n y)" for n y
    by (rule idle_cas_inv, rule idle_same [OF idle, where x = y]) (simp_all add: w)
  moreover have "same_store E s (?s n y)" for n y
    using assms(3) more by (intro same_store_closed) (auto simp: batch_txn_None)
  ultimately have "R e (?s n y)" for n y by (intro R) simp_all
  from this [where y = x] this [where y = None] show ?thesis
    unfolding drop_batch_def
    by (intro wp_rules platform_okD(3) [OF ok]) (simp_all add: w [symmetric], simp add: w)
qed

lemma begin_same_store:
  assumes "batch_at E s' t g i p" and "batch_txn E s' = Some t" and "idle_inv E g i s"
    and "wtxn s = None" and "mdb_table E t = committed_tables E s"
    and "world s' = (world s)\<lparr>flock_owner := x\<rparr>" and "cas.more s' = cas.more s"
  shows "same_store E s s'"
proof -
  have "batch_view E s' = committed_view E (world s)"
    using assms batch_view_at [OF assms(1)] committed_view_live [OF idle_live [OF assms(3)]]
    by (simp add: batch_txn_Some committed_tables_def)
  with assms show ?thesis
    by (simp add: same_store_def reader_table_def store_view_def batch_txn_None committed_tables_def)
qed

lemma wp_batch_ends:
  assumes ok: "platform_ok E" and idle: "idle_inv E g i s" and none: "wtxn s = None"
    and idle': "idle_inv E g i s'" and w: "world s' = (world s)\<lparr>flock_owner := Some (self E)\<rparr>"
    and more: "cas.more s' = cas.more s"
    and p: "cur s' = Some p" "p < length (maps s')" "m_gen (map_at s' p) = g" "m_fd (map_at s' p) = i"
    and t: "batch_txn E s' = Some t" "\<not> wtxn_freed s'" "mdb_table E t = committed_tables E s"
    and Q: "\<And>s'. cas_inv E s' \<Longrightarrow> batch_txn E s' \<noteq> None \<Longrightarrow> same_store E s s' \<Longrightarrow> Q () s'"
    and R: "\<And>e n. io_exn e \<Longrightarrow> R e (s'\<lparr>tick := n\<rparr>)"
  shows "wp (batch_ends E p) Q R s'"
proof -
  define len :: u64 where "len = of_nat (length (inodes (world s) i))"
  let ?s2 = "\<lambda>k. s'\<lparr>tick := k, committed_end := len, pack_end := len,
      maps := (maps s')[p := (map_at s' p)\<lparr>m_size := len\<rparr>], batch_bytes := 0\<rparr>"
  have len: "unat len = length (inodes (world s) i)"
    using idle by (simp add: len_def idle_inv_def files_ok_unat)
  have "Q () (?s2 k)" for k
  proof -
    let ?m = "s'\<lparr>tick := k, maps := (maps s')[p := (map_at s' p)\<lparr>m_size := len\<rparr>]\<rparr>"
    have "mapped g s' ?m"
      using idle' p len w by (intro mapped_set_size) (simp_all add: idle_inv_def)
    from idle_mapped [OF idle' this] have idle2: "idle_inv E g i (?s2 k)"
      by (rule idle_same [where x = "flock_owner (world s')"]) simp_all
    have at: "batch_at E (?s2 k) t g i p"
      using p idle len t w
      by (simp add: batch_at_def idle_inv_def live_pack_def committed_tables_def map_at_def)
    have t2: "batch_txn E (?s2 k) = Some t" "wtxn (?s2 k) = Some t"
      using t by (simp_all add: batch_txn_Some)
    have "same_store E s (?s2 k)"
      by (rule begin_same_store [OF at t2(1) idle none t(3)]) (simp_all add: w more)
    moreover have "cas_inv E (?s2 k)"
      using idle2 at t2 by (auto simp: cas_inv_idle batch_inv_def)
    ultimately show ?thesis using t2 by (intro Q) simp_all
  qed
  then show ?thesis
    unfolding batch_ends_def set_map_size_def
    by (intro wp_rules platform_okD(3) [OF ok] R) (simp_all add: p(4) w len_def)
qed

lemma wp_begin_batch:
  assumes ok: "platform_ok E" and inv: "cas_inv E s" and none: "wtxn s = None"
    and Q: "\<And>s'. cas_inv E s' \<Longrightarrow> batch_txn E s' \<noteq> None \<Longrightarrow> same_store E s s' \<Longrightarrow> Q () s'"
    and R: "\<And>e s'. io_exn e \<Longrightarrow> cas_inv E s' \<Longrightarrow> wtxn s' = None \<Longrightarrow> same_store E s s' \<Longrightarrow> R e s'"
  shows "wp (begin_batch E) Q R s"
proof -
  obtain g i where idle: "idle_inv E g i s" using inv by (auto simp: cas_inv_idle)
  note q = platform_okD(3) [OF ok]
  let ?C = "\<lambda>e. wp (drop_batch E e) Q R"
  let ?s0 = "\<lambda>n. s\<lparr>world := (world s)\<lparr>flock_owner := Some (self E)\<rparr>, tick := n\<rparr>"
  let ?s1 = "\<lambda>n t. (?s0 n)\<lparr>wtxn := Some t, wtxn_freed := False, writer_thread := thread E\<rparr>"
  have drop: "?C e s'" if "io_exn e" "idle_inv E g i s'" "cas.more s' = cas.more s"
    "world s' = (world s)\<lparr>flock_owner := Some (self E)\<rparr>" for e s'
    by (rule wp_drop_batch [OF ok that(2) none that(4,3)]) (rule R [OF that(1)])
  have idle0: "idle_inv E g i (?s0 n)" and idle1: "idle_inv E g i (?s1 n t)" for n t
    by (rule idle_same [OF idle]; simp)+
  have early: "?C e ((?s0 n)\<lparr>tick := n'\<rparr>)" "?C e ((?s1 n t)\<lparr>tick := n'\<rparr>)" "?C e (?s1 n t)" if "io_exn e" for e n n' t
    using idle0 idle1 by (intro drop that; simp)+
  have mapping: "wp (bindE (mapping_for E g True) (\<lambda>r. bindE (deref r) (batch_ends E))) Q ?C (?s1 n t)"
    if t: "mdb_table E t = committed_tables E s" for n t
  proof (unfold wp_bindE, rule wp_mapping_for_idle [OF q idle1])
    fix p s'
    assume m: "mapped g (?s1 n t) s'" and p: "cur s' = Some p" "p < length (maps s')"
      "m_gen (map_at s' p) = g" "m_fd (map_at s' p) = i"
    note f = mapped_fields [OF m]
    have "wp (batch_ends E p) Q ?C s'"
      by (rule wp_batch_ends [where s = s and s' = s' and Q = Q and t = t,
            OF ok idle none idle_mapped [OF idle1 m] _ _ p _ _ t])
        (use f idle_mapped [OF idle1 m] in \<open>auto simp: batch_txn_Some intro: drop Q\<close>)
    then show "wp (deref (Some p)) (\<lambda>p. wp (batch_ends E p) Q ?C) ?C s'"
      by (simp add: deref_def wp_ret)
  qed (rule early)
  have gen: "table_gen (committed_tables E s) = Some g"
    using idle_live [OF idle] by (simp add: committed_tables_def live_pack_def)
  have start: "wp (thenE (modS (\<lambda>s. s\<lparr>wtxn := Some t, wtxn_freed := False, writer_thread := thread E\<rparr>))
      (bindE (liftE (read_gen E t)) (\<lambda>gen. bindE (mapping_for E gen True)
        (\<lambda>r. bindE (deref r) (batch_ends E))))) Q ?C ((?s0 n)\<lparr>tick := n'\<rparr>)"
    if t: "mdb_table E t = committed_tables E s" for t n n'
  proof (intro wp_thenE_I wp_modS_I wp_bindE_I [of "liftE _"] wp_read_gen [OF platform_okD(2) [OF ok]])
    show "table_gen (mdb_table E t) = Some g" using gen t by simp
  qed (use mapping [OF t] early in simp_all)
  show ?thesis
    unfolding begin_batch_def wp_thenE wp_tryE wp_bindE [of "txn_begin E"]
  proof (rule wp_lock_writer [OF q], rule wp_txn_begin [OF ok])
    fix n e
    assume "io_exn e"
    then show "R e (s\<lparr>tick := n\<rparr>)"
      using inv none by (intro R)
        (auto intro!: same_store_closed simp: batch_txn_None intro: exI [of _ "flock_owner (world s)"])
  qed (use start early in \<open>simp_all add: committed_tables_def wp_thenE\<close>)
qed

section \<open>Committing\<close>

lemma map_ok_env [simp]: "map_ok (w\<lparr>mdb_env := x\<rparr>) m = map_ok w m"
  by (simp add: map_ok_def find_inode_def)

lemma maps_inv_env [simp]: "maps_inv (w\<lparr>mdb_env := x\<rparr>) ms c rs = maps_inv w ms c rs"
  by (simp add: maps_inv_def)

lemma files_ok_env [simp]: "files_ok (w\<lparr>mdb_env := x\<rparr>) = files_ok w"
  by (simp add: files_ok_def)

text \<open>A commit of the batch moves the committed index to the batch's.\<close>

lemma idle_commit:
  assumes "idle_inv E g i s" and "batch_at E s t g i p"
    and "world s' = (world s)\<lparr>mdb_env := e', flock_owner := x\<rparr>" and "mdb_committed E e' = mdb_table E t"
    and "maps s' = maps s" and "cur s' = cur s" and "retired s' = retired s"
  shows "idle_inv E g i s'"
proof -
  have "index_ok E (inodes (world s) i) (mdb_table E t Blobs)"
    using assms(2) by (auto simp: batch_at_def intro: index_ok_prefix [OF _ prefix_take])
  with assms show ?thesis
    by (simp add: idle_defs live_pack_def find_inode_def batch_at_def)
qed

text \<open>How a commit can fail: before LMDB commits nothing has changed; when LMDB fails the
  transaction is freed and nothing is committed; when the sync behind it fails the batch is
  committed.\<close>

definition commit_failed :: "('e, 't) platform \<Rightarrow> ('e, 't, 'z) cas_scheme \<Rightarrow> ('e, 't, 'z) cas_scheme \<Rightarrow> bool" where
  "commit_failed E s s' \<longleftrightarrow> cas.more s' = cas.more s \<and>
     (cas_inv E s' \<and> same_store E s s' \<and> wtxn s' = wtxn s
    \<or> wtxn_freed s' \<and> committed_view E (world s') = committed_view E (world s)
    \<or> cas_inv E s' \<and> wtxn s' = None \<and> committed_view E (world s') = batch_view E s)"

definition committed :: "('e, 't) platform \<Rightarrow> ('e, 't, 'z) cas_scheme \<Rightarrow> ('e, 't, 'z) cas_scheme \<Rightarrow> bool" where
  "committed E s s' \<longleftrightarrow> cas_inv E s' \<and> wtxn s' = None \<and> cas.more s' = cas.more s \<and>
     committed_view E (world s') = batch_view E s \<and>
     (\<forall>t. wtxn s = Some t \<longrightarrow> committed_tables E s' = mdb_table E t)"

lemma idle_committed:
  assumes "idle_inv E g i s'" and "wtxn s' = None" and "wtxn s = Some t" and "batch_at E s t g i p"
    and "inodes (world s') = inodes (world s)" and "mdb_committed E (mdb_env (world s')) = mdb_table E t"
    and "cas.more s' = cas.more s"
  shows "committed E s s'"
  using assms committed_view_live [OF idle_live [OF assms(1)]]
  by (auto simp: committed_def committed_tables_def batch_view_at intro: idle_cas_inv)

text \<open>Setting the size of the batch's mapping when it ends.\<close>

lemma idle_set_size:
  assumes "idle_inv E g i s" and "p < length (maps s)" and "m_fd (map_at s p) = i"
    and "unat n \<le> length (inodes (world s) i)"
  shows "idle_inv E g i (s\<lparr>maps := (maps s)[p := (map_at s p)\<lparr>m_size := n\<rparr>]\<rparr>)"
  using assms mapped_set_size [of s g p n "tick s"]
  by (intro idle_mapped [OF assms(1)]) (simp add: idle_inv_def)

lemma wp_set_map_size [wp_rules]:
  "Q () (s\<lparr>maps := (maps s)[p := (map_at s p)\<lparr>m_size := n\<rparr>]\<rparr>) \<Longrightarrow> wp (set_map_size p n) Q R s"
  by (simp add: set_map_size_def wp_simps)

lemma wp_current:
  "cur s = Some p \<Longrightarrow> Q p s \<Longrightarrow> wp current Q R s"
  by (simp add: current_def deref_def wp_simps)

lemma batch_at_less: "cas_inv E s \<Longrightarrow> batch_at E s t g i p \<Longrightarrow> p < length (maps s)"
  by (auto simp: batch_at_def dest!: cas_inv_maps maps_inv_cur(1) [OF handle_maps_inv_def [THEN iffD1]])

lemma idle_less: "idle_inv E g i s \<Longrightarrow> cur s = Some p \<Longrightarrow> p < length (maps s)"
  by (auto simp: idle_inv_def handle_maps_inv_def maps_inv_def)

lemma wp_txn_commit:
  assumes ok: "platform_ok E"
    and "\<And>res e' n. mdb_committed E e' = (if res = MDB_SUCCESS then mdb_table E t
        else mdb_committed E (mdb_env (world s))) \<Longrightarrow>
      Q res (s\<lparr>tick := n, world := (world s)\<lparr>mdb_env := e'\<rparr>\<rparr>)"
  shows "wp (txn_commit E t) Q R s"
  unfolding txn_commit_def
  using assms(2) lmdb_envD(1) [OF platform_okD(2) [OF ok]]
  by (intro wp_rules platform_okD(3) [OF ok]) (simp add: wp_def split: prod.split)

lemma wp_env_sync:
  assumes "quiet E" and "\<And>n. Q () (s\<lparr>tick := n\<rparr>)" and "\<And>n e. io_exn e \<Longrightarrow> R e (s\<lparr>tick := n\<rparr>)"
  shows "wp (env_sync E) Q R s"
  unfolding env_sync_def by (intro wp_rules assms)

lemma idle_done:
  assumes "idle_inv E g i s" and "cur s = Some p" and "m_fd (map_at s p) = i"
    and "unat (pack_end s) \<le> length (inodes (world s) i)"
    and "world s' = (world s)\<lparr>flock_owner := x\<rparr>" and "cur s' = cur s" and "retired s' = retired s"
    and "maps s' = (maps s)[p := (map_at s p)\<lparr>m_size := pack_end s\<rparr>]"
  shows "idle_inv E g i s'"
  by (rule idle_same [OF idle_set_size [OF assms(1) idle_less [OF assms(1,2)] assms(3,4)]])
    (use assms in simp_all)

lemma wp_commit_batch:
  assumes ok: "platform_ok E" and inv: "cas_inv E s" and t: "wtxn s = Some t"
    and Q: "\<And>s'. committed E s s' \<Longrightarrow> Q () s'"
    and R: "\<And>e s'. io_exn e \<Longrightarrow> commit_failed E s s' \<Longrightarrow> R e s'"
  shows "wp (commit_batch E) Q R s"
proof -
  note q = platform_okD(3) [OF ok]
  obtain g i where idle: "idle_inv E g i s" and b: "batch_inv E s g i"
    using inv by (auto simp: cas_inv_idle)
  from b t obtain p where at: "batch_at E s t g i p" by (auto simp: batch_inv_def)
  then have p: "cur s = Some p" "m_fd (map_at s p) = i" "unat (pack_end s) \<le> length (inodes (world s) i)"
    by (simp_all add: batch_at_def)
  let ?c = "\<lambda>n e'. s\<lparr>world := (world s)\<lparr>mdb_env := e'\<rparr>, wtxn := None, wtxn_freed := False, tick := n\<rparr>"
  have idle1: "idle_inv E g i (?c n e')" if "mdb_committed E e' = mdb_table E t" for n e'
    by (rule idle_commit [OF idle at, where x = "flock_owner (world s)" and e' = e']) (simp_all add: that)
  have fin: "wp (batch_done E p) Q R (?c n e')" if e': "mdb_committed E e' = mdb_table E t" for n e'
  proof -
    have "Q () s'"
      if "world s' = (world s)\<lparr>mdb_env := e', flock_owner := y\<rparr>" "wtxn s' = None" "cur s' = cur s"
        "retired s' = retired s" "maps s' = (maps s)[p := (map_at s p)\<lparr>m_size := pack_end s\<rparr>]"
        "cas.more s' = cas.more s" for s' y
    proof -
      have "idle_inv E g i s'"
        by (rule idle_done [OF idle1 [OF e'], where x = y]) (simp_all add: p that)
      then show ?thesis
        by (intro Q idle_committed [OF _ that(2) t at]) (simp_all add: e' that)
    qed
    from this [where y = "flock_owner (world s)"] this [where y = None] show ?thesis
      unfolding batch_done_def by (intro wp_rules q) simp_all
  qed
  have unsynced: "R e (?c n e')" if "io_exn e" "mdb_committed E e' = mdb_table E t" for e n e'
    using idle_committed [OF idle1 [OF that(2)] _ t at] that
    by (intro R) (simp_all add: commit_failed_def committed_def)
  have freed: "R e (s\<lparr>tick := n, world := (world s)\<lparr>mdb_env := e'\<rparr>, wtxn_freed := True\<rparr>)"
    if "io_exn e" "mdb_committed E e' = mdb_committed E (mdb_env (world s))" for e n e'
    using that by (intro R)
      (simp_all add: commit_failed_def committed_view_def find_inode_def cong: option.case_cong)
  have early: "R e (s\<lparr>tick := n\<rparr>)" if "io_exn e" for e n
    using inv mapped_same_store [OF inv idle_live [OF idle]] idle
    by (intro R [OF that]) (simp_all add: commit_failed_def idle_inv_def)
  show ?thesis
    unfolding commit_batch_def
  proof (intro wp_rules q wp_current [OF p(1)])
    fix err n e
    assume "io_exn e"
    then show "R e (s\<lparr>tick := n\<rparr>)" by (rule early)
  next
    fix n
    show "wp use_batch (\<lambda>t. wp (bindE (txn_commit E t) (\<lambda>res.
        thenE (modS (\<lambda>s. s\<lparr>wtxn_freed := True\<rparr>)) (thenE (mdb_check E res ''txn_commit'')
        (thenE (modS (\<lambda>s. s\<lparr>wtxn := None, wtxn_freed := False\<rparr>))
        (thenE (env_sync E) (batch_done E p)))))) Q R) R (s\<lparr>tick := n\<rparr>)"
      by (rule wp_use_batch [where t = t and E = E]; (intro wp_rules wp_txn_commit [OF ok] wp_env_sync [OF q])?)
        (simp_all add: inv t unsynced fin freed)
  qed
qed

section \<open>Aborting\<close>

text \<open>Cutting the pack back to its committed end.\<close>

lemma idle_truncated:
  assumes idle: "idle_inv E g i s" and at: "batch_at E s t g i p"
    and w: "world s' = (set_inode i (take (unat (committed_end s)) (inodes (world s) i)) (world s))\<lparr>flock_owner := y\<rparr>"
    and ms: "maps s' = (maps s)[p := (map_at s p)\<lparr>m_size := committed_end s\<rparr>]"
    and rest: "cur s' = cur s" "retired s' = retired s"
  shows "idle_inv E g i s'"
proof -
  let ?c = "take (unat (committed_end s)) (inodes (world s) i)"
  have p: "p < length (maps s)" "m_fd (map_at s p) = i" "unat (committed_end s) \<le> length (inodes (world s) i)"
    using idle at idle_less [OF idle] by (auto simp: batch_at_def)
  have inv: "maps_inv (world s) (maps s) (cur s) (retired s)"
    using idle by (simp add: idle_inv_def handle_maps_inv_def)
  have "idle_inv E g i (s\<lparr>maps := maps s'\<rparr>)"
    using idle_set_size [OF idle p(1,2)] p(3) by (simp add: ms)
  then have inv': "maps_inv (world s) (maps s') (cur s) (retired s)" and below: "maps_below g s'"
    by (simp_all add: idle_defs)
  have "map_ok (set_inode i ?c (world s)) m" if m: "m \<in> set (maps s')" for m
  proof (cases "m_fd m = i")
    case True
    from m obtain q where q: "q < length (maps s')" "m = maps s' ! q"
      by (auto simp: in_set_conv_nth)
    have fds: "distinct (map m_fd (maps s'))" using inv' by (simp add: maps_inv_def)
    have "m_fd (maps s' ! p) = i" "p < length (maps s')"
      using p by (simp_all add: ms map_at_def)
    then have "q = p" using fds q True by (auto simp: distinct_conv_nth)
    with q p have "m_size m = committed_end s" by (simp add: ms)
    moreover have "map_ok (world s) m" using inv' m by (simp add: maps_inv_def)
    ultimately show ?thesis using p(3) True by (simp add: map_ok_def)
  next
    case False
    then show ?thesis using inv' m by (simp add: maps_inv_def map_ok_def)
  qed
  then have "maps_inv (set_inode i ?c (world s)) (maps s') (cur s) (retired s)"
    using inv' by (simp add: maps_inv_def)
  moreover have "files_ok (set_inode i ?c (world s))"
    using idle by (intro files_ok_set_inode) (simp_all add: idle_inv_def files_ok_length min.coboundedI1)
  ultimately show ?thesis
    using idle at below by (simp add: idle_inv_def w handle_maps_inv_def rest live_pack_def
        batch_at_def find_inode_def set_inode_def)
qed

lemma truncated_view:
  assumes "batch_at E s t g i p" and "idle_inv E g i s" and "idle_inv E g i s'"
    and "world s' = (set_inode i (take (unat (committed_end s)) (inodes (world s) i)) (world s))\<lparr>flock_owner := y\<rparr>"
  shows "committed_view E (world s') = committed_view E (world s)"
proof -
  have "index_ok E (take (unat (committed_end s)) (inodes (world s) i)) (mdb_committed E (mdb_env (world s)) Blobs)"
    using assms(1) by (simp add: batch_at_def)
  from index_view_prefix [OF this prefix_take] show ?thesis
    using committed_view_live [OF idle_live [OF assms(2)]] committed_view_live [OF idle_live [OF assms(3)]]
    by (simp add: assms(4) set_inode_def)
qed

text \<open>What an abort leaves: the committed store and no batch, whatever failed on the way.\<close>

definition aborted :: "('e, 't) platform \<Rightarrow> ('e, 't, 'z) cas_scheme \<Rightarrow> ('e, 't, 'z) cas_scheme \<Rightarrow> bool" where
  "aborted E s s' \<longleftrightarrow> cas_inv E s' \<and> wtxn s' = None \<and> cas.more s' = cas.more s \<and>
     committed_tables E s' = committed_tables E s \<and>
     committed_view E (world s') = committed_view E (world s)"

lemma aborted_truncated:
  assumes "idle_inv E g i s" and "batch_at E s t g i p"
    and "\<exists>y. world s' = (set_inode i (take (unat (committed_end s)) (inodes (world s) i)) (world s))\<lparr>flock_owner := y\<rparr>"
    and "maps s' = (maps s)[p := (map_at s p)\<lparr>m_size := committed_end s\<rparr>]"
    and "cur s' = cur s" and "retired s' = retired s" and "wtxn s' = None" and "cas.more s' = cas.more s"
  shows "aborted E s s'"
proof -
  from assms(3) obtain y where y: "world s' = (set_inode i (take (unat (committed_end s))
      (inodes (world s) i)) (world s))\<lparr>flock_owner := y\<rparr>" by blast
  have "idle_inv E g i s'" by (rule idle_truncated [OF assms(1,2) y assms(4-6)])
  with assms truncated_view [OF assms(2,1) this y] show ?thesis
    by (auto simp: aborted_def committed_tables_def intro: idle_cas_inv)
qed

lemma aborted_kept:
  assumes "idle_inv E g i s" and "batch_at E s t g i p"
    and "\<exists>y. world s' = (world s)\<lparr>flock_owner := y\<rparr>"
    and "maps s' = (maps s)[p := (map_at s p)\<lparr>m_size := pack_end s\<rparr>]"
    and "cur s' = cur s" and "retired s' = retired s" and "wtxn s' = None" and "cas.more s' = cas.more s"
  shows "aborted E s s'"
proof -
  from assms(3) obtain y where y: "world s' = (world s)\<lparr>flock_owner := y\<rparr>" by blast
  have "idle_inv E g i s'"
    by (rule idle_done [OF assms(1) _ _ _ y assms(5,6,4)]) (use assms(2) in \<open>simp_all add: batch_at_def\<close>)
  with assms show ?thesis
    by (auto simp: aborted_def committed_tables_def intro: idle_cas_inv)
qed

lemma wp_cut_pack:
  assumes ok: "platform_ok E" and idle: "idle_inv E g i s" and at: "batch_at E s t g i p"
    and Q: "\<And>s'. aborted E s s' \<Longrightarrow> Q () s'"
  shows "wp (cut_pack E p) Q R (s\<lparr>wtxn := None\<rparr>)"
proof -
  note q = platform_okD(3) [OF ok]
  have p: "m_fd (map_at s p) = i" "unat (committed_end s) \<le> length (inodes (world s) i)"
    using at by (simp_all add: batch_at_def)
  have cut: "take (unat (committed_end s)) (inodes (world s) i) @
      replicate (unat (committed_end s) - length (inodes (world s) i)) (CHR 0x00) =
      take (unat (committed_end s)) (inodes (world s) i)"
    using p(2) by simp
  have kept: "wp (thenE (case Inl err of Inr _ \<Rightarrow> modS (\<lambda>s. s\<lparr>pack_end := committed_end s\<rparr>) | Inl _ \<Rightarrow> ret ())
      (thenE (bindE (readS pack_end) (set_map_size p)) (unlock_writer E))) Q R (s\<lparr>wtxn := None, tick := n\<rparr>)"
    for err :: errno and n
    by (unfold sum.case, intro wp_rules q; intro Q aborted_kept [OF idle at]) simp_all
  have truncated: "wp (thenE (case Inr () of Inr _ \<Rightarrow> modS (\<lambda>s. s\<lparr>pack_end := committed_end s\<rparr>) | Inl _ \<Rightarrow> ret ())
      (thenE (bindE (readS pack_end) (set_map_size p)) (unlock_writer E))) Q R (s\<lparr>wtxn := None, tick := n,
      world := set_inode i (take (unat (committed_end s)) (inodes (world s) i)) (world s)\<rparr>)" for n
    by (unfold sum.case, intro wp_rules q; intro Q aborted_truncated [OF idle at]) simp_all
  show ?thesis
    unfolding cut_pack_def wp_bindE wp_readS
    by (rule wp_sys_ftruncate [OF q]) (use kept truncated in \<open>simp_all add: p(1) cut wp_bindE\<close>)
qed

lemma wp_abort_batch:
  assumes ok: "platform_ok E" and inv: "cas_inv E s" and t: "wtxn s = Some t"
    and Q: "\<And>s'. aborted E s s' \<Longrightarrow> Q () s'"
  shows "wp (abort_batch E) Q R s"
proof -
  obtain g i where idle: "idle_inv E g i s" and b: "batch_inv E s g i"
    using inv by (auto simp: cas_inv_idle)
  from b t obtain p where at: "batch_at E s t g i p" by (auto simp: batch_inv_def)
  then have p: "cur s = Some p" by (simp add: batch_at_def)
  have "wp (cut_pack E p) Q R (s\<lparr>wtxn := None\<rparr>)"
    by (rule wp_cut_pack [OF ok idle at]) (rule Q)
  then show ?thesis
    unfolding abort_batch_def
    by (intro wp_thenE_I wp_use_batch [OF inv t] wp_modS_I wp_bindE_I wp_current) (simp_all add: p)
qed

lemma wp_sync:
  assumes ok: "platform_ok E" and inv: "cas_inv E s"
    and Q: "\<And>s'. wtxn s = None \<Longrightarrow> s' = s \<Longrightarrow> Q () s'" "\<And>s'. wtxn s \<noteq> None \<Longrightarrow> committed E s s' \<Longrightarrow> Q () s'"
    and R: "\<And>e s'. io_exn e \<Longrightarrow> commit_failed E s s' \<Longrightarrow> R e s'"
  shows "wp (sync E) Q R s"
  unfolding sync_def wp_bindE wp_readS wp_whenE
  using Q R wp_commit_batch [OF ok inv] by (cases "wtxn s") auto

lemma wp_destroy:
  assumes ok: "platform_ok E" and inv: "cas_inv E s"
    and Q: "\<And>s'. committed_tables E s' = committed_tables E s \<Longrightarrow>
      committed_view E (world s') = committed_view E (world s) \<Longrightarrow> world_inv E (world s') \<Longrightarrow> Q () s'"
  shows "wp (destroy E) Q R s"
proof -
  have world_inv_flock: "world_inv E (w\<lparr>flock_owner := x\<rparr>) = world_inv E w" for w x
    by (simp add: world_inv_def)
  have *: "Q () (s'\<lparr>retired := [], cur := None, world := (if flock_owner (world s') = Some (self E)
        then (world s')\<lparr>flock_owner := None\<rparr> else world s')\<rparr>)"
    if "cas_inv E s'" "committed_tables E s' = committed_tables E s"
      "committed_view E (world s') = committed_view E (world s)" for s'
    using that by (intro Q) (simp_all add: cas_inv_def committed_tables_def world_inv_flock)
  show ?thesis
  proof (cases "wtxn s")
    case None
    with * [OF inv] show ?thesis by (simp add: destroy_def wp_simps)
  next
    case (Some t)
    have "wp (abort_batch E) (\<lambda>_. wp (modS (\<lambda>s. s\<lparr>retired := [], cur := None,
        world := (if flock_owner (world s) = Some (self E)
        then (world s)\<lparr>flock_owner := None\<rparr> else world s)\<rparr>)) Q R) R s"
      by (rule wp_abort_batch [OF ok inv Some], unfold aborted_def wp_modS, rule *) simp_all
    with Some show ?thesis by (simp add: destroy_def wp_thenE wp_bindE wp_readS wp_whenE)
  qed
qed

end
