(* ===== verification/Pack_Put.thy ===== *)
theory Pack_Put
  imports Pack_Batch
begin

text \<open>
  \<open>put\<close>: the blob is in the store afterwards and everything else is as it was, on the path
  that finds it stored already, on the one that appends it to the batch, and on the one where the
  batch has grown so large that it is committed at once; if a call fails the store is as it was or
  has the blob too, unless LMDB's own commit failed.
\<close>

section \<open>Writing behind the end of the batch\<close>

lemma index_ok_same_prefix:
  assumes "index_ok E (take n c) tbl" and "take n c' = take n c"
  shows "index_ok E c' tbl" and "index_view E c' tbl = index_view E c tbl"
proof -
  have "index_ok E (take n c') tbl" using assms by simp
  then show "index_ok E c' tbl" by (rule index_ok_prefix [OF _ prefix_take])
  show "index_view E c' tbl = index_view E c tbl"
    using index_view_prefix [OF assms(1) prefix_take] index_view_prefix [OF \<open>index_ok E (take n c') tbl\<close> prefix_take]
      assms(2) by simp
qed

lemma map_ok_grown:
  assumes "map_ok w m" and "length (inodes w i) \<le> length c"
  shows "map_ok (set_inode i c w) m"
  using assms by (auto simp: map_ok_def)

lemma take_shorter: "take n c = take n d \<Longrightarrow> k \<le> n \<Longrightarrow> take k c = take k d"
  by (metis min.absorb1 take_take)

lemma written_behind:
  assumes idle: "idle_inv E g i s" and at: "batch_at E s t g i p"
    and c: "take (unat (pack_end s)) c = take (unat (pack_end s)) (inodes (world s) i)"
      "length (inodes (world s) i) \<le> length c" "length c \<le> max_off"
    and s': "s' = s\<lparr>tick := n, world := set_inode i c (world s)\<rparr>"
  shows "idle_inv E g i s'" and "batch_at E s' t g i p"
    and "committed_view E (world s') = committed_view E (world s)"
    and "wtxn s = Some t \<Longrightarrow> batch_view E s' = batch_view E s"
proof -
  have c': "take (unat (committed_end s)) c = take (unat (committed_end s)) (inodes (world s) i)"
    by (rule take_shorter [OF c(1)]) (use at in \<open>simp add: batch_at_def\<close>)
  note com = index_ok_same_prefix [OF _ c', of E "mdb_committed E (mdb_env (world s)) Blobs"]
  note bat = index_ok_same_prefix [OF _ c(1), of E "mdb_table E t Blobs"]
  have ms: "maps_inv (set_inode i c (world s)) (maps s) (cur s) (retired s)"
    using idle c(2) by (auto simp: idle_inv_def handle_maps_inv_def maps_inv_def intro: map_ok_grown)
  show i': "idle_inv E g i s'"
    using idle at com(1) c(3) ms
    by (simp add: idle_defs batch_at_def live_pack_def s')
  show at': "batch_at E s' t g i p"
    using at c c' by (simp add: batch_at_def s')
  show "committed_view E (world s') = committed_view E (world s)"
    using committed_view_live [OF idle_live [OF idle]] committed_view_live [OF idle_live [OF i']] at com(2)
    by (simp add: batch_at_def s')
  show "batch_view E s' = batch_view E s" if "wtxn s = Some t"
    using batch_view_at [OF at that] batch_view_at [OF at'] that at bat(2)
    by (simp add: batch_at_def s')
qed

text \<open>The index record and the new end of the pack.\<close>

lemma batch_extended:
  assumes ok: "platform_ok E" and at: "batch_at E s t g i p" and files: "files_ok (world s)"
    and tbl: "mdb_table E t' = (mdb_table E t)(Blobs := (mdb_table E t Blobs)(blake3 E data \<mapsto>
        encode_entry (entry_for (pack_end s) (stored_form E data) data)))"
    and c: "take (unat (pack_end s) + length (stored_form E data)) c =
        take (unat (pack_end s)) (inodes (world s) i) @ stored_form E data"
      "unat (pack_end s) + length (stored_form E data) \<le> length c" "length c \<le> max_off"
    and len: "length data \<le> max_off"
    and s': "world s' = set_inode i c (world s)" "pack_end s' = pack_end s + of_nat (length (stored_form E data))"
      "wtxn_freed s' = wtxn_freed s" "cur s' = cur s" "maps s' = maps s" "committed_end s' = committed_end s"
  shows "batch_at E s' t' g i p"
    and "index_view E c (mdb_table E t' Blobs) =
      (index_view E (inodes (world s) i) (mdb_table E t Blobs))(blake3 E data \<mapsto> data)"
proof -
  let ?st = "stored_form E data"
  let ?old = "take (unat (pack_end s)) (inodes (world s) i)"
  let ?val = "encode_entry (entry_for (pack_end s) ?st data)"
  note lz4 = platform_okD(1) [OF ok]
  have old: "length ?old = unat (pack_end s)" using at by (simp add: batch_at_def)
  have end': "unat (pack_end s') = unat (pack_end s) + length ?st"
    using c(2,3) unfolding s'(2) by (intro unat_add_max_off) simp
  have "unat (pack_end s) \<le> max_off"
    using at files_ok_length [OF files, of i] by (simp add: batch_at_def)
  then have "length ?old + length data < 2 ^ 64" using len unfolding old by (simp add: max_off_def)
  from entry_blob_appended [OF lz4 this]
  have "entry_blob E (?old @ ?st) (encode_entry (entry_for (of_nat (length ?old)) ?st data)) = Some data" .
  then have blob: "entry_blob E (?old @ ?st) ?val = Some data" unfolding old by simp
  have ok_old: "index_ok E ?old (mdb_table E t Blobs)" using at by (simp add: batch_at_def)
  have pre: "prefix ?old (?old @ ?st)" by simp
  have new: "index_ok E (?old @ ?st) (mdb_table E t' Blobs)"
    unfolding tbl fun_upd_same
    by (rule index_ok_update [OF ok_old pre _ blob refl]) (simp add: kHashLen_def platform_okD(4) [OF ok])
  then have new': "index_ok E (take (unat (pack_end s')) c) (mdb_table E t' Blobs)"
    by (simp add: end' c(1))
  have ce: "unat (committed_end s) \<le> unat (pack_end s)" using at by (simp add: batch_at_def)
  have "take (unat (pack_end s)) c = ?old"
    using arg_cong [OF c(1), of "take (unat (pack_end s))"] old by simp
  then have "take (unat (committed_end s)) c = take (unat (committed_end s)) (inodes (world s) i)"
    using ce by (rule take_shorter)
  with at new' show "batch_at E s' t' g i p"
    using ce c end' by (simp add: batch_at_def s' tbl table_gen_def map_at_def)
  have "index_view E c (mdb_table E t' Blobs) = index_view E (?old @ ?st) (mdb_table E t' Blobs)"
    using index_view_prefix [OF new' prefix_take] by (simp add: end' c(1))
  also have "\<dots> = (index_view E ?old (mdb_table E t Blobs))(blake3 E data \<mapsto> data)"
    unfolding tbl fun_upd_same by (rule index_view_update [OF ok_old pre blob])
  also have "index_view E ?old (mdb_table E t Blobs) = index_view E (inodes (world s) i) (mdb_table E t Blobs)"
    by (rule index_view_prefix [OF ok_old prefix_take, symmetric])
  finally show "index_view E c (mdb_table E t' Blobs) =
      (index_view E (inodes (world s) i) (mdb_table E t Blobs))(blake3 E data \<mapsto> data)" .
qed

section \<open>\<open>put\<close>\<close>

text \<open>The handle's batch, if it has one, was opened by the calling thread.\<close>

definition own_batch :: "('e, 't) platform \<Rightarrow> ('e, 't, 'z) cas_scheme \<Rightarrow> bool" where
  "own_batch E s \<longleftrightarrow> (wtxn s \<noteq> None \<longrightarrow> writer_thread s = thread E)"

lemma own_batchI: "batch_txn E s \<noteq> None \<Longrightarrow> own_batch E s"
  by (auto simp: own_batch_def batch_txn_Some)

text \<open>A blob is added unless its hash is there already.\<close>

definition put_done ::
  "('e, 't) platform \<Rightarrow> bytes \<Rightarrow> ('e, 't, 'z) cas_scheme \<Rightarrow> ('e, 't, 'z) cas_scheme \<Rightarrow> bool" where
  "put_done E d s s' \<longleftrightarrow> cas_inv E s' \<and> own_batch E s' \<and> cas.more s' = cas.more s \<and>
     store_view E s' = [blake3 E d \<mapsto> d] ++ store_view E s \<and>
     reader_table E s' Meta = reader_table E s Meta"

definition put_failed ::
  "('e, 't) platform \<Rightarrow> bytes \<Rightarrow> ('e, 't, 'z) cas_scheme \<Rightarrow> ('e, 't, 'z) cas_scheme \<Rightarrow> bool" where
  "put_failed E d s s' \<longleftrightarrow> cas.more s' = cas.more s \<and>
     (cas_inv E s' \<and> (store_view E s' = store_view E s \<or> store_view E s' = [blake3 E d \<mapsto> d] ++ store_view E s)
    \<or> wtxn_freed s' \<and> committed_view E (world s') = committed_view E (world s))"

lemma store_view_batch: "batch_txn E s \<noteq> None \<Longrightarrow> store_view E s = batch_view E s"
  by (auto simp: store_view_def)

lemma store_view_none: "wtxn s = None \<Longrightarrow> store_view E s = committed_view E (world s)"
  by (simp add: store_view_def batch_txn_None)

lemma reader_table_batch: "batch_txn E s = Some t \<Longrightarrow> reader_table E s = mdb_table E t"
  by (simp add: reader_table_def)

lemma put_done_committed:
  assumes "put_done E d s s1" and "batch_txn E s1 = Some t" and "committed E s1 s2"
  shows "put_done E d s s2"
  using assms by (simp add: put_done_def committed_def store_view_none store_view_batch
      reader_table_idle batch_txn_None own_batch_def) (simp add: reader_table_def batch_txn_Some)

lemma put_failed_commit:
  assumes "put_done E d s s1" and "batch_txn E s1 = Some t" and "commit_failed E s1 s2"
    and "committed_view E (world s1) = committed_view E (world s)"
  shows "put_failed E d s s2"
  using assms by (auto simp: put_done_def put_failed_def commit_failed_def same_store_def
      store_view_none store_view_batch)

lemma wp_auto_sync:
  assumes ok: "platform_ok E" and s1: "put_done E d s s1" "batch_txn E s1 = Some t"
    "committed_view E (world s1) = committed_view E (world s)"
    and Q: "\<And>s'. put_done E d s s' \<Longrightarrow> Q () s'" and R: "\<And>e s'. io_exn e \<Longrightarrow> put_failed E d s s' \<Longrightarrow> R e s'"
  shows "wp (auto_sync E) Q R s1"
proof -
  have inv: "cas_inv E s1" using s1(1) by (simp add: put_done_def)
  have "wp (sync E) Q R s1"
    by (rule wp_sync [OF ok inv])
      (use Q [OF s1(1)] Q [OF put_done_committed [OF s1(1,2)]] R [OF _ put_failed_commit [OF s1(1,2) _ s1(3)]] in auto)
  with Q [OF s1(1)] show ?thesis by (simp add: auto_sync_def wp_simps)
qed

lemma idle_batch_cas_inv: "idle_inv E g i s \<Longrightarrow> batch_at E s t g i p \<Longrightarrow> wtxn s = Some t \<Longrightarrow> cas_inv E s"
  by (auto simp: cas_inv_idle batch_inv_def)

text \<open>LMDB refused the record: the batch is as it was.\<close>

lemma put_failed_unindexed:
  assumes "idle_inv E g i s'" and "batch_at E s t g i p" and "batch_txn E s = Some t"
    and "batch_at E s' t' g i p" and "batch_txn E s' = Some t'"
    and "mdb_table E t' = mdb_table E t" and "cas.more s' = cas.more s"
    and "index_view E (inodes (world s') i) (mdb_table E t Blobs) = index_view E (inodes (world s) i) (mdb_table E t Blobs)"
  shows "put_failed E d s s'"
  using assms batch_view_at [OF assms(2)] batch_view_at [OF assms(4)] idle_batch_cas_inv [OF assms(1,4)]
  by (simp add: put_failed_def store_view_batch batch_txn_Some)

lemma put_done_indexed:
  assumes "idle_inv E g i s'" and "batch_at E s t g i p" and "batch_txn E s = Some t"
    and "batch_at E s' t' g i p" and "batch_txn E s' = Some t'" and "cas.more s' = cas.more s"
    and "mdb_table E t' Meta = mdb_table E t Meta" and "mdb_table E t Blobs (blake3 E d) = None"
    and "index_view E (inodes (world s') i) (mdb_table E t' Blobs) =
      (index_view E (inodes (world s) i) (mdb_table E t Blobs))(blake3 E d \<mapsto> d)"
  shows "put_done E d s s'"
proof -
  have "index_view E (inodes (world s) i) (mdb_table E t Blobs) (blake3 E d) = None"
    using assms(8) by (simp add: index_view_def)
  then have "store_view E s' = [blake3 E d \<mapsto> d] ++ store_view E s"
    using assms batch_view_at [OF assms(2)] batch_view_at [OF assms(4)]
    by (auto simp: store_view_batch batch_txn_Some map_add_def fun_eq_iff split: option.split)
  moreover have "cas_inv E s'"
    using assms(5) by (intro idle_batch_cas_inv [OF assms(1,4)]) (simp add: batch_txn_Some)
  ultimately show ?thesis
    using assms own_batchI [of E s'] by (simp add: put_done_def reader_table_batch)
qed

lemma wp_index_blob:
  assumes ok: "platform_ok E" and len: "length d \<le> max_off"
    and idle: "idle_inv E g i s" and at: "batch_at E s t g i p" and t: "batch_txn E s = Some t"
    and c: "take (unat (pack_end s) + length (stored_form E d)) c =
        take (unat (pack_end s)) (inodes (world s) i) @ stored_form E d"
      "unat (pack_end s) + length (stored_form E d) \<le> length c" "length c \<le> max_off"
      "length (inodes (world s) i) \<le> length c"
    and Q: "\<And>s'. put_done E d s s' \<Longrightarrow> Q () s'" and R: "\<And>e s'. io_exn e \<Longrightarrow> put_failed E d s s' \<Longrightarrow> R e s'"
  shows "wp (index_blob E (blake3 E d) (entry_for (pack_end s) (stored_form E d) d) (of_nat (length (stored_form E d))))
    Q R (s\<lparr>tick := n, world := set_inode i c (world s)\<rparr>)" (is "wp _ _ _ ?s1")
proof -
  have "take (unat (pack_end s)) c = take (unat (pack_end s)) (inodes (world s) i)"
    using arg_cong [OF c(1), of "take (unat (pack_end s))"] at by (simp add: batch_at_def)
  note w = written_behind [OF idle at this c(4,3) refl, where n = n]
  have t1: "wtxn s = Some t" "wtxn ?s1 = Some t" "batch_txn E ?s1 = Some t"
    using t by (simp_all add: batch_txn_Some)
  have view1: "index_view E c (mdb_table E t Blobs) = index_view E (inodes (world s) i) (mdb_table E t Blobs)"
    using w(4) [OF t1(1)] batch_view_at [OF at t1(1)] batch_view_at [OF w(2) t1(2)] by simp
  let ?val = "encode_entry (entry_for (pack_end s) (stored_form E d) d)"
  obtain res t' where put: "mdb_put E t Blobs (blake3 E d) ?val True = (res, t')" by fastforce
  note tbl = lmdb_writesD(1) [OF platform_okD(2) [OF ok] put]
  have fail: "R e (?s1\<lparr>wtxn := Some t'\<rparr>)" if "io_exn e" "res \<noteq> MDB_SUCCESS" for e
    by (rule R [OF that(1)], rule put_failed_unindexed [OF _ at t, where t' = t'])
      (use w t that tbl view1 in \<open>simp_all add: batch_at_def batch_txn_Some\<close>)
  let ?s2 = "?s1\<lparr>wtxn := Some t', pack_end := pack_end s + of_nat (length (stored_form E d)),
    batch_bytes := batch_bytes s + of_nat (length (stored_form E d))\<rparr>"
  have sync: "wp (auto_sync E) Q R ?s2" if "res = MDB_SUCCESS"
  proof (rule wp_auto_sync [OF ok, where d = d and s = s and t = t'])
    have t2: "batch_txn E ?s2 = Some t'" using t by (simp add: batch_txn_Some)
    note e = batch_extended [OF ok at _ _ c(1-3) len, where s' = ?s2 and t' = t']
    have files: "files_ok (world s)" using idle by (simp add: idle_inv_def)
    have tbl': "mdb_table E t' = (mdb_table E t)(Blobs := (mdb_table E t Blobs)(blake3 E d \<mapsto> ?val))"
      using tbl that by simp
    have new: "mdb_table E t Blobs (blake3 E d) = None"
      using lmdb_put_newD [OF platform_okD(2) [OF ok]] put that by blast
    have at2: "batch_at E ?s2 t' g i p" by (rule e(1) [OF files tbl']) simp_all
    have view2: "index_view E c (mdb_table E t' Blobs) =
        (index_view E (inodes (world s) i) (mdb_table E t Blobs))(blake3 E d \<mapsto> d)"
      by (rule e(2) [OF files tbl']) simp_all
    show "put_done E d s ?s2"
      by (rule put_done_indexed [OF _ at t at2 t2 _ _ new])
        (use w(1) view2 tbl' in simp_all)
    show "batch_txn E ?s2 = Some t'" by (rule t2)
    show "committed_view E (world ?s2) = committed_view E (world s)" using w(3) by simp
  qed (fact Q R)+
  show ?thesis
    unfolding index_blob_def
    by (intro wp_bindE_I wp_use_batch [OF idle_batch_cas_inv [OF w(1,2) t1(2)] t1(2)])
      (use sync fail in \<open>simp add: put wp_thenE wp_modS mdb_check_def wp_whenE wp_throw mdb_exn_def\<close>)
qed

lemma wp_append_blob:
  assumes ok: "platform_ok E" and len: "length d \<le> max_off" and inv: "cas_inv E s"
    and t: "batch_txn E s = Some t"
    and Q: "\<And>s'. put_done E d s s' \<Longrightarrow> Q () s'" and R: "\<And>e s'. io_exn e \<Longrightarrow> put_failed E d s s' \<Longrightarrow> R e s'"
  shows "wp (append_blob E (blake3 E d) d) Q R s"
proof -
  obtain g i where idle: "idle_inv E g i s" and b: "batch_inv E s g i"
    using inv by (auto simp: cas_inv_idle)
  have t': "wtxn s = Some t" using t by (simp add: batch_txn_Some)
  with b obtain p where at: "batch_at E s t g i p" by (auto simp: batch_inv_def)
  then have p: "cur s = Some p" "m_fd (map_at s p) = i" "unat (pack_end s) \<le> length (inodes (world s) i)"
    by (simp_all add: batch_at_def)
  have files: "length (inodes (world s) i) \<le> max_off"
    using idle by (simp add: idle_inv_def files_ok_length)
  have "wp (pwrite_all E i (stored_form E d) (pack_end s)) (\<lambda>_.
      wp (index_blob E (blake3 E d) (entry_for (pack_end s) (stored_form E d) d)
        (of_nat (length (stored_form E d)))) Q R) R s"
  proof (rule wp_pwrite_all [OF platform_okD(3) [OF ok] p(3) files])
    fix c n
    assume "take (unat (pack_end s) + length (stored_form E d)) c =
        take (unat (pack_end s)) (inodes (world s) i) @ stored_form E d"
      "length (inodes (world s) i) \<le> length c" "unat (pack_end s) + length (stored_form E d) \<le> length c"
      "length c \<le> max_off"
    then show "wp (index_blob E (blake3 E d) (entry_for (pack_end s) (stored_form E d) d)
        (of_nat (length (stored_form E d)))) Q R (s\<lparr>tick := n, world := set_inode i c (world s)\<rparr>)"
      by (intro wp_index_blob [OF ok len idle at t] Q R)
  next
    fix c n e
    assume e: "io_exn e" and c: "take (unat (pack_end s)) c = take (unat (pack_end s)) (inodes (world s) i)"
      "length (inodes (world s) i) \<le> length c" "length c \<le> max_off"
    let ?s1 = "s\<lparr>tick := n, world := set_inode i c (world s)\<rparr>"
    note w = written_behind [OF idle at c refl, where n = n]
    have t1: "wtxn ?s1 = Some t" "batch_txn E ?s1 = Some t" using t by (simp_all add: batch_txn_Some)
    have "cas_inv E ?s1" by (rule idle_batch_cas_inv [OF w(1,2) t1(1)])
    moreover have "store_view E ?s1 = store_view E s" using w(4) [OF t'] t t1(2) by (simp add: store_view_batch)
    ultimately show "R e ?s1" by (intro R [OF e]) (simp add: put_failed_def)
  qed
  then show ?thesis
    unfolding append_blob_def Let_def
    by (intro wp_bindE_I wp_current [OF p(1)] wp_readS_I) (simp add: wp_thenE p(2))
qed

lemma put_done_same:
  "cas_inv E s' \<Longrightarrow> own_batch E s' \<Longrightarrow> same_store E s s' \<Longrightarrow> blake3 E d \<in> dom (store_view E s) \<Longrightarrow>
     put_done E d s s'"
  by (auto simp: put_done_def same_store_def map_add_def fun_eq_iff split: option.split)

lemma put_done_trans: "same_store E s s1 \<Longrightarrow> put_done E d s1 s2 \<Longrightarrow> put_done E d s s2"
  by (simp add: put_done_def same_store_def)

lemma put_failed_trans: "same_store E s s1 \<Longrightarrow> put_failed E d s1 s2 \<Longrightarrow> put_failed E d s s2"
  by (auto simp: put_failed_def same_store_def)

lemma put_failed_same: "cas_inv E s' \<Longrightarrow> same_store E s s' \<Longrightarrow> put_failed E d s s'"
  by (simp add: put_failed_def same_store_def)

lemma same_store_refl: "same_store E s s"
  by (simp add: same_store_def)

lemma wp_need_batch:
  assumes ok: "platform_ok E" and inv: "cas_inv E s" and mine: "own_batch E s"
    and Q: "\<And>s'. cas_inv E s' \<Longrightarrow> batch_txn E s' \<noteq> None \<Longrightarrow> same_store E s s' \<Longrightarrow> Q () s'"
    and R: "\<And>e s'. io_exn e \<Longrightarrow> cas_inv E s' \<Longrightarrow> same_store E s s' \<Longrightarrow> R e s'"
  shows "wp (need_batch E) Q R s"
proof (cases "wtxn s")
  case None
  have "wp (begin_batch E) Q R s" by (rule wp_begin_batch [OF ok inv None]) (auto intro: Q R)
  with None show ?thesis by (simp add: need_batch_def wp_simps)
next
  case (Some t)
  then have "batch_txn E s = Some t" using mine by (simp add: batch_txn_Some own_batch_def)
  with Some Q [OF inv _ same_store_refl] show ?thesis by (simp add: need_batch_def wp_simps)
qed

lemma wp_put:
  assumes ok: "platform_ok E" and len: "length d \<le> max_off" and inv: "cas_inv E s"
    and mine: "own_batch E s"
    and Q: "\<And>s'. put_done E d s s' \<Longrightarrow> Q (blake3 E d) s'"
    and R: "\<And>e s'. io_exn e \<Longrightarrow> put_failed E d s s' \<Longrightarrow> R e s'"
  shows "wp (put E d) Q R s"
  unfolding put_def Let_def wp_thenE
proof (rule wp_need_batch [OF ok inv mine])
  fix s1
  assume s1: "cas_inv E s1" "batch_txn E s1 \<noteq> None" "same_store E s s1"
  then obtain g i where live: "live_pack E (world s1) g i" and hm: "handle_maps_inv s1" "maps_below g s1"
    by (auto simp: cas_inv_idle idle_inv_def)
  have own: "own_batch E (s1\<lparr>tick := n\<rparr>)" for n
    using own_batchI [OF s1(2)] by (simp add: own_batch_def)
  have tick: "cas_inv E (s1\<lparr>tick := n\<rparr>)" "same_store E s (s1\<lparr>tick := n\<rparr>)" for n
    using s1(1) same_store_trans [OF s1(3) mapped_same_store [OF s1(1) live mapped_tick [OF hm]]]
    by simp_all
  show "wp (bindE (lookup E (blake3 E d) False) (\<lambda>(found, _).
      if found \<noteq> None then ret (blake3 E d)
      else thenE (append_blob E (blake3 E d) d) (ret (blake3 E d)))) Q R s1"
    unfolding wp_bindE
  proof (rule wp_lookup [OF ok s1(1) live])
    fix found gen n
    assume found: "found_ok E (inodes (world s1) i) (store_view E s1 (blake3 E d)) found"
    have view: "store_view E s1 = store_view E s" using s1(3) by (simp add: same_store_def)
    show "wp (case (found, gen) of (found, _) \<Rightarrow> if found \<noteq> None then ret (blake3 E d)
        else thenE (append_blob E (blake3 E d) d) (ret (blake3 E d))) Q R (s1\<lparr>tick := n\<rparr>)"
    proof (cases found)
      case None
      obtain t where "batch_txn E s1 = Some t" using s1(2) by blast
      then have "batch_txn E (s1\<lparr>tick := n\<rparr>) = Some t" by (simp add: batch_txn_Some)
      then have "wp (append_blob E (blake3 E d) d) (\<lambda>_. wp (ret (blake3 E d)) Q R) R (s1\<lparr>tick := n\<rparr>)"
        by (rule wp_append_blob [OF ok len tick(1)])
          (auto simp: wp_ret intro: Q R put_done_trans [OF tick(2)] put_failed_trans [OF tick(2)])
      with None show ?thesis by (simp add: wp_thenE)
    next
      case Some
      then have "blake3 E d \<in> dom (store_view E s)" using found by (auto simp: found_ok_def view)
      with Some Q [OF put_done_same [OF tick(1) own tick(2)]] show ?thesis by (simp add: wp_ret)
    qed
  qed (auto simp: kHashLen_def platform_okD(4) [OF ok] intro: R put_failed_same tick)
qed (auto intro: R put_failed_same)

end
