(* ===== verification/Pack_Meta.thy ===== *)
theory Pack_Meta
  imports Pack_Put
begin

text \<open>
  The meta table (\<open>meta_put\<close>, \<open>meta_get\<close>, \<open>meta_del\<close>, \<open>meta_scan\<close>) and the remaining
  queries (\<open>size\<close>, \<open>has\<close>): each does to the reader's meta table what its name says and
  leaves the blobs alone. The keys \<open>gen\<close> and \<open>format\<close> are the store's own; a client that
  overwrote \<open>gen\<close> would move the store to another pack, so the rules for updates exclude it.
\<close>

section \<open>Updates\<close>

definition meta_done ::
  "('e, 't) platform \<Rightarrow> (bytes \<Rightarrow> bytes option) \<Rightarrow> ('e, 't, 'z) cas_scheme \<Rightarrow> ('e, 't, 'z) cas_scheme \<Rightarrow> bool" where
  "meta_done E m s s' \<longleftrightarrow> cas_inv E s' \<and> own_batch E s' \<and> cas.more s' = cas.more s \<and>
     store_view E s' = store_view E s \<and> reader_table E s' Meta = m"

lemma idle_env:
  assumes "idle_inv E g i s" and "world s' = (world s)\<lparr>mdb_env := e'\<rparr>"
    and "mdb_committed E e' Blobs = mdb_committed E (mdb_env (world s)) Blobs"
    and "table_gen (mdb_committed E e') = Some g"
    and "maps s' = maps s" and "cur s' = cur s" and "retired s' = retired s"
  shows "idle_inv E g i s'"
  using assms by (simp add: idle_defs live_pack_def find_inode_def)

text \<open>An update inside the batch.\<close>

lemma meta_done_batch:
  assumes idle: "idle_inv E g i s" and at: "batch_at E s t g i p" and t: "batch_txn E s = Some t"
    and tbl: "mdb_table E t' Blobs = mdb_table E t Blobs" "table_gen (mdb_table E t') = Some g"
  shows "meta_done E (mdb_table E t' Meta) s (s\<lparr>wtxn := Some t'\<rparr>)"
proof -
  let ?s = "s\<lparr>wtxn := Some t'\<rparr>"
  have t': "wtxn s = Some t" "batch_txn E ?s = Some t'" "wtxn ?s = Some t'"
    using t by (simp_all add: batch_txn_Some)
  have at': "batch_at E ?s t' g i p" using at tbl by (simp add: batch_at_def map_at_def)
  have "cas_inv E ?s" by (rule idle_batch_cas_inv [OF _ at' t'(3)]) (simp add: idle)
  moreover have "store_view E ?s = store_view E s"
    using batch_view_at [OF at t'(1)] batch_view_at [OF at' t'(3)] t t'(2) tbl(1)
    by (simp add: store_view_batch)
  ultimately show ?thesis
    using own_batchI [of E ?s] t'(2) by (simp add: meta_done_def reader_table_batch)
qed

text \<open>An update in a transaction of its own.\<close>

lemma meta_done_committed:
  assumes idle: "idle_inv E g i s" and none: "wtxn s = None"
    and s': "s' = s\<lparr>tick := n, world := (world s)\<lparr>mdb_env := e'\<rparr>\<rparr>"
    and tbl: "mdb_committed E e' Blobs = committed_tables E s Blobs" "table_gen (mdb_committed E e') = Some g"
  shows "meta_done E (mdb_committed E e' Meta) s s'"
proof -
  have idle': "idle_inv E g i s'"
    by (rule idle_env [OF idle _ _ tbl(2)]) (use tbl s' in \<open>simp_all add: committed_tables_def\<close>)
  have none': "wtxn s' = None" using none s' by simp
  have "store_view E s' = store_view E s"
    using committed_view_live [OF idle_live [OF idle]] committed_view_live [OF idle_live [OF idle']] tbl(1)
    by (simp add: store_view_none none none' s' committed_tables_def)
  then show ?thesis
    using idle_cas_inv [OF idle' none'] none'
    by (simp add: meta_done_def own_batch_def reader_table_idle batch_txn_None committed_tables_def s')
qed

lemma meta_done_refl:
  "cas_inv E s \<Longrightarrow> own_batch E s \<Longrightarrow> meta_done E (reader_table E s Meta) s s"
  by (simp add: meta_done_def)

lemma own_batch_tick [simp]: "own_batch E (s\<lparr>tick := n\<rparr>) = own_batch E s"
  by (simp add: own_batch_def)

lemma tick_same:
  assumes "cas_inv E s"
  shows "same_store E s (s\<lparr>tick := n\<rparr>)"
proof -
  obtain g i where "idle_inv E g i s" using assms by (auto simp: cas_inv_idle)
  then show ?thesis
    using mapped_same_store [OF assms idle_live mapped_tick] by (auto simp: idle_inv_def)
qed

lemma meta_done_tick:
  "cas_inv E s \<Longrightarrow> own_batch E s \<Longrightarrow> meta_done E (reader_table E s Meta) s (s\<lparr>tick := n\<rparr>)"
  using tick_same [of E s n] by (simp add: meta_done_def same_store_def)

lemma table_gen_upd: "key \<noteq> ''gen'' \<Longrightarrow> table_gen (tbl(Meta := (tbl Meta)(key := v))) = table_gen tbl"
  by (simp add: table_gen_def)

lemma wp_write_txn_begin:
  assumes "platform_ok E" and "wtxn s = None"
    and "\<And>t n. mdb_table E t = committed_tables E s \<Longrightarrow> Q t (s\<lparr>tick := n\<rparr>)"
    and "\<And>n e. io_exn e \<Longrightarrow> R e (s\<lparr>tick := n\<rparr>)"
  shows "wp (write_txn_begin E) Q R s"
proof -
  have "wp (txn_begin E) Q R s"
    by (rule wp_txn_begin [OF assms(1)]) (use assms(3,4) in \<open>simp_all add: committed_tables_def\<close>)
  with assms(2) show ?thesis by (simp add: write_txn_begin_def wp_simps)
qed

text \<open>Both updates are one LMDB call, in the batch or in a transaction of its own.\<close>

definition meta_update ::
  "('e, 't) platform \<Rightarrow> ('t \<Rightarrow> int \<times> 't) \<Rightarrow> (int \<Rightarrow> (('e, 't, 'z) cas_scheme, unit) prog) \<Rightarrow>
     (('e, 't, 'z) cas_scheme, unit) prog" where
  "meta_update E f check = bindE (readS (batch_txn E)) (\<lambda>b. case b of
     Some _ \<Rightarrow> bindE use_batch (\<lambda>t. case f t of (res, t') \<Rightarrow>
       thenE (modS (\<lambda>s. s\<lparr>wtxn := Some t'\<rparr>)) (check res))
   | None \<Rightarrow> bindE (write_txn_begin E) (\<lambda>t. case f t of (res, t') \<Rightarrow>
       thenE (check res) (commit_owned E t')))"

lemma meta_put_update:
  "meta_put E key val = meta_update E (\<lambda>t. mdb_put E t Meta key val False)
     (\<lambda>res. mdb_check E res ''mdb_put meta'')"
  by (simp add: meta_put_def meta_update_def)

lemma meta_del_update:
  "meta_del E key = meta_update E (\<lambda>t. mdb_del E t Meta key)
     (\<lambda>res. whenE (res \<noteq> MDB_NOTFOUND) (mdb_check E res ''mdb_del meta''))"
  by (simp add: meta_del_def meta_update_def)

lemma wp_meta_update:
  assumes ok: "platform_ok E" and inv: "cas_inv E s" and own: "own_batch E s" and key: "key \<noteq> ''gen''"
    and f: "\<And>t res t'. f t = (res, t') \<Longrightarrow> good res \<Longrightarrow>
        mdb_table E t' = (mdb_table E t)(Meta := (mdb_table E t Meta)(key := v))"
      "\<And>t res t'. f t = (res, t') \<Longrightarrow> \<not> good res \<Longrightarrow> mdb_table E t' = mdb_table E t"
    and check: "\<And>res s' Q' R'. (good res \<Longrightarrow> Q' () s') \<Longrightarrow>
        (\<And>e. \<not> good res \<Longrightarrow> io_exn e \<Longrightarrow> R' e s') \<Longrightarrow> wp (check res) Q' R' s'"
    and Q: "\<And>s'. meta_done E ((reader_table E s Meta)(key := v)) s s' \<Longrightarrow> Q () s'"
    and R: "\<And>e s'. io_exn e \<Longrightarrow> meta_done E (reader_table E s Meta) s s' \<Longrightarrow> R e s'"
  shows "wp (meta_update E f check) Q R s"
proof -
  obtain g i where idle: "idle_inv E g i s" and b: "batch_inv E s g i"
    using inv by (auto simp: cas_inv_idle)
  have gen: "table_gen (reader_table E s) = Some g" by (rule reader_ok [OF inv idle_live [OF idle]])
  show ?thesis
  proof (cases "batch_txn E s")
    case (Some t)
    then have t: "wtxn s = Some t" by (simp add: batch_txn_Some)
    with b obtain p where at: "batch_at E s t g i p" by (auto simp: batch_inv_def)
    obtain res t' where r: "f t = (res, t')" by fastforce
    note tbl = reader_table_batch [OF Some]
    have "wp (check res) Q R (s\<lparr>wtxn := Some t'\<rparr>)"
    proof (rule check)
      assume "good res"
      note t' = f(1) [OF r this]
      show "Q () (s\<lparr>wtxn := Some t'\<rparr>)"
        using meta_done_batch [OF idle at Some, of t'] gen key
        by (intro Q) (simp add: t' tbl table_gen_upd)
    next
      fix e
      assume "\<not> good res" "io_exn e"
      note t' = f(2) [OF r this(1)]
      show "R e (s\<lparr>wtxn := Some t'\<rparr>)"
        using meta_done_batch [OF idle at Some, of t'] gen \<open>io_exn e\<close>
        by (intro R) (simp_all add: t' tbl)
    qed
    then have "wp use_batch (\<lambda>t. wp (case f t of (res, t') \<Rightarrow>
       thenE (modS (\<lambda>s. s\<lparr>wtxn := Some t'\<rparr>)) (check res)) Q R) R s"
      by (intro wp_use_batch [OF inv t]) (simp add: r wp_thenE wp_modS)
    with Some show ?thesis by (simp add: meta_update_def wp_bindE wp_readS)
  next
    case None
    then have none: "wtxn s = None" using own by (auto simp: batch_txn_def own_batch_def split: if_splits)
    note tbl = reader_table_idle [OF None]
    have failed: "R e (s\<lparr>tick := n\<rparr>)" if "io_exn e" for e n
      by (rule R [OF that meta_done_tick [OF inv own]])
    have commit: "wp (commit_owned E t') Q R (s\<lparr>tick := n\<rparr>)"
      if t': "mdb_table E t' = (committed_tables E s)(Meta := (committed_tables E s Meta)(key := v))" for n t'
      unfolding commit_owned_def
    proof (intro wp_bindE_I wp_txn_commit [OF ok] wp_mdb_check)
      fix res e' m
      assume e': "mdb_committed E e' = (if res = MDB_SUCCESS then mdb_table E t'
          else mdb_committed E (mdb_env (world (s\<lparr>tick := n\<rparr>))))"
      let ?s = "s\<lparr>tick := n, tick := m, world := (world (s\<lparr>tick := n\<rparr>))\<lparr>mdb_env := e'\<rparr>\<rparr>"
      have meta: "meta_done E (mdb_committed E e' Meta) s ?s"
        by (rule meta_done_committed [OF idle none, where n = m])
          (use e' t' gen key in \<open>auto simp: tbl table_gen_upd committed_tables_def split: if_splits\<close>)
      show "res = MDB_SUCCESS \<Longrightarrow> Q () ?s" using meta e' t' by (intro Q) (simp add: tbl)
      show "R e ?s" if "res \<noteq> MDB_SUCCESS" "io_exn e" for e
        using meta e' that by (intro R) (simp_all add: tbl committed_tables_def)
    qed
    have "wp (write_txn_begin E) (\<lambda>t. wp (case f t of (res, t') \<Rightarrow> thenE (check res) (commit_owned E t')) Q R) R s"
    proof (rule wp_write_txn_begin [OF ok none])
      fix t n
      assume t: "mdb_table E t = committed_tables E s"
      obtain res t' where r: "f t = (res, t')" by fastforce
      have "wp (check res) (\<lambda>_. wp (commit_owned E t') Q R) R (s\<lparr>tick := n\<rparr>)"
        by (rule check) (use f(1) [OF r] t commit failed in simp_all)
      then show "wp (case f t of (res, t') \<Rightarrow> thenE (check res) (commit_owned E t')) Q R (s\<lparr>tick := n\<rparr>)"
        by (simp add: r wp_thenE)
    qed (rule failed)
    with None show ?thesis by (simp add: meta_update_def wp_bindE wp_readS)
  qed
qed

lemma wp_meta_put:
  assumes ok: "platform_ok E" and inv: "cas_inv E s" and own: "own_batch E s" and key: "key \<noteq> ''gen''"
    and Q: "\<And>s'. meta_done E ((reader_table E s Meta)(key \<mapsto> val)) s s' \<Longrightarrow> Q () s'"
    and R: "\<And>e s'. io_exn e \<Longrightarrow> meta_done E (reader_table E s Meta) s s' \<Longrightarrow> R e s'"
  shows "wp (meta_put E key val) Q R s"
  unfolding meta_put_update
proof (rule wp_meta_update [OF ok inv own key, where good = "\<lambda>res. res = MDB_SUCCESS" and v = "Some val"])
  show "mdb_table E t' = (mdb_table E t)(Meta := (mdb_table E t Meta)(key := Some val))"
    if "mdb_put E t Meta key val False = (res, t')" "res = MDB_SUCCESS" for t res t'
    using lmdb_writesD(1) [OF platform_okD(2) [OF ok] that(1)] that(2) by simp
  show "mdb_table E t' = mdb_table E t"
    if "mdb_put E t Meta key val False = (res, t')" "res \<noteq> MDB_SUCCESS" for t res t'
    using lmdb_writesD(1) [OF platform_okD(2) [OF ok] that(1)] that(2) by simp
qed (auto intro: Q R wp_mdb_check)

lemma wp_meta_del:
  assumes ok: "platform_ok E" and inv: "cas_inv E s" and own: "own_batch E s" and key: "key \<noteq> ''gen''"
    and Q: "\<And>s'. meta_done E ((reader_table E s Meta)(key := None)) s s' \<Longrightarrow> Q () s'"
    and R: "\<And>e s'. io_exn e \<Longrightarrow> meta_done E (reader_table E s Meta) s s' \<Longrightarrow> R e s'"
  shows "wp (meta_del E key) Q R s"
  unfolding meta_del_update
proof (rule wp_meta_update [OF ok inv own key,
      where good = "\<lambda>res. res = MDB_SUCCESS \<or> res = MDB_NOTFOUND" and v = None])
  note lmdb = platform_okD(2) [OF ok]
  fix t res t'
  assume del: "mdb_del E t Meta key = (res, t')"
  show "mdb_table E t' = (mdb_table E t)(Meta := (mdb_table E t Meta)(key := None))"
    if "res = MDB_SUCCESS \<or> res = MDB_NOTFOUND"
    using that lmdb_writesD(2) [OF lmdb del] lmdb_del_absentD [OF lmdb, of t Meta key t'] del
    by (auto simp: fun_upd_idem)
  show "mdb_table E t' = mdb_table E t" if "\<not> (res = MDB_SUCCESS \<or> res = MDB_NOTFOUND)"
    using that lmdb_writesD(2) [OF lmdb del] by simp
next
  fix res s' Q' R'
  assume "(res = MDB_SUCCESS \<or> res = MDB_NOTFOUND) \<Longrightarrow> Q' () s'"
    and "\<And>e. \<not> (res = MDB_SUCCESS \<or> res = MDB_NOTFOUND) \<Longrightarrow> io_exn e \<Longrightarrow> R' e s'"
  then show "wp (whenE (res \<noteq> MDB_NOTFOUND) (mdb_check E res ''mdb_del meta'')) Q' R' s'"
    by (intro wp_whenE_I wp_mdb_check) auto
qed (auto intro: Q R)

section \<open>Queries\<close>

lemma wp_meta_get:
  assumes ok: "platform_ok E" and inv: "cas_inv E s"
    and Q: "\<And>n. Q (reader_table E s Meta key) (s\<lparr>tick := n\<rparr>)"
    and R: "\<And>e n. io_exn e \<Longrightarrow> R e (s\<lparr>tick := n\<rparr>)"
  shows "wp (meta_get E key) Q R s"
  unfolding meta_get_def wp_bindE
proof (rule wp_read_txn [OF ok inv])
  fix t n
  assume t: "mdb_table E t = reader_table E s"
  obtain res val where r: "mdb_get E t Meta key = (res, val)" by fastforce
  note get = lmdb_readsD(2,3) [OF platform_okD(2) [OF ok]]
  have "res = MDB_SUCCESS \<Longrightarrow> reader_table E s Meta key = Some val"
    "res = MDB_NOTFOUND \<Longrightarrow> reader_table E s Meta key = None"
    using get r t by metis+
  then show "wp (case mdb_get E t Meta key of (res, val) \<Rightarrow>
     if res = MDB_NOTFOUND then ret None
     else thenE (mdb_check E res ''mdb_get meta'') (ret (Some val))) Q R (s\<lparr>tick := n\<rparr>)"
    using Q [of n] R [of _ n] by (auto simp: r intro!: wp_rules)
qed (rule R)

text \<open>The stored length is the blob's.\<close>

lemma unpack_length:
  assumes "unpack E entry stored = Inr d" and "length stored = unat (ie_len entry)"
  shows "ie_raw_len entry = of_nat (length d)"
proof (cases "compressed entry")
  case True
  then have "length d = unat (ie_raw_len entry)"
    using assms(1) by (auto simp: unpack_def decompress_def split: if_splits option.splits)
  then show ?thesis by simp
next
  case False
  then have "d = stored" "ie_raw_len entry = ie_len entry"
    using assms(1) by (simp_all add: unpack_def compressed_def)
  then show ?thesis using assms(2) by simp
qed

lemma found_ok_size:
  "found_ok E c v found \<Longrightarrow> map_option ie_raw_len found = map_option (\<lambda>d. of_nat (length d)) v"
  using unpack_length [of E _ "entry_bytes c _"]
  by (auto simp: found_ok_def entry_bytes_def in_pack_def split: option.splits)

lemma wp_blob_size:
  assumes ok: "platform_ok E" and inv: "cas_inv E s" and hash: "length hash = kHashLen"
    and Q: "\<And>n. Q (map_option (\<lambda>d. of_nat (length d)) (store_view E s hash)) (s\<lparr>tick := n\<rparr>)"
    and R: "\<And>e n. io_exn e \<Longrightarrow> R e (s\<lparr>tick := n\<rparr>)"
  shows "wp (blob_size E hash) Q R s"
proof -
  obtain g i where live: "live_pack E (world s) g i" using inv by (auto simp: cas_inv_idle idle_inv_def)
  show ?thesis
    unfolding blob_size_def wp_bindE
    by (rule wp_lookup [OF ok inv live hash]) (auto simp: wp_ret R Q dest: found_ok_size)
qed

lemma wp_has:
  assumes ok: "platform_ok E" and inv: "cas_inv E s" and hash: "length hash = kHashLen"
    and Q: "\<And>n. Q (hash \<in> dom (store_view E s)) (s\<lparr>tick := n\<rparr>)"
    and R: "\<And>e n. io_exn e \<Longrightarrow> R e (s\<lparr>tick := n\<rparr>)"
  shows "wp (has E hash) Q R s"
proof -
  obtain g i where live: "live_pack E (world s) g i" using inv by (auto simp: cas_inv_idle idle_inv_def)
  have "found_ok E c (store_view E s hash) found \<Longrightarrow> (found \<noteq> None) = (hash \<in> dom (store_view E s))" for c found
    by (auto simp: found_ok_def split: option.splits)
  with Q R show ?thesis
    unfolding has_def wp_bindE
    by (intro wp_lookup [OF ok inv live hash]) (auto simp: wp_ret)
qed

end
