(* ===== verification/Compact_Copy.thy ===== *)
theory Compact_Copy
  imports Pack_Meta
begin

text \<open>
  The first half of a compaction: what holds of the directory while the pack of the next
  generation is created, written and removed again (\<open>copying\<close>), the loop that copies the live
  blobs into it (\<open>copy_inv\<close>: the entries kept so far stand, over what is written and buffered, for
  the blobs they stood for), and the index that is made of what was kept.
\<close>

section \<open>While the new pack is written\<close>

text \<open>The pack of the next generation is inode \<open>j\<close>; the store is still the one of generation \<open>g\<close>.\<close>

definition copying :: "('e, 't) platform \<Rightarrow> u64 \<Rightarrow> nat \<Rightarrow> nat \<Rightarrow> ('e, 't, 'z) cas_scheme \<Rightarrow> bool" where
  "copying E g i j s \<longleftrightarrow> idle_inv E g i s \<and> g < g + 1 \<and> find_inode (world s) (pack_name (g + 1)) = Some j"

lemma map_ok_other:
  "map_ok w m \<Longrightarrow> m_gen m < g \<Longrightarrow> find_inode w (pack_name g) = Some j \<Longrightarrow> m_fd m \<noteq> j"
  unfolding map_ok_def using pack_name_inj by (metis less_irrefl)

lemma copying_other:
  assumes "copying E g i j s"
  shows "j \<noteq> i" and "m \<in> set (maps s) \<Longrightarrow> m_fd m \<noteq> j"
proof -
  have gt: "g < g + 1" and new: "find_inode (world s) (pack_name (g + 1)) = Some j"
    and idle: "files_ok (world s)" "live_pack E (world s) g i" "handle_maps_inv s" "maps_below g s"
    using assms by (simp_all add: copying_def idle_inv_def)
  show "j \<noteq> i"
  proof
    assume "j = i"
    with idle(2) new have "pack_name (g + 1) = pack_name g"
      by (intro files_ok_inj [OF idle(1)]) (simp_all add: live_pack_def)
    with gt show False by (simp add: pack_name_inj)
  qed
  show "m_fd m \<noteq> j" if "m \<in> set (maps s)"
  proof (rule map_ok_other [OF _ _ new])
    show "map_ok (world s) m" using idle(3) that by (simp add: handle_maps_inv_def maps_inv_def)
    have "m_gen m \<le> g" using idle(4) that by (simp add: maps_below_def)
    with gt show "m_gen m < g + 1" by simp
  qed
qed

lemma idle_other_inode:
  assumes idle: "idle_inv E g i s" and "length c \<le> max_off" and "j \<noteq> i" and "\<forall>m\<in>set (maps s). m_fd m \<noteq> j"
  shows "idle_inv E g i (s\<lparr>tick := n, world := set_inode j c (world s)\<rparr>)"
proof -
  have "map_ok (set_inode j c (world s)) m" if "m \<in> set (maps s)" for m
    using idle assms(4) that by (simp add: idle_inv_def handle_maps_inv_def maps_inv_def map_ok_def)
  then show ?thesis
    using assms by (simp add: idle_inv_def handle_maps_inv_def maps_inv_def maps_below_def live_pack_def)
qed

lemma copying_write:
  assumes "copying E g i j s" and "length c \<le> max_off"
  shows "copying E g i j (s\<lparr>tick := n, world := set_inode j c (world s)\<rparr>)"
  using assms copying_other [OF assms(1)] by (simp add: copying_def idle_other_inode)

lemma copying_mapped: "copying E g i j s \<Longrightarrow> mapped g s s' \<Longrightarrow> copying E g i j s'"
  by (auto simp: copying_def mapped_fields intro: idle_mapped)

lemma copying_tick [simp]: "copying E g i j (s\<lparr>tick := n\<rparr>) = copying E g i j s"
  by (simp add: copying_def)

text \<open>Opening the new pack.\<close>

lemma copying_opened:
  assumes idle: "idle_inv E g i s" and gt: "g < g + 1" and j: "find_inode (world s) (pack_name (g + 1)) = Some j"
  shows "copying E g i j (s\<lparr>tick := n, world := set_inode j [] (world s)\<rparr>)"
  using assms by (intro copying_write) (simp_all add: copying_def)

lemma find_link_new:
  "find_inode (link_new name w) n = (case find_inode w n of Some i \<Rightarrow> Some i
     | None \<Rightarrow> if n = name then Some (next_inode w) else None)"
  by (simp add: find_inode_def link_new_def map_of_append map_add_def split: option.split)

lemma files_ok_link_new: "files_ok w \<Longrightarrow> files_ok (link_new name w)"
  by (auto simp: files_ok_def link_new_def less_Suc_eq)

lemma map_ok_link_new:
  assumes "map_ok w m" and "name \<noteq> pack_name (m_gen m)"
  shows "map_ok (link_new name w) m"
proof -
  have "find_inode (link_new name w) n = Some i \<Longrightarrow> i = m_fd m \<longleftrightarrow> n = pack_name (m_gen m)" for n i
    using assms by (auto simp: map_ok_def find_link_new split: option.splits if_splits)
  moreover have "m_fd m < next_inode w" "unat (m_size m) \<le> length (inodes w (m_fd m))"
    using assms(1) by (simp_all add: map_ok_def)
  ultimately show ?thesis by (simp add: map_ok_def link_new_def)
qed

lemma copying_created:
  assumes idle: "idle_inv E g i s" and gt: "g < g + 1" and none: "find_inode (world s) (pack_name (g + 1)) = None"
  shows "copying E g i (next_inode (world s)) (s\<lparr>tick := n, world := link_new (pack_name (g + 1)) (world s)\<rparr>)"
proof -
  have i: "find_inode (world s) (pack_name g) = Some i" "files_ok (world s)"
    using idle by (simp_all add: idle_inv_def live_pack_def)
  have less: "i < next_inode (world s)" by (rule files_ok_less [OF i(2,1)])
  have maps: "map_ok (link_new (pack_name (g + 1)) (world s)) m" if "m \<in> set (maps s)" for m
  proof (rule map_ok_link_new)
    show "map_ok (world s) m" using idle that by (simp add: idle_inv_def handle_maps_inv_def maps_inv_def)
    have "m_gen m \<le> g" using idle that by (simp add: idle_inv_def maps_below_def)
    with gt show "pack_name (g + 1) \<noteq> pack_name (m_gen m)" by (auto simp: pack_name_inj)
  qed
  have env: "mdb_env (link_new (pack_name (g + 1)) (world s)) = mdb_env (world s)"
    "inodes (link_new (pack_name (g + 1)) (world s)) i = inodes (world s) i"
    using less by (simp_all add: link_new_def)
  show ?thesis
    using idle maps gt none i env files_ok_link_new [OF i(2)]
    by (simp add: copying_def idle_inv_def handle_maps_inv_def maps_inv_def maps_below_def live_pack_def find_link_new)
qed

text \<open>Removing a name that is not the live pack's.\<close>

definition unlinked :: "bytes \<Rightarrow> 'e world \<Rightarrow> 'e world" where
  "unlinked name w = w\<lparr>dirents := filter (\<lambda>x. fst x \<noteq> name) (dirents w)\<rparr>"

lemma map_of_filter_other: "map_of (filter (\<lambda>x. fst x \<noteq> name) xs) n = (if n = name then None else map_of xs n)"
  by (induction xs) auto

lemma find_unlinked [simp]: "find_inode (unlinked name w) n = (if n = name then None else find_inode w n)"
  by (simp add: find_inode_def unlinked_def map_of_filter_other)

lemma unlinked_fields [simp]:
  "inodes (unlinked name w) = inodes w" "mdb_env (unlinked name w) = mdb_env w"
  "next_inode (unlinked name w) = next_inode w" "flock_owner (unlinked name w) = flock_owner w"
  by (simp_all add: unlinked_def)

lemma files_ok_unlinked: "files_ok w \<Longrightarrow> files_ok (unlinked name w)"
  by (simp add: files_ok_def unlinked_def distinct_map_filter)

lemma idle_unlinked:
  assumes "idle_inv E g i s" and "name \<noteq> pack_name g"
  shows "idle_inv E g i (s\<lparr>tick := n, world := unlinked name (world s)\<rparr>)"
proof -
  have "map_ok (unlinked name (world s)) m" if "m \<in> set (maps s)" for m
    using assms(1) that by (auto simp: idle_inv_def handle_maps_inv_def maps_inv_def map_ok_def)
  then show ?thesis
    using assms files_ok_unlinked [of "world s" name]
    by (simp add: idle_inv_def handle_maps_inv_def maps_inv_def maps_below_def live_pack_def)
qed

lemma wp_sys_unlink_name:
  assumes "quiet E" and "\<And>n. Q () (s\<lparr>tick := n\<rparr>)" and "\<And>n. Q () (s\<lparr>tick := n, world := unlinked name (world s)\<rparr>)"
  shows "wp (sys_unlink E name) Q R s"
  using assms by (intro wp_sys_unlink) (simp_all add: unlinked_def)


section \<open>The copy loop\<close>

text \<open>What has been kept so far: every entry, re-encoded, stands over the bytes written or buffered
  for the blob it stood for.\<close>

definition keep_ok :: "('e, 't) platform \<Rightarrow> (bytes \<Rightarrow> bytes option) \<Rightarrow> bytes \<Rightarrow> (bytes \<times> index_entry) list \<Rightarrow> bool" where
  "keep_ok E m out keep \<longleftrightarrow> (\<forall>x\<in>set keep. m (fst x) \<noteq> None \<and> entry_blob E out (encode_entry (snd x)) = m (fst x))"

lemma keep_ok_prefix: "keep_ok E m out keep \<Longrightarrow> prefix out out' \<Longrightarrow> keep_ok E m out' keep"
  by (fastforce simp: keep_ok_def intro: entry_blob_prefix)

text \<open>An entry moved to the end of what is written.\<close>

lemma entry_blob_moved:
  assumes "decode_entry val = Inr e" and "entry_blob E content val = Some d"
    and off: "unat off = length out" and fits: "length out + unat (ie_len e) < 2 ^ 64"
  shows "entry_blob E (out @ entry_bytes content e) (encode_entry (e\<lparr>ie_off := off\<rparr>)) = Some d"
proof -
  from assms(1,2) have e: "in_pack content e" "unpack E e (entry_bytes content e) = Inr d"
    by (auto elim!: entry_blobE)
  then have len: "length (entry_bytes content e) = unat (ie_len e)"
    by (simp add: entry_bytes_def in_pack_def)
  have bytes: "entry_bytes (out @ entry_bytes content e) (e\<lparr>ie_off := off\<rparr>) = entry_bytes content e"
    unfolding entry_bytes_def [of "out @ _"] using substr_append2 [of out "entry_bytes content e"]
    by (simp add: off len)
  have "decode_entry (encode_entry (e\<lparr>ie_off := off\<rparr>)) = Inr (e\<lparr>ie_off := off\<rparr>)"
    by (rule decode_encode_entry) (use off fits in simp)
  then show ?thesis
    by (rule entry_blobI) (use e off len bytes in \<open>auto simp: in_pack_def unpack_def compressed_def split: if_splits\<close>)
qed

text \<open>The invariant of the loop: \<open>out\<close> is what is written and then buffered.\<close>

definition copy_inv ::
  "('e, 't) platform \<Rightarrow> (bytes \<Rightarrow> bytes option) \<Rightarrow> nat \<Rightarrow> copy_state \<Rightarrow> ('e, 't, 'z) cas_scheme \<Rightarrow> bool" where
  "copy_inv E m j c s \<longleftrightarrow> unat (cp_pos c) \<le> length (inodes (world s) j) \<and> length (cp_buf c) < kCompactChunk \<and>
     unat (cp_off c) = unat (cp_pos c) + length (cp_buf c) \<and>
     keep_ok E m (take (unat (cp_pos c)) (inodes (world s) j) @ cp_buf c) (cp_keep c)"

text \<open>What the loop does not touch.\<close>

definition same_env :: "nat \<Rightarrow> ('e, 't, 'z) cas_scheme \<Rightarrow> ('e, 't, 'z) cas_scheme \<Rightarrow> bool" where
  "same_env i s s' \<longleftrightarrow> inodes (world s') i = inodes (world s) i \<and> mdb_env (world s') = mdb_env (world s) \<and> wtxn s' = wtxn s \<and> cas.more s' = cas.more s \<and> cur s' = cur s"

lemma wp_write_all:
  assumes "quiet E" and "copying E g i j s" and "unat pos \<le> length (inodes (world s) j)"
    and Q: "\<And>s'. copying E g i j s' \<Longrightarrow> same_env i s s' \<Longrightarrow> inodes (world s') i = inodes (world s) i \<Longrightarrow>
      unat (pos + of_nat (length data)) = unat pos + length data \<Longrightarrow> maps s' = maps s \<Longrightarrow>
      unat pos + length data \<le> length (inodes (world s') j) \<Longrightarrow>
      take (unat pos + length data) (inodes (world s') j) = take (unat pos) (inodes (world s) j) @ data \<Longrightarrow>
      Q (pos + of_nat (length data)) s'"
    and R: "\<And>e s'. io_exn e \<Longrightarrow> copying E g i j s' \<Longrightarrow> same_env i s s' \<Longrightarrow> R e s'"
  shows "wp (write_all E j data pos) Q R s"
proof (rule wp_write_all_pwrite_all, rule wp_pwrite_all [OF assms(1,3)])
  have "files_ok (world s)" using assms(2) by (simp add: copying_def idle_inv_def)
  then show "length (inodes (world s) j) \<le> max_off" by (rule files_ok_length)
  fix c :: bytes and n
  assume c: "length (inodes (world s) j) \<le> length c" "length c \<le> max_off"
  note w = copying_write [OF assms(2) c(2), of n]
  show "\<forall>e. io_exn e \<longrightarrow> R e (s\<lparr>tick := n, world := set_inode j c (world s)\<rparr>)"
    using R w copying_other(1) [OF assms(2)] by (simp add: same_env_def)
  assume d: "take (unat pos + length data) c = take (unat pos) (inodes (world s) j) @ data" "unat pos + length data \<le> length c"
  have "unat (pos + of_nat (length data)) = unat pos + length data"
    by (rule unat_add_max_off) (use d(2) c(2) in simp)
  then show "Q (pos + of_nat (length data)) (s\<lparr>tick := n, world := set_inode j c (world s)\<rparr>)"
    using w c d copying_other(1) [OF assms(2)] by (intro Q) (simp_all add: same_env_def)
qed

definition at_pack :: "nat \<Rightarrow> nat \<Rightarrow> ('e, 't, 'z) cas_scheme \<Rightarrow> bool" where
  "at_pack i p s \<longleftrightarrow> p < length (maps s) \<and> m_fd (map_at s p) = i"

lemma mapped_at_pack: "mapped g s s' \<Longrightarrow> at_pack i p s \<Longrightarrow> at_pack i p s'"
  by (auto simp: mapped_def at_pack_def)

lemma same_env_trans: "same_env i s s' \<Longrightarrow> same_env i s' s'' \<Longrightarrow> same_env i s s''"
  by (simp add: same_env_def)

text \<open>Appending a blob to the buffer.\<close>

lemma copy_inv_append:
  assumes inv: "copy_inv E m j c s" and "files_ok (world s)"
    and e: "decode_entry val = Inr e" "entry_blob E content val = Some d" "m h = Some d"
    and fits: "unat (ie_len e) \<le> kMapSize"
  defines "out \<equiv> take (unat (cp_pos c)) (inodes (world s) j) @ cp_buf c @ entry_bytes content e"
  shows "unat (cp_off c + ie_len e) = unat (cp_pos c) + length (cp_buf c @ entry_bytes content e)"
    and "keep_ok E m out (cp_keep c @ [(h, e\<lparr>ie_off := cp_off c\<rparr>)])"
proof -
  have len: "length (entry_bytes content e) = unat (ie_len e)"
    using e(1,2) by (auto elim!: entry_blobE simp: entry_bytes_def in_pack_def)
  have pos: "unat (cp_pos c) \<le> max_off" "unat (cp_pos c) \<le> length (inodes (world s) j)"
    using inv files_ok_length [OF assms(2), of j] by (auto simp: copy_inv_def)
  have buf: "length (cp_buf c) < kCompactChunk" and off: "unat (cp_off c) = unat (cp_pos c) + length (cp_buf c)"
    using inv by (simp_all add: copy_inv_def)
  have bound: "unat (cp_off c) + unat (ie_len e) < 2 ^ 64"
    using pos(1) buf fits by (simp add: off kCompactChunk_def kMapSize_def max_off_def)
  then show "unat (cp_off c + ie_len e) = unat (cp_pos c) + length (cp_buf c @ entry_bytes content e)"
    by (simp add: unat_word_ariths off len)
  let ?old = "take (unat (cp_pos c)) (inodes (world s) j) @ cp_buf c"
  have old: "unat (cp_off c) = length ?old" using off pos(2) by simp
  have "keep_ok E m ?old (cp_keep c)" using inv by (simp add: copy_inv_def)
  moreover have "out = ?old @ entry_bytes content e" by (simp add: out_def)
  ultimately show "keep_ok E m out (cp_keep c @ [(h, e\<lparr>ie_off := cp_off c\<rparr>)])"
    using entry_blob_moved [OF e(1,2) old] bound e(3) keep_ok_prefix [of E m ?old "cp_keep c" out]
    by (simp add: keep_ok_def old)
qed

lemma wp_copy_step:
  assumes q: "quiet E" and cp: "copying E g i j s" and at: "at_pack i p s"
    and idx: "index_ok E (inodes (world s) i) tbl" and tbl: "tbl h = Some val"
    and fits: "length (inodes (world s) i) \<le> kMapSize"
    and inv: "copy_inv E (index_view E (inodes (world s) i) tbl) j c s"
    and Q: "\<And>c' s'. copying E g i j s' \<Longrightarrow> same_env i s s' \<Longrightarrow> inodes (world s') i = inodes (world s) i \<Longrightarrow>
      at_pack i p s' \<Longrightarrow> copy_inv E (index_view E (inodes (world s) i) tbl) j c' s' \<Longrightarrow>
      map fst (cp_keep c') = map fst (cp_keep c) @ filter live [h] \<Longrightarrow> Q c' s'"
    and R: "\<And>e s'. io_exn e \<Longrightarrow> copying E g i j s' \<Longrightarrow> same_env i s s' \<Longrightarrow> R e s'"
  shows "wp (copy_step E live p j (h, val) c) Q R s"
proof -
  let ?content = "inodes (world s) i"
  let ?m = "index_view E ?content tbl"
  obtain d where d: "entry_blob E ?content val = Some d" using idx tbl by (auto simp: index_ok_def)
  then obtain e where e: "decode_entry val = Inr e" "in_pack ?content e" by (rule entry_blobE)
  have idle: "files_ok (world s)" "handle_maps_inv s" "maps_below g s"
    using cp by (simp_all add: copying_def idle_inv_def)
  have m: "?m h = Some d" by (simp add: index_view_def tbl d)
  have len: "unat (ie_len e) \<le> kMapSize" using e(2) fits by (simp add: in_pack_def)
  note app = copy_inv_append [where h = h, OF inv idle(1) e(1) d m len]
  let ?c = "c\<lparr>cp_keep := cp_keep c @ [(h, e\<lparr>ie_off := cp_off c\<rparr>)],
      cp_buf := cp_buf c @ entry_bytes ?content e, cp_off := cp_off c + ie_len e\<rparr>"
  show ?thesis
  proof (cases "live h")
    case False
    have "Q c s" by (rule Q) (use cp at inv False in \<open>simp_all add: same_env_def\<close>)
    with False e(1) show ?thesis by (simp add: copy_step_def wp_simps)
  next
    case True
    have "wp (if kCompactChunk \<le> length (cp_buf ?c)
          then bindE (write_all E j (cp_buf ?c) (cp_pos ?c)) (\<lambda>pos. ret (?c\<lparr>cp_buf := [], cp_pos := pos\<rparr>))
          else ret ?c) Q R s'" if s': "mapped g s s'" "cur s' = cur s" for s'
    proof -
      note w = mapped_fields(1,3,9) [OF s'(1)]
      have cp': "copying E g i j s'" by (rule copying_mapped [OF cp s'(1)])
      have at': "at_pack i p s'" by (rule mapped_at_pack [OF s'(1) at])
      have env: "same_env i s s'" using w s'(2) by (simp add: same_env_def)
      show ?thesis
      proof (rule wp_if_I)
        assume "\<not> kCompactChunk \<le> length (cp_buf ?c)"
        then have "copy_inv E ?m j ?c s'" using app inv w by (simp add: copy_inv_def)
        then show "wp (ret ?c) Q R s'"
          by (intro wp_ret_I Q cp' at' env) (simp_all add: w True)
      next
        show "wp (bindE (write_all E j (cp_buf ?c) (cp_pos ?c)) (\<lambda>pos. ret (?c\<lparr>cp_buf := [], cp_pos := pos\<rparr>))) Q R s'"
          unfolding wp_bindE
        proof (rule wp_write_all [OF q cp'])
          show "unat (cp_pos ?c) \<le> length (inodes (world s') j)" using inv w by (simp add: copy_inv_def)
          fix s2
          assume s2: "copying E g i j s2" "same_env i s' s2" "inodes (world s2) i = inodes (world s') i"
            "unat (cp_pos ?c + of_nat (length (cp_buf ?c))) = unat (cp_pos ?c) + length (cp_buf ?c)" "maps s2 = maps s'"
            "unat (cp_pos ?c) + length (cp_buf ?c) \<le> length (inodes (world s2) j)"
            "take (unat (cp_pos ?c) + length (cp_buf ?c)) (inodes (world s2) j) =
              take (unat (cp_pos ?c)) (inodes (world s') j) @ cp_buf ?c"
          let ?c2 = "?c\<lparr>cp_buf := [], cp_pos := cp_pos ?c + of_nat (length (cp_buf ?c))\<rparr>"
          have "copy_inv E ?m j ?c2 s2"
            using app s2(4,6,7) w by (simp add: copy_inv_def kCompactChunk_def)
          moreover have "at_pack i p s2" using at' s2(5) by (simp add: at_pack_def map_at_def)
          ultimately show "wp (ret ?c2) Q R s2"
            using s2(1-3) same_env_trans [OF env s2(2)] by (intro wp_ret_I Q) (simp_all add: w True)
        qed (use R env in \<open>blast intro: same_env_trans\<close>)
      qed
    qed
    moreover have "wp (view E p (ie_off e) (ie_len e)) (\<lambda>blob s'. blob = entry_bytes ?content e \<and> mapped g s s' \<and> cur s' = cur s)
        R s"
      using at e(2) fits R [of _ "s\<lparr>tick := _\<rparr>"] cp
      by (intro wp_view_live [OF q idle]) (simp_all add: at_pack_def in_pack_def entry_bytes_def same_env_def)
    ultimately have "wp (view E p (ie_off e) (ie_len e)) (\<lambda>blob. wp (let c' = c\<lparr>cp_keep := cp_keep c @ [(h, e\<lparr>ie_off := cp_off c\<rparr>)],
        cp_buf := cp_buf c @ blob, cp_off := cp_off c + ie_len e\<rparr>
       in if kCompactChunk \<le> length (cp_buf c')
          then bindE (write_all E j (cp_buf c') (cp_pos c')) (\<lambda>pos. ret (c'\<lparr>cp_buf := [], cp_pos := pos\<rparr>))
          else ret c') Q R) R s"
      unfolding Let_def by (elim wp_mono) blast+
    with True e(1) show ?thesis by (simp add: copy_step_def wp_bindE wp_liftE)
  qed
qed

lemma wp_copy_all:
  assumes q: "quiet E" and "copying E g i j s" and "at_pack i p s"
    and "index_ok E (inodes (world s) i) tbl" and "\<forall>kv\<in>set kvs. tbl (fst kv) = Some (snd kv)"
    and "length (inodes (world s) i) \<le> kMapSize"
    and "copy_inv E (index_view E (inodes (world s) i) tbl) j c s"
    and Q: "\<And>c' s'. copying E g i j s' \<Longrightarrow> same_env i s s' \<Longrightarrow> inodes (world s') i = inodes (world s) i \<Longrightarrow>
      copy_inv E (index_view E (inodes (world s) i) tbl) j c' s' \<Longrightarrow>
      map fst (cp_keep c') = map fst (cp_keep c) @ filter live (map fst kvs) \<Longrightarrow> Q c' s'"
    and R: "\<And>e s'. io_exn e \<Longrightarrow> copying E g i j s' \<Longrightarrow> same_env i s s' \<Longrightarrow> R e s'"
  shows "wp (foldE (copy_step E live p j) kvs c) Q R s"
  using assms(2-)
proof (induction kvs arbitrary: c s)
  case Nil
  then show ?case by (simp add: wp_ret same_env_def)
next
  case (Cons kv kvs)
  obtain h val where kv: "kv = (h, val)" by fastforce
  show ?case
    unfolding kv foldE.simps wp_bindE
  proof (rule wp_copy_step [OF q Cons.prems(1-3) _ Cons.prems(5,6)])
    show "tbl h = Some val" using Cons.prems(4) kv by simp
    fix c1 s1
    assume s1: "copying E g i j s1" "same_env i s s1" "inodes (world s1) i = inodes (world s) i" "at_pack i p s1"
      "copy_inv E (index_view E (inodes (world s) i) tbl) j c1 s1"
      "map fst (cp_keep c1) = map fst (cp_keep c) @ filter live [h]"
    show "wp (foldE (copy_step E live p j) kvs c1) Q R s1"
      by (rule Cons.IH [OF s1(1,4)])
        (use s1 Cons.prems(3,4,5) kv in \<open>auto intro: Cons.prems(7,8) same_env_trans\<close>)
  qed (rule Cons.prems(8))
qed

section \<open>The new index\<close>

text \<open>A table that has exactly the kept hashes, each with an entry kept for it.\<close>

definition lists_keep :: "(bytes \<Rightarrow> bytes option) \<Rightarrow> (bytes \<times> index_entry) list \<Rightarrow> bool" where
  "lists_keep tbl keep \<longleftrightarrow> dom tbl = fst ` set keep \<and>
     (\<forall>h v. tbl h = Some v \<longrightarrow> (\<exists>e. (h, e) \<in> set keep \<and> v = encode_entry e))"

lemma wp_put_entries:
  assumes "lmdb_ok E" and "lists_keep (mdb_table E t Blobs) done'"
    and Q: "\<And>t'. lists_keep (mdb_table E t' Blobs) (done' @ keep) \<Longrightarrow> mdb_table E t' Meta = mdb_table E t Meta \<Longrightarrow> Q t' s"
    and R: "\<And>e. io_exn e \<Longrightarrow> R e s"
  shows "wp (foldE (put_entry E) keep t) Q R s"
  using assms(2-)
proof (induction keep arbitrary: t done')
  case Nil
  then show ?case by (simp add: wp_ret)
next
  case (Cons kv keep)
  obtain res t' where put: "mdb_put E t Blobs (fst kv) (encode_entry (snd kv)) False = (res, t')" by fastforce
  have "wp (foldE (put_entry E) keep t') Q R s" if "res = MDB_SUCCESS"
  proof (rule Cons.IH)
    have tbl: "mdb_table E t' = (mdb_table E t)(Blobs := (mdb_table E t Blobs)(fst kv \<mapsto> encode_entry (snd kv)))"
      using lmdb_writesD(1) [OF assms(1) put] that by simp
    show "lists_keep (mdb_table E t' Blobs) (done' @ [kv])"
      using Cons.prems(1) by (cases kv) (auto simp: lists_keep_def tbl split: if_splits)
    show "Q t'' s" if "lists_keep (mdb_table E t'' Blobs) ((done' @ [kv]) @ keep)"
      "mdb_table E t'' Meta = mdb_table E t' Meta" for t''
      using that tbl by (intro Cons.prems(2)) simp_all
  qed (rule Cons.prems(3))
  then show ?case
    unfolding foldE.simps put_entry_def put prod.case wp_bindE wp_thenE
    by (intro wp_mdb_check wp_ret_I Cons.prems(3))
qed

lemma wp_rebuild_index:
  assumes ok: "lmdb_ok E"
    and Q: "\<And>t'. lists_keep (mdb_table E t' Blobs) keep \<Longrightarrow>
      mdb_table E t' Meta = (mdb_table E t Meta)(''gen'' \<mapsto> le_bytes 8 gen) \<Longrightarrow> Q t' s"
    and R: "\<And>e. io_exn e \<Longrightarrow> R e s"
  shows "wp (rebuild_index E t keep gen) Q R s"
proof -
  obtain res t0 where drop: "mdb_drop E t Blobs = (res, t0)" by fastforce
  have "wp (foldE (put_entry E) keep t0) (\<lambda>t'. wp (write_gen E t' gen) Q R) R s" if "res = MDB_SUCCESS"
  proof (rule wp_put_entries [OF ok])
    have t0: "mdb_table E t0 = (mdb_table E t)(Blobs := Map.empty)"
      using lmdb_writesD(3) [OF ok drop] that by simp
    then show "lists_keep (mdb_table E t0 Blobs) []" by (simp add: lists_keep_def)
    fix t'
    assume t': "lists_keep (mdb_table E t' Blobs) ([] @ keep)" "mdb_table E t' Meta = mdb_table E t0 Meta"
    obtain r t'' where put: "mdb_put E t' Meta ''gen'' (le_bytes 8 gen) False = (r, t'')" by fastforce
    have "r = MDB_SUCCESS \<Longrightarrow> Q t'' s"
      using lmdb_writesD(1) [OF ok put] t' t0 by (intro Q) simp_all
    then show "wp (write_gen E t' gen) Q R s"
      unfolding write_gen_def put prod.case wp_thenE by (intro wp_mdb_check wp_ret_I R)
  qed (rule R)
  then show ?thesis
    unfolding rebuild_index_def drop prod.case wp_thenE wp_bindE by (intro wp_mdb_check R)
qed

text \<open>Over the new pack it stands for the live part of the old store.\<close>

lemma kept_index:
  assumes "keep_ok E m out keep" and "lists_keep tbl keep" and "prefix out content"
    and m: "\<And>h d. m h = Some d \<Longrightarrow> length h = kHashLen \<and> blake3 E d = h"
    and keys: "fst ` set keep = {h. live h} \<inter> dom m"
  shows "index_ok E content tbl" and "index_view E content tbl = (\<lambda>h. if live h then m h else None)"
proof -
  have sound: "\<exists>d. entry_blob E content v = Some d \<and> m h = Some d" if "tbl h = Some v" for h v
  proof -
    from that assms(2) obtain e where e: "(h, e) \<in> set keep" "v = encode_entry e" unfolding lists_keep_def by blast
    with assms(1) obtain d where "m h = Some d" "entry_blob E out v = Some d" by (fastforce simp: keep_ok_def)
    with entry_blob_prefix [OF _ assms(3)] show ?thesis by blast
  qed
  with m show "index_ok E content tbl" by (fastforce simp: index_ok_def)
  have dom: "dom tbl = {h. live h} \<inter> dom m" using assms(2) keys by (simp add: lists_keep_def)
  show "index_view E content tbl = (\<lambda>h. if live h then m h else None)"
  proof
    fix h
    show "index_view E content tbl h = (if live h then m h else None)"
    proof (cases "tbl h")
      case None
      then have "h \<notin> {h. live h} \<inter> dom m" using dom by auto
      then show ?thesis using None by (cases "m h") (auto simp: index_view_def)
    next
      case (Some v)
      then have "h \<in> {h. live h} \<inter> dom m" using dom by auto
      with Some sound [OF Some] show ?thesis by (auto simp: index_view_def)
    qed
  qed
qed

end
