(* ===== verification/Compact_Inv.thy ===== *)
theory Compact_Inv
  imports Compact_Copy
begin

text \<open>
  What a compaction leaves: on success the live part of the handle's store in the pack of the next
  generation (\<open>compacted\<close>); on failure the store as it was, or the compacted one (when only the
  clean-up failed), or a committed index without its pack (\<open>pack_lost\<close>: the sync behind the commit
  failed and the handler removed the new pack).
\<close>

section \<open>What a compaction leaves\<close>

text \<open>The store as it was, in its old pack.\<close>

definition stays :: "('e, 't) platform \<Rightarrow> u64 \<Rightarrow> nat \<Rightarrow> ('e, 't, 'z) cas_scheme \<Rightarrow> ('e, 't, 'z) cas_scheme \<Rightarrow> bool" where
  "stays E g i s s' \<longleftrightarrow> idle_inv E g i s' \<and> wtxn s' = wtxn s \<and> cas.more s' = cas.more s \<and>
     committed_tables E s' = committed_tables E s \<and> committed_view E (world s') = committed_view E (world s)"

text \<open>The live part of it, in the new one.\<close>

definition moved ::
  "('e, 't) platform \<Rightarrow> (bytes \<Rightarrow> bool) \<Rightarrow> u64 \<Rightarrow> ('e, 't, 'z) cas_scheme \<Rightarrow> ('e, 't, 'z) cas_scheme \<Rightarrow> bool" where
  "moved E live g s s' \<longleftrightarrow> (\<exists>j. idle_inv E (g + 1) j s') \<and> wtxn s' = wtxn s \<and> cas.more s' = cas.more s \<and>
     committed_tables E s' Meta = (committed_tables E s Meta)(''gen'' \<mapsto> le_bytes 8 (g + 1)) \<and>
     committed_view E (world s') = (\<lambda>h. if live h then committed_view E (world s) h else None)"

text \<open>The index of the new pack without the pack: nothing.\<close>

definition lost :: "('e, 't) platform \<Rightarrow> u64 \<Rightarrow> ('e, 't, 'z) cas_scheme \<Rightarrow> ('e, 't, 'z) cas_scheme \<Rightarrow> bool" where
  "lost E g s s' \<longleftrightarrow> find_inode (world s') (pack_name (g + 1)) = None \<and>
     committed_tables E s' Meta = (committed_tables E s Meta)(''gen'' \<mapsto> le_bytes 8 (g + 1)) \<and>
     committed_view E (world s') = Map.empty"

lemma table_gen_Meta: "tbl Meta ''gen'' = Some (le_bytes 8 g) \<Longrightarrow> table_gen tbl = Some g"
  by (simp add: table_gen_def)

lemma moved_tick: "moved E live g s s' \<Longrightarrow> moved E live g s (s'\<lparr>tick := n\<rparr>)"
  by (simp add: moved_def committed_tables_def)

lemma idle_tick: "idle_inv E g i s \<Longrightarrow> idle_inv E g i (s\<lparr>tick := n\<rparr>)"
  by simp

lemma copying_idle: "copying E g i j s \<Longrightarrow> idle_inv E g i s"
  by (simp add: copying_def)

lemma copying_stays:
  assumes "idle_inv E g i s" and "copying E g i j s'" and "same_env i s s'"
  shows "stays E g i s s'"
  using assms committed_view_live [OF idle_live [OF assms(1)]] committed_view_live [OF idle_live [OF copying_idle [OF assms(2)]]]
  by (simp add: stays_def copying_idle same_env_def committed_tables_def)

text \<open>Committing the new index.\<close>

lemma moved_committed:
  assumes cp: "copying E g i j s'" and idle: "idle_inv E g i s" and env: "same_env i s s'"
    and tbl: "mdb_committed E e' Meta = (committed_tables E s Meta)(''gen'' \<mapsto> le_bytes 8 (g + 1))"
    and idx: "index_ok E (inodes (world s') j) (mdb_committed E e' Blobs)"
    and view: "index_view E (inodes (world s') j) (mdb_committed E e' Blobs) =
      (\<lambda>h. if live h then committed_view E (world s) h else None)"
  shows "idle_inv E (g + 1) j (s'\<lparr>tick := n, world := (world s')\<lparr>mdb_env := e'\<rparr>\<rparr>)"
    and "moved E live g s (s'\<lparr>tick := n, world := (world s')\<lparr>mdb_env := e'\<rparr>\<rparr>)"
proof -
  let ?s = "s'\<lparr>tick := n, world := (world s')\<lparr>mdb_env := e'\<rparr>\<rparr>"
  have "maps_below (g + 1) s'"
    using cp unfolding copying_def idle_inv_def maps_below_def by (meson less_imp_le order_trans)
  moreover have "table_gen (mdb_committed E e') = Some (g + 1)"
    by (rule table_gen_Meta) (simp add: tbl)
  ultimately show idle': "idle_inv E (g + 1) j ?s"
    using cp idx
    by (simp add: idle_inv_def copying_def live_pack_def handle_maps_inv_def maps_below_def find_inode_def)
  show "moved E live g s ?s"
    using idle' env tbl view committed_view_live [OF idle_live [OF idle']]
    by (auto simp: moved_def same_env_def committed_tables_def)
qed

text \<open>Committing the new index over the new pack.\<close>

lemma wp_install_index:
  assumes ok: "platform_ok E" and idle: "idle_inv E g i s" and cp: "copying E g i j s'" and env: "same_env i s s'"
    and t: "mdb_table E t = committed_tables E s"
    and new: "\<And>tbl. lists_keep tbl (cp_keep c) \<Longrightarrow> index_ok E (inodes (world s') j) tbl \<and>
      index_view E (inodes (world s') j) tbl = (\<lambda>h. if live h then committed_view E (world s) h else None)"
    and Q: "\<And>off s'. idle_inv E (g + 1) j s' \<Longrightarrow> moved E live g s s' \<Longrightarrow> Q off s'"
    and R: "\<And>e s'. io_exn e \<Longrightarrow> copying E g i j s' \<Longrightarrow> stays E g i s s' \<Longrightarrow> R e s'"
      "\<And>e s'. io_exn e \<Longrightarrow> idle_inv E (g + 1) j s' \<Longrightarrow> moved E live g s s' \<Longrightarrow> R e s'"
  shows "wp (install_index E t g c) Q R s'"
  unfolding install_index_def wp_bindE
proof (rule wp_rebuild_index [OF platform_okD(2) [OF ok]])
  fix t'
  assume t': "lists_keep (mdb_table E t' Blobs) (cp_keep c)"
    "mdb_table E t' Meta = (mdb_table E t Meta)(''gen'' \<mapsto> le_bytes 8 (g + 1))"
  show "wp (thenE (commit_owned E t') (thenE (env_sync E) (ret (cp_off c)))) Q R s'"
    unfolding commit_owned_def wp_thenE wp_bindE
  proof (rule wp_txn_commit [OF ok])
    fix r e' k
    let ?s = "s'\<lparr>tick := k, world := (world s')\<lparr>mdb_env := e'\<rparr>\<rparr>"
    assume e': "mdb_committed E e' = (if r = MDB_SUCCESS then mdb_table E t' else mdb_committed E (mdb_env (world s')))"
    show "wp (mdb_check E r ''txn_commit'') (\<lambda>_. wp (env_sync E) (\<lambda>_. wp (ret (cp_off c)) Q R) R) R ?s"
    proof (rule wp_mdb_check)
      assume "r = MDB_SUCCESS"
      then have d: "idle_inv E (g + 1) j ?s" "moved E live g s ?s"
        using moved_committed [OF cp idle env, of e' live k] e' t' t new [OF t'(1)] by simp_all
      have "idle_inv E (g + 1) j (?s\<lparr>tick := n\<rparr>)" "moved E live g s (?s\<lparr>tick := n\<rparr>)" for n
        by (rule idle_tick [OF d(1)], rule moved_tick [OF d(2)])
      then show "wp (env_sync E) (\<lambda>_. wp (ret (cp_off c)) Q R) R ?s"
        by (intro wp_env_sync [OF platform_okD(3) [OF ok]] wp_ret_I Q R(2))
    next
      fix e
      assume "r \<noteq> MDB_SUCCESS" and e: "io_exn e"
      then have e'': "mdb_committed E e' = mdb_committed E (mdb_env (world s'))" using e' by simp
      have idle': "idle_inv E g i ?s"
        by (rule idle_env [OF copying_idle [OF cp], where e' = e'])
          (use e'' idle_live [OF copying_idle [OF cp]] in \<open>simp_all add: live_pack_def\<close>)
      have "committed_view E (world ?s) = committed_view E (world s')"
        using e'' by (simp add: committed_view_def find_inode_def cong: option.case_cong)
      with idle' have "stays E g i s ?s"
        using copying_stays [OF idle cp env] e'' by (simp add: stays_def committed_tables_def)
      moreover have "copying E g i j ?s" using cp idle' by (simp add: copying_def find_inode_def)
      ultimately show "R e ?s" by (intro R(1) [OF e])
    qed
  qed
qed (rule R(1) [OF _ cp copying_stays [OF idle cp env]])

text \<open>What the cursor gave is the whole index, so what was kept of it is its live part.\<close>

lemma scan_all:
  assumes lm: "lmdb_ok E" and scan: "mdb_scan E t Blobs [] = (kvs, res)"
  shows "\<forall>kv\<in>set kvs. mdb_table E t Blobs (fst kv) = Some (snd kv)"
    and "res = MDB_NOTFOUND \<Longrightarrow> fst ` set kvs = dom (mdb_table E t Blobs)"
proof -
  show kvs: "\<forall>kv\<in>set kvs. mdb_table E t Blobs (fst kv) = Some (snd kv)"
    using lmdb_scanD(3) [OF lm scan] by (metis prod.collapse)
  show "fst ` set kvs = dom (mdb_table E t Blobs)" if "res = MDB_NOTFOUND"
    using lmdb_scanD(4) [OF lm scan that] kvs by (force simp: dom_def)
qed

lemma index_hashes:
  assumes "index_ok E content tbl" and "index_view E content tbl h = Some d"
  shows "length h = kHashLen \<and> blake3 E d = h"
proof -
  from assms(2) obtain v where "tbl h = Some v" by (auto simp: index_view_def bind_eq_Some_conv)
  with assms(1) have "length h = kHashLen" unfolding index_ok_def by blast
  with index_view_hash [OF assms] show ?thesis by simp
qed

lemma wp_copy_done:
  assumes ok: "platform_ok E" and idle: "idle_inv E g i s" and cp: "copying E g i j s1" and env: "same_env i s s1"
    and t: "mdb_table E t = committed_tables E s" and scan: "mdb_scan E t Blobs [] = (kvs, res)"
    and inv: "copy_inv E (committed_view E (world s)) j c s1" and keep: "map fst (cp_keep c) = filter live (map fst kvs)"
    and Q: "\<And>off s'. idle_inv E (g + 1) j s' \<Longrightarrow> moved E live g s s' \<Longrightarrow> Q off s'"
    and R: "\<And>e s'. io_exn e \<Longrightarrow> copying E g i j s' \<Longrightarrow> stays E g i s s' \<Longrightarrow> R e s'"
      "\<And>e s'. io_exn e \<Longrightarrow> idle_inv E (g + 1) j s' \<Longrightarrow> moved E live g s s' \<Longrightarrow> R e s'"
  shows "wp (copy_done E t g j res c) Q R s1"
proof -
  note q = platform_okD(3) [OF ok] and lm = platform_okD(2) [OF ok]
  let ?m = "committed_view E (world s)"
  have m: "?m = index_view E (inodes (world s) i) (mdb_table E t Blobs)"
    and idx: "index_ok E (inodes (world s) i) (mdb_table E t Blobs)"
    using committed_view_live [OF idle_live [OF idle]] idle by (simp_all add: t committed_tables_def idle_inv_def)
  have early: "R e s'" if "io_exn e" "copying E g i j s'" "same_env i s1 s'" for e s'
    by (rule R(1) [OF that(1,2) copying_stays [OF idle that(2) same_env_trans [OF env that(3)]]])
  have "wp (bindE (write_all E j (cp_buf c) (cp_pos c)) (\<lambda>_. bindE (sys_fdatasync E j) (\<lambda>r. case r of
       Inl err \<Rightarrow> sys_err ''fdatasync new pack'' err | Inr _ \<Rightarrow> install_index E t g c))) Q R s1"
    if all: "res = MDB_NOTFOUND"
    unfolding wp_bindE
  proof (rule wp_write_all [OF q cp])
    show "unat (cp_pos c) \<le> length (inodes (world s1) j)" using inv by (simp add: copy_inv_def)
    fix s2
    let ?out = "take (unat (cp_pos c)) (inodes (world s1) j) @ cp_buf c"
    assume s2: "copying E g i j s2" "same_env i s1 s2"
      "take (unat (cp_pos c) + length (cp_buf c)) (inodes (world s2) j) = ?out"
    have out: "prefix ?out (inodes (world s2) j)" unfolding s2(3) [symmetric] by (rule prefix_take)
    have keep_m: "keep_ok E ?m ?out (cp_keep c)" using inv by (simp add: copy_inv_def)
    have "fst ` set (cp_keep c) = set (map fst (cp_keep c))" by simp
    also have "\<dots> = {h. live h} \<inter> dom ?m"
      unfolding keep m dom_index_view [OF idx] using scan_all(2) [OF lm scan all] by auto
    finally have keys: "fst ` set (cp_keep c) = {h. live h} \<inter> dom ?m" .
    note new = kept_index [OF keep_m _ out index_hashes [OF idx, folded m] keys]
    show "wp (sys_fdatasync E j) (\<lambda>r. wp (case r of Inl err \<Rightarrow> sys_err ''fdatasync new pack'' err
      | Inr _ \<Rightarrow> install_index E t g c) Q R) R s2"
    proof (rule wp_sys_fdatasync [OF q], rule wp_sum_I)
      fix n
      let ?s = "s2\<lparr>tick := n\<rparr>"
      have s: "copying E g i j ?s" "same_env i s1 ?s" "world ?s = world s2" using s2 by (simp_all add: same_env_def)
      show "wp (sys_err ''fdatasync new pack'' a) Q R ?s" for a
        by (rule wp_sys_err) (rule early [OF _ s(1,2)])
      show "wp (install_index E t g c) Q R ?s"
        by (rule wp_install_index [OF ok idle s(1) same_env_trans [OF env s(2)] t _ Q R]) (use new s(3) in simp_all)
    qed
  qed (rule early)
  then show ?thesis
    unfolding copy_done_def wp_thenE using lmdb_scanD(1) [OF lm scan] cp
    by (intro wp_whenE_I wp_mdb_check early) (simp_all add: same_env_def)
qed

lemma wp_compact_copy:
  assumes ok: "platform_ok E" and cp: "copying E g i j s" and at: "at_pack i p s"
    and empty: "inodes (world s) j = []" and fits: "length (inodes (world s) i) \<le> kMapSize"
    and t: "mdb_table E t = committed_tables E s"
    and Q: "\<And>off s'. idle_inv E (g + 1) j s' \<Longrightarrow> moved E live g s s' \<Longrightarrow> Q off s'"
    and R: "\<And>e s'. io_exn e \<Longrightarrow> copying E g i j s' \<Longrightarrow> stays E g i s s' \<Longrightarrow> R e s'"
      "\<And>e s'. io_exn e \<Longrightarrow> idle_inv E (g + 1) j s' \<Longrightarrow> moved E live g s s' \<Longrightarrow> R e s'"
  shows "wp (compact_copy E live t g p j) Q R s"
proof -
  note lm = platform_okD(2) [OF ok]
  have idle: "idle_inv E g i s" by (rule copying_idle [OF cp])
  have m: "committed_view E (world s) = index_view E (inodes (world s) i) (mdb_table E t Blobs)"
    and idx: "index_ok E (inodes (world s) i) (mdb_table E t Blobs)"
    using committed_view_live [OF idle_live [OF idle]] idle by (simp_all add: t committed_tables_def idle_inv_def)
  obtain kvs res where scan: "mdb_scan E t Blobs [] = (kvs, res)" by fastforce
  let ?c = "\<lparr>cp_keep = [], cp_buf = [], cp_pos = 0, cp_off = 0\<rparr>"
  have start: "copy_inv E (committed_view E (world s)) j ?c s"
    using empty by (simp add: copy_inv_def keep_ok_def kCompactChunk_def)
  have early: "R e s'" if "io_exn e" "copying E g i j s'" "same_env i s s'" for e s'
    by (rule R(1) [OF that(1,2) copying_stays [OF idle that(2,3)]])
  have "wp (foldE (copy_step E live p j) kvs ?c) (\<lambda>c. wp (copy_done E t g j res c) Q R) R s"
    by (rule wp_copy_all [OF platform_okD(3) [OF ok] cp at idx scan_all(1) [OF lm scan] fits start [unfolded m]])
      (rule wp_copy_done [OF ok idle _ _ t scan _ _ Q R]; simp add: m | rule early)+
  then show ?thesis
    unfolding compact_copy_def scan prod.case wp_thenE [of "mdb_check _ _ _"] wp_bindE [of "foldE _ _ _"]
    by (intro wp_mdb_check early) (use cp in \<open>simp_all add: same_env_def\<close>)
qed

section \<open>The whole of it\<close>

text \<open>What of a state these outcomes speak of.\<close>

lemma moved_same:
  assumes "moved E live g s s'" and "idle_inv E (g + 1) j s'" and "idle_inv E (g + 1) j s''"
    and "inodes (world s'') j = inodes (world s') j" and "mdb_env (world s'') = mdb_env (world s')"
    and "wtxn s'' = wtxn s'" and "cas.more s'' = cas.more s'"
  shows "moved E live g s s''"
  using assms committed_view_live [OF idle_live [OF assms(2)]] committed_view_live [OF idle_live [OF assms(3)]]
  by (auto simp: moved_def committed_tables_def)

lemma stays_same:
  assumes "stays E g i s s'" and "idle_inv E g i s''" and "inodes (world s'') i = inodes (world s') i"
    and "mdb_env (world s'') = mdb_env (world s')" and "wtxn s'' = wtxn s'" and "cas.more s'' = cas.more s'"
  shows "stays E g i s s''"
proof -
  have "idle_inv E g i s'" using assms(1) by (simp add: stays_def)
  from committed_view_live [OF idle_live [OF this]] committed_view_live [OF idle_live [OF assms(2)]]
  have "committed_view E (world s'') = committed_view E (world s')" using assms(3,4) by simp
  with assms show ?thesis by (simp add: stays_def committed_tables_def)
qed

lemma stays_trans: "stays E g i s s' \<Longrightarrow> stays E g i s' s'' \<Longrightarrow> stays E g i s s''"
  by (simp add: stays_def)

lemma stays_moved: "stays E g i s s' \<Longrightarrow> moved E live g s' s'' \<Longrightarrow> moved E live g s s''"
  by (auto simp: stays_def moved_def)

lemma stays_lost: "stays E g i s s' \<Longrightarrow> lost E g s' s'' \<Longrightarrow> lost E g s s''"
  by (simp add: stays_def lost_def)

lemma stays_mapped: "idle_inv E g i s \<Longrightarrow> mapped g s s' \<Longrightarrow> stays E g i s s'"
  by (auto simp: stays_def mapped_fields committed_tables_def intro: idle_mapped)

lemma flocked:
  assumes "world s'' = (world s')\<lparr>flock_owner := x\<rparr>" and "maps s'' = maps s'" and "cur s'' = cur s'"
    and "retired s'' = retired s'" and "wtxn s'' = wtxn s'" and "cas.more s'' = cas.more s'"
  shows "stays E g i s s' \<Longrightarrow> stays E g i s s''" and "moved E live g s s' \<Longrightarrow> moved E live g s s''"
    and "lost E g s s' \<Longrightarrow> lost E g s s''"
proof -
  have idle: "idle_inv E g i s' \<Longrightarrow> idle_inv E g i s''" for g i by (rule idle_same [OF _ assms(1-4)])
  show "stays E g i s s' \<Longrightarrow> stays E g i s s''" "moved E live g s s' \<Longrightarrow> moved E live g s s''"
    using idle assms by (auto simp: stays_def moved_def committed_tables_def)
  show "lost E g s s' \<Longrightarrow> lost E g s s''"
    using assms by (simp add: lost_def committed_tables_def find_inode_def)
qed

lemma wp_unlock_outcome:
  assumes "quiet E" and "\<And>s''. world s'' = (world s')\<lparr>flock_owner := flock_owner (world s'')\<rparr> \<Longrightarrow> maps s'' = maps s' \<Longrightarrow>
      cur s'' = cur s' \<Longrightarrow> retired s'' = retired s' \<Longrightarrow> wtxn s'' = wtxn s' \<Longrightarrow> cas.more s'' = cas.more s' \<Longrightarrow> Q () s''"
  shows "wp (unlock_writer E) Q R s'"
  by (intro wp_unlock_writer [OF assms(1)] assms(2)) simp_all

text \<open>Removing the old pack and mapping the new one.\<close>

lemma wp_compact_finish:
  assumes ok: "platform_ok E" and gt: "g < g + 1" and idle: "idle_inv E (g + 1) j s'" and m: "moved E live g s s'"
    and Q: "\<And>s'. moved E live g s s' \<Longrightarrow> Q () s'" and R: "\<And>e s'. io_exn e \<Longrightarrow> moved E live g s s' \<Longrightarrow> R e s'"
  shows "wp (compact_finish E g off) Q R s'"
proof -
  note q = platform_okD(3) [OF ok]
  have *: "wp (mapping_for E (g + 1) True) (\<lambda>_. wp (thenE (modS (\<lambda>s. s\<lparr>committed_end := off, pack_end := off\<rparr>))
      (unlock_writer E)) Q R) R s2" if s2: "idle_inv E (g + 1) j s2" "moved E live g s s2" for s2
  proof (rule wp_mapping_for_idle [OF q s2(1)])
    fix p s3
    assume s3: "mapped (g + 1) s2 s3"
    note f = mapped_fields [OF s3]
    have m3: "moved E live g s s3"
      by (rule moved_same [OF s2(2,1) idle_mapped [OF s2(1) s3]]) (simp_all add: f)
    show "wp (thenE (modS (\<lambda>s. s\<lparr>committed_end := off, pack_end := off\<rparr>)) (unlock_writer E)) Q R s3"
      unfolding wp_thenE wp_modS
      by (rule wp_unlock_outcome [OF q], rule Q, rule flocked(2) [OF _ _ _ _ _ _ m3, rotated]) auto
  qed (use R moved_tick [OF s2(2)] in blast)
  have "idle_inv E (g + 1) j (s'\<lparr>tick := n, world := unlinked (pack_name g) (world s')\<rparr>)" for n
    by (rule idle_unlinked [OF idle]) (use gt in \<open>auto simp: pack_name_inj\<close>)
  moreover from moved_same [OF m idle this] have "moved E live g s (s'\<lparr>tick := n, world := unlinked (pack_name g) (world s')\<rparr>)" for n
    by simp
  ultimately show ?thesis
    unfolding compact_finish_def wp_thenE [of "sys_unlink _ _"] wp_bindE
    using idle moved_tick [OF m] by (intro wp_sys_unlink_name [OF q] *) simp_all
qed

text \<open>How a compaction can fail: nothing has changed, or all of it has been done (and only the
  mapping of the new pack or the removal of the old one failed), or the committed index is without
  its pack.\<close>

definition compact_failed ::
  "('e, 't) platform \<Rightarrow> (bytes \<Rightarrow> bool) \<Rightarrow> u64 \<Rightarrow> nat \<Rightarrow> ('e, 't, 'z) cas_scheme \<Rightarrow> ('e, 't, 'z) cas_scheme \<Rightarrow> bool" where
  "compact_failed E live g i s s' \<longleftrightarrow> stays E g i s s' \<or> moved E live g s s' \<or> lost E g s s'"

lemma wp_drop_new_pack:
  assumes "quiet E" and gt: "g < g + 1"
    and old: "idle_inv E g i s \<and> copying E g i j s' \<and> stays E g i s s' \<or> idle_inv E (g + 1) j s' \<and> moved E live g s s'"
    and R: "\<And>s'. compact_failed E live g i s s' \<Longrightarrow> R e s'"
  shows "wp (thenE (sys_unlink E (pack_name (g + 1))) (throw e)) Q R s'"
proof -
  let ?s = "\<lambda>n. s'\<lparr>tick := n, world := unlinked (pack_name (g + 1)) (world s')\<rparr>"
  from old have "compact_failed E live g i s (s'\<lparr>tick := n\<rparr>) \<and> compact_failed E live g i s (?s n)" for n
  proof
    assume a: "idle_inv E g i s \<and> copying E g i j s' \<and> stays E g i s s'"
    then have idle: "idle_inv E g i (?s n)"
      by (intro idle_unlinked copying_idle) (use gt in \<open>auto simp: pack_name_inj\<close>)
    have "stays E g i s (?s n)" by (rule stays_same [OF _ idle]) (use a in simp_all)
    moreover have "stays E g i s (s'\<lparr>tick := n\<rparr>)" using a by (simp add: stays_def committed_tables_def)
    ultimately show ?thesis by (simp add: compact_failed_def)
  next
    assume a: "idle_inv E (g + 1) j s' \<and> moved E live g s s'"
    then have tbl: "committed_tables E s' Meta = (committed_tables E s Meta)(''gen'' \<mapsto> le_bytes 8 (g + 1))"
      by (simp add: moved_def)
    have "table_gen (mdb_committed E (mdb_env (world s'))) = Some (g + 1)"
      by (rule table_gen_Meta) (use tbl in \<open>simp add: committed_tables_def\<close>)
    with tbl have "lost E g s (?s n)" by (simp add: lost_def committed_tables_def committed_view_def)
    moreover have "moved E live g s (s'\<lparr>tick := n\<rparr>)" using a moved_tick by blast
    ultimately show ?thesis by (simp add: compact_failed_def)
  qed
  then show ?thesis
    unfolding wp_thenE wp_throw by (intro wp_sys_unlink_name [OF assms(1)] R) simp_all
qed

lemma wp_new_pack:
  assumes "quiet E" and idle: "idle_inv E g i s" and gt: "g < g + 1"
    and Q: "\<And>j s'. copying E g i j s' \<Longrightarrow> same_env i s s' \<Longrightarrow> inodes (world s') j = [] \<Longrightarrow> maps s' = maps s \<Longrightarrow> Q (Inr j) s'"
    and Q': "\<And>err n. Q (Inl err) (s\<lparr>tick := n\<rparr>)"
  shows "wp (sys_open E (pack_name (g + 1)) True True) Q R s"
proof -
  have i: "files_ok (world s)" "find_inode (world s) (pack_name g) = Some i"
    using idle by (simp_all add: idle_inv_def live_pack_def)
  show ?thesis
  proof (rule wp_sys_open [OF assms(1)])
    show "Q (Inl err) (s\<lparr>tick := n\<rparr>)" for err n by (rule Q')
    fix j n
    assume j: "find_inode (world s) (pack_name (g + 1)) = Some j"
    have cp: "copying E g i j s" using idle gt j by (simp add: copying_def)
    show "Q (Inr j) (s\<lparr>tick := n, world := set_inode j [] (world s)\<rparr>)"
      by (rule Q [OF copying_opened [OF idle gt j]]) (use copying_other(1) [OF cp] in \<open>simp_all add: same_env_def\<close>)
  next
    fix n
    assume none: "find_inode (world s) (pack_name (g + 1)) = None"
    show "Q (Inr (next_inode (world s))) (s\<lparr>tick := n, world := link_new (pack_name (g + 1)) (world s)\<rparr>)"
      by (rule Q [OF copying_created [OF idle gt none]])
        (use files_ok_less [OF i] in \<open>simp_all add: same_env_def link_new_def\<close>)
  qed simp
qed

lemma wp_compact_locked:
  assumes ok: "platform_ok E" and idle: "idle_inv E g i s" and none: "wtxn s = None" and gt: "g < g + 1"
    and fits: "length (inodes (world s) i) \<le> kMapSize"
    and Q: "\<And>s'. moved E live g s s' \<Longrightarrow> Q () s'"
    and R: "\<And>e s'. io_exn e \<Longrightarrow> compact_failed E live g i s s' \<Longrightarrow> R e s'"
  shows "wp (compact_locked E live) Q R s"
proof -
  note q = platform_okD(3) [OF ok]
  have early: "R e s'" if "io_exn e" "stays E g i s s'" for e s'
    using that by (intro R) (simp_all add: compact_failed_def)
  have tick: "stays E g i s (s'\<lparr>tick := n\<rparr>)" if "stays E g i s s'" for s' n
    using that by (simp add: stays_def committed_tables_def)
  have stays0: "stays E g i s s" using idle by (simp add: stays_def)
  have opened: "wp (bindE (readS (\<lambda>s. pack_path s (g + 1))) (\<lambda>new_path.
      bindE (sys_open E (pack_name (g + 1)) True True) (\<lambda>r. case r of
        Inl err \<Rightarrow> sys_err (''open '' @ new_path) err
      | Inr new_fd \<Rightarrow> bindE (tryE (compact_copy E live t g p new_fd)
            (\<lambda>e. thenE (sys_unlink E (pack_name (g + 1))) (throw e))) (compact_finish E g)))) Q R s1"
    if s1: "stays E g i s s1" "at_pack i p s1" "inodes (world s1) i = inodes (world s) i" and t: "mdb_table E t = committed_tables E s"
    for t s1 p
    unfolding wp_bindE wp_readS
  proof (rule wp_new_pack [OF q _ gt])
    show idle1: "idle_inv E g i s1" using s1(1) by (simp add: stays_def)
    show "wp (case Inl err of Inl err \<Rightarrow> sys_err (''open '' @ pack_path s1 (g + 1)) err
      | Inr new_fd \<Rightarrow> bindE (tryE (compact_copy E live t g p new_fd)
            (\<lambda>e. thenE (sys_unlink E (pack_name (g + 1))) (throw e))) (compact_finish E g)) Q R (s1\<lparr>tick := n\<rparr>)" for err n
      by (simp, rule wp_sys_err) (rule early [OF _ tick [OF s1(1)]])
    fix j s2
    assume s2: "copying E g i j s2" "same_env i s1 s2" "inodes (world s2) j = []" "maps s2 = maps s1"
    have st: "stays E g i s s2" by (rule stays_trans [OF s1(1) copying_stays [OF idle1 s2(1,2)]])
    have lift: "compact_failed E live g i s s'" if "compact_failed E live g i s2 s'" for s'
      using that stays_trans [OF st] stays_moved [OF st] stays_lost [OF st] by (auto simp: compact_failed_def)
    have "wp (compact_copy E live t g p j) (\<lambda>off. wp (compact_finish E g off) Q R)
        (\<lambda>e. wp (thenE (sys_unlink E (pack_name (g + 1))) (throw e)) (\<lambda>off. wp (compact_finish E g off) Q R) R) s2"
    proof (rule wp_compact_copy [OF ok s2(1)])
      show "at_pack i p s2" using s1(2) s2(4) by (simp add: at_pack_def map_at_def)
      show "length (inodes (world s2) i) \<le> kMapSize" using fits s1(3) s2(2) by (simp add: same_env_def)
      show "mdb_table E t = committed_tables E s2" using t st by (simp add: stays_def)
      fix e s3
      assume e: "io_exn e"
      have drop: "wp (thenE (sys_unlink E (pack_name (g + 1))) (throw e)) (\<lambda>off. wp (compact_finish E g off) Q R) R s3"
        if "idle_inv E g i s2 \<and> copying E g i j s3 \<and> stays E g i s2 s3 \<or> idle_inv E (g + 1) j s3 \<and> moved E live g s2 s3"
        by (rule wp_drop_new_pack [OF q gt that]) (rule R [OF e lift])
      show "wp (thenE (sys_unlink E (pack_name (g + 1))) (throw e)) (\<lambda>off. wp (compact_finish E g off) Q R) R s3"
        if "copying E g i j s3" "stays E g i s2 s3"
        by (rule drop) (use that copying_idle [OF s2(1)] in blast)
      show "wp (thenE (sys_unlink E (pack_name (g + 1))) (throw e)) (\<lambda>off. wp (compact_finish E g off) Q R) R s3"
        if "idle_inv E (g + 1) j s3" "moved E live g s2 s3"
        by (rule drop) (use that in blast)
    next
      fix off s3
      assume s3: "idle_inv E (g + 1) j s3" "moved E live g s2 s3"
      show "wp (compact_finish E g off) Q R s3"
        by (rule wp_compact_finish [OF ok gt s3(1) stays_moved [OF st s3(2)]]) (auto simp: compact_failed_def intro: Q R)
    qed (rule s2(3))
    then show "wp (case Inr j of Inl err \<Rightarrow> sys_err (''open '' @ pack_path s1 (g + 1)) err
      | Inr new_fd \<Rightarrow> bindE (tryE (compact_copy E live t g p new_fd)
            (\<lambda>e. thenE (sys_unlink E (pack_name (g + 1))) (throw e))) (compact_finish E g)) Q R s2"
      by (simp add: wp_bindE wp_tryE)
  qed
  show ?thesis
    unfolding compact_locked_def wp_bindE [of "write_txn_begin E"]
  proof (rule wp_write_txn_begin [OF ok none])
    fix t n
    assume t: "mdb_table E t = committed_tables E s"
    have gen: "table_gen (mdb_table E t) = Some g"
      using idle_live [OF idle] by (simp add: t committed_tables_def live_pack_def)
    have e: "R e (s\<lparr>tick := n'\<rparr>)" if "io_exn e" for e n' by (rule early [OF that tick [OF stays0]])
    show "wp (bindE (liftE (read_gen E t)) (\<lambda>gen. bindE (mapping_for E gen True) (\<lambda>r. bindE (deref r) (\<lambda>p.
     bindE (file_size E p) (\<lambda>n. thenE (set_map_size p n) (bindE (readS (\<lambda>s. pack_path s (gen + 1))) (\<lambda>new_path.
      bindE (sys_open E (pack_name (gen + 1)) True True) (\<lambda>r. case r of
        Inl err \<Rightarrow> sys_err (''open '' @ new_path) err
      | Inr new_fd \<Rightarrow> bindE (tryE (compact_copy E live t gen p new_fd)
            (\<lambda>e. thenE (sys_unlink E (pack_name (gen + 1))) (throw e))) (compact_finish E gen))))))))) Q R (s\<lparr>tick := n\<rparr>)"
      unfolding wp_bindE [of "liftE _"] wp_bindE [of "mapping_for _ _ _"]
    proof (rule wp_read_gen [OF platform_okD(2) [OF ok] gen], rule wp_mapping_for_idle [OF q])
      show "idle_inv E g i (s\<lparr>tick := n\<rparr>)" using idle by simp
      fix p s1
      assume s1: "mapped g (s\<lparr>tick := n\<rparr>) s1" "p < length (maps s1)" "m_fd (map_at s1 p) = i"
      have st1: "stays E g i s s1" by (rule stays_trans [OF tick [OF stays0] stays_mapped [OF _ s1(1)]]) (use idle in simp)
      note f = mapped_fields [OF s1(1)]
      have idle1: "idle_inv E g i s1" using st1 by (simp add: stays_def)
      show "wp (bindE (deref (Some p)) (\<lambda>p. bindE (file_size E p) (\<lambda>n. thenE (set_map_size p n) (bindE (readS (\<lambda>s. pack_path s (g + 1))) (\<lambda>new_path.
      bindE (sys_open E (pack_name (g + 1)) True True) (\<lambda>r. case r of
        Inl err \<Rightarrow> sys_err (''open '' @ new_path) err
      | Inr new_fd \<Rightarrow> bindE (tryE (compact_copy E live t g p new_fd)
            (\<lambda>e. thenE (sys_unlink E (pack_name (g + 1))) (throw e))) (compact_finish E g))))))) Q R s1"
        unfolding deref_def option.case wp_bindE [of "ret _"] wp_ret wp_bindE [of "file_size _ _"] wp_thenE [of "set_map_size _ _"]
      proof (intro wp_file_size [OF q] wp_set_map_size opened [OF _ _ _ t] early tick st1)
        fix k
        let ?len = "of_nat (length (inodes (world s1) (m_fd (map_at s1 p)))) :: u64"
        let ?s2 = "(s1\<lparr>tick := k\<rparr>)\<lparr>maps := (maps (s1\<lparr>tick := k\<rparr>))[p := (map_at (s1\<lparr>tick := k\<rparr>) p)\<lparr>m_size := ?len\<rparr>]\<rparr>"
        have "unat ?len = length (inodes (world s1) i)"
          using idle1 s1(3) by (simp add: idle_inv_def files_ok_unat)
        then have "idle_inv E g i ?s2" using idle1 s1(2,3) by (intro idle_set_size) simp_all
        with st1 show "stays E g i s ?s2" by (simp add: stays_def committed_tables_def)
        show "at_pack i p ?s2" using s1(2,3) by (simp add: at_pack_def map_at_def)
        show "inodes (world ?s2) i = inodes (world s) i" by (simp add: f)
      qed
    qed (use e in simp_all)
  qed (rule early [OF _ tick [OF stays0]])
qed

text \<open>A compaction keeps what is live of the handle's store and drops the rest; the batch is committed
  first.\<close>

definition compacted ::
  "('e, 't) platform \<Rightarrow> (bytes \<Rightarrow> bool) \<Rightarrow> ('e, 't, 'z) cas_scheme \<Rightarrow> ('e, 't, 'z) cas_scheme \<Rightarrow> bool" where
  "compacted E live s s' \<longleftrightarrow> cas_inv E s' \<and> wtxn s' = None \<and> cas.more s' = cas.more s \<and>
     store_view E s' = (\<lambda>h. if live h then store_view E s h else None) \<and>
     (\<exists>g. table_gen (reader_table E s) = Some g \<and>
        reader_table E s' Meta = (reader_table E s Meta)(''gen'' \<mapsto> le_bytes 8 (g + 1)))"

definition pack_lost :: "('e, 't) platform \<Rightarrow> ('e, 't, 'z) cas_scheme \<Rightarrow> bool" where
  "pack_lost E s \<longleftrightarrow> (\<exists>g. table_gen (committed_tables E s) = Some g \<and> find_inode (world s) (pack_name g) = None)"


lemma store_view_own:
  assumes "own_batch E s"
  shows "store_view E s = batch_view E s" and "wtxn s = None \<Longrightarrow> batch_view E s = committed_view E (world s)"
proof -
  show "wtxn s = None \<Longrightarrow> batch_view E s = committed_view E (world s)" by (simp add: batch_view_def)
  then show "store_view E s = batch_view E s"
    using assms by (auto simp: store_view_def batch_txn_def own_batch_def)
qed

lemma reader_table_own:
  assumes "own_batch E s"
  shows "wtxn s = None \<Longrightarrow> reader_table E s = committed_tables E s"
    and "wtxn s = Some t \<Longrightarrow> reader_table E s = mdb_table E t"
  using assms by (simp_all add: reader_table_idle batch_txn_None reader_table_batch batch_txn_Some own_batch_def)

text \<open>After the sync: the handle's store is the committed one.\<close>

definition synced :: "('e, 't) platform \<Rightarrow> ('e, 't, 'z) cas_scheme \<Rightarrow> ('e, 't, 'z) cas_scheme \<Rightarrow> bool" where
  "synced E s s' \<longleftrightarrow> cas_inv E s' \<and> wtxn s' = None \<and> cas.more s' = cas.more s \<and>
     committed_view E (world s') = store_view E s \<and> committed_tables E s' = reader_table E s"

lemma wp_sync_own:
  assumes ok: "platform_ok E" and inv: "cas_inv E s" and own: "own_batch E s"
    and Q: "\<And>s'. synced E s s' \<Longrightarrow> Q () s'" and R: "\<And>e s'. io_exn e \<Longrightarrow> commit_failed E s s' \<Longrightarrow> R e s'"
  shows "wp (sync E) Q R s"
proof (rule wp_sync [OF ok inv _ _ R])
  note view = store_view_own [OF own] and tbl = reader_table_own [OF own]
  show "Q () s'" if "wtxn s = None" "s' = s" for s'
    using that inv view tbl(1) by (intro Q) (simp add: synced_def)
  show "Q () s'" if "wtxn s \<noteq> None" "committed E s s'" for s'
    using that view tbl(2) by (intro Q) (auto simp: synced_def committed_def)
qed

text \<open>What may be left when a compaction fails.\<close>

definition compact_error ::
  "('e, 't) platform \<Rightarrow> (bytes \<Rightarrow> bool) \<Rightarrow> ('e, 't, 'z) cas_scheme \<Rightarrow> ('e, 't, 'z) cas_scheme \<Rightarrow> bool" where
  "compact_error E live s s' \<longleftrightarrow> commit_failed E s s' \<or> synced E s s' \<or> compacted E live s s' \<or> pack_lost E s'"

lemma synced_stays: "synced E s s1 \<Longrightarrow> stays E g i s1 s' \<Longrightarrow> synced E s s'"
  by (auto simp: synced_def stays_def intro: idle_cas_inv)

lemma synced_moved:
  assumes "synced E s s1" and "live_pack E (world s1) g i" and "moved E live g s1 s'"
  shows "compacted E live s s'"
proof -
  from assms have none: "wtxn s' = None" by (simp add: synced_def moved_def)
  then have own: "own_batch E s'" by (simp add: own_batch_def)
  from assms(3) none have "cas_inv E s'" by (auto simp: moved_def intro: idle_cas_inv)
  then show ?thesis
    using assms none store_view_own [OF own] reader_table_own(1) [OF own none]
    by (auto simp: compacted_def synced_def moved_def live_pack_def committed_tables_def)
qed

lemma lost_pack_lost: "lost E g s s' \<Longrightarrow> pack_lost E s'"
  using table_gen_Meta [of "committed_tables E s'" "g + 1"] by (auto simp: lost_def pack_lost_def)

text \<open>There is a next generation, and the pack can be mapped.\<close>

definition can_compact :: "('e, 't) platform \<Rightarrow> ('e, 't, 'z) cas_scheme \<Rightarrow> bool" where
  "can_compact E s \<longleftrightarrow> (\<forall>g i. table_gen (reader_table E s) = Some g \<longrightarrow> find_inode (world s) (pack_name g) = Some i \<longrightarrow>
     g < g + 1 \<and> length (inodes (world s) i) \<le> kMapSize)"

text \<open>A sync does not touch the files.\<close>

definition same_files :: "('e, 't, 'z) cas_scheme \<Rightarrow> ('e, 't, 'z) cas_scheme \<Rightarrow> bool" where
  "same_files s s' \<longleftrightarrow> inodes (world s') = inodes (world s) \<and> dirents (world s') = dirents (world s)"

lemma wp_txn_commit_files:
  assumes "quiet E" and "\<And>res e' n. Q res (s\<lparr>tick := n, world := (world s)\<lparr>mdb_env := e'\<rparr>\<rparr>)"
  shows "wp (txn_commit E t) Q R s"
  unfolding txn_commit_def using assms(2) by (intro wp_rules assms(1)) (simp add: wp_def split: prod.split)

lemma wp_deref_any: "(\<And>a. Q a s) \<Longrightarrow> (\<And>e. R e s) \<Longrightarrow> wp (deref x) Q R s"
  by (cases x) (simp_all add: deref_def wp_simps)

lemma sync_files:
  assumes "quiet E"
  shows "wp (sync E) (\<lambda>_. same_files s) (\<lambda>_ _. True) s"
  unfolding sync_def commit_batch_def current_def use_batch_def batch_done_def
  by (intro wp_rules wp_env_sync wp_deref_any wp_txn_commit_files assms) (simp_all add: same_files_def)

lemma live_same_files: "same_files s s' \<Longrightarrow> table_gen (committed_tables E s') = Some g \<Longrightarrow>
    live_pack E (world s) g i \<Longrightarrow> live_pack E (world s') g i"
  by (simp add: same_files_def live_pack_def find_inode_def committed_tables_def)

lemma wp_compact:
  assumes ok: "platform_ok E" and inv: "cas_inv E s" and own: "own_batch E s" and can: "can_compact E s"
    and Q: "\<And>s'. compacted E live s s' \<Longrightarrow> Q () s'"
    and R: "\<And>e s'. io_exn e \<Longrightarrow> compact_error E live s s' \<Longrightarrow> R e s'"
  shows "wp (compact E live) Q R s"
proof -
  note q = platform_okD(3) [OF ok]
  obtain g i where live: "live_pack E (world s) g i" using inv by (auto simp: cas_inv_idle idle_inv_def)
  then have gt: "g < g + 1" and fits: "length (inodes (world s) i) \<le> kMapSize"
    using can reader_ok(1) [OF inv live] by (simp_all add: can_compact_def live_pack_def)
  have main: "wp (thenE (lock_writer E) (tryE (compact_locked E live) (\<lambda>e. thenE (unlock_writer E) (throw e)))) Q R s1"
    if sy: "synced E s s1" and files: "same_files s s1" for s1
  proof -
    have "table_gen (committed_tables E s1) = Some g"
      using sy reader_ok(1) [OF inv live] by (simp add: synced_def)
    then have live1: "live_pack E (world s1) g i" by (rule live_same_files [OF files _ live])
    have none: "wtxn s1 = None" using sy by (simp add: synced_def)
    have idle1: "idle_inv E g i s1" using sy live1 by (auto simp: synced_def intro: cas_inv_idleD)
    have early: "R e s'" if "io_exn e" "stays E g i s1 s'" for e s'
      using synced_stays [OF sy that(2)] by (intro R [OF that(1)]) (simp add: compact_error_def)
    have st: "stays E g i s1 (s1\<lparr>tick := n\<rparr>)" for n
      using idle1 by (simp add: stays_def committed_tables_def)
    show ?thesis
      unfolding wp_thenE
    proof (rule wp_lock_writer [OF q])
      fix n
      let ?s = "s1\<lparr>tick := n, world := (world s1)\<lparr>flock_owner := Some (self E)\<rparr>\<rparr>"
      have st': "stays E g i s1 ?s" by (rule flocked(1) [OF _ _ _ _ _ _ st]) simp_all
      show "wp (tryE (compact_locked E live) (\<lambda>e. thenE (unlock_writer E) (throw e))) Q R ?s"
        unfolding wp_tryE
      proof (rule wp_compact_locked [OF ok _ _ gt])
        show "idle_inv E g i ?s" using st' by (simp add: stays_def)
        show "wtxn ?s = None" using none by simp
        show "length (inodes (world ?s) i) \<le> kMapSize" using fits files by (simp add: same_files_def)
        show "Q () s'" if "moved E live g ?s s'" for s'
          by (rule Q [OF synced_moved [OF sy live1 stays_moved [OF st' that]]])
        fix e s'
        assume e: "io_exn e" and f: "compact_failed E live g i ?s s'"
        show "wp (thenE (unlock_writer E) (throw e)) Q R s'"
          unfolding wp_thenE
        proof (rule wp_unlock_outcome [OF q], rule wp_throw_I)
          fix s''
          assume s'': "world s'' = (world s')\<lparr>flock_owner := flock_owner (world s'')\<rparr>" "maps s'' = maps s'"
            "cur s'' = cur s'" "retired s'' = retired s'" "wtxn s'' = wtxn s'" "cas.more s'' = cas.more s'"
          note fl = flocked [where s = ?s, OF s'']
          from f consider "stays E g i s1 s''" | "moved E live g s1 s''" | "lost E g s1 s''"
            using fl stays_trans [OF st'] stays_moved [OF st'] stays_lost [OF st'] by (auto simp: compact_failed_def)
          then show "R e s''"
            by cases (auto simp: compact_error_def intro!: R [OF e] intro: synced_stays [OF sy] synced_moved [OF sy live1] lost_pack_lost)
        qed
      qed
    qed (rule early [OF _ st])
  qed
  have "wp (sync E) (\<lambda>_. synced E s) (\<lambda>e s'. io_exn e \<and> commit_failed E s s') s"
    by (rule wp_sync_own [OF ok inv own]) simp_all
  from wp_conj [OF this sync_files [OF q, of s]]
  show ?thesis
    unfolding compact_def wp_thenE [of "sync E"]
    by (rule wp_mono) (use main R in \<open>auto simp: compact_error_def\<close>)
qed

end
