(* ===== verification/Tree_Codec.thy ===== *)
theory Tree_Codec
  imports Prelude
begin

text \<open>
  Tree objects (\<open>TreeEntry\<close>, \<open>TreeStore::putTree\<close>, \<open>TreeStore::readTree\<close> of
  \<open>src/src/tree.cpp\<close>): the serialisation of a list of directory entries and the parser of
  it. The lemmas show that the parser accepts exactly the serialisations of well-formed entry
  lists, so that the encoding is canonical: two tree objects with the same entries are the same
  bytes.
\<close>

section \<open>Entries\<close>

record tree_entry =
  te_name :: bytes
  te_type :: char
  te_id :: bytes

definition kMaxNameLen :: nat where "kMaxNameLen = 0xffff"
definition kMaxIdLen :: nat where "kMaxIdLen = 0xff"
definition kTreeEntryHeader :: nat where "kTreeEntryHeader = 3"

definition tree_type :: "char \<Rightarrow> bool" where
  "tree_type c \<longleftrightarrow> c = CHR ''r'' \<or> c = CHR ''x'' \<or> c = CHR ''s'' \<or> c = CHR ''d''"

text \<open>\<open>static_cast<char>\<close> of a length keeps its low byte.\<close>

definition len_byte :: "nat \<Rightarrow> char" where
  "len_byte n = char_of (n mod 256)"

section \<open>Writing\<close>

definition tree_entry_bytes :: "tree_entry \<Rightarrow> bytes" where
  "tree_entry_bytes e = te_type e # len_byte (length (te_name e)) # len_byte (length (te_name e) div 256) #
     te_name e @ len_byte (length (te_id e)) # te_id e"

fun tree_bytes :: "tree_entry list \<Rightarrow> exn + bytes" where
  "tree_bytes [] = Inr []"
| "tree_bytes (e # es) =
     (if kMaxNameLen < length (te_name e) \<or> kMaxIdLen < length (te_id e)
      then Inl (InvalidArgument ''tree entry too large'')
      else case tree_bytes es of Inl x \<Rightarrow> Inl x | Inr buf \<Rightarrow> Inr (tree_entry_bytes e @ buf))"

section \<open>Reading\<close>

text \<open>The position in the buffer is represented by the bytes still unread.\<close>

definition name_length :: "char \<Rightarrow> char \<Rightarrow> nat" where
  "name_length lo hi = or (of_char lo) (push_bit 8 (of_char hi))"

function parse_tree :: "tree_entry list \<Rightarrow> bytes \<Rightarrow> exn + tree_entry list" where
  "parse_tree out buf =
     (if buf = [] then Inr out
      else if length buf < kTreeEntryHeader then Inl (CorruptError ''corrupt tree object'')
      else if \<not> tree_type (buf ! 0) then Inl (CorruptError ''corrupt tree object: bad type'')
      else let name_len = name_length (buf ! 1) (buf ! 2); buf1 = drop 3 buf
        in if length buf1 < name_len + 1 then Inl (CorruptError ''corrupt tree object: truncated'')
        else let name = take name_len buf1; id_len = of_char (buf1 ! name_len);
               buf2 = drop (name_len + 1) buf1
          in if length buf2 < id_len then Inl (CorruptError ''corrupt tree object: truncated'')
          else if out \<noteq> [] \<and> name \<le> te_name (last out)
            then Inl (CorruptError ''corrupt tree object: not sorted'')
          else parse_tree (out @ [\<lparr>te_name = name, te_type = buf ! 0, te_id = take id_len buf2\<rparr>])
                 (drop id_len buf2))"
  by pat_completeness auto
termination
  by (relation "measure (\<lambda>(out, buf). length buf)") (auto simp: kTreeEntryHeader_def)

declare parse_tree.simps [simp del]

section \<open>The parser accepts exactly what the writer writes\<close>

definition entry_ok :: "tree_entry \<Rightarrow> bool" where
  "entry_ok e \<longleftrightarrow> tree_type (te_type e) \<and> length (te_name e) \<le> kMaxNameLen \<and> length (te_id e) \<le> kMaxIdLen"

definition tree_ok :: "tree_entry list \<Rightarrow> bool" where
  "tree_ok es \<longleftrightarrow> (\<forall>e\<in>set es. entry_ok e) \<and> sorted_wrt (<) (map te_name es)"

lemma of_char_len_byte [simp]: "(of_char (len_byte n) :: nat) = n mod 256"
  by (simp add: len_byte_def)

lemma len_byte_of_char [simp]: "len_byte (of_char c) = c"
  by (simp add: len_byte_def)

lemma name_length_eq: "name_length lo hi = of_char lo + 256 * of_char hi"
proof -
  have "and (of_char lo :: nat) (push_bit 8 (of_char hi)) = 0"
  proof (rule bit_eqI)
    fix n
    have "(of_char lo :: nat) < 2 ^ 8" by simp
    then have "\<not> bit (of_char lo :: nat) n" if "8 \<le> n"
      using that by (metis bit_take_bit_iff linorder_not_le take_bit_nat_eq_self)
    then show "bit (and (of_char lo :: nat) (push_bit 8 (of_char hi))) n = bit 0 n"
      by (auto simp: bit_and_iff bit_push_bit_iff)
  qed
  then show ?thesis
    by (simp add: name_length_def disjunctive_add_eq_or [symmetric] push_bit_eq_mult)
qed

lemma name_length_bytes: "n \<le> kMaxNameLen \<Longrightarrow> name_length (len_byte n) (len_byte (n div 256)) = n"
  by (simp add: name_length_eq kMaxNameLen_def)

lemma name_length_inverse:
  "len_byte (name_length lo hi) = lo" "len_byte (name_length lo hi div 256) = hi"
  "name_length lo hi \<le> kMaxNameLen"
proof -
  have "(of_char lo :: nat) < 256" "(of_char hi :: nat) < 256" by simp_all
  then have "(of_char lo :: nat) + 256 * of_char hi \<le> 0xffff" by linarith
  then show "name_length lo hi \<le> kMaxNameLen"
    by (simp only: name_length_eq kMaxNameLen_def)
  show "len_byte (name_length lo hi) = lo" "len_byte (name_length lo hi div 256) = hi"
    by (simp_all add: name_length_eq len_byte_def)
qed

lemma parse_entry:
  assumes "entry_ok e" and "out \<noteq> [] \<longrightarrow> te_name (last out) < te_name e"
  shows "parse_tree out (tree_entry_bytes e @ rest) = parse_tree (out @ [e]) rest"
proof -
  let ?n = "length (te_name e)" and ?k = "length (te_id e)"
  have n: "name_length (len_byte ?n) (len_byte (?n div 256)) = ?n"
    using assms(1) by (simp add: name_length_bytes entry_ok_def)
  have k: "(of_char (len_byte ?k) :: nat) = ?k"
    using assms(1) by (simp add: entry_ok_def kMaxIdLen_def)
  have "tree_type (te_type e)" using assms(1) by (simp add: entry_ok_def)
  moreover have "out \<noteq> [] \<Longrightarrow> \<not> te_name e \<le> te_name (last out)" using assms(2) by auto
  ultimately show ?thesis
    using n k by (cases e, subst parse_tree.simps)
      (auto simp: tree_entry_bytes_def kTreeEntryHeader_def nth_append Let_def simp del: of_char_len_byte)
qed

lemma last_append_lt:
  "sorted_wrt (<) (map te_name (out @ e # es)) \<Longrightarrow> out \<noteq> [] \<Longrightarrow> te_name (last out) < te_name e"
  by (simp add: sorted_wrt_append)

lemma parse_bytes:
  assumes "\<forall>e\<in>set es. entry_ok e" and "sorted_wrt (<) (map te_name (out @ es))" and "tree_bytes es = Inr buf"
  shows "parse_tree out buf = Inr (out @ es)"
  using assms
proof (induction es arbitrary: out buf)
  case Nil
  then show ?case by (simp add: parse_tree.simps)
next
  case (Cons e es)
  from Cons.prems(3) obtain buf' where buf': "tree_bytes es = Inr buf'" "buf = tree_entry_bytes e @ buf'"
    by (auto split: if_splits sum.splits)
  have "parse_tree out buf = parse_tree (out @ [e]) buf'"
    unfolding buf'(2) by (rule parse_entry) (use Cons.prems last_append_lt in auto)
  also have "\<dots> = Inr ((out @ [e]) @ es)"
    by (rule Cons.IH) (use Cons.prems buf' in simp_all)
  finally show ?case by simp
qed

text \<open>What one round of the loop has read when it goes on.\<close>

lemma parse_tree_step:
  assumes "parse_tree out buf = Inr res" and "buf \<noteq> []"
  obtains e rest where "entry_ok e" "buf = tree_entry_bytes e @ rest"
    "out \<noteq> [] \<longrightarrow> te_name (last out) < te_name e" "parse_tree (out @ [e]) rest = Inr res"
proof -
  obtain c lo hi buf1 where buf: "buf = c # lo # hi # buf1"
  proof -
    have "\<not> length buf < 3"
      using assms unfolding parse_tree.simps [of out buf] by (auto simp: kTreeEntryHeader_def)
    then show thesis using that by (cases buf; cases "tl buf"; cases "tl (tl buf)") auto
  qed
  define name_len where "name_len = name_length lo hi"
  define id_len :: nat where "id_len = of_char (buf1 ! name_len)"
  define e where "e = \<lparr>te_name = take name_len buf1, te_type = c, te_id = take id_len (drop (name_len + 1) buf1)\<rparr>"
  have facts: "tree_type c" "name_len + 1 \<le> length buf1" "id_len \<le> length (drop (name_len + 1) buf1)"
    "out \<noteq> [] \<longrightarrow> te_name (last out) < take name_len buf1"
    "parse_tree (out @ [e]) (drop id_len (drop (name_len + 1) buf1)) = Inr res"
    using assms unfolding parse_tree.simps [of out buf]
    by (auto simp: buf Let_def name_len_def id_len_def e_def not_less not_le split: if_splits)
  have split: "take name_len buf1 @ buf1 ! name_len # take id_len (drop (name_len + 1) buf1) @
      drop id_len (drop (name_len + 1) buf1) = buf1"
    using facts(2) by (simp only: append_take_drop_id) (simp add: Cons_nth_drop_Suc)
  have "id_len < 256" by (simp add: id_len_def)
  then have "entry_ok e"
    using facts(1-3) name_length_inverse(3) [of lo hi]
    by (simp add: e_def entry_ok_def kMaxIdLen_def name_len_def [symmetric])
  moreover have "len_byte (length (te_id e)) = buf1 ! name_len"
    using facts(3) by (simp add: e_def id_len_def)
  then have "buf = tree_entry_bytes e @ drop id_len (drop (name_len + 1) buf1)"
    unfolding tree_entry_bytes_def buf
    using facts(2) name_length_inverse [of lo hi] split
    by (simp add: e_def name_len_def [symmetric] del: drop_drop)
  ultimately show thesis using that facts(4,5) by (simp add: e_def)
qed

lemma tree_bytes_ok: "\<forall>e\<in>set es. entry_ok e \<Longrightarrow> tree_bytes es = Inr (concat (map tree_entry_bytes es))"
  by (induction es) (auto simp: entry_ok_def)

lemma parse_tree_sound:
  assumes "parse_tree out buf = Inr res" and "sorted_wrt (<) (map te_name out)"
  shows "\<exists>es. res = out @ es \<and> (\<forall>e\<in>set es. entry_ok e) \<and> tree_bytes es = Inr buf \<and>
    sorted_wrt (<) (map te_name res)"
  using assms
proof (induction "length buf" arbitrary: out buf rule: less_induct)
  case less
  show ?case
  proof (cases "buf = []")
    case True
    with less.prems show ?thesis by (simp add: parse_tree.simps [of out])
  next
    case False
    from parse_tree_step [OF less.prems(1) this] obtain e rest where e: "entry_ok e"
      "buf = tree_entry_bytes e @ rest" "out \<noteq> [] \<longrightarrow> te_name (last out) < te_name e"
      "parse_tree (out @ [e]) rest = Inr res" by metis
    have len: "length rest < length buf" by (simp add: e(2) tree_entry_bytes_def)
    have "te_name x < te_name e" if "x \<in> set out" for x
    proof -
      have "te_name x \<le> te_name (last out)"
        using that less.prems(2) by (cases out rule: rev_cases) (auto simp: sorted_wrt_append)
      with e(3) that show ?thesis by (cases out) auto
    qed
    then have "sorted_wrt (<) (map te_name (out @ [e]))"
      using less.prems(2) by (simp add: sorted_wrt_append)
    from less.hyps [OF len e(4) this] obtain es where es: "res = (out @ [e]) @ es"
      "\<forall>e\<in>set es. entry_ok e" "tree_bytes es = Inr rest" "sorted_wrt (<) (map te_name res)" by blast
    have "tree_bytes (e # es) = Inr buf"
      using es(3) e(1,2) by (simp add: entry_ok_def)
    with es e(1) show ?thesis by (intro exI [of _ "e # es"]) simp
  qed
qed

text \<open>Canonicity: the buffers that parse are those the writer makes of well-formed lists.\<close>

lemma parse_tree_iff: "parse_tree [] buf = Inr es \<longleftrightarrow> tree_ok es \<and> tree_bytes es = Inr buf"
proof
  assume "parse_tree [] buf = Inr es"
  from parse_tree_sound [OF this] show "tree_ok es \<and> tree_bytes es = Inr buf"
    by (auto simp: tree_ok_def)
next
  assume "tree_ok es \<and> tree_bytes es = Inr buf"
  then show "parse_tree [] buf = Inr es"
    using parse_bytes [of es "[]" buf] by (simp add: tree_ok_def)
qed

lemma parse_tree_error:
  "parse_tree out buf = Inl e \<Longrightarrow> is_corrupt e"
  by (induction out buf rule: parse_tree.induct)
    (subst (asm) (2) parse_tree.simps, auto simp: Let_def split: if_splits)

lemma tree_bytes_inj:
  assumes "tree_ok es" and "tree_ok es'" and "tree_bytes es = tree_bytes es'"
  shows "es = es'"
proof -
  have "tree_bytes es = Inr (concat (map tree_entry_bytes es))"
    using assms(1) by (simp add: tree_ok_def tree_bytes_ok)
  with assms have "parse_tree [] (concat (map tree_entry_bytes es)) = Inr es"
    "parse_tree [] (concat (map tree_entry_bytes es)) = Inr es'" by (simp_all add: parse_tree_iff)
  then show ?thesis by simp
qed

end
