(* ===== verification/Blob_Store.thy ===== *)
theory Blob_Store
  imports Pack_Meta Tree_Codec
begin

text \<open>
  The interface between the pack CAS and the tree layer. \<open>blob_source\<close> is a place blobs are
  fetched from by hash, \<open>blob_store\<close> one they can also be put into; both promise what
  \<open>src/src/tree.cpp\<close> relies on. \<open>PackCas::get\<close>, \<open>get_view\<close> and \<open>put\<close> are shown to
  implement them. The clients of this theory are \<open>TreeStore::putTree\<close>, \<open>readTree\<close> and
  \<open>readBlob\<close>, which are given the operations they call.
\<close>

section \<open>The interfaces\<close>

text \<open>\<open>rest\<close> is what of the state the blobs have nothing to do with.\<close>

locale blob_source =
  fixes ok :: "'s \<Rightarrow> bool"
    and contents :: "'s \<Rightarrow> bytes \<Rightarrow> bytes option"
    and rest :: "'s \<Rightarrow> 'r"
    and fetch :: "bytes \<Rightarrow> ('s, bytes option) prog"
  assumes fetch: "ok s \<Longrightarrow> length h = kHashLen \<Longrightarrow> wp (fetch h)
      (\<lambda>r s'. r = contents s h \<and> ok s' \<and> contents s' = contents s \<and> rest s' = rest s)
      (\<lambda>e s'. io_exn e \<and> ok s' \<and> contents s' = contents s \<and> rest s' = rest s) s"
    and fetch_bad: "length h \<noteq> kHashLen \<Longrightarrow> fetch h s = (Inl (InvalidArgument ''bad hash length''), s)"

locale blob_store = blob_source ok contents rest fetch
  for ok :: "'s \<Rightarrow> bool" and contents :: "'s \<Rightarrow> bytes \<Rightarrow> bytes option" and rest :: "'s \<Rightarrow> 'r"
    and fetch :: "bytes \<Rightarrow> ('s, bytes option) prog" +
  fixes digest :: "bytes \<Rightarrow> bytes"
    and store :: "bytes \<Rightarrow> ('s, bytes) prog"
  assumes digest_length: "ok s \<Longrightarrow> length (digest d) = kHashLen"
    and contents_digest: "ok s \<Longrightarrow> contents s h = Some d \<Longrightarrow> digest d = h"
    and store: "ok s \<Longrightarrow> length d \<le> max_off \<Longrightarrow> wp (store d)
      (\<lambda>h s'. h = digest d \<and> ok s' \<and> contents s' = [digest d \<mapsto> d] ++ contents s \<and> rest s' = rest s)
      (\<lambda>e s'. io_exn e) s"

section \<open>The clients\<close>

definition put_tree :: "(bytes \<Rightarrow> ('s, bytes) prog) \<Rightarrow> tree_entry list \<Rightarrow> ('s, bytes) prog" where
  "put_tree store entries = bindE (liftE (tree_bytes entries)) store"

definition read_tree :: "(bytes \<Rightarrow> ('s, bytes option) prog) \<Rightarrow> bytes \<Rightarrow> ('s, tree_entry list) prog" where
  "read_tree fetch tree_id = bindE (fetch tree_id) (\<lambda>r. case r of
     None \<Rightarrow> throw (CorruptError ''missing tree object'')
   | Some data \<Rightarrow> liftE (parse_tree [] data))"

definition read_blob :: "(bytes \<Rightarrow> ('s, bytes option) prog) \<Rightarrow> bytes \<Rightarrow> ('s, bytes) prog" where
  "read_blob fetch blob_id = bindE (fetch blob_id) (\<lambda>r. case r of
     None \<Rightarrow> throw (CorruptError ''missing blob'') | Some data \<Rightarrow> ret data)"

text \<open>The tree object a hash names.\<close>

definition tree_at :: "(bytes \<Rightarrow> bytes option) \<Rightarrow> bytes \<Rightarrow> tree_entry list option" where
  "tree_at m h = (case m h of None \<Rightarrow> None
   | Some d \<Rightarrow> (case parse_tree [] d of Inl _ \<Rightarrow> None | Inr es \<Rightarrow> Some es))"

lemma tree_at_Some: "tree_at m h = Some es \<longleftrightarrow> (\<exists>d. m h = Some d \<and> tree_ok es \<and> tree_bytes es = Inr d)"
  by (auto simp: tree_at_def parse_tree_iff [symmetric] split: option.splits sum.splits)

lemma tree_at_ok: "tree_at m h = Some es \<Longrightarrow> tree_ok es"
  by (auto simp: tree_at_Some)

context blob_source
begin

text \<open>What an operation that only reads leaves behind.\<close>

definition kept :: "'s \<Rightarrow> 's \<Rightarrow> bool" where
  "kept s s' \<longleftrightarrow> ok s' \<and> contents s' = contents s \<and> rest s' = rest s"

lemma kept_refl: "ok s \<Longrightarrow> kept s s"
  by (simp add: kept_def)

lemma kept_trans: "kept s s' \<Longrightarrow> kept s' s'' \<Longrightarrow> kept s s''"
  by (simp add: kept_def)

lemma wp_fetch:
  assumes "ok s" and "length h = kHashLen"
    and "\<And>s'. kept s s' \<Longrightarrow> Q (contents s h) s'" and "\<And>e s'. io_exn e \<Longrightarrow> kept s s' \<Longrightarrow> R e s'"
  shows "wp (fetch h) Q R s"
  using fetch [OF assms(1,2)] by (rule wp_mono) (auto simp: kept_def intro: assms(3,4))

lemma wp_read_tree:
  assumes "ok s" and "length h = kHashLen"
    and "\<And>es s'. tree_at (contents s) h = Some es \<Longrightarrow> kept s s' \<Longrightarrow> Q es s'"
    and "\<And>e s'. io_exn e \<or> is_corrupt e \<and> tree_at (contents s) h = None \<Longrightarrow> kept s s' \<Longrightarrow> R e s'"
  shows "wp (read_tree fetch h) Q R s"
  unfolding read_tree_def wp_bindE
proof (rule wp_fetch [OF assms(1,2)])
  fix s'
  assume k: "kept s s'"
  show "wp (case contents s h of None \<Rightarrow> throw (CorruptError ''missing tree object'')
      | Some data \<Rightarrow> liftE (parse_tree [] data)) Q R s'"
  proof (cases "contents s h")
    case None
    with assms(4) k show ?thesis by (simp add: wp_simps tree_at_def)
  next
    case (Some d)
    then show ?thesis
      using assms(3,4) [OF _ k] parse_tree_error [of "[]" d]
      by (cases "parse_tree [] d") (simp_all add: wp_simps tree_at_def)
  qed
qed (auto intro: assms(4))

lemma read_tree_bad:
  "length h \<noteq> kHashLen \<Longrightarrow> read_tree fetch h s = (Inl (InvalidArgument ''bad hash length''), s)"
  by (simp add: read_tree_def bindE_def fetch_bad)

lemma wp_read_blob:
  assumes "ok s" and "length h = kHashLen"
    and "\<And>d s'. contents s h = Some d \<Longrightarrow> kept s s' \<Longrightarrow> Q d s'"
    and "\<And>e s'. io_exn e \<or> is_corrupt e \<and> contents s h = None \<Longrightarrow> kept s s' \<Longrightarrow> R e s'"
  shows "wp (read_blob fetch h) Q R s"
  unfolding read_blob_def wp_bindE
  by (rule wp_fetch [OF assms(1,2)]) (auto simp: wp_simps intro: assms(3,4) split: option.split)

end

context blob_store
begin

lemma wp_store:
  assumes "ok s" and "length d \<le> max_off"
    and "\<And>s'. ok s' \<Longrightarrow> contents s' = [digest d \<mapsto> d] ++ contents s \<Longrightarrow> rest s' = rest s \<Longrightarrow> Q (digest d) s'"
    and "\<And>e s'. io_exn e \<Longrightarrow> R e s'"
  shows "wp (store d) Q R s"
  using store [OF assms(1,2)] by (rule wp_mono) (auto intro: assms(3,4))

text \<open>A tree that was put reads back, unless its bytes collide with another blob's.\<close>

lemma wp_put_tree:
  assumes "ok s" and "tree_bytes es = Inr d" and "length d \<le> max_off"
    and "\<And>s'. ok s' \<Longrightarrow> contents s' = [digest d \<mapsto> d] ++ contents s \<Longrightarrow> rest s' = rest s \<Longrightarrow> Q (digest d) s'"
    and "\<And>e s'. io_exn e \<Longrightarrow> R e s'"
  shows "wp (put_tree store es) Q R s"
  using wp_store [where Q = Q and R = R, OF assms(1,3)] assms(2,4,5)
  by (simp add: put_tree_def wp_simps)

lemma stored_tree:
  assumes "tree_ok es" and "tree_bytes es = Inr d" and "m (digest d) = None \<or> m (digest d) = Some d"
  shows "tree_at ([digest d \<mapsto> d] ++ m) (digest d) = Some es"
  using assms by (auto simp: tree_at_Some map_add_def)

end

section \<open>The pack CAS implements them\<close>

definition pack_ok :: "('e, 't) platform \<Rightarrow> ('e, 't, 'z) cas_scheme \<Rightarrow> bool" where
  "pack_ok E s \<longleftrightarrow> platform_ok E \<and> cas_inv E s \<and> own_batch E s"

text \<open>\<open>get_view\<close> maps at most 1 TiB of the pack.\<close>

definition pack_fits :: "('e, 't) platform \<Rightarrow> ('e, 't, 'z) cas_scheme \<Rightarrow> bool" where
  "pack_fits E s \<longleftrightarrow> (\<forall>g i. live_pack E (world s) g i \<longrightarrow> length (inodes (world s) i) \<le> kMapSize)"

definition pack_rest :: "('e, 't) platform \<Rightarrow> ('e, 't, 'z) cas_scheme \<Rightarrow> 'z \<times> (bytes \<Rightarrow> bytes option)" where
  "pack_rest E s = (cas.more s, reader_table E s Meta)"

lemma pack_okE:
  assumes "pack_ok E s"
  obtains g i where "platform_ok E" "cas_inv E s" "live_pack E (world s) g i" "own_batch E s"
  using assms by (auto simp: pack_ok_def cas_inv_idle idle_inv_def)

lemma mapped_pack_ok:
  assumes "pack_ok E s" and "live_pack E (world s) g i" and "mapped g s s'"
  shows "pack_ok E s'" "store_view E s' = store_view E s" "pack_rest E s' = pack_rest E s"
    "pack_fits E s' = pack_fits E s"
  using assms mapped_cas_inv(1) [of E s g i s'] mapped_same_store [of E s g i s']
  by (simp_all add: pack_ok_def pack_rest_def pack_fits_def own_batch_def mapped_fields same_store_def)

lemma get_bad_length:
  "length h \<noteq> kHashLen \<Longrightarrow> get E h s = (Inl (InvalidArgument ''bad hash length''), s)"
  "length h \<noteq> kHashLen \<Longrightarrow> get_view E h s = (Inl (InvalidArgument ''bad hash length''), s)"
proof -
  have "locate E h s = (Inl (InvalidArgument ''bad hash length''), s)" if "length h \<noteq> kHashLen"
    by (simp add: locate_def kMaxGenerationRetries_def eval_nat_numeral bindE_def lookup_bad_length [OF that])
  then show "length h \<noteq> kHashLen \<Longrightarrow> get E h s = (Inl (InvalidArgument ''bad hash length''), s)"
    "length h \<noteq> kHashLen \<Longrightarrow> get_view E h s = (Inl (InvalidArgument ''bad hash length''), s)"
    by (simp_all add: get_def get_view_def bindE_def)
qed

lemma get_source: "blob_source (pack_ok E) (store_view E) (pack_rest E) (get E)"
proof (unfold_locales, goal_cases)
  case (1 s h)
  from 1(1) obtain g i where s: "platform_ok E" "cas_inv E s" "live_pack E (world s) g i"
    by (rule pack_okE)
  show ?case
    by (rule wp_get [OF s 1(2)]) (auto simp: mapped_pack_ok [OF 1(1) s(3)])
qed (rule get_bad_length)

interpretation pack: blob_store "pack_ok E" "store_view E" "pack_rest E" "get E" "blake3 E" "put E" for E
proof (intro blob_store.intro get_source, unfold_locales, goal_cases)
  case (1 s d)
  then show ?case by (simp add: pack_ok_def platform_okD(4) kHashLen_def)
next
  case (2 s h d)
  then obtain g i where "cas_inv E s" "live_pack E (world s) g i" by (blast elim: pack_okE)
  from reader_ok [OF this] 2(2) show ?case by (simp add: index_view_hash)
next
  case (3 s d)
  then show ?case
    by (intro wp_put) (auto simp: pack_ok_def put_done_def pack_rest_def)
qed

text \<open>A \<open>get\<close> does not make the pack longer.\<close>

lemma get_fits_source: "blob_source (\<lambda>s. pack_ok E s \<and> pack_fits E s) (store_view E) (pack_rest E) (get E)"
proof (unfold_locales, goal_cases)
  case (1 s h)
  then obtain g i where s: "platform_ok E" "cas_inv E s" "live_pack E (world s) g i"
    by (blast elim: pack_okE)
  with 1 show ?case
    by (intro wp_get [OF s 1(2)]) (auto simp: mapped_pack_ok [OF _ s(3)])
qed (rule get_bad_length)

interpretation pack_view: blob_source "\<lambda>s. pack_ok E s \<and> pack_fits E s" "store_view E" "pack_rest E" "get_view E" for E
proof (unfold_locales, goal_cases)
  case (1 s h)
  then obtain g i where s: "platform_ok E" "cas_inv E s" "live_pack E (world s) g i"
    by (blast elim: pack_okE)
  with 1 show ?case
    by (intro wp_get_view [OF s 1(2)]) (auto simp: mapped_pack_ok [OF _ s(3)] pack_fits_def mapped_fields)
qed (rule get_bad_length)

end
