(* ===== verification/Meta_Scan.thy ===== *)
theory Meta_Scan
  imports Compact_Inv Blob_Store
begin

text \<open>
  The meta table for a client that will compact the store: series of updates (\<open>meta_is\<close>: nothing
  but the meta table has changed, and the store can still be compacted), and \<open>meta_scan\<close>, which
  shows its callback all records with the prefix, in order, and nothing else (\<open>records\<close>).
\<close>

section \<open>The files\<close>

text \<open>No update of the meta table touches the files, so the pack stays as long as it was.\<close>

lemma same_files_trans: "same_files s s' \<Longrightarrow> same_files s' s'' \<Longrightarrow> same_files s s''"
  by (simp add: same_files_def)

lemma meta_put_files:
  assumes "quiet E"
  shows "wp (meta_put E key val) (\<lambda>_. same_files s) (\<lambda>_. same_files s) s"
  unfolding meta_put_def use_batch_def write_txn_begin_def txn_begin_def commit_owned_def mdb_check_def
  by (intro wp_rules wp_deref_any wp_txn_commit_files assms) (simp_all add: same_files_def)

lemma meta_del_files:
  assumes "quiet E"
  shows "wp (meta_del E key) (\<lambda>_. same_files s) (\<lambda>_. same_files s) s"
  unfolding meta_del_def use_batch_def write_txn_begin_def txn_begin_def commit_owned_def mdb_check_def
  by (intro wp_rules wp_deref_any wp_txn_commit_files assms) (simp_all add: same_files_def)

lemma can_compact_same:
  assumes "can_compact E s" and "same_files s s'" and "reader_table E s' Meta ''gen'' = reader_table E s Meta ''gen''"
  shows "can_compact E s'"
  using assms by (simp add: can_compact_def same_files_def table_gen_def find_inode_def)

text \<open>A store that can be collected.\<close>

definition gc_ok :: "('e, 't) platform \<Rightarrow> ('e, 't, 'z) cas_scheme \<Rightarrow> bool" where
  "gc_ok E s \<longleftrightarrow> pack_ok E s \<and> can_compact E s"

text \<open>Only the meta table has changed.\<close>

definition meta_is :: "('e, 't) platform \<Rightarrow> ('e, 't, 'z) cas_scheme \<Rightarrow> (bytes \<Rightarrow> bytes option) \<Rightarrow> ('e, 't, 'z) cas_scheme \<Rightarrow> bool" where
  "meta_is E s mt s' \<longleftrightarrow> gc_ok E s' \<and> store_view E s' = store_view E s \<and> cas.more s' = cas.more s \<and> reader_table E s' Meta = mt"

lemma meta_is_refl: "gc_ok E s \<Longrightarrow> meta_is E s (reader_table E s Meta) s"
  by (simp add: meta_is_def)

lemma meta_is_trans: "meta_is E s mt s' \<Longrightarrow> meta_is E s' mt' s'' \<Longrightarrow> meta_is E s mt' s''"
  by (simp add: meta_is_def)

lemma meta_done_is:
  assumes "gc_ok E s" and "meta_done E mt s s'" and "same_files s s'" and "mt ''gen'' = reader_table E s Meta ''gen''"
  shows "meta_is E s mt s'"
  using assms can_compact_same [of E s s'] by (simp add: gc_ok_def meta_is_def meta_done_def pack_ok_def)

lemma wp_put_meta:
  assumes s: "gc_ok E s" and key: "key \<noteq> ''gen''"
    and Q: "\<And>s'. meta_is E s ((reader_table E s Meta)(key \<mapsto> val)) s' \<Longrightarrow> Q () s'"
    and R: "\<And>e s'. io_exn e \<Longrightarrow> meta_is E s (reader_table E s Meta) s' \<Longrightarrow> R e s'"
  shows "wp (meta_put E key val) Q R s"
proof -
  from s have ok: "platform_ok E" "cas_inv E s" "own_batch E s" by (simp_all add: gc_ok_def pack_ok_def)
  have "wp (meta_put E key val) (\<lambda>_ s'. meta_done E ((reader_table E s Meta)(key \<mapsto> val)) s s')
      (\<lambda>e s'. io_exn e \<and> meta_done E (reader_table E s Meta) s s') s"
    by (rule wp_meta_put [OF ok key]) simp_all
  from wp_conj [OF this meta_put_files [OF platform_okD(3) [OF ok(1)]]] show ?thesis
    by (rule wp_mono) (use key in \<open>auto intro!: Q R meta_done_is [OF s]\<close>)
qed

lemma wp_del_meta:
  assumes s: "gc_ok E s" and key: "key \<noteq> ''gen''"
    and Q: "\<And>s'. meta_is E s ((reader_table E s Meta)(key := None)) s' \<Longrightarrow> Q () s'"
    and R: "\<And>e s'. io_exn e \<Longrightarrow> meta_is E s (reader_table E s Meta) s' \<Longrightarrow> R e s'"
  shows "wp (meta_del E key) Q R s"
proof -
  from s have ok: "platform_ok E" "cas_inv E s" "own_batch E s" by (simp_all add: gc_ok_def pack_ok_def)
  have "wp (meta_del E key) (\<lambda>_ s'. meta_done E ((reader_table E s Meta)(key := None)) s s')
      (\<lambda>e s'. io_exn e \<and> meta_done E (reader_table E s Meta) s s') s"
    by (rule wp_meta_del [OF ok key]) simp_all
  from wp_conj [OF this meta_del_files [OF platform_okD(3) [OF ok(1)]]] show ?thesis
    by (rule wp_mono) (use key in \<open>auto intro!: Q R meta_done_is [OF s]\<close>)
qed

text \<open>Several updates in a row.\<close>

lemma wp_put_metas:
  assumes "gc_ok E s" and "\<forall>x\<in>set xs. fst x \<noteq> ''gen''"
    and Q: "\<And>s'. meta_is E s (reader_table E s Meta ++ map_of (rev (map (\<lambda>x. (fst x, f (snd x))) xs))) s' \<Longrightarrow> Q () s'"
    and R: "\<And>e s'. io_exn e \<Longrightarrow> gc_ok E s' \<Longrightarrow> R e s'"
  shows "wp (forE xs (\<lambda>x. meta_put E (fst x) (f (snd x)))) Q R s"
  using assms
proof (induction xs arbitrary: s)
  case Nil
  then show ?case by (simp add: wp_ret meta_is_refl)
next
  case (Cons x xs)
  show ?case
    unfolding forE.simps wp_thenE
  proof (rule wp_put_meta [OF Cons.prems(1)])
    fix s1
    assume s1: "meta_is E s ((reader_table E s Meta)(fst x \<mapsto> f (snd x))) s1"
    then have ok: "gc_ok E s1" and tbl: "reader_table E s1 Meta = (reader_table E s Meta)(fst x \<mapsto> f (snd x))"
      by (simp_all add: meta_is_def)
    show "wp (forE xs (\<lambda>x. meta_put E (fst x) (f (snd x)))) Q R s1"
    proof (rule Cons.IH [OF ok])
      show "Q () s'" if "meta_is E s1 (reader_table E s1 Meta ++ map_of (rev (map (\<lambda>x. (fst x, f (snd x))) xs))) s'" for s'
        by (rule Cons.prems(3)) (use meta_is_trans [OF s1 that] in \<open>simp add: tbl\<close>)
    qed (use Cons.prems in simp_all)
  qed (use Cons.prems in \<open>auto simp: meta_is_def\<close>)
qed

lemma wp_del_metas:
  assumes "gc_ok E s" and "''gen'' \<notin> set (map key xs)"
    and Q: "\<And>s'. meta_is E s (\<lambda>k. if k \<in> key ` set xs then None else reader_table E s Meta k) s' \<Longrightarrow> Q () s'"
    and R: "\<And>e s'. io_exn e \<Longrightarrow> gc_ok E s' \<Longrightarrow> R e s'"
  shows "wp (forE xs (\<lambda>x. meta_del E (key x))) Q R s"
  using assms
proof (induction xs arbitrary: s)
  case Nil
  then show ?case by (simp add: wp_ret meta_is_refl)
next
  case (Cons x xs)
  show ?case
    unfolding forE.simps wp_thenE
  proof (rule wp_del_meta [OF Cons.prems(1)])
    fix s1
    assume s1: "meta_is E s ((reader_table E s Meta)(key x := None)) s1"
    then have ok: "gc_ok E s1" and tbl: "reader_table E s1 Meta = (reader_table E s Meta)(key x := None)"
      by (simp_all add: meta_is_def)
    have eq: "(\<lambda>k. if k \<in> key ` set xs then None else reader_table E s1 Meta k) =
        (\<lambda>k. if k \<in> key ` set (x # xs) then None else reader_table E s Meta k)"
      by (auto simp: tbl)
    show "wp (forE xs (\<lambda>x. meta_del E (key x))) Q R s1"
    proof (rule Cons.IH [OF ok])
      show "Q () s'" if "meta_is E s1 (\<lambda>k. if k \<in> key ` set xs then None else reader_table E s1 Meta k) s'" for s'
        by (rule Cons.prems(3)) (rule meta_is_trans [OF s1 that [unfolded eq]])
    qed (use Cons.prems in simp_all)
  qed (use Cons.prems in \<open>auto simp: meta_is_def\<close>)
qed

section \<open>Scanning\<close>

text \<open>In the lexicographic order the strings with a given prefix stand together.\<close>

lemma prefix_between:
  fixes pre k k' :: bytes
  assumes "pre \<le> k" and "k \<le> k'" and "prefix pre k'"
  shows "prefix pre k"
  using assms
proof (induction pre arbitrary: k k')
  case (Cons c pre)
  then show ?case by (cases k; cases k') (auto split: if_splits)
qed simp

lemma prefix_le: "prefix pre (k :: bytes) \<Longrightarrow> pre \<le> k"
proof (induction pre arbitrary: k)
  case (Cons c pre)
  then show ?case by (cases k) auto
qed simp

text \<open>All the records with a prefix, in ascending order of their keys.\<close>

definition records :: "(bytes \<Rightarrow> bytes option) \<Rightarrow> bytes \<Rightarrow> (bytes \<times> bytes) list \<Rightarrow> bool" where
  "records m pre kvs \<longleftrightarrow> sorted_wrt (<) (map fst kvs) \<and> (\<forall>k v. (k, v) \<in> set kvs \<longleftrightarrow> prefix pre k \<and> m k = Some v)"

text \<open>A callback that always asks for more, with what it has been called with so far.\<close>

lemma wp_scan_loop:
  assumes step: "\<And>k v vis sc. prefix pre k \<Longrightarrow> (k, v) \<in> set (vis0 @ kvs) \<Longrightarrow> I vis sc \<Longrightarrow>
      wp (callback k v) (\<lambda>more sc'. more \<and> I (vis @ [(k, v)]) sc') R sc"
    and start: "I vis0 sc"
    and Q: "\<And>kvs1 kvs2 res sc'. kvs = kvs1 @ kvs2 \<Longrightarrow> \<forall>x\<in>set kvs1. prefix pre (fst x) \<Longrightarrow> I (vis0 @ kvs1) sc' \<Longrightarrow>
      (if kvs2 = [] then res = rc else res = MDB_SUCCESS \<and> \<not> prefix pre (fst (hd kvs2))) \<Longrightarrow> Q res sc'"
  shows "wp (scan_loop pre callback kvs rc) Q R sc"
  using assms
proof (induction kvs arbitrary: vis0 sc)
  case Nil
  show ?case by (simp add: wp_ret) (rule Nil.prems(3) [of "[]" "[]"]; simp add: Nil.prems(2))
next
  case (Cons kv kvs)
  obtain k v where kv: "kv = (k, v)" by fastforce
  show ?case
  proof (cases "prefix pre k")
    case False
    then show ?thesis
      unfolding kv scan_loop.simps if_P [OF False] wp_ret
      by (intro Cons.prems(3) [of "[]" "kv # kvs"]) (simp_all add: Cons.prems(2) kv)
  next
    case True
    have "wp (callback k v) (\<lambda>more sc'. wp (if \<not> more then ret MDB_SUCCESS else scan_loop pre callback kvs rc) Q R sc') R sc"
    proof (rule wp_mono [OF Cons.prems(1) [OF True _ Cons.prems(2), of v]])
      fix more sc'
      assume m: "more \<and> I (vis0 @ [(k, v)]) sc'"
      have "wp (scan_loop pre callback kvs rc) Q R sc'"
      proof (rule Cons.IH [of "vis0 @ [(k, v)]"])
        show "I (vis0 @ [(k, v)]) sc'" using m by simp
        show "wp (callback k' v') (\<lambda>more sc'. more \<and> I (vis @ [(k', v')]) sc') R s"
          if "prefix pre k'" "(k', v') \<in> set ((vis0 @ [(k, v)]) @ kvs)" "I vis s" for k' v' vis s
          by (rule Cons.prems(1) [OF that(1) _ that(3)]) (use that(2) kv in simp)
        show "Q res s" if "kvs = kvs1 @ kvs2" "\<forall>x\<in>set kvs1. prefix pre (fst x)" "I ((vis0 @ [(k, v)]) @ kvs1) s"
          "if kvs2 = [] then res = rc else res = MDB_SUCCESS \<and> \<not> prefix pre (fst (hd kvs2))" for kvs1 kvs2 res s
          by (rule Cons.prems(3) [of "kv # kvs1" kvs2]) (use that True kv in simp_all)
      qed
      with m show "wp (if \<not> more then ret MDB_SUCCESS else scan_loop pre callback kvs rc) Q R sc'" by simp
    qed (simp_all add: kv)
    with True show ?thesis by (simp add: kv wp_bindE)
  qed
qed

lemma wp_meta_scan:
  assumes ok: "platform_ok E" and inv: "cas_inv E s"
    and step: "\<And>k v vis sc. prefix pre k \<Longrightarrow> reader_table E s Meta k = Some v \<Longrightarrow> I vis sc \<Longrightarrow>
      wp (callback k v) (\<lambda>more sc'. more \<and> I (vis @ [(k, v)]) sc') R sc"
    and start: "\<And>n. I [] (s\<lparr>tick := n\<rparr>, c)"
    and Q: "\<And>vis sc. records (reader_table E s Meta) pre vis \<Longrightarrow> I vis sc \<Longrightarrow> Q () sc"
    and R: "\<And>e vis sc. io_exn e \<Longrightarrow> I vis sc \<Longrightarrow> R e sc" and R0: "\<And>e n. io_exn e \<Longrightarrow> R e (s\<lparr>tick := n\<rparr>, c)"
  shows "wp (meta_scan E pre callback) Q R (s, c)"
  unfolding meta_scan_def wp_bindE [of "on_store _"] wp_on_store
proof (rule wp_read_txn [OF ok], simp_all only: fst_conv snd_conv)
  note lm = platform_okD(2) [OF ok]
  show "cas_inv E s" by (rule inv)
  fix t n
  assume t: "mdb_table E t = reader_table E s"
  obtain kvs rc where scan: "mdb_scan E t Meta pre = (kvs, rc)" by fastforce
  note sc = lmdb_scanD [OF lm scan]
  have "wp (scan_loop pre callback kvs rc) (\<lambda>res. wp (whenE (res \<noteq> MDB_SUCCESS \<and> res \<noteq> MDB_NOTFOUND)
      (on_store (mdb_check E res ''cursor_get''))) Q R) R (s\<lparr>tick := n\<rparr>, c)"
  proof (rule wp_scan_loop [where I = I and ?vis0.0 = "[]"])
    show "wp (callback k v) (\<lambda>more sc'. more \<and> I (vis @ [(k, v)]) sc') R sc"
      if "prefix pre k" "(k, v) \<in> set ([] @ kvs)" "I vis sc" for k v vis sc
      by (rule step [OF that(1) _ that(3)]) (use sc(3) that(2) t in simp)
    fix kvs1 kvs2 res sc'
    assume split: "kvs = kvs1 @ kvs2" and pre: "\<forall>x\<in>set kvs1. prefix pre (fst x)" and I: "I ([] @ kvs1) sc'"
      and res: "if kvs2 = [] then res = rc else res = MDB_SUCCESS \<and> \<not> prefix pre (fst (hd kvs2))"
    have "records (reader_table E s Meta) pre kvs1" if "res = MDB_SUCCESS \<or> res = MDB_NOTFOUND"
      unfolding records_def
    proof (intro conjI allI iffI)
      show "sorted_wrt (<) (map fst kvs1)" using sc(2) by (simp add: split sorted_wrt_append)
      show "prefix pre k" "reader_table E s Meta k = Some v" if "(k, v) \<in> set kvs1" for k v
        using that pre sc(3) [of k v] t by (auto simp: split)
      fix k v
      assume kv: "prefix pre k \<and> reader_table E s Meta k = Some v"
      then have le: "pre \<le> k" by (simp add: prefix_le)
      show "(k, v) \<in> set kvs1"
      proof (cases kvs2)
        case Nil
        with res that sc(1) have "rc = MDB_NOTFOUND" by auto
        with sc(4) [OF this le] kv t Nil show ?thesis by (simp add: split)
      next
        case (Cons x kvs3)
        have x: "pre \<le> fst x" using sc(3) [of "fst x" "snd x"] by (simp add: split Cons)
        with Cons res kv prefix_between [of pre "fst x" k] have "\<not> fst x \<le> k" by auto
        then have "k < fst x" by (simp only: not_le)
        then have "(k, v) \<in> set kvs" using sc(5) [of "fst x" "snd x" k v] le kv t by (simp add: split Cons)
        moreover have "fst x \<le> k" if "(k, v) \<in> set kvs2"
          using that sc(2) by (auto simp: split Cons sorted_wrt_append)
        ultimately show ?thesis using \<open>k < fst x\<close> by (auto simp: split)
      qed
    qed
    with Q I R [OF _ I] show "wp (whenE (res \<noteq> MDB_SUCCESS \<and> res \<noteq> MDB_NOTFOUND) (on_store (mdb_check E res ''cursor_get''))) Q R sc'"
      by (cases sc') (auto simp: wp_on_store intro!: wp_whenE_I wp_mdb_check)
  qed (simp add: start)
  then show "wp (thenE (on_store (mdb_check E (mdb_cursor_open E t Meta) ''cursor_open''))
     (case mdb_scan E t Meta pre of (kvs, rc) \<Rightarrow> bindE (scan_loop pre callback kvs rc) (\<lambda>res.
        whenE (res \<noteq> MDB_SUCCESS \<and> res \<noteq> MDB_NOTFOUND) (on_store (mdb_check E res ''cursor_get''))))) Q R (s\<lparr>tick := n\<rparr>, c)"
    by (auto simp: scan wp_thenE wp_bindE wp_on_store intro!: wp_mdb_check R0)
qed (rule R0)

lemma records_keys: "records m pre kvs \<Longrightarrow> k \<in> fst ` set kvs \<longleftrightarrow> prefix pre k \<and> m k \<noteq> None"
proof -
  assume "records m pre kvs"
  then have "(\<exists>v. (k, v) \<in> set kvs) \<longleftrightarrow> prefix pre k \<and> m k \<noteq> None" by (simp add: records_def)
  moreover have "k \<in> fst ` set kvs \<longleftrightarrow> (\<exists>v. (k, v) \<in> set kvs)" by force
  ultimately show ?thesis by simp
qed

end
