(* ===== verification/Tree_Store.thy ===== *)
theory Tree_Store
  imports Blob_Store Encodings
begin

text \<open>
  The bookkeeping of \<open>TreeStore\<close> (\<open>src/src/tree.cpp\<close>): roots and their time stamps in the
  meta table, deferred touches, and the garbage collection that expires roots, marks what the
  others reach and compacts the store. The state is the pack CAS's with the members of
  \<open>TreeStore\<close> added; the pending touches, an unordered map, are a list of pairs in any order.
\<close>

record ('e, 't) tree_store = "('e, 't) cas" +
  pending_touch :: "(bytes \<times> u64) list"
  ttl_ns :: u64
  gc_interval_ns :: u64
  touch_interval_ns :: u64

section \<open>Roots and touches\<close>

definition root_key :: "bytes \<Rightarrow> bool \<Rightarrow> bytes" where
  "root_key root tree = (if tree then CHR ''R'' else CHR ''B'') # root"

definition register_root ::
  "('e, 't) platform \<Rightarrow> bytes \<Rightarrow> bool \<Rightarrow> (('e, 't, 'z) tree_store_scheme, unit) prog" where
  "register_root E root tree = bindE (now_ns E) (\<lambda>now. meta_put E (root_key root tree) (be64 now))"

definition try_emplace :: "'k \<Rightarrow> 'v \<Rightarrow> ('k \<times> 'v) list \<Rightarrow> ('k \<times> 'v) list" where
  "try_emplace k v xs = (if map_of xs k = None then xs @ [(k, v)] else xs)"

definition touch_root ::
  "('e, 't) platform \<Rightarrow> bytes \<Rightarrow> bool \<Rightarrow> (('e, 't, 'z) tree_store_scheme, unit) prog" where
  "touch_root E root tree = (let key = root_key root tree in
     bindE (meta_get E key) (\<lambda>stamp. case stamp of
       None \<Rightarrow> ret ()
     | Some v \<Rightarrow> if \<not> is_timestamp v then ret ()
         else bindE (now_ns E) (\<lambda>now. bindE (readS touch_interval_ns) (\<lambda>interval.
           if now - rbe64 v < interval then ret ()
           else modS (\<lambda>s. s\<lparr>pending_touch := try_emplace key now (pending_touch s)\<rparr>)))))"

definition flush_touches :: "('e, 't) platform \<Rightarrow> (('e, 't, 'z) tree_store_scheme, unit) prog" where
  "flush_touches E = bindE (readS pending_touch) (\<lambda>batch.
     thenE (modS (\<lambda>s. s\<lparr>pending_touch := []\<rparr>))
       (forE batch (\<lambda>x. meta_put E (fst x) (be64 (snd x)))))"

definition sync_store :: "('e, 't) platform \<Rightarrow> (('e, 't, 'z) tree_store_scheme, unit) prog" where
  "sync_store E = thenE (flush_touches E) (sync E)"

text \<open>The destructor, then that of the pack CAS it owns.\<close>

definition destroy_store :: "('e, 't) platform \<Rightarrow> (('e, 't, 'z) tree_store_scheme, unit) prog" where
  "destroy_store E = thenE (tryE (flush_touches E) (\<lambda>_. ret ())) (destroy E)"

definition has_tree :: "('e, 't) platform \<Rightarrow> bytes \<Rightarrow> (('e, 't, 'z) cas_scheme, bool) prog" where
  "has_tree E tree_id = has E tree_id"

section \<open>Marking\<close>

text \<open>One tree's entries: what was not in \<open>live\<close> yet is inserted, and directories among it are
  put on the stack of trees to read.\<close>

definition mark_entry :: "bytes list \<times> bytes set \<Rightarrow> tree_entry \<Rightarrow> bytes list \<times> bytes set" where
  "mark_entry = (\<lambda>(pending, live) e. if te_id e \<in> live then (pending, live)
     else (if te_type e = CHR ''d'' then te_id e # pending else pending, insert (te_id e) live))"

text \<open>The ids a tree object can name.\<close>

definition short_ids :: "bytes set" where
  "short_ids = {h. length h \<le> kMaxIdLen}"

lemma finite_short_ids: "finite short_ids"
  using finite_lists_length_le [of "UNIV :: char set" kMaxIdLen] by (simp add: short_ids_def)

lemma mark_entry_work:
  assumes "te_id e \<in> short_ids"
  shows "card (short_ids - snd (mark_entry (p, l) e)) + length (fst (mark_entry (p, l) e)) \<le> card (short_ids - l) + length p"
proof (cases "te_id e \<in> l")
  case False
  then have "short_ids - insert (te_id e) l = short_ids - l - {te_id e}" "te_id e \<in> short_ids - l"
    using assms by auto
  then have "card (short_ids - insert (te_id e) l) < card (short_ids - l)"
    using card_Diff1_less [of "short_ids - l" "te_id e"] finite_short_ids by (simp only: finite_Diff)
  with False show ?thesis by (simp add: mark_entry_def)
qed (simp add: mark_entry_def)

lemma mark_entries_work:
  "\<forall>e\<in>set es. te_id e \<in> short_ids \<Longrightarrow>
    card (short_ids - snd (foldl mark_entry (p, l) es)) + length (fst (foldl mark_entry (p, l) es)) \<le> card (short_ids - l) + length p"
proof (induction es arbitrary: p l)
  case (Cons e es)
  obtain p' l' where m: "mark_entry (p, l) e = (p', l')" by fastforce
  show ?case
    using Cons.IH [of p' l'] Cons.prems mark_entry_work [of e p l] by (simp add: m)
qed simp

lemma read_tree_ids:
  assumes "read_tree fetch h s = (Inr es, s')"
  shows "\<forall>e\<in>set es. te_id e \<in> short_ids"
proof -
  from assms obtain d where "parse_tree [] d = Inr es"
    by (auto simp: read_tree_def bindE_def throw_def liftE_def ret_def split: prod.splits sum.splits option.splits)
  then have "tree_ok es" by (simp add: parse_tree_iff)
  then show ?thesis by (auto simp: tree_ok_def entry_ok_def short_ids_def)
qed

text \<open>The set \<open>live\<close> is the caller's variable: an exception leaves in it what was inserted.\<close>

function mark_loop ::
  "(bytes \<Rightarrow> ('s, bytes option) prog) \<Rightarrow> bytes list \<Rightarrow> 's \<times> bytes set \<Rightarrow> (exn + unit) \<times> ('s \<times> bytes set)" where
  "mark_loop fetch [] (s, live) = (Inr (), (s, live))"
| "mark_loop fetch (tree_id # pending) (s, live) = (case read_tree fetch tree_id s of
     (Inl e, s') \<Rightarrow> (Inl e, (s', live))
   | (Inr es, s') \<Rightarrow> (case foldl mark_entry (pending, live) es of (pending', live') \<Rightarrow>
       mark_loop fetch pending' (s', live')))"
  by pat_completeness auto
termination
proof (relation "measure (\<lambda>(fetch, pending, (s, live)). card (short_ids - live) + length pending)", goal_cases)
  case 1
  show ?case by simp
next
  case (2 fetch tree_id pending s live r s' es pending' live')
  then have "read_tree fetch tree_id s = (Inr es, s')" "foldl mark_entry (pending, live) es = (pending', live')" by simp_all
  with mark_entries_work [OF read_tree_ids, of fetch tree_id s es s' pending live] show ?case by simp
qed

definition mark_live :: "(bytes \<Rightarrow> ('s, bytes option) prog) \<Rightarrow> bytes \<Rightarrow> ('s \<times> bytes set, unit) prog" where
  "mark_live fetch root = (\<lambda>(s, live). if root \<in> live then mark_loop fetch [] (s, live)
     else mark_loop fetch [root] (s, insert root live))"

section \<open>Collection\<close>

definition expire_roots ::
  "('e, 't) platform \<Rightarrow> bytes \<Rightarrow> u64 \<Rightarrow> (('e, 't, 'z) tree_store_scheme, nat) prog" where
  "expire_roots E pre now = with_local [] (thenE
     (meta_scan E pre (\<lambda>key val. bindE (readS (\<lambda>s. ttl_ns (fst s))) (\<lambda>ttl.
        thenE (whenE (is_timestamp val \<and> ttl \<le> now - rbe64 val) (mod_local (\<lambda>expired. expired @ [key])))
          (ret True))))
     (bindE get_local (\<lambda>expired. thenE (on_store (forE expired (meta_del E))) (ret (length expired)))))"

text \<open>The part of \<open>maybeGc\<close> after some root has expired; its local variables are \<open>live\<close> and
  \<open>broken\<close>. \<open>catch (const std::exception &)\<close> does not catch what is no exception.\<close>

definition no_exception :: "exn \<Rightarrow> bool" where
  "no_exception e \<longleftrightarrow> is_undefined e \<or> (\<exists>x. e = Blocked x)"

definition mark_root ::
  "('e, 't) platform \<Rightarrow> bytes \<Rightarrow> (('e, 't, 'z) tree_store_scheme \<times> (bytes set \<times> bytes list), unit) prog" where
  "mark_root E root = (\<lambda>(s, (live, broken)). case mark_live (get E) root (s, live) of
     (Inr _, (s', live')) \<Rightarrow> (Inr (), (s', (live', broken)))
   | (Inl e, (s', live')) \<Rightarrow> if no_exception e then (Inl e, (s', (live', broken)))
       else (Inr (), (s', (live', broken @ [root]))))"

definition collect :: "('e, 't) platform \<Rightarrow> (('e, 't, 'z) tree_store_scheme, unit) prog" where
  "collect E = with_local ({}, [])
     (thenE (meta_scan E ''R'' (\<lambda>key _. thenE (mark_root E (drop 1 key)) (ret True)))
     (bindE get_local (\<lambda>(_, broken). thenE (on_store (forE broken (\<lambda>root. meta_del E (CHR ''R'' # root))))
     (thenE (meta_scan E ''B'' (\<lambda>key _. thenE (mod_local (\<lambda>(live, broken). (insert (drop 1 key) live, broken))) (ret True)))
     (bindE get_local (\<lambda>(live, _). on_store (compact E (\<lambda>hash. hash \<in> live))))))))"

definition maybe_gc :: "('e, 't) platform \<Rightarrow> (('e, 't, 'z) tree_store_scheme, unit) prog" where
  "maybe_gc E = thenE (flush_touches E) (bindE (now_ns E) (\<lambda>now. bindE (meta_get E ''lastgc'') (\<lambda>stamp.
     bindE (readS gc_interval_ns) (\<lambda>interval.
     if (case stamp of None \<Rightarrow> False | Some v \<Rightarrow> is_timestamp v \<and> now - rbe64 v < interval) then ret ()
     else thenE (meta_put E ''lastgc'' (be64 now))
       (bindE (expire_roots E ''R'' now) (\<lambda>m. bindE (expire_roots E ''B'' now) (\<lambda>n.
        whenE (m + n \<noteq> 0) (collect E))))))))"

definition roots_info ::
  "('e, 't) platform \<Rightarrow> (('e, 't, 'z) cas_scheme, (bytes \<times> u64) list) prog" where
  "roots_info E = with_local [] (thenE
     (meta_scan E ''R'' (\<lambda>key val. thenE
        (whenE (is_timestamp val) (mod_local (\<lambda>out. out @ [(drop 1 key, rbe64 val)]))) (ret True)))
     get_local)"

end
