(* ===== verification/Mark_Live.thy ===== *)
theory Mark_Live
  imports Tree_Store
begin

text \<open>
  The mark phase of the garbage collection: what a set of roots refers to, and that \<open>mark_live\<close>
  marks that and nothing else, as long as every tree below the roots can be read and no blob is
  both a file and a directory below them (\<open>kinds_differ\<close>).
\<close>


section \<open>What a root refers to\<close>

text \<open>The directories below a root, in a store, and the ids their entries name.\<close>

definition subdir :: "(bytes \<Rightarrow> bytes option) \<Rightarrow> bytes \<Rightarrow> bytes \<Rightarrow> bool" where
  "subdir m h h' \<longleftrightarrow> (\<exists>es e. tree_at m h = Some es \<and> e \<in> set es \<and> te_type e = CHR ''d'' \<and> te_id e = h')"

definition dir_below :: "(bytes \<Rightarrow> bytes option) \<Rightarrow> bytes set \<Rightarrow> bytes \<Rightarrow> bool" where
  "dir_below m roots h \<longleftrightarrow> (\<exists>r\<in>roots. (subdir m)\<^sup>*\<^sup>* r h)"

definition names :: "(bytes \<Rightarrow> bytes option) \<Rightarrow> bytes set \<Rightarrow> tree_entry \<Rightarrow> bool" where
  "names m roots e \<longleftrightarrow> (\<exists>h es. dir_below m roots h \<and> tree_at m h = Some es \<and> e \<in> set es)"

definition refers :: "(bytes \<Rightarrow> bytes option) \<Rightarrow> bytes set \<Rightarrow> bytes \<Rightarrow> bool" where
  "refers m roots h \<longleftrightarrow> h \<in> roots \<or> (\<exists>e. names m roots e \<and> te_id e = h)"

text \<open>No blob that is a file below the roots is also a directory below them.\<close>

definition kinds_differ :: "(bytes \<Rightarrow> bytes option) \<Rightarrow> bytes set \<Rightarrow> bool" where
  "kinds_differ m roots \<longleftrightarrow> (\<forall>e. names m roots e \<longrightarrow> te_type e \<noteq> CHR ''d'' \<longrightarrow> \<not> dir_below m roots (te_id e))"

lemma dir_below_root: "r \<in> roots \<Longrightarrow> dir_below m roots r"
  unfolding dir_below_def by blast

lemma dir_below_names: "names m roots e \<Longrightarrow> te_type e = CHR ''d'' \<Longrightarrow> dir_below m roots (te_id e)"
  unfolding names_def dir_below_def subdir_def [abs_def]
  by (blast intro: rtranclp.rtrancl_into_rtrancl)

lemma refers_dir: "dir_below m roots h \<Longrightarrow> refers m roots h"
proof -
  assume "dir_below m roots h"
  then obtain r where r: "r \<in> roots" "(subdir m)\<^sup>*\<^sup>* r h" by (auto simp: dir_below_def)
  from r(2) show ?thesis
  proof (cases rule: rtranclp.cases)
    case rtrancl_refl
    with r(1) show ?thesis by (simp add: refers_def)
  next
    case (rtrancl_into_rtrancl d)
    with r(1) show ?thesis by (auto simp: refers_def names_def dir_below_def subdir_def)
  qed
qed

section \<open>Marking\<close>

text \<open>All that is marked is referred to; and if no mark has failed so far (\<open>whole\<close>), every directory
  marked is either still to be read or has its entries marked.\<close>

definition marks ::
  "(bytes \<Rightarrow> bytes option) \<Rightarrow> bytes set \<Rightarrow> bool \<Rightarrow> bytes list \<Rightarrow> bytes set \<Rightarrow> bool" where
  "marks m roots whole pending live \<longleftrightarrow> (\<forall>h\<in>live. refers m roots h) \<and>
     (\<forall>h\<in>set pending. h \<in> live \<and> dir_below m roots h) \<and>
     (whole \<longrightarrow> (\<forall>h\<in>live. dir_below m roots h \<longrightarrow> h \<notin> set pending \<longrightarrow>
        (\<exists>es. tree_at m h = Some es \<and> (\<forall>e\<in>set es. te_id e \<in> live))))"

lemma mark_entry_refers:
  assumes "\<forall>h\<in>live. refers m roots h" and "\<forall>h\<in>set pending. h \<in> live \<and> dir_below m roots h" and "names m roots e"
    and "mark_entry (pending, live) e = (pending', live')"
  shows "(\<forall>h\<in>live'. refers m roots h) \<and> (\<forall>h\<in>set pending'. h \<in> live' \<and> dir_below m roots h) \<and>
    insert (te_id e) live = live' \<and> set pending \<subseteq> set pending' \<and>
    (\<forall>h\<in>live'. h \<in> live \<or> te_type e \<noteq> CHR ''d'' \<and> h = te_id e \<or> h \<in> set pending')"
  using assms dir_below_names [OF assms(3)] by (auto simp: mark_entry_def refers_def split: if_splits)

lemma mark_entries_refers:
  assumes "\<forall>h\<in>live. refers m roots h" and "\<forall>h\<in>set pending. h \<in> live \<and> dir_below m roots h" and "\<forall>e\<in>set es. names m roots e"
    and "foldl mark_entry (pending, live) es = (pending', live')"
  shows "(\<forall>h\<in>live'. refers m roots h) \<and> (\<forall>h\<in>set pending'. h \<in> live' \<and> dir_below m roots h) \<and>
    te_id ` set es \<union> live = live' \<and> set pending \<subseteq> set pending' \<and>
    (\<forall>h\<in>live'. h \<in> live \<or> (\<exists>e\<in>set es. te_type e \<noteq> CHR ''d'' \<and> h = te_id e) \<or> h \<in> set pending')"
  using assms
proof (induction es arbitrary: pending live)
  case (Cons e es)
  obtain p1 l1 where m: "mark_entry (pending, live) e = (p1, l1)" by fastforce
  have "names m roots e" using Cons.prems(3) by simp
  note one = mark_entry_refers [OF Cons.prems(1,2) this m]
  have rest: "foldl mark_entry (p1, l1) es = (pending', live')" using Cons.prems(4) m by simp
  have "(\<forall>h\<in>live'. refers m roots h) \<and> (\<forall>h\<in>set pending'. h \<in> live' \<and> dir_below m roots h) \<and>
      te_id ` set es \<union> l1 = live' \<and> set p1 \<subseteq> set pending' \<and>
      (\<forall>h\<in>live'. h \<in> l1 \<or> (\<exists>e\<in>set es. te_type e \<noteq> CHR ''d'' \<and> h = te_id e) \<or> h \<in> set pending')"
    by (rule Cons.IH [OF _ _ _ rest]) (use one Cons.prems(3) in simp_all)
  note more = this
  have "h \<in> live \<or> (\<exists>e'\<in>set (e # es). te_type e' \<noteq> CHR ''d'' \<and> h = te_id e') \<or> h \<in> set pending'" if "h \<in> live'" for h
  proof -
    from more that consider "h \<in> l1" | "\<exists>e\<in>set es. te_type e \<noteq> CHR ''d'' \<and> h = te_id e" | "h \<in> set pending'" by blast
    then show ?thesis using one more by cases auto
  qed
  with one more show ?case by auto
qed auto

lemma marks_entries:
  assumes inv: "marks m roots whole (h # pending) live" and kinds: "whole \<Longrightarrow> kinds_differ m roots"
    and es: "tree_at m h = Some es" and fold: "foldl mark_entry (pending, live) es = (pending', live')"
  shows "marks m roots whole pending' live'" and "live \<subseteq> live'"
proof -
  have h: "dir_below m roots h" "h \<in> live" using inv by (simp_all add: marks_def)
  then have names: "\<forall>e\<in>set es. names m roots e" using es by (auto simp: names_def)
  have step: "(\<forall>h\<in>live'. refers m roots h) \<and> (\<forall>h\<in>set pending'. h \<in> live' \<and> dir_below m roots h) \<and>
    te_id ` set es \<union> live = live' \<and> set pending \<subseteq> set pending' \<and>
    (\<forall>h\<in>live'. h \<in> live \<or> (\<exists>e\<in>set es. te_type e \<noteq> CHR ''d'' \<and> h = te_id e) \<or> h \<in> set pending')"
    by (rule mark_entries_refers [OF _ _ names fold]) (use inv in \<open>simp_all add: marks_def\<close>)
  then show "live \<subseteq> live'" by blast
  have "\<exists>es. tree_at m d = Some es \<and> (\<forall>e\<in>set es. te_id e \<in> live')"
    if d: "d \<in> live'" "dir_below m roots d" "d \<notin> set pending'" "whole" for d
  proof -
    from step d(1) consider "d \<in> live" | e where "e \<in> set es" "te_type e \<noteq> CHR ''d''" "d = te_id e" | "d \<in> set pending'" by blast
    then have "d \<in> live" using names kinds [OF d(4)] d(2,3) by cases (auto simp: kinds_differ_def)
    show ?thesis
    proof (cases "d = h")
      case True
      with es step show ?thesis by blast
    next
      case False
      then have "d \<notin> set (h # pending)" using step d(3) by auto
      with inv \<open>d \<in> live\<close> d(2,4) obtain es' where "tree_at m d = Some es'" "\<forall>e\<in>set es'. te_id e \<in> live"
        unfolding marks_def by blast
      with step show ?thesis by blast
    qed
  qed
  then show "marks m roots whole pending' live'"
    unfolding marks_def using step by (intro conjI ballI impI) simp_all
qed

text \<open>When nothing is left to be read, all that the marked roots refer to is marked.\<close>

lemma marks_closed:
  assumes inv: "marks m roots True [] live" and r: "rs \<subseteq> roots" "rs \<subseteq> live" and h: "refers m rs h"
  shows "h \<in> live"
proof -
  have dirs: "d \<in> live \<and> dir_below m roots d" if "(subdir m)\<^sup>*\<^sup>* r d" "r \<in> rs" for r d
    using that
  proof (induction rule: rtranclp_induct)
    case base
    then show ?case using r dir_below_root by blast
  next
    case (step d d')
    then have d: "d \<in> live" "dir_below m roots d" by simp_all
    with inv obtain es where "tree_at m d = Some es" "\<forall>e\<in>set es. te_id e \<in> live" by (auto simp: marks_def)
    with step.hyps(2) have "d' \<in> live" by (auto simp: subdir_def)
    moreover have "dir_below m roots d'" using d(2) step.hyps(2)
      unfolding dir_below_def by (blast intro: rtranclp.rtrancl_into_rtrancl)
    ultimately show ?case by simp
  qed
  from h consider "h \<in> rs" | e d es r where "r \<in> rs" "(subdir m)\<^sup>*\<^sup>* r d" "tree_at m d = Some es" "e \<in> set es" "te_id e = h"
    by (auto simp: refers_def names_def dir_below_def)
  then show ?thesis
  proof cases
    case 1
    then show ?thesis using r by blast
  next
    case 2
    with dirs have "d \<in> live" "dir_below m roots d" by blast+
    with inv obtain es' where "tree_at m d = Some es'" "\<forall>e\<in>set es'. te_id e \<in> live" by (auto simp: marks_def)
    with 2 show ?thesis by auto
  qed
qed

context blob_source
begin

lemma wp_mark_loop:
  assumes "ok s" and "marks (contents s) roots whole pending live" and kinds: "whole \<Longrightarrow> kinds_differ (contents s) roots"
    and Q: "\<And>s' live'. kept s s' \<Longrightarrow> live \<subseteq> live' \<Longrightarrow> marks (contents s) roots whole [] live' \<Longrightarrow> Q () (s', live')"
    and R: "\<And>e s' live'. \<not> no_exception e \<Longrightarrow> kept s s' \<Longrightarrow> live \<subseteq> live' \<Longrightarrow> \<forall>h\<in>live'. refers (contents s) roots h \<Longrightarrow> R e (s', live')"
  shows "wp (mark_loop fetch pending) Q R (s, live)"
  using assms
proof (induction F \<equiv> fetch pending "(s, live)" arbitrary: s live rule: mark_loop.induct)
  case (1 s live)
  then show ?case by (simp add: wp_def kept_refl)
next
  case (2 h pending s live)
  have live: "\<forall>h\<in>live. refers (contents s) roots h" using 2(3) by (simp add: marks_def)
  show ?case
  proof (cases "read_tree fetch h s")
    case (Pair r s')
    show ?thesis
    proof (cases r)
      case (Inl e)
      have "\<not> no_exception e \<and> kept s s'"
      proof (cases "length h = kHashLen")
        case True
        have "wp (read_tree fetch h) (\<lambda>_ _. True) (\<lambda>e s'. \<not> no_exception e \<and> kept s s') s"
        proof (rule wp_read_tree [OF 2(2) True])
          fix e s'
          assume "io_exn e \<or> is_corrupt e \<and> tree_at (contents s) h = None" "kept s s'"
          then show "\<not> no_exception e \<and> kept s s'" by (cases e) (auto simp: no_exception_def)
        qed simp
        with Pair Inl show ?thesis by (simp add: wp_def)
      next
        case False
        with read_tree_bad [OF this, of s] Pair Inl 2(2) show ?thesis by (auto simp: no_exception_def kept_refl)
      qed
      with Pair Inl 2(6) live show ?thesis by (simp add: wp_def)
    next
      case (Inr es)
      have len: "length h = kHashLen"
        using read_tree_bad [of h s] Pair Inr by (cases "length h = kHashLen") auto
      have "wp (read_tree fetch h) (\<lambda>es s'. tree_at (contents s) h = Some es \<and> kept s s') (\<lambda>_ _. True) s"
        by (rule wp_read_tree [OF 2(2) len]) simp_all
      with Pair Inr have es: "tree_at (contents s) h = Some es" and k: "kept s s'" by (simp_all add: wp_def)
      obtain p' l' where fold: "foldl mark_entry (pending, live) es = (p', l')" by fastforce
      note m = marks_entries [OF 2(3,4) es fold]
      have "wp (mark_loop fetch p') Q R (s', l')"
      proof (rule 2(1) [OF Pair [unfolded Inr, symmetric] refl fold [symmetric]])
        show "ok s'" "marks (contents s') roots whole p' l'" "whole \<Longrightarrow> kinds_differ (contents s') roots"
          using k m 2(4) by (simp_all add: kept_def)
        show "Q () (s'', live'')" if "kept s' s''" "l' \<subseteq> live''" "marks (contents s') roots whole [] live''" for s'' live''
          using that m k kept_trans [OF k that(1)] by (intro 2(5)) (auto simp: kept_def)
        show "R e (s'', live'')" if "\<not> no_exception e" "kept s' s''" "l' \<subseteq> live''" "\<forall>h\<in>live''. refers (contents s') roots h"
          for e s'' live''
          using that m k kept_trans [OF k that(2)] by (intro 2(6)) (auto simp: kept_def)
      qed
      with Pair Inr fold show ?thesis by (simp add: wp_def)
    qed
  qed
qed

lemma wp_mark_live:
  assumes s: "ok s" and inv: "marks (contents s) roots whole [] live" and kinds: "whole \<Longrightarrow> kinds_differ (contents s) roots"
    and root: "root \<in> roots"
    and Q: "\<And>s' live'. kept s s' \<Longrightarrow> insert root live \<subseteq> live' \<Longrightarrow> marks (contents s) roots whole [] live' \<Longrightarrow> Q () (s', live')"
    and R: "\<And>e s' live'. \<not> no_exception e \<Longrightarrow> kept s s' \<Longrightarrow> \<forall>h\<in>live'. refers (contents s) roots h \<Longrightarrow> R e (s', live')"
  shows "wp (mark_live fetch root) Q R (s, live)"
proof (cases "root \<in> live")
  case True
  have "wp (mark_loop fetch []) Q R (s, live)"
    by (rule wp_mark_loop [OF s inv kinds]) (use True in \<open>auto intro: Q R\<close>)
  with True show ?thesis by (simp add: wp_def mark_live_def)
next
  case False
  have "refers (contents s) roots root" using root by (simp add: refers_def)
  then have "marks (contents s) roots whole [root] (insert root live)"
    using inv dir_below_root [OF root] by (auto simp: marks_def)
  then have "wp (mark_loop fetch [root]) Q R (s, insert root live)"
    by (rule wp_mark_loop [OF s _ kinds]) (auto intro: Q R)
  with False show ?thesis by (simp add: wp_def mark_live_def)
qed

end

end
