(* ===== verification/Ticks.thy ===== *)
theory Ticks
  imports Tree_Store
begin

text \<open>
  The order of the moments at which a program reads the clock: the count of system calls never goes back
  (\<open>ages\<close>), whatever a call answers and whatever other processes do.
\<close>

named_theorems ages_rules "programs under which the count of calls does not go back"

definition ages :: "(('e, 'z) machine_scheme, 'a) prog \<Rightarrow> bool" where
  "ages m \<longleftrightarrow> (\<forall>s. tick s \<le> tick (snd (m s)))"

lemma ages_wp: "ages m \<Longrightarrow> wp m (\<lambda>_ s'. tick s \<le> tick s') (\<lambda>_ s'. tick s \<le> tick s') s"
  by (auto simp: ages_def wp_def split: prod.split sum.split) (metis snd_conv)+

lemma agesD: "ages m \<Longrightarrow> m s = (r, s') \<Longrightarrow> tick s \<le> tick s'"
  unfolding ages_def by (metis snd_conv)

lemma ages_ret [ages_rules]: "ages (ret a)"
  by (simp add: ages_def ret_def)

lemma ages_throw [ages_rules]: "ages (throw e)"
  by (simp add: ages_def throw_def)

lemma ages_readS [ages_rules]: "ages (readS f)"
  by (simp add: ages_def readS_def)

lemma ages_modS [ages_rules]: "(\<And>s. tick s \<le> tick (f s)) \<Longrightarrow> ages (modS f)"
  by (simp add: ages_def modS_def)

lemma ages_bindE [ages_rules]:
  assumes "ages m" and "\<And>a. ages (f a)"
  shows "ages (bindE m f)"
  unfolding ages_def
proof
  fix s
  obtain r s1 where m: "m s = (r, s1)" by fastforce
  then show "tick s \<le> tick (snd (bindE m f s))"
    using agesD [OF assms(1) m] assms(2) unfolding ages_def bindE_def
    by (cases r) (auto intro: order_trans)
qed

lemma ages_thenE [ages_rules]: "ages m \<Longrightarrow> ages n \<Longrightarrow> ages (thenE m n)"
  unfolding thenE_def by (rule ages_bindE)

lemma ages_whenE [ages_rules]: "ages m \<Longrightarrow> ages (whenE b m)"
  by (simp add: whenE_def ages_ret)

lemma ages_cases [ages_rules]:
  "ages m \<Longrightarrow> ages n \<Longrightarrow> ages (if b then m else n)"
  "ages m \<Longrightarrow> (\<And>a. ages (g a)) \<Longrightarrow> ages (case x of None \<Rightarrow> m | Some a \<Rightarrow> g a)"
  "(\<And>a. ages (h a)) \<Longrightarrow> (\<And>b. ages (k b)) \<Longrightarrow> ages (case y of Inl a \<Rightarrow> h a | Inr b \<Rightarrow> k b)"
  "(\<And>a b. ages (l a b)) \<Longrightarrow> ages (case z of (a, b) \<Rightarrow> l a b)"
  by (simp_all split: option.split sum.split prod.split)

lemma ages_forE [ages_rules]: "(\<And>x. ages (f x)) \<Longrightarrow> ages (forE xs f)"
  by (induction xs) (simp_all add: ages_ret ages_thenE)

section \<open>The calls\<close>

lemma ages_sys [ages_rules]: "ages (sys E)"
  by (simp add: ages_def sys_def)

lemma ages_sys_calls [ages_rules]: "ages (sys_fdatasync E fd)" "ages (sys_flock_un E)"
  unfolding sys_fdatasync_def sys_flock_un_def modW_def
  by (intro ages_rules; simp add: ages_rules split: outcome.split)+

lemma ages_deref [ages_rules]: "ages (deref x)"
  by (cases x) (simp_all add: deref_def ages_rules)

lemma ages_txn_commit [ages_rules]: "ages (txn_commit E t)"
  unfolding txn_commit_def by (intro ages_rules) (simp add: ages_def split: prod.split)

lemma ages_meta_put [ages_rules]: "ages (meta_put E k v)"
  unfolding meta_put_def use_batch_def write_txn_begin_def txn_begin_def commit_owned_def mdb_check_def
  by (intro ages_rules) simp_all

lemma ages_sync [ages_rules]: "ages (sync E)"
  unfolding sync_def commit_batch_def current_def use_batch_def batch_done_def set_map_size_def sys_err_def mdb_check_def env_sync_def
    unlock_writer_def
  by (intro ages_rules) simp_all

lemma ages_flush [ages_rules]: "ages (flush_touches E)"
  unfolding flush_touches_def by (intro ages_rules) simp

section \<open>Blobs\<close>

lemma ages_tryE [ages_rules]:
  assumes "ages m" and "\<And>e. ages (h e)"
  shows "ages (tryE m h)"
  unfolding ages_def
proof
  fix s
  obtain r s1 where m: "m s = (r, s1)" by fastforce
  then show "tick s \<le> tick (snd (tryE m h s))"
    using agesD [OF assms(1) m] assms(2) unfolding ages_def tryE_def
    by (cases r) (auto intro: order_trans)
qed

lemma ages_liftE [ages_rules]: "ages (liftE r)"
  by (cases r) (simp_all add: ages_def prog_defs)

lemma ages_files [ages_rules]:
  "ages (sys_open E name creat trunc)" "ages (sys_fstat_size E fd)" "ages (sys_mmap E fd)" "ages (sys_flock_nb E)"
  "ages (sys_pwrite E fd data off)" "ages (sys_pread E fd n off)" "ages (sys_err what err)"
  unfolding sys_open_def sys_fstat_size_def sys_mmap_def sys_flock_nb_def sys_pwrite_def sys_pread_def sys_err_def modW_def Let_def
  by (intro ages_rules; simp add: ages_rules split: outcome.split)+

lemma ages_lock [ages_rules]: "ages (lock_writer E)"
  unfolding ages_def lock_writer_def
proof
  fix s
  have "tick s \<le> tick (snd (lock_writer_loop E n s))" for n
  proof (induction E n s rule: lock_writer_loop.induct)
    case (1 E n s)
    obtain r s1 where r: "sys_flock_nb E s = (r, s1)" by fastforce
    from agesD [OF ages_files(4) r] 1 r show ?case
      by (subst lock_writer_loop.simps) (auto simp: sys_err_def throw_def split: sum.split intro: order_trans)
  qed
  then show "tick s \<le> tick (snd (lock_writer_loop E 0 s))" .
qed

lemma ages_pwrite_all [ages_rules]: "ages (pwrite_all E fd data off)"
  unfolding ages_def
proof
  fix s
  show "tick s \<le> tick (snd (pwrite_all E fd data off s))"
  proof (induction E fd data off s rule: pwrite_all.induct)
    case (1 E fd data off s)
    obtain r s1 where r: "sys_pwrite E fd data off s = (r, s1)" by fastforce
    from agesD [OF ages_files(5) r] 1 r show ?case
      by (subst pwrite_all.simps) (auto simp: sys_err_def throw_def split: sum.split intro: order_trans)
  qed
qed

lemma ages_pread_all [ages_rules]: "ages (pread_all E fd n off)"
  unfolding ages_def
proof
  fix s
  show "tick s \<le> tick (snd (pread_all E fd n off s))"
  proof (induction E fd n off s rule: pread_all.induct)
    case (1 E fd n off s)
    obtain r s1 where r: "sys_pread E fd n off s = (r, s1)" by fastforce
    from agesD [OF ages_files(6) r] 1 r show ?case
      by (subst pread_all.simps) (auto simp: sys_err_def throw_def bindE_def ret_def split: sum.split prod.split intro: order_trans, (metis order_trans snd_conv)+)
  qed
qed

lemma ages_mapping [ages_rules]: "ages (mapping_for E gen creat)"
  unfolding mapping_for_def map_pack_def
  by (intro ages_rules) (simp_all add: install_mapping_def split: option.split)

lemma ages_lookup [ages_rules]: "ages (lookup E hash want_gen)"
  unfolding lookup_def read_txn_def txn_begin_def use_batch_def mdb_check_def by (intro ages_rules)

lemma ages_put: "ages (put E data)"
  unfolding put_def Let_def need_batch_def begin_batch_def txn_begin_def batch_ends_def drop_batch_def unlock_writer_def set_map_size_def
    mdb_check_def file_size_def append_blob_def current_def index_blob_def use_batch_def auto_sync_def
  by (intro ages_rules) simp_all

lemma ages_get: "ages (get E hash)"
proof -
  have "ages (locate_loop E hash n)" for n
    by (induction n) (auto intro!: ages_rules)
  then show ?thesis
    unfolding get_def locate_def string_resize_def by (intro ages_rules)
qed

end
