(* ===== verification/Gc.thy ===== *)
theory Gc
  imports Meta_Scan Mark_Live Ticks
begin

text \<open>The collection (tree.cpp:536-612) on the pack CAS: what each step of maybe_gc keeps. Expiring drops the
stale roots and nothing else, marking every remaining root over the store yields a set that is closed
under the tree objects, compacting with that set keeps every entry in it, and the touches are flushed
before.\<close>

section \<open>The store of a collection\<close>

lemma mapped_same_files: "mapped g s s' \<Longrightarrow> same_files s s'"
  by (simp add: same_files_def mapped_fields)

lemma get_gc_source: "blob_source (gc_ok E) (store_view E) (pack_rest E) (get E)"
proof (unfold_locales, goal_cases)
  case (1 s h)
  then obtain g i where s: "platform_ok E" "cas_inv E s" "live_pack E (world s) g i"
    by (auto simp: gc_ok_def elim: pack_okE)
  have "gc_ok E s'" if "mapped g s s'" for s'
    using 1(1) mapped_pack_ok(1) [OF _ s(3) that] can_compact_same [OF _ mapped_same_files [OF that]] mapped_reader(2) [OF that, of E]
    by (simp add: gc_ok_def)
  then show ?case
    using 1 by (intro wp_get [OF s 1(2)]) (auto simp: mapped_pack_ok [OF _ s(3)] gc_ok_def)
qed (rule get_bad_length)

interpretation gc: blob_source "gc_ok E" "store_view E" "pack_rest E" "get E" for E
  by (rule get_gc_source)

lemma kept_meta_is: "gc.kept E s s' \<longleftrightarrow> meta_is E s (reader_table E s Meta) s'"
  by (auto simp: gc.kept_def meta_is_def pack_rest_def)

lemma gc_okD: "gc_ok E s \<Longrightarrow> platform_ok E \<and> cas_inv E s \<and> own_batch E s"
  by (simp add: gc_ok_def pack_ok_def)

lemma reader_table_tick [simp]: "reader_table E (s\<lparr>tick := n\<rparr>) = reader_table E s"
  by (simp add: reader_table_def batch_txn_def cong: option.case_cong)

lemma gc_ok_tick [simp]: "gc_ok E (s\<lparr>tick := n\<rparr>) = gc_ok E s"
  by (simp add: gc_ok_def pack_ok_def can_compact_def)

lemma meta_is_tick: "gc_ok E s \<Longrightarrow> meta_is E s (reader_table E s Meta) (s\<lparr>tick := n\<rparr>)"
  using tick_same [of E s n] gc_okD [of E s] by (simp add: meta_is_def same_store_def)

text \<open>The members of \<open>TreeStore\<close> are in what a store operation does not touch.\<close>

lemma more_members:
  fixes s s' :: "('e, 't, 'z) tree_store_scheme"
  assumes "cas.more s' = cas.more s"
  shows "pending_touch s' = pending_touch s" "ttl_ns s' = ttl_ns s" "gc_interval_ns s' = gc_interval_ns s"
    "touch_interval_ns s' = touch_interval_ns s"
  using assms by (cases s, cases s', simp)+

section \<open>Expiry\<close>

definition stale :: "u64 \<Rightarrow> u64 \<Rightarrow> bytes \<Rightarrow> bool" where
  "stale ttl now v \<longleftrightarrow> is_timestamp v \<and> ttl \<le> now - rbe64 v"

definition drop_stale :: "u64 \<Rightarrow> u64 \<Rightarrow> bytes \<Rightarrow> (bytes \<Rightarrow> bytes option) \<Rightarrow> bytes \<Rightarrow> bytes option" where
  "drop_stale ttl now pre mt k = (case mt k of None \<Rightarrow> None
     | Some v \<Rightarrow> if prefix pre k \<and> stale ttl now v then None else Some v)"

lemma wp_expire_scan:
  fixes s :: "('e, 't, 'z) tree_store_scheme"
  assumes s: "gc_ok E s"
    and Q: "\<And>s' vis. meta_is E s (reader_table E s Meta) s' \<Longrightarrow> records (reader_table E s Meta) pre vis \<Longrightarrow>
      Q () (s', map fst (filter (\<lambda>x. stale (ttl_ns s) now (snd x)) vis))"
    and R: "\<And>e s' l. io_exn e \<Longrightarrow> gc_ok E s' \<Longrightarrow> R e (s', l)"
  shows "wp (meta_scan E pre (\<lambda>key val. bindE (readS (\<lambda>s. ttl_ns (fst s))) (\<lambda>ttl.
        thenE (whenE (is_timestamp val \<and> ttl \<le> now - rbe64 val) (mod_local (\<lambda>expired. expired @ [key])))
          (ret True)))) Q R (s, [])"
proof (rule wp_meta_scan [where I = "\<lambda>vis (s', l). meta_is E s (reader_table E s Meta) s' \<and>
      l = map fst (filter (\<lambda>x. stale (ttl_ns s) now (snd x)) vis)"])
  show "platform_ok E" "cas_inv E s" using gc_okD [OF s] by simp_all
  show "wp (bindE (readS (\<lambda>s. ttl_ns (fst s))) (\<lambda>ttl.
        thenE (whenE (is_timestamp v \<and> ttl \<le> now - rbe64 v) (mod_local (\<lambda>expired. expired @ [k]))) (ret True)))
      (\<lambda>more sc'. more \<and> (case sc' of (s', l) \<Rightarrow> meta_is E s (reader_table E s Meta) s' \<and>
        l = map fst (filter (\<lambda>x. stale (ttl_ns s) now (snd x)) (vis @ [(k, v)])))) R sc"
    if "case sc of (s', l) \<Rightarrow> meta_is E s (reader_table E s Meta) s' \<and>
        l = map fst (filter (\<lambda>x. stale (ttl_ns s) now (snd x)) vis)" for k v vis sc
  proof (cases sc)
    case (Pair s' l)
    with that have "ttl_ns s' = ttl_ns s" by (intro more_members) (simp add: meta_is_def)
    with that Pair show ?thesis by (simp add: wp_simps stale_def)
  qed
  show "case (s\<lparr>tick := n\<rparr>, []) of (s', l) \<Rightarrow> meta_is E s (reader_table E s Meta) s' \<and>
      l = map fst (filter (\<lambda>x. stale (ttl_ns s) now (snd x)) [])" for n
    using meta_is_tick [OF s] by simp
  show "Q () sc" if "records (reader_table E s Meta) pre vis" "case sc of (s', l) \<Rightarrow> meta_is E s (reader_table E s Meta) s' \<and>
      l = map fst (filter (\<lambda>x. stale (ttl_ns s) now (snd x)) vis)" for vis sc
    using that by (cases sc) (simp add: Q)
  show "R e sc" if "io_exn e" "case sc of (s', l) \<Rightarrow> meta_is E s (reader_table E s Meta) s' \<and>
      l = map fst (filter (\<lambda>x. stale (ttl_ns s) now (snd x)) vis)" for e vis sc
    using that by (cases sc) (simp add: R meta_is_def)
  show "R e (s\<lparr>tick := n\<rparr>, [])" if "io_exn e" for e n
    using that s by (simp add: R)
qed

lemma stale_keys:
  assumes "records mt pre vis"
  shows "k \<in> set (map fst (filter (\<lambda>x. stale ttl now (snd x)) vis)) \<longleftrightarrow> (\<exists>v. prefix pre k \<and> mt k = Some v \<and> stale ttl now v)"
proof -
  have "k \<in> set (map fst (filter (\<lambda>x. stale ttl now (snd x)) vis)) \<longleftrightarrow> (\<exists>v. (k, v) \<in> set vis \<and> stale ttl now v)"
    unfolding set_map set_filter by force
  with assms show ?thesis by (auto simp: records_def)
qed

lemma wp_expire_roots:
  fixes s :: "('e, 't, 'z) tree_store_scheme"
  assumes s: "gc_ok E s" and pre: "\<not> prefix pre ''gen''"
    and Q: "\<And>s' n. meta_is E s (drop_stale (ttl_ns s) now pre (reader_table E s Meta)) s' \<Longrightarrow>
      (n = 0 \<Longrightarrow> drop_stale (ttl_ns s) now pre (reader_table E s Meta) = reader_table E s Meta) \<Longrightarrow> Q n s'"
    and R: "\<And>e s'. io_exn e \<Longrightarrow> gc_ok E s' \<Longrightarrow> R e s'"
  shows "wp (expire_roots E pre now) Q R s"
  unfolding expire_roots_def wp_with_local wp_thenE
proof (rule wp_expire_scan [OF s])
  fix s1 :: "('e, 't, 'z) tree_store_scheme" and vis :: "(bytes \<times> bytes) list"
  let ?mt = "reader_table E s Meta"
  let ?keys = "map fst (filter (\<lambda>x. stale (ttl_ns s) now (snd x)) vis)"
  assume s1: "meta_is E s ?mt s1" and vis: "records ?mt pre vis"
  note keys = stale_keys [OF vis, of _ "ttl_ns s" now]
  have tbl: "(\<lambda>k. if k \<in> id ` set ?keys then None else reader_table E s1 Meta k) = drop_stale (ttl_ns s) now pre ?mt"
    unfolding image_id id_apply
  proof
    fix k
    have "reader_table E s1 Meta = ?mt" using s1 by (simp add: meta_is_def)
    then show "(if k \<in> set ?keys then None else reader_table E s1 Meta k) = drop_stale (ttl_ns s) now pre ?mt k"
      unfolding keys by (cases "?mt k") (auto simp: drop_stale_def)
  qed
  have none: "drop_stale (ttl_ns s) now pre ?mt = ?mt" if "length ?keys = 0"
  proof
    fix k
    have "k \<notin> set ?keys" using that by auto
    then show "drop_stale (ttl_ns s) now pre ?mt k = ?mt k"
      unfolding keys by (cases "?mt k") (auto simp: drop_stale_def)
  qed
  have "wp (forE ?keys (\<lambda>x. meta_del E (id x))) (\<lambda>_. Q (length ?keys)) R s1"
  proof (rule wp_del_metas)
    show "gc_ok E s1" using s1 by (simp add: meta_is_def)
    show "''gen'' \<notin> set (map id ?keys)" using pre unfolding list.map_id keys by simp
    show "Q (length ?keys) s'"
      if "meta_is E s1 (\<lambda>k. if k \<in> id ` set ?keys then None else reader_table E s1 Meta k) s'" for s'
      using meta_is_trans [OF s1 that] none unfolding tbl by (intro Q)
  qed (rule R)
  then show "wp (bindE get_local (\<lambda>expired. thenE (on_store (forE expired (meta_del E))) (ret (length expired))))
      (\<lambda>a sc. Q a (fst sc)) (\<lambda>e sc. R e (fst sc)) (s1, ?keys)"
    by (simp add: wp_simps wp_on_store)
qed (use R in auto)

section \<open>Marking and sweeping\<close>

definition roots_of :: "char \<Rightarrow> (bytes \<Rightarrow> bytes option) \<Rightarrow> bytes set" where
  "roots_of c mt = {r. mt (c # r) \<noteq> None}"

lemma wp_mark_root:
  "wp (mark_root E root) Q R (s, (live, broken)) = wp (mark_live (get E) root)
     (\<lambda>_ (s', live'). Q () (s', (live', broken)))
     (\<lambda>e (s', live'). if no_exception e then R e (s', (live', broken)) else Q () (s', (live', broken @ [root]))) (s, live)"
  by (simp add: wp_def mark_root_def split: prod.split sum.split)

lemma marks_weaken: "marks m roots whole pending live \<Longrightarrow> (whole' \<Longrightarrow> whole) \<Longrightarrow> marks m roots whole' pending live"
  by (auto simp: marks_def)

lemma marks_refers: "\<forall>h\<in>live. refers m roots h \<Longrightarrow> marks m roots False [] live"
  by (simp add: marks_def)

definition mark_inv ::
  "('e, 't) platform \<Rightarrow> ('e, 't, 'z) cas_scheme \<Rightarrow> (bytes \<times> bytes) list \<Rightarrow>
     ('e, 't, 'z) cas_scheme \<times> (bytes set \<times> bytes list) \<Rightarrow> bool" where
  "mark_inv E s vis = (\<lambda>(s', (live, broken)). let m = store_view E s; roots = roots_of (CHR ''R'') (reader_table E s Meta) in
     meta_is E s (reader_table E s Meta) s' \<and> marks m roots (broken = [] \<and> kinds_differ m roots) [] live \<and>
     set broken \<subseteq> roots \<and> (broken = [] \<longrightarrow> (\<forall>x\<in>set vis. drop 1 (fst x) \<in> live)))"

lemma wp_mark_step:
  assumes inv: "mark_inv E s vis sc" and k: "prefix ''R'' k" "reader_table E s Meta k = Some v"
  shows "wp (thenE (mark_root E (drop 1 k)) (ret True)) (\<lambda>more sc'. more \<and> mark_inv E s (vis @ [(k, v)]) sc') R sc"
proof -
  obtain s' live broken where sc: "sc = (s', (live, broken))" by (cases sc) auto
  let ?m = "store_view E s" and ?mt = "reader_table E s Meta"
  let ?roots = "roots_of (CHR ''R'') ?mt"
  have s': "meta_is E s ?mt s'" and marks: "marks ?m ?roots (broken = [] \<and> kinds_differ ?m ?roots) [] live"
    and broken: "set broken \<subseteq> ?roots" and vis: "broken = [] \<longrightarrow> (\<forall>x\<in>set vis. drop 1 (fst x) \<in> live)"
    using inv by (simp_all add: sc mark_inv_def Let_def)
  have m: "store_view E s' = ?m" "gc_ok E s'" using s' by (simp_all add: meta_is_def)
  have root: "drop 1 k \<in> ?roots" using k by (cases k) (auto simp: roots_of_def)
  have kept: "meta_is E s ?mt s''" if "gc.kept E s' s''" for s''
    using that s' meta_is_trans [OF s'] by (simp add: kept_meta_is) (simp add: meta_is_def)
  show ?thesis
    unfolding sc wp_thenE wp_mark_root
  proof (rule gc.wp_mark_live [OF m(2) marks [folded m(1)] _ root], unfold m(1) prod.case)
    fix s'' live'
    assume a: "gc.kept E s' s''" "insert (drop 1 k) live \<subseteq> live'" "marks ?m ?roots (broken = [] \<and> kinds_differ ?m ?roots) [] live'"
    then show "wp (ret True) (\<lambda>more sc'. more \<and> mark_inv E s (vis @ [(k, v)]) sc') R (s'', live', broken)"
      using kept [OF a(1)] broken vis by (auto simp: wp_ret mark_inv_def Let_def)
  next
    fix e s'' live'
    assume a: "\<not> no_exception e" "gc.kept E s' s''" "\<forall>h\<in>live'. refers ?m ?roots h"
    then show "if no_exception e then R e (s'', live', broken)
        else wp (ret True) (\<lambda>more sc'. more \<and> mark_inv E s (vis @ [(k, v)]) sc') R (s'', live', broken @ [drop 1 k])"
      using kept [OF a(2)] broken root by (simp add: wp_ret mark_inv_def Let_def marks_refers)
  qed simp
qed

text \<open>What a collection makes of the roots and the store: it drops unreadable roots; of the blobs it
  keeps nothing but what the tree roots refer to and the blob roots, and if no root was unreadable
  all of that.\<close>

definition collected ::
  "('e, 't) platform \<Rightarrow> ('e, 't, 'z) cas_scheme \<Rightarrow> ('e, 't, 'z) cas_scheme \<Rightarrow> bool" where
  "collected E s s' \<longleftrightarrow> (let m = store_view E s; mt = reader_table E s Meta; roots = roots_of (CHR ''R'') mt in
     \<exists>broken live g. broken \<subseteq> roots \<and>
       pack_ok E s' \<and> cas.more s' = cas.more s \<and> wtxn s' = None \<and>
       reader_table E s' Meta = (\<lambda>k. if k \<in> (#) (CHR ''R'') ` broken then None else mt k)(''gen'' \<mapsto> le_bytes 8 g) \<and>
       store_view E s' = (\<lambda>h. if h \<in> live then m h else None) \<and>
       roots_of (CHR ''B'') mt \<subseteq> live \<and>
       (\<forall>h\<in>live. refers m roots h \<or> h \<in> roots_of (CHR ''B'') mt) \<and>
       (broken = {} \<and> kinds_differ m roots \<longrightarrow> (\<forall>h. refers m roots h \<longrightarrow> h \<in> live)))"

lemma wp_mark_blobs:
  assumes s: "gc_ok E s"
    and Q: "\<And>s'. meta_is E s (reader_table E s Meta) s' \<Longrightarrow>
      Q () (s', (live \<union> roots_of (CHR ''B'') (reader_table E s Meta), broken))"
    and R: "\<And>e s' l. io_exn e \<Longrightarrow> R e (s', l)"
  shows "wp (meta_scan E ''B'' (\<lambda>key _. thenE (mod_local (\<lambda>(live, broken). (insert (drop 1 key) live, broken))) (ret True)))
    Q R (s, (live, broken))"
proof (rule wp_meta_scan [where I = "\<lambda>vis (s', (live', broken')). meta_is E s (reader_table E s Meta) s' \<and>
      broken' = broken \<and> live' = live \<union> (drop 1 \<circ> fst) ` set vis"])
  show "platform_ok E" "cas_inv E s" using gc_okD [OF s] by simp_all
  show "Q () sc" if "records (reader_table E s Meta) ''B'' vis" "case sc of (s', (live', broken')) \<Rightarrow> meta_is E s (reader_table E s Meta) s' \<and>
      broken' = broken \<and> live' = live \<union> (drop 1 \<circ> fst) ` set vis" for vis sc
  proof -
    have "fst ` set vis = {k. prefix ''B'' k \<and> reader_table E s Meta k \<noteq> None}"
      using records_keys [OF that(1)] by blast
    then have "(drop 1 \<circ> fst) ` set vis = drop 1 ` {k. prefix ''B'' k \<and> reader_table E s Meta k \<noteq> None}"
      unfolding image_comp [symmetric] by (rule arg_cong)
    also have "\<dots> = roots_of (CHR ''B'') (reader_table E s Meta)"
    proof (intro set_eqI iffI)
      fix r
      assume "r \<in> roots_of (CHR ''B'') (reader_table E s Meta)"
      then have "CHR ''B'' # r \<in> {k. prefix ''B'' k \<and> reader_table E s Meta k \<noteq> None}" by (simp add: roots_of_def)
      then show "r \<in> drop 1 ` {k. prefix ''B'' k \<and> reader_table E s Meta k \<noteq> None}" by (rule image_eqI [rotated]) simp
    qed (auto simp: roots_of_def prefix_def)
    finally show ?thesis using that(2) by (cases sc) (simp add: Q)
  qed
  show "wp (thenE (mod_local (\<lambda>(live, broken). (insert (drop 1 k) live, broken))) (ret True))
      (\<lambda>more sc'. more \<and> (case sc' of (s', (live', broken')) \<Rightarrow> meta_is E s (reader_table E s Meta) s' \<and>
        broken' = broken \<and> live' = live \<union> (drop 1 \<circ> fst) ` set (vis @ [(k, v)]))) R sc"
    if "case sc of (s', (live', broken')) \<Rightarrow> meta_is E s (reader_table E s Meta) s' \<and>
      broken' = broken \<and> live' = live \<union> (drop 1 \<circ> fst) ` set vis" for k v vis sc
    using that by (cases sc) (simp add: wp_simps)
qed (use s in \<open>auto simp: wp_simps meta_is_tick R\<close>)

lemma wp_collect:
  assumes s: "gc_ok E s"
    and Q: "\<And>s'. collected E s s' \<Longrightarrow> Q () s'" and R: "\<And>e s'. io_exn e \<Longrightarrow> R e s'"
  shows "wp (collect E) Q R s"
proof -
  let ?m = "store_view E s" and ?mt = "reader_table E s Meta"
  let ?roots = "roots_of (CHR ''R'') ?mt" and ?blobs = "roots_of (CHR ''B'') ?mt"
  let ?Q = "\<lambda>a sc. Q a (fst sc)" and ?R = "\<lambda>e (sc :: ('a, 'b, 'c) tree_store_scheme \<times> bytes set \<times> bytes list). R e (fst sc)"
  have sweep: "wp (compact E (\<lambda>hash. hash \<in> live \<union> ?blobs)) Q R s2"
    if s2: "meta_is E s (\<lambda>k. if k \<in> (#) (CHR ''R'') ` set broken then None else ?mt k) s2"
      and inv: "mark_inv E s vis (s1, (live, broken))" and vis: "records ?mt ''R'' vis" for live broken vis s1 s2
  proof (rule wp_compact)
    have ok: "gc_ok E s2" using s2 by (simp add: meta_is_def)
    then show "platform_ok E" "cas_inv E s2" "own_batch E s2" "can_compact E s2" by (simp_all add: gc_ok_def pack_ok_def)
    have marks: "marks ?m ?roots (broken = [] \<and> kinds_differ ?m ?roots) [] live" and broken: "set broken \<subseteq> ?roots"
      using inv by (simp_all add: mark_inv_def Let_def)
    have all: "h \<in> live" if "set broken = {} \<and> kinds_differ ?m ?roots" "refers ?m ?roots h" for h
    proof (rule marks_closed [of ?m ?roots live ?roots])
      show "marks ?m ?roots True [] live" using marks that(1) by simp
      have "drop 1 k \<in> live" if "k \<in> fst ` set vis" for k
        using that inv \<open>set broken = {} \<and> _\<close> by (auto simp: mark_inv_def Let_def)
      then have "r \<in> live" if "r \<in> ?roots" for r
        using that records_keys [OF vis, of "CHR ''R'' # r"] by (force simp: roots_of_def)
      then show "?roots \<subseteq> live" by blast
    qed (use that in simp_all)
    show "Q () s'" if c: "compacted E (\<lambda>hash. hash \<in> live \<union> ?blobs) s2 s'" for s'
    proof (rule Q)
      from c obtain g where "reader_table E s' Meta = (reader_table E s2 Meta)(''gen'' \<mapsto> le_bytes 8 g)"
        by (auto simp: compacted_def)
      moreover have "pack_ok E s'" using c ok by (simp add: pack_ok_def compacted_def gc_ok_def own_batch_def)
      moreover have "\<forall>h\<in>live. refers ?m ?roots h" using marks by (simp add: marks_def)
      ultimately show "collected E s s'"
        using c s2 all broken unfolding collected_def Let_def
        by (intro exI [of _ "set broken"] exI [of _ "live \<union> ?blobs"] exI [of _ g])
          (auto simp: compacted_def meta_is_def)
    qed
  qed (rule R)
  show ?thesis
    unfolding collect_def wp_with_local wp_thenE [of "meta_scan _ _ _"]
  proof (rule wp_meta_scan [where I = "mark_inv E s"])
    show "platform_ok E" "cas_inv E s" using gc_okD [OF s] by simp_all
    show "mark_inv E s [] (s\<lparr>tick := n\<rparr>, ({}, []))" for n
      using meta_is_tick [OF s] by (simp add: mark_inv_def Let_def marks_def)
    show "wp (thenE (mark_root E (drop 1 k)) (ret True)) (\<lambda>more sc'. more \<and> mark_inv E s (vis @ [(k, v)]) sc') ?R sc"
      if "prefix ''R'' k" "?mt k = Some v" "mark_inv E s vis sc" for k v vis sc
      by (rule wp_mark_step [OF that(3,1,2)])
    fix vis and sc :: "('a, 'b, 'c) tree_store_scheme \<times> bytes set \<times> bytes list"
    assume vis: "records ?mt ''R'' vis" and inv: "mark_inv E s vis sc"
    obtain s1 live broken where sc: "sc = (s1, (live, broken))" by (cases sc) auto
    have s1: "meta_is E s ?mt s1" "set broken \<subseteq> ?roots" using inv by (simp_all add: sc mark_inv_def Let_def)
    have "wp (forE broken (\<lambda>root. meta_del E (CHR ''R'' # root))) (\<lambda>_ s2. wp (meta_scan E ''B'' (\<lambda>key _. thenE (mod_local (\<lambda>(live, broken).
        (insert (drop 1 key) live, broken))) (ret True))) (\<lambda>_. wp (bindE get_local (\<lambda>(live, _). on_store (compact E (\<lambda>hash. hash \<in> live)))) ?Q ?R)
        ?R (s2, (live, broken))) R s1"
    proof (rule wp_del_metas)
      show "gc_ok E s1" using s1 by (simp add: meta_is_def)
      fix s2
      assume a: "meta_is E s1 (\<lambda>k. if k \<in> (#) (CHR ''R'') ` set broken then None else reader_table E s1 Meta k) s2"
      have tbl: "reader_table E s1 Meta = ?mt" using s1 by (simp add: meta_is_def)
      have s2: "meta_is E s (\<lambda>k. if k \<in> (#) (CHR ''R'') ` set broken then None else ?mt k) s2"
        by (rule meta_is_trans [OF s1(1) a [unfolded tbl]])
      then have ok2: "gc_ok E s2" by (simp add: meta_is_def)
      have blobs: "roots_of (CHR ''B'') (reader_table E s2 Meta) = ?blobs"
        using s2 by (auto simp: roots_of_def meta_is_def)
      show "wp (meta_scan E ''B'' (\<lambda>key _. thenE (mod_local (\<lambda>(live, broken). (insert (drop 1 key) live, broken))) (ret True)))
          (\<lambda>_. wp (bindE get_local (\<lambda>(live, _). on_store (compact E (\<lambda>hash. hash \<in> live)))) ?Q ?R) ?R (s2, (live, broken))"
      proof (rule wp_mark_blobs [OF ok2], unfold blobs)
        fix s3
        assume "meta_is E s2 (reader_table E s2 Meta) s3"
        then have "meta_is E s2 (\<lambda>k. if k \<in> (#) (CHR ''R'') ` set broken then None else ?mt k) s3"
          using s2 by (simp add: meta_is_def)
        from sweep [OF meta_is_trans [OF s2 this] inv [unfolded sc] vis]
        show "wp (bindE get_local (\<lambda>(live, _). on_store (compact E (\<lambda>hash. hash \<in> live)))) ?Q ?R (s3, (live \<union> ?blobs, broken))"
          by (simp add: wp_bindE wp_get_local wp_on_store)
      qed (simp add: R)
    qed (auto simp: R)
    then show "wp (bindE get_local (\<lambda>(_, broken). thenE (on_store (forE broken (\<lambda>root. meta_del E (CHR ''R'' # root))))
        (thenE (meta_scan E ''B'' (\<lambda>key _. thenE (mod_local (\<lambda>(live, broken). (insert (drop 1 key) live, broken))) (ret True)))
        (bindE get_local (\<lambda>(live, _). on_store (compact E (\<lambda>hash. hash \<in> live))))))) ?Q ?R sc"
      by (simp add: sc wp_simps wp_on_store)
  qed (simp_all add: R)
qed

section \<open>Touches\<close>

lemma pack_ok_touch [simp]:
  "cas_inv E (s\<lparr>pending_touch := p\<rparr>) = cas_inv E s" "own_batch E (s\<lparr>pending_touch := p\<rparr>) = own_batch E s"
  "reader_table E (s\<lparr>pending_touch := p\<rparr>) = reader_table E s"
  "store_view E (s\<lparr>pending_touch := p\<rparr>) = store_view E s"
  by (simp_all add: cas_inv_def handle_maps_inv_def maps_below_def batch_inv_def batch_at_def map_at_def own_batch_def
      reader_table_def batch_txn_def store_view_def batch_view_def cong: option.case_cong)

lemma gc_ok_touch [simp]: "gc_ok E (s\<lparr>pending_touch := p\<rparr>) = gc_ok E s"
  by (simp add: gc_ok_def pack_ok_def can_compact_def)

text \<open>No touch is of a key of the store's own.\<close>

definition touches_ok :: "('e, 't, 'z) tree_store_scheme \<Rightarrow> bool" where
  "touches_ok s \<longleftrightarrow> (\<forall>x\<in>set (pending_touch s). \<exists>root tree. fst x = root_key root tree)"

lemma root_key_neq [simp]: "root_key root tree \<noteq> ''gen''" "root_key root tree \<noteq> ''lastgc''"
  by (simp_all add: root_key_def)

definition touched :: "(bytes \<times> u64) list \<Rightarrow> (bytes \<Rightarrow> bytes option) \<Rightarrow> bytes \<Rightarrow> bytes option" where
  "touched batch mt = mt ++ map_of (rev (map (\<lambda>x. (fst x, be64 (snd x))) batch))"

abbreviation no_touches :: "('e, 't, 'z) tree_store_scheme \<Rightarrow> ('e, 't, 'z) tree_store_scheme" where
  "no_touches s \<equiv> s\<lparr>pending_touch := []\<rparr>"

lemma wp_flush_touches:
  assumes s: "gc_ok E s" and t: "touches_ok s"
    and Q: "\<And>s'. meta_is E (no_touches s) (touched (pending_touch s) (reader_table E s Meta)) s' \<Longrightarrow> Q () s'"
    and R: "\<And>e s'. io_exn e \<Longrightarrow> gc_ok E s' \<Longrightarrow> R e s'"
  shows "wp (flush_touches E) Q R s"
proof -
  have "wp (forE (pending_touch s) (\<lambda>x. meta_put E (fst x) (be64 (snd x)))) Q R (no_touches s)"
  proof (rule wp_put_metas)
    show "\<forall>x\<in>set (pending_touch s). fst x \<noteq> ''gen''"
    proof
      fix x
      assume "x \<in> set (pending_touch s)"
      with t obtain root tree where "fst x = root_key root tree" unfolding touches_ok_def by blast
      then show "fst x \<noteq> ''gen''" by simp
    qed
    show "Q () s'" if "meta_is E (no_touches s) (reader_table E (no_touches s) Meta ++
        map_of (rev (map (\<lambda>x. (fst x, be64 (snd x))) (pending_touch s)))) s'" for s'
      using that by (intro Q) (simp add: touched_def)
  qed (use s in \<open>simp_all add: R\<close>)
  then show ?thesis by (simp add: flush_touches_def wp_simps)
qed

lemma wp_now_ns: "quiet E \<Longrightarrow> (\<And>now n. Q now (s\<lparr>tick := n\<rparr>)) \<Longrightarrow> wp (now_ns E) Q R s"
  by (simp add: now_ns_def wp_simps wp_sys_eq)

section \<open>The whole collection\<close>

text \<open>The last collection is too young for another.\<close>

definition gc_recent :: "u64 \<Rightarrow> u64 \<Rightarrow> (bytes \<Rightarrow> bytes option) \<Rightarrow> bool" where
  "gc_recent interval now mt \<longleftrightarrow> (case mt ''lastgc'' of None \<Rightarrow> False | Some v \<Rightarrow> is_timestamp v \<and> now - rbe64 v < interval)"

definition gc_done :: "('e, 't) platform \<Rightarrow> u64 \<Rightarrow> ('e, 't, 'z) tree_store_scheme \<Rightarrow> ('e, 't, 'z) tree_store_scheme \<Rightarrow> bool" where
  "gc_done E now s s' \<longleftrightarrow> (let m1 = touched (pending_touch s) (reader_table E s Meta); m2 = m1(''lastgc'' \<mapsto> be64 now);
      m3 = drop_stale (ttl_ns s) now ''B'' (drop_stale (ttl_ns s) now ''R'' m2) in
     if gc_recent (gc_interval_ns s) now (reader_table E s Meta) then meta_is E (no_touches s) m1 s'
     else meta_is E (no_touches s) m2 s' \<and> m3 = m2 \<or> (\<exists>s2. meta_is E (no_touches s) m3 s2 \<and> collected E s2 s'))"

lemma touched_other: "k \<notin> fst ` set batch \<Longrightarrow> touched batch mt k = mt k"
  by (auto simp: touched_def map_add_def map_of_eq_None_iff image_image split: option.split) (force dest!: map_of_SomeD)

lemma gc_recent_touched: "touches_ok s \<Longrightarrow> gc_recent I now (touched (pending_touch s) mt) = gc_recent I now mt"
proof -
  assume "touches_ok s"
  have "''lastgc'' \<notin> fst ` set (pending_touch s)"
  proof
    assume "''lastgc'' \<in> fst ` set (pending_touch s)"
    then obtain x where x: "x \<in> set (pending_touch s)" "''lastgc'' = fst x" by (rule imageE)
    with \<open>touches_ok s\<close> obtain root tree where "fst x = root_key root tree" unfolding touches_ok_def by blast
    with x(2) root_key_neq(2) show False by metis
  qed
  then show ?thesis by (simp add: gc_recent_def touched_other)
qed

lemma wp_expire_collect:
  fixes E :: "('e, 't) platform" and s :: "('e, 't, 'z) tree_store_scheme" and now :: u64
  defines "expired \<equiv> drop_stale (ttl_ns s) now ''B'' (drop_stale (ttl_ns s) now ''R'' (reader_table E s Meta))"
  assumes s: "gc_ok E s"
    and Q: "\<And>s'. meta_is E s expired s' \<and> expired = reader_table E s Meta \<or> (\<exists>s2. meta_is E s expired s2 \<and> collected E s2 s') \<Longrightarrow> Q () s'"
    and R: "\<And>e s'. io_exn e \<Longrightarrow> R e s'"
  shows "wp (bindE (expire_roots E ''R'' now) (\<lambda>m. bindE (expire_roots E ''B'' now) (\<lambda>n. whenE (m + n \<noteq> 0) (collect E)))) Q R s"
  unfolding wp_bindE
proof (rule wp_expire_roots [OF s])
  let ?ttl = "ttl_ns s" and ?mt = "reader_table E s Meta"
  fix s1 :: "('e, 't, 'z) tree_store_scheme" and m :: nat
  assume s1: "meta_is E s (drop_stale ?ttl now ''R'' ?mt) s1" and m: "m = 0 \<Longrightarrow> drop_stale ?ttl now ''R'' ?mt = ?mt"
  have ok1: "gc_ok E s1" "reader_table E s1 Meta = drop_stale ?ttl now ''R'' ?mt" "ttl_ns s1 = ?ttl"
    using s1 more_members(2) [of s1 s] by (simp_all add: meta_is_def)
  show "wp (expire_roots E ''B'' now) (\<lambda>n. wp (whenE (m + n \<noteq> 0) (collect E)) Q R) R s1"
  proof (rule wp_expire_roots [OF ok1(1)], unfold ok1(2,3))
    fix s2 :: "('e, 't, 'z) tree_store_scheme" and n :: nat
    assume a: "meta_is E s1 (drop_stale ?ttl now ''B'' (drop_stale ?ttl now ''R'' ?mt)) s2"
      and n: "n = 0 \<Longrightarrow> drop_stale ?ttl now ''B'' (drop_stale ?ttl now ''R'' ?mt) = drop_stale ?ttl now ''R'' ?mt"
    have s2: "meta_is E s expired s2" using meta_is_trans [OF s1 a] by (simp add: expired_def)
    show "wp (whenE (m + n \<noteq> 0) (collect E)) Q R s2"
    proof (rule wp_whenE_I)
      show "wp (collect E) Q R s2"
        by (rule wp_collect) (use s2 Q R in \<open>auto simp: meta_is_def\<close>)
      show "Q () s2" if "\<not> m + n \<noteq> 0"
        using that s2 m n by (intro Q) (simp add: expired_def)
    qed
  qed (simp_all add: R)
qed (simp_all add: R)

lemma wp_flush_ages:
  assumes "gc_ok E s" and "touches_ok s"
    and Q: "\<And>s'. meta_is E (no_touches s) (touched (pending_touch s) (reader_table E s Meta)) s' \<Longrightarrow> tick s \<le> tick s' \<Longrightarrow> Q () s'"
    and R: "\<And>e s'. io_exn e \<Longrightarrow> R e s'"
  shows "wp (flush_touches E) Q R s"
proof -
  have "wp (flush_touches E) (\<lambda>_. meta_is E (no_touches s) (touched (pending_touch s) (reader_table E s Meta))) (\<lambda>e _. io_exn e) s"
    by (rule wp_flush_touches [OF assms(1,2)])
  from wp_conj [OF this ages_wp [OF ages_flush]] show ?thesis
    by (rule wp_mono) (auto intro: Q R)
qed

lemma wp_maybe_gc:
  assumes s: "gc_ok E s" and t: "touches_ok s"
    and Q: "\<And>s' n. tick s \<le> n \<Longrightarrow> gc_done E (clock E n) s s' \<Longrightarrow> Q () s'" and R: "\<And>e s'. io_exn e \<Longrightarrow> R e s'"
  shows "wp (maybe_gc E) Q R s"
  unfolding maybe_gc_def wp_thenE [of "flush_touches E"]
proof (rule wp_flush_ages [OF s t _ R])
  let ?m1 = "touched (pending_touch s) (reader_table E s Meta)"
  fix s1 :: "('a, 'b, 'c) tree_store_scheme"
  assume s1: "meta_is E (no_touches s) ?m1 s1" and n: "tick s \<le> tick s1"
  let ?now = "clock E (tick s1)"
  have members: "ttl_ns s' = ttl_ns s" "gc_interval_ns s' = gc_interval_ns s"
    if "meta_is E (no_touches s) mt s'" for mt and s' :: "('a, 'b, 'c) tree_store_scheme"
    using that more_members(2,3) [of s' "no_touches s"] by (simp_all add: meta_is_def)
  have tick: "meta_is E (no_touches s) ?m1 (s1\<lparr>tick := k\<rparr>)" for k
    using s1 meta_is_trans [OF s1 meta_is_tick [of E s1 k]] by (simp add: meta_is_def)
  have ok1: "gc_ok E (s1\<lparr>tick := k\<rparr>)" "reader_table E (s1\<lparr>tick := k\<rparr>) Meta = ?m1" for k
    using s1 by (simp_all add: meta_is_def)
  have recent: "(case ?m1 ''lastgc'' of None \<Rightarrow> False | Some v \<Rightarrow> is_timestamp v \<and> ?now - rbe64 v < gc_interval_ns (s1\<lparr>tick := k\<rparr>)) \<longleftrightarrow>
      gc_recent (gc_interval_ns s) ?now (reader_table E s Meta)" for k
    using gc_recent_touched [OF t, of "gc_interval_ns s" ?now "reader_table E s Meta"]
    unfolding gc_recent_def members(2) [OF tick] .
  have go: "wp (thenE (meta_put E ''lastgc'' (be64 ?now)) (bindE (expire_roots E ''R'' ?now) (\<lambda>m. bindE (expire_roots E ''B'' ?now) (\<lambda>n.
      whenE (m + n \<noteq> 0) (collect E))))) Q R (s1\<lparr>tick := k\<rparr>)"
    if old: "\<not> gc_recent (gc_interval_ns s) ?now (reader_table E s Meta)" for k
    unfolding wp_thenE
  proof (rule wp_put_meta [OF ok1(1), unfolded ok1(2)])
    fix s2 :: "('a, 'b, 'c) tree_store_scheme"
    assume "meta_is E (s1\<lparr>tick := k\<rparr>) (?m1(''lastgc'' \<mapsto> be64 ?now)) s2"
    note s2 = meta_is_trans [OF tick this]
    have ok2: "gc_ok E s2" "reader_table E s2 Meta = ?m1(''lastgc'' \<mapsto> be64 ?now)" using s2 by (simp_all add: meta_is_def)
    show "wp (bindE (expire_roots E ''R'' ?now) (\<lambda>m. bindE (expire_roots E ''B'' ?now) (\<lambda>n. whenE (m + n \<noteq> 0) (collect E)))) Q R s2"
      by (rule wp_expire_collect [OF ok2(1)], unfold ok2(2) members [OF s2])
        (use old meta_is_trans [OF s2] in \<open>auto intro!: Q [OF n] R simp: gc_done_def Let_def\<close>)
  qed (simp_all add: R)
  have "wp (meta_get E ''lastgc'') (\<lambda>stamp. wp (bindE (readS gc_interval_ns) (\<lambda>interval.
      if (case stamp of None \<Rightarrow> False | Some v \<Rightarrow> is_timestamp v \<and> ?now - rbe64 v < interval) then ret ()
      else thenE (meta_put E ''lastgc'' (be64 ?now)) (bindE (expire_roots E ''R'' ?now) (\<lambda>m. bindE (expire_roots E ''B'' ?now) (\<lambda>n.
        whenE (m + n \<noteq> 0) (collect E)))))) Q R) R (s1\<lparr>tick := k\<rparr>)" for k
  proof (rule wp_meta_get)
    show "platform_ok E" "cas_inv E (s1\<lparr>tick := k\<rparr>)" using gc_okD [OF ok1(1)] by simp_all
    show "wp (bindE (readS gc_interval_ns) (\<lambda>interval.
      if (case reader_table E (s1\<lparr>tick := k\<rparr>) Meta ''lastgc'' of None \<Rightarrow> False | Some v \<Rightarrow> is_timestamp v \<and> ?now - rbe64 v < interval) then ret ()
      else thenE (meta_put E ''lastgc'' (be64 ?now)) (bindE (expire_roots E ''R'' ?now) (\<lambda>m. bindE (expire_roots E ''B'' ?now) (\<lambda>n.
        whenE (m + n \<noteq> 0) (collect E)))))) Q R (s1\<lparr>tick := k, tick := j\<rparr>)" for j
    proof -
      have again: "s1\<lparr>tick := k, tick := j\<rparr> = s1\<lparr>tick := j\<rparr>" by simp
      show ?thesis
        unfolding wp_bindE [of "readS _"] wp_readS ok1(2) again recent
      proof (rule wp_if_I)
        assume "gc_recent (gc_interval_ns s) ?now (reader_table E s Meta)"
        with tick have "gc_done E ?now s (s1\<lparr>tick := j\<rparr>)" by (simp add: gc_done_def Let_def)
        then show "wp (ret ()) Q R (s1\<lparr>tick := j\<rparr>)" by (intro wp_ret_I Q [OF n])
      qed (rule go)
    qed
  qed (rule R)
  then show "wp (bindE (now_ns E) (\<lambda>now. bindE (meta_get E ''lastgc'') (\<lambda>stamp. bindE (readS gc_interval_ns) (\<lambda>interval.
      if (case stamp of None \<Rightarrow> False | Some v \<Rightarrow> is_timestamp v \<and> now - rbe64 v < interval) then ret ()
      else thenE (meta_put E ''lastgc'' (be64 now)) (bindE (expire_roots E ''R'' now) (\<lambda>m. bindE (expire_roots E ''B'' now) (\<lambda>n.
        whenE (m + n \<noteq> 0) (collect E)))))))) Q R s1"
    using gc_okD [OF ok1(1)] by (simp add: now_ns_def wp_bindE wp_thenE wp_readS wp_sys_eq wp_ret platform_okD(3))
qed

section \<open>What it keeps\<close>

text \<open>The roots that are registered, counting the pending touches, and not idle for too long.\<close>

definition fresh_roots :: "('e, 't) platform \<Rightarrow> u64 \<Rightarrow> ('e, 't, 'z) tree_store_scheme \<Rightarrow> char \<Rightarrow> bytes set" where
  "fresh_roots E now s c = {r. \<exists>v. touched (pending_touch s) (reader_table E s Meta) (c # r) = Some v \<and> \<not> stale (ttl_ns s) now v}"

lemma roots_of_drop_stale:
  "roots_of c (drop_stale ttl now [c] mt) = {r. \<exists>v. mt (c # r) = Some v \<and> \<not> stale ttl now v}"
  "c' \<noteq> c \<Longrightarrow> roots_of c (drop_stale ttl now [c'] mt) = roots_of c mt"
  by (auto simp: roots_of_def drop_stale_def split: option.splits if_splits)

lemma drop_stale_fresh:
  "c \<noteq> CHR ''l'' \<Longrightarrow> roots_of c (drop_stale ttl now ''B'' (drop_stale ttl now ''R'' (m1(''lastgc'' \<mapsto> t)))) =
     (if c = CHR ''R'' \<or> c = CHR ''B'' then {r. \<exists>v. m1 (c # r) = Some v \<and> \<not> stale ttl now v} else roots_of c m1)"
  by (auto simp: roots_of_def drop_stale_def split: option.splits if_splits)

lemma refers_mono: "rs \<subseteq> rs' \<Longrightarrow> refers m rs h \<Longrightarrow> refers m rs' h"
  unfolding refers_def names_def dir_below_def by blast

definition gc_keeps :: "('e, 't) platform \<Rightarrow> u64 \<Rightarrow> ('e, 't, 'z) tree_store_scheme \<Rightarrow> ('e, 't, 'z) tree_store_scheme \<Rightarrow> bool" where
  "gc_keeps E now s s' \<longleftrightarrow> (let m = store_view E s; m' = store_view E s';
      roots = fresh_roots E now s (CHR ''R''); files = fresh_roots E now s (CHR ''B'') in
     m' \<subseteq>\<^sub>m m \<and> (\<forall>h\<in>files. m' h = m h) \<and>
     (kinds_differ m roots \<and> (\<forall>r\<in>roots. reader_table E s' Meta (CHR ''R'' # r) \<noteq> None) \<longrightarrow>
        (\<forall>h. refers m roots h \<longrightarrow> m' h = m h)) \<and>
     (m' = m \<or> \<not> gc_recent (gc_interval_ns s) now (reader_table E s Meta) \<and> (\<forall>h\<in>dom m'. refers m roots h \<or> h \<in> files)))"

lemma gc_done_keeps:
  assumes "gc_done E now s s'"
  shows "pack_ok E s' \<and> pending_touch s' = [] \<and> gc_keeps E now s s'"
proof -
  let ?m1 = "touched (pending_touch s) (reader_table E s Meta)"
  let ?m3 = "drop_stale (ttl_ns s) now ''B'' (drop_stale (ttl_ns s) now ''R'' (?m1(''lastgc'' \<mapsto> be64 now)))"
  have no_touch: "pending_touch s'' = []" if "cas.more s'' = cas.more (no_touches s)" for s'' :: "('a, 'b, 'c) tree_store_scheme"
    using more_members(1) [OF that] by simp
  have same: ?thesis if "meta_is E (no_touches s) mt s'" for mt
    using that no_touch [of s'] by (simp add: meta_is_def gc_ok_def gc_keeps_def Let_def)
  from assms consider mt where "meta_is E (no_touches s) mt s'"
    | s2 where "\<not> gc_recent (gc_interval_ns s) now (reader_table E s Meta)" "meta_is E (no_touches s) ?m3 s2" "collected E s2 s'"
    unfolding gc_done_def Let_def by (auto split: if_splits)
  then show ?thesis
  proof cases
    case 1
    then show ?thesis by (rule same)
  next
    case 2
    let ?m = "store_view E s" and ?roots = "fresh_roots E now s (CHR ''R'')" and ?files = "fresh_roots E now s (CHR ''B'')"
    have s2: "store_view E s2 = ?m" "cas.more s2 = cas.more (no_touches s)" "reader_table E s2 Meta = ?m3"
      using 2(2) by (simp_all add: meta_is_def)
    have roots: "roots_of (CHR ''R'') ?m3 = ?roots" "roots_of (CHR ''B'') ?m3 = ?files"
      by (simp_all add: drop_stale_fresh fresh_roots_def)
    from 2(3) obtain broken live g where c: "broken \<subseteq> ?roots" "pack_ok E s'" "cas.more s' = cas.more s2"
      "reader_table E s' Meta = (\<lambda>k. if k \<in> (#) (CHR ''R'') ` broken then None else ?m3 k)(''gen'' \<mapsto> le_bytes 8 g)"
      "store_view E s' = (\<lambda>h. if h \<in> live then ?m h else None)" "?files \<subseteq> live"
      "\<forall>h\<in>live. refers ?m ?roots h \<or> h \<in> ?files"
      "broken = {} \<and> kinds_differ ?m ?roots \<longrightarrow> (\<forall>h. refers ?m ?roots h \<longrightarrow> h \<in> live)"
      unfolding collected_def Let_def s2 roots by blast
    have "broken = {}" if "\<forall>r\<in>?roots. reader_table E s' Meta (CHR ''R'' # r) \<noteq> None"
    proof (rule ccontr)
      assume "broken \<noteq> {}"
      then obtain r where "r \<in> broken" by blast
      moreover from this c(1) that have "reader_table E s' Meta (CHR ''R'' # r) \<noteq> None" by blast
      ultimately show False by (simp add: c(4))
    qed
    moreover have "store_view E s' \<subseteq>\<^sub>m ?m" by (auto simp: c(5) map_le_def split: if_splits)
    moreover have "\<forall>h\<in>dom (store_view E s'). refers ?m ?roots h \<or> h \<in> ?files"
      using c(7) by (auto simp: c(5) split: if_splits)
    ultimately have "gc_keeps E now s s'"
      unfolding gc_keeps_def Let_def using c(5,6,8) 2(1) by (simp add: subset_iff)
    with c(2,3) s2(2) no_touch show ?thesis by simp
  qed
qed

end
