(* ===== verification/Sample.thy ===== *)
theory Sample
  imports Blob_Store
begin

text \<open>
  A concrete platform, to instantiate the statements at: a hash that is injective on blobs of
  at most 31 bytes, an LZ4 that finds nothing compressible, LMDB as two association lists (the
  environment and a transaction have the same contents), a kernel that always succeeds. It is
  an example of what the code relies on, not a model of those libraries.
\<close>

datatype tables = Tables "(bytes \<times> bytes) list" "(bytes \<times> bytes) list"

definition sample_hash :: "bytes \<Rightarrow> bytes" where
  "sample_hash d = take 32 (d @ CHR ''.'' # replicate 32 (CHR 0x00))"

fun table_of :: "tables \<Rightarrow> dbi \<Rightarrow> (bytes \<times> bytes) list" where
  "table_of (Tables b m) Blobs = b"
| "table_of (Tables b m) Meta = m"

fun with_table :: "tables \<Rightarrow> dbi \<Rightarrow> (bytes \<times> bytes) list \<Rightarrow> tables" where
  "with_table (Tables b m) Blobs x = Tables x m"
| "with_table (Tables b m) Meta x = Tables b x"

definition sample_get :: "tables \<Rightarrow> dbi \<Rightarrow> bytes \<Rightarrow> int \<times> bytes" where
  "sample_get t d k = (case map_of (table_of t d) k of None \<Rightarrow> (MDB_NOTFOUND, []) | Some v \<Rightarrow> (MDB_SUCCESS, v))"

definition sample_put :: "tables \<Rightarrow> dbi \<Rightarrow> bytes \<Rightarrow> bytes \<Rightarrow> bool \<Rightarrow> int \<times> tables" where
  "sample_put t d k v no_overwrite =
     (if no_overwrite \<and> map_of (table_of t d) k \<noteq> None then (-30799, t)
      else (MDB_SUCCESS, with_table t d ((k, v) # table_of t d)))"

definition sample_del :: "tables \<Rightarrow> dbi \<Rightarrow> bytes \<Rightarrow> int \<times> tables" where
  "sample_del t d k =
     (if map_of (table_of t d) k = None then (MDB_NOTFOUND, t)
      else (MDB_SUCCESS, with_table t d (filter (\<lambda>x. fst x \<noteq> k) (table_of t d))))"

definition sample_scan :: "tables \<Rightarrow> dbi \<Rightarrow> bytes \<Rightarrow> (bytes \<times> bytes) list \<times> int" where
  "sample_scan t d lo =
     (map (\<lambda>k. (k, the (map_of (table_of t d) k)))
       (filter (\<lambda>k. lo \<le> k) (sort (remdups (map fst (table_of t d))))), MDB_NOTFOUND)"

definition sample :: "(tables, tables) platform" where
  "sample = \<lparr>blake3 = sample_hash, lz4_compress = (\<lambda>_ _. []), lz4_decompress = (\<lambda>_ _. None),
     mdb_txn_begin = (\<lambda>e. (MDB_SUCCESS, e)), mdb_txn_commit = (\<lambda>t _. (MDB_SUCCESS, t)),
     mdb_env_sync = (\<lambda>_. MDB_SUCCESS), mdb_get = sample_get, mdb_put = sample_put,
     mdb_del = sample_del, mdb_drop = (\<lambda>t d. (MDB_SUCCESS, with_table t d [])),
     mdb_stat_entries = (\<lambda>t d. (MDB_SUCCESS, length (remdups (map fst (table_of t d))))),
     mdb_cursor_open = (\<lambda>_ _. MDB_SUCCESS), mdb_scan = sample_scan,
     mdb_open = (\<lambda>e. (MDB_SUCCESS, e)), mdb_fresh = Tables [] [], mdb_strerror = (\<lambda>_. ''error''),
     mdb_table = (\<lambda>t d. map_of (table_of t d)), mdb_committed = (\<lambda>e d. map_of (table_of e d)),
     outcome = (\<lambda>_. Fine), others = (\<lambda>_ w. w), clock = (\<lambda>n. of_nat n * 1000), self = 1, thread = 1\<rparr>"

lemma table_of_with_table [simp]:
  "table_of (with_table t d x) d' = (if d' = d then x else table_of t d')"
  by (cases t; cases d; cases d') auto

lemma sample_reads: "mdb_reads_ok sample"
  by (auto simp: mdb_reads_ok_def sample_def sample_get_def fun_eq_iff map_of_eq_None_iff
      split: option.splits)

lemma map_of_filter_key: "map_of (filter (\<lambda>x. fst x \<noteq> k) xs) = (map_of xs)(k := None)"
  by (induction xs) auto

lemma sample_writes: "mdb_writes_ok sample"
  by (auto simp: mdb_writes_ok_def sample_def sample_put_def sample_del_def fun_eq_iff map_of_filter_key
      split: if_splits)

lemma sample_scan_set:
  "(k, v) \<in> set (fst (sample_scan t d lo)) \<longleftrightarrow> lo \<le> k \<and> map_of (table_of t d) k = Some v"
proof -
  have "k \<in> fst ` set (table_of t d) \<longleftrightarrow> (\<exists>v. map_of (table_of t d) k = Some v)"
    using dom_map_of_conv_image_fst [of "table_of t d"] by auto
  then show ?thesis by (auto simp: sample_scan_def)
qed

lemma sample_scan_sorted: "sorted_wrt (<) (map fst (fst (sample_scan t d lo)))"
  by (simp add: sample_scan_def comp_def strict_sorted_iff sorted_wrt_filter)

lemma sample_scan_ok: "mdb_scan_ok sample"
  unfolding mdb_scan_ok_def
proof (intro allI impI conjI)
  fix t d lo kvs rc
  assume "mdb_scan sample t d lo = (kvs, rc)"
  then have kvs: "kvs = fst (sample_scan t d lo)" and rc: "rc = MDB_NOTFOUND"
    by (simp_all add: sample_def sample_scan_def)
  show "rc \<noteq> MDB_SUCCESS" by (simp add: rc)
  show "sorted_wrt (<) (map fst kvs)" unfolding kvs by (rule sample_scan_sorted)
  show "lo \<le> k" "mdb_table sample t d k = Some v" if "(k, v) \<in> set kvs" for k v
    using that by (simp_all add: kvs sample_scan_set) (simp add: sample_def)
  show "(k', v') \<in> set kvs" if "(k, v) \<in> set kvs \<and> lo \<le> k' \<and> k' \<le> k \<and> mdb_table sample t d k' = Some v'" for k v k' v'
    using that by (simp add: kvs sample_scan_set) (simp add: sample_def)
  show "(k, v) \<in> set kvs" if "lo \<le> k \<and> mdb_table sample t d k = Some v" for k v
    using that by (simp add: kvs sample_scan_set) (simp add: sample_def)
qed

lemma sample_env: "mdb_env_ok sample"
proof -
  have "map_of (table_of (Tables [] []) d) k = None" for d k by (cases d) simp_all
  then show ?thesis by (auto simp: mdb_env_ok_def sample_def fun_eq_iff)
qed

lemma sample_platform: "platform_ok sample"
  using sample_reads sample_writes sample_scan_ok sample_env
  by (auto simp: platform_ok_def lmdb_ok_def lz4_ok_def blake3_ok_def quiet_def)
    (simp_all add: sample_def sample_hash_def)

section \<open>A new store on it\<close>

text \<open>The state \<open>PackCas::open\<close> leaves on an empty directory, with no mapping made yet.\<close>

definition sample_world :: "tables world" where
  "sample_world = \<lparr>inodes = (\<lambda>_. []), dirents = [(''lock'', 0), (''pack.0'', 1)], next_inode = 2,
     mdb_env = Tables [] [(''format'', ''2'')], flock_owner = None\<rparr>"

definition sample_cas :: "(tables, tables) cas" where
  "sample_cas = \<lparr>world = sample_world, tick = 0, cas_dir = ''cache'', maps = [], cur = None, retired = [],
     wtxn = None, wtxn_freed = False, writer_thread = 0, committed_end = 0, pack_end = 0, batch_bytes = 0\<rparr>"

lemma sample_pack_name: "pack_name 0 = ''pack.0''"
  by code_simp

lemma sample_live: "live_pack sample sample_world 0 1"
  by (simp add: live_pack_def sample_pack_name find_inode_def sample_world_def table_gen_def sample_def)

lemma sample_cas_inv: "cas_inv sample sample_cas"
proof (rule cas_invI)
  show "files_ok (world sample_cas)"
    by (simp add: files_ok_def sample_cas_def sample_world_def)
  show "live_pack sample (world sample_cas) 0 1"
    using sample_live by (simp add: sample_cas_def)
  show "index_ok sample (inodes (world sample_cas) 1) (mdb_committed sample (mdb_env (world sample_cas)) Blobs)"
    by (simp add: index_ok_def sample_cas_def sample_world_def sample_def)
qed (simp_all add: handle_maps_inv_def maps_inv_def maps_below_def batch_inv_def sample_cas_def)

lemma sample_pack_ok: "pack_ok sample sample_cas"
  using sample_platform sample_cas_inv by (simp add: pack_ok_def own_batch_def sample_cas_def)

lemma sample_fits: "pack_fits sample sample_cas"
  by (simp add: pack_fits_def sample_cas_def sample_world_def)

lemma sample_view: "store_view sample sample_cas = Map.empty"
  using committed_view_live [OF sample_live]
  by (simp add: store_view_none sample_cas_def) (simp add: index_view_def sample_world_def sample_def fun_eq_iff)

end
