(* ===== verification/Pack_Spec.thy ===== *)
theory Pack_Spec
  imports Sample
begin

text \<open>
  What the pack CAS promises its users: a client that issues any sequence of calls sees a map
  from hashes to blobs and a map of meta records, and the statements about single operations this
  rests on. Each property is followed by an instance on the platform of \<open>Sample\<close>.
\<close>

section \<open>The store as two maps\<close>

datatype cmd = CPut bytes | CGet bytes | CHas bytes | CSize bytes | CSync
  | CMetaPut bytes bytes | CMetaGet bytes | CMetaDel bytes

datatype reply = RUnit | RHash bytes | RBlob "bytes option" | RBool bool | RSize "u64 option"

type_synonym maps_state = "(bytes \<Rightarrow> bytes option) \<times> (bytes \<Rightarrow> bytes option)"

fun exec :: "('e, 't) platform \<Rightarrow> cmd \<Rightarrow> (('e, 't, 'z) cas_scheme, reply) prog" where
  "exec E (CPut d) = bindE (put E d) (\<lambda>h. ret (RHash h))"
| "exec E (CGet h) = bindE (get E h) (\<lambda>r. ret (RBlob r))"
| "exec E (CHas h) = bindE (has E h) (\<lambda>r. ret (RBool r))"
| "exec E (CSize h) = bindE (blob_size E h) (\<lambda>r. ret (RSize r))"
| "exec E CSync = thenE (sync E) (ret RUnit)"
| "exec E (CMetaPut k v) = thenE (meta_put E k v) (ret RUnit)"
| "exec E (CMetaGet k) = bindE (meta_get E k) (\<lambda>r. ret (RBlob r))"
| "exec E (CMetaDel k) = thenE (meta_del E k) (ret RUnit)"

text \<open>The specification: what each call answers and does to the maps.\<close>

fun spec_step :: "(bytes \<Rightarrow> bytes) \<Rightarrow> cmd \<Rightarrow> maps_state \<Rightarrow> reply \<times> maps_state" where
  "spec_step digest (CPut d) (b, m) = (RHash (digest d), ([digest d \<mapsto> d] ++ b, m))"
| "spec_step digest (CGet h) (b, m) = (RBlob (b h), (b, m))"
| "spec_step digest (CHas h) (b, m) = (RBool (b h \<noteq> None), (b, m))"
| "spec_step digest (CSize h) (b, m) = (RSize (map_option (\<lambda>d. of_nat (length d)) (b h)), (b, m))"
| "spec_step digest CSync (b, m) = (RUnit, (b, m))"
| "spec_step digest (CMetaPut k v) (b, m) = (RUnit, (b, m(k \<mapsto> v)))"
| "spec_step digest (CMetaGet k) (b, m) = (RBlob (m k), (b, m))"
| "spec_step digest (CMetaDel k) (b, m) = (RUnit, (b, m(k := None)))"

fun spec_run :: "(bytes \<Rightarrow> bytes) \<Rightarrow> cmd list \<Rightarrow> maps_state \<Rightarrow> reply list \<times> maps_state" where
  "spec_run digest [] a = ([], a)"
| "spec_run digest (c # cs) a = (case spec_step digest c a of (r, a') \<Rightarrow>
     case spec_run digest cs a' of (rs, a'') \<Rightarrow> (r # rs, a''))"

fun run :: "('e, 't) platform \<Rightarrow> cmd list \<Rightarrow> (('e, 't, 'z) cas_scheme, reply list) prog" where
  "run E [] = ret []"
| "run E (c # cs) = bindE (exec E c) (\<lambda>r. bindE (run E cs) (\<lambda>rs. ret (r # rs)))"

text \<open>The calls a client may make: hashes have the length of a digest, blobs fit a
  \<open>std::string\<close>, and the store's own generation record is left alone.\<close>

fun cmd_ok :: "cmd \<Rightarrow> bool" where
  "cmd_ok (CPut d) \<longleftrightarrow> length d \<le> max_off"
| "cmd_ok (CGet h) \<longleftrightarrow> length h = kHashLen"
| "cmd_ok (CHas h) \<longleftrightarrow> length h = kHashLen"
| "cmd_ok (CSize h) \<longleftrightarrow> length h = kHashLen"
| "cmd_ok (CMetaPut k v) \<longleftrightarrow> k \<noteq> ''gen''"
| "cmd_ok (CMetaDel k) \<longleftrightarrow> k \<noteq> ''gen''"
| "cmd_ok _ \<longleftrightarrow> True"

definition abs_maps :: "('e, 't) platform \<Rightarrow> ('e, 't, 'z) cas_scheme \<Rightarrow> maps_state" where
  "abs_maps E s = (store_view E s, reader_table E s Meta)"

lemma abs_maps_kept: "pack.kept E s s' \<Longrightarrow> pack_ok E s' \<and> abs_maps E s' = abs_maps E s"
  by (simp add: pack.kept_def abs_maps_def pack_rest_def)

lemma tick_kept: "pack_ok E s \<Longrightarrow> pack_ok E (s\<lparr>tick := n\<rparr>) \<and> abs_maps E (s\<lparr>tick := n\<rparr>) = abs_maps E s"
  using tick_same [of E s n] by (simp add: pack_ok_def abs_maps_def same_store_def)

lemma meta_done_maps:
  "pack_ok E s \<Longrightarrow> meta_done E m s s' \<Longrightarrow> pack_ok E s' \<and> abs_maps E s' = (store_view E s, m)"
  by (simp add: meta_done_def pack_ok_def abs_maps_def)

lemma committed_maps:
  assumes "pack_ok E s" and "wtxn s = Some t" and "committed E s s'"
  shows "pack_ok E s' \<and> abs_maps E s' = abs_maps E s"
proof -
  have "batch_txn E s = Some t" using assms by (simp add: pack_ok_def own_batch_def batch_txn_Some)
  with assms show ?thesis
    by (simp add: committed_def pack_ok_def abs_maps_def own_batch_def store_view_none store_view_batch
        reader_table_idle batch_txn_None reader_table_batch)
qed

lemma exec_step:
  assumes "pack_ok E s" and "cmd_ok c"
  shows "wp (exec E c) (\<lambda>r s'. pack_ok E s' \<and> (r, abs_maps E s') = spec_step (blake3 E) c (abs_maps E s))
    (\<lambda>e s'. io_exn e) s"
proof -
  have ok: "platform_ok E" "cas_inv E s" "own_batch E s" using assms(1) by (simp_all add: pack_ok_def)
  show ?thesis
  proof (cases c)
    case (CPut d)
    with assms show ?thesis
      by (auto simp: wp_simps abs_maps_def pack_rest_def intro: pack.wp_store)
  next
    case (CGet h)
    with assms show ?thesis
      by (auto simp: wp_simps abs_maps_def pack_rest_def pack.kept_def intro!: pack.wp_fetch)
  next
    case (CHas h)
    with assms tick_kept [OF assms(1)] show ?thesis
      by (auto simp: wp_simps abs_maps_def intro!: wp_has [OF ok(1,2)])
  next
    case (CSize h)
    with assms tick_kept [OF assms(1)] show ?thesis
      by (auto simp: wp_simps abs_maps_def intro!: wp_blob_size [OF ok(1,2)])
  next
    case CSync
    with assms committed_maps [OF assms(1)] show ?thesis
      by (auto simp: wp_simps abs_maps_def intro!: wp_sync [OF ok(1,2)])
  next
    case (CMetaPut k v)
    with assms meta_done_maps [OF assms(1)] show ?thesis
      by (auto simp: wp_simps abs_maps_def intro!: wp_meta_put [OF ok])
  next
    case (CMetaGet k)
    with assms tick_kept [OF assms(1)] show ?thesis
      by (auto simp: wp_simps abs_maps_def intro!: wp_meta_get [OF ok(1,2)])
  next
    case (CMetaDel k)
    with assms meta_done_maps [OF assms(1)] show ?thesis
      by (auto simp: wp_simps abs_maps_def intro!: wp_meta_del [OF ok])
  qed
qed

text \<open>C3: The pack CAS refines two maps. Whatever sequence of calls a client makes on a store whose
  invariant holds, with writes that may be short and system and LMDB calls that may fail at any
  point, the replies are those of the specification and the store ends up holding the
  specification's maps; a run that does not end in replies ends in an exception of the
  environment, never in a report of corruption and never outside defined behaviour.\<close>

theorem run_refines_maps:
  fixes s :: "('e, 't, 'z) cas_scheme"
  assumes "pack_ok E s" and "list_all cmd_ok cs"
  shows "wp (run E cs)
    (\<lambda>rs s'. pack_ok E s' \<and> (rs, abs_maps E s') = spec_run (blake3 E) cs (abs_maps E s))
    (\<lambda>e s'. io_exn e) s"
  using assms
proof (induction cs arbitrary: s)
  case Nil
  then show ?case by (simp add: wp_simps)
next
  case (Cons c cs)
  have "wp (exec E c) (\<lambda>r s1. wp (run E cs) (\<lambda>rs s'. pack_ok E s' \<and>
      (r # rs, abs_maps E s') = spec_run (blake3 E) (c # cs) (abs_maps E s)) (\<lambda>e s'. io_exn e) s1)
      (\<lambda>e s'. io_exn e) s"
  proof (rule wp_mono [OF exec_step])
    fix r and s1 :: "('e, 't, 'z) cas_scheme"
    assume s1: "pack_ok E s1 \<and> (r, abs_maps E s1) = spec_step (blake3 E) c (abs_maps E s)"
    then have step: "spec_step (blake3 E) c (abs_maps E s) = (r, abs_maps E s1)" by simp
    have "pack_ok E s1" "list_all cmd_ok cs" using s1 Cons.prems by simp_all
    note IH = Cons.IH [OF this]
    show "wp (run E cs) (\<lambda>rs s'. pack_ok E s' \<and> (r # rs, abs_maps E s') =
        spec_run (blake3 E) (c # cs) (abs_maps E s)) (\<lambda>e s'. io_exn e) s1"
      by (rule wp_mono [OF IH]) (auto simp: step split: prod.splits)
  qed (use Cons.prems in auto)
  then show ?case by (simp add: wp_fun_eqs)
qed

lemma sample_abs_maps: "abs_maps sample sample_cas = (Map.empty, [''format'' \<mapsto> ''2''])"
  by (simp add: abs_maps_def sample_view)
    (simp add: reader_table_def batch_txn_def sample_cas_def sample_world_def sample_def fun_eq_iff)

lemma length_sample_hash [simp]: "length (sample_hash d) = kHashLen"
  by (simp add: sample_hash_def kHashLen_def)

lemma sample_blake3 [simp]: "blake3 sample = sample_hash"
  by (simp add: sample_def)

theorem run_refines_maps_witness:
  "wp (run sample [CPut ''hi'', CGet (sample_hash ''hi''), CSize (sample_hash ''hi''), CSync,
      CMetaPut ''k'' ''v'', CMetaDel ''k'', CMetaGet ''k'', CHas (sample_hash ''x'')])
    (\<lambda>rs s'. rs = [RHash (sample_hash ''hi''), RBlob (Some ''hi''), RSize (Some 2), RUnit, RUnit, RUnit,
      RBlob None, RBool False]) (\<lambda>e s'. io_exn e) sample_cas"
proof -
  have "sample_hash ''x'' \<noteq> sample_hash ''hi''" by (simp add: sample_hash_def)
  then show ?thesis
    by (intro wp_mono [OF run_refines_maps [OF sample_pack_ok]])
      (auto simp: sample_abs_maps max_off_def map_add_def split: if_splits)
qed

section \<open>Single operations\<close>

text \<open>C30: A put answers with the blob's hash and adds the blob to the store, unless a blob with that
  hash is stored already; no other blob and no meta record changes, also when the batch has grown
  past its limit and is committed on the way. If a call fails, the handle keeps its invariant and
  the store is as before or has the blob too, or it was LMDB's commit that failed, and then
  nothing was committed.\<close>

theorem put_adds_blob:
  assumes "pack_ok E s" and "length d \<le> max_off"
  shows "wp (put E d)
    (\<lambda>h s'. h = blake3 E d \<and> pack_ok E s' \<and> store_view E s' = [blake3 E d \<mapsto> d] ++ store_view E s \<and>
       reader_table E s' Meta = reader_table E s Meta)
    (\<lambda>e s'. io_exn e \<and>
       (cas_inv E s' \<and> (store_view E s' = store_view E s \<or> store_view E s' = [blake3 E d \<mapsto> d] ++ store_view E s)
      \<or> wtxn_freed s' \<and> committed_view E (world s') = committed_view E (world s))) s"
  using assms by (intro wp_put) (auto simp: pack_ok_def put_done_def put_failed_def)

theorem put_adds_blob_witness:
  "wp (put sample ''hi'') (\<lambda>h s'. h = sample_hash ''hi'' \<and> store_view sample s' = [sample_hash ''hi'' \<mapsto> ''hi''])
    (\<lambda>e s'. io_exn e) sample_cas"
  by (rule wp_mono [OF put_adds_blob [OF sample_pack_ok]]) (auto simp: max_off_def sample_view)

text \<open>A get answers exactly what the store holds under the hash, whatever short reads and mapping
  generations it meets, and leaves the store alone; it may fail with an error of the environment,
  but never by calling the store corrupt.\<close>

theorem get_returns_blob:
  assumes "pack_ok E s" and "length h = kHashLen"
  shows "wp (get E h)
    (\<lambda>r s'. r = store_view E s h \<and> pack_ok E s' \<and> abs_maps E s' = abs_maps E s)
    (\<lambda>e s'. io_exn e \<and> pack_ok E s' \<and> abs_maps E s' = abs_maps E s) s"
  by (rule pack.wp_fetch [OF assms]) (auto dest: abs_maps_kept)

theorem get_returns_blob_witness:
  "wp (get sample (sample_hash ''hi'')) (\<lambda>r s'. r = None \<and> pack_ok sample s') (\<lambda>e s'. io_exn e) sample_cas"
  by (rule wp_mono [OF get_returns_blob [OF sample_pack_ok]]) (auto simp: sample_view)

text \<open>A view answers the same as a get as long as the pack fits the 1 TiB that are mapped, and
  never reads mapped memory behind the end of the file.\<close>

theorem get_view_returns_blob:
  assumes "pack_ok E s" and "pack_fits E s" and "length h = kHashLen"
  shows "wp (get_view E h)
    (\<lambda>r s'. r = store_view E s h \<and> pack_ok E s' \<and> pack_fits E s' \<and> abs_maps E s' = abs_maps E s)
    (\<lambda>e s'. io_exn e \<and> pack_ok E s' \<and> pack_fits E s' \<and> abs_maps E s' = abs_maps E s) s"
  by (rule pack_view.wp_fetch)
    (use assms in \<open>auto simp: pack_view.kept_def abs_maps_def pack_rest_def\<close>)

theorem get_view_returns_blob_witness:
  "wp (get_view sample (sample_hash ''hi'')) (\<lambda>r s'. r = None) (\<lambda>e s'. io_exn e) sample_cas"
  by (rule wp_mono [OF get_view_returns_blob [OF sample_pack_ok sample_fits]]) (auto simp: sample_view)

text \<open>A blob that was put reads back, if its hash did not already name another blob.\<close>

theorem put_then_get:
  assumes "pack_ok E s" and "length d \<le> max_off"
    and "\<forall>d'. store_view E s (blake3 E d) = Some d' \<longrightarrow> d' = d"
  shows "wp (bindE (put E d) (get E)) (\<lambda>r s'. r = Some d \<and> pack_ok E s') (\<lambda>e s'. io_exn e) s"
  unfolding wp_bindE
proof (rule pack.wp_store [OF assms(1,2)])
  fix s'
  assume s': "pack_ok E s'" "store_view E s' = [blake3 E d \<mapsto> d] ++ store_view E s"
  have "store_view E s' (blake3 E d) = Some d"
    using assms(3) by (cases "store_view E s (blake3 E d)") (auto simp: s'(2) map_add_def)
  moreover have "length (blake3 E d) = kHashLen" by (rule pack.digest_length [OF s'(1)])
  ultimately show "wp (get E (blake3 E d)) (\<lambda>r s'. r = Some d \<and> pack_ok E s') (\<lambda>e s'. io_exn e) s'"
    by (intro pack.wp_fetch [OF s'(1)]) (auto simp: pack.kept_def)
qed

theorem put_then_get_witness:
  "wp (bindE (put sample ''hi'') (get sample)) (\<lambda>r s'. r = Some ''hi'') (\<lambda>e s'. io_exn e) sample_cas"
  by (rule wp_mono [OF put_then_get [OF sample_pack_ok]]) (auto simp: max_off_def sample_view)

text \<open>C31: A sync that returns has made the handle's store the committed one, readable by every process,
  and has ended the batch. One that throws has either kept the store and the batch, or has committed
  (only the final flush to disk failed), or has lost the batch because LMDB failed to commit.\<close>

theorem sync_commits:
  assumes "pack_ok E s"
  shows "wp (sync E)
    (\<lambda>_ s'. pack_ok E s' \<and> wtxn s' = None \<and> committed_view E (world s') = store_view E s \<and>
       abs_maps E s' = abs_maps E s)
    (\<lambda>e s'. io_exn e \<and> (cas_inv E s' \<and> store_view E s' = store_view E s
      \<or> wtxn_freed s' \<and> committed_view E (world s') = committed_view E (world s))) s"
proof (rule wp_sync)
  show "platform_ok E" "cas_inv E s" using assms by (simp_all add: pack_ok_def)
  have batch: "batch_view E s = store_view E s" if "wtxn s \<noteq> None"
    using that assms by (auto simp: pack_ok_def own_batch_def store_view_def batch_txn_def)
  show "pack_ok E s' \<and> wtxn s' = None \<and> committed_view E (world s') = store_view E s \<and> abs_maps E s' = abs_maps E s"
    if "wtxn s = None" "s' = s" for s'
    using that assms by (simp add: store_view_none)
  show "pack_ok E s' \<and> wtxn s' = None \<and> committed_view E (world s') = store_view E s \<and> abs_maps E s' = abs_maps E s"
    if "wtxn s \<noteq> None" "committed E s s'" for s'
    using that assms batch committed_maps [OF assms _ that(2)] by (auto simp: committed_def)
  show "io_exn e \<and> (cas_inv E s' \<and> store_view E s' = store_view E s
      \<or> wtxn_freed s' \<and> committed_view E (world s') = committed_view E (world s))"
    if "io_exn e" "commit_failed E s s'" for e s'
  proof (cases "wtxn s")
    case None
    have "batch_view E s = store_view E s" using None by (simp add: batch_view_def store_view_none)
    with that show ?thesis by (auto simp: commit_failed_def same_store_def store_view_none)
  next
    case (Some t)
    with that batch show ?thesis by (auto simp: commit_failed_def same_store_def store_view_none)
  qed
qed

theorem sync_commits_witness:
  "wp (sync sample) (\<lambda>_ s'. committed_view sample (world s') = Map.empty) (\<lambda>e s'. io_exn e) sample_cas"
  by (rule wp_mono [OF sync_commits [OF sample_pack_ok]]) (auto simp: sample_view)

text \<open>C32: Destroying a handle throws away its uncommitted batch and nothing else: the committed store and
  tables are as before, the directory keeps its invariant, and no exception leaves the
  destructor.\<close>

theorem destroy_aborts:
  assumes "pack_ok E s"
  shows "wp (destroy E)
    (\<lambda>_ s'. world_inv E (world s') \<and> committed_view E (world s') = committed_view E (world s) \<and>
       committed_tables E s' = committed_tables E s)
    (\<lambda>_ _. False) s"
  by (rule wp_destroy) (use assms in \<open>auto simp: pack_ok_def\<close>)

theorem destroy_aborts_witness:
  "wp (destroy sample) (\<lambda>_ s'. world_inv sample (world s')) (\<lambda>_ _. False) sample_cas"
  by (rule wp_mono [OF destroy_aborts [OF sample_pack_ok]]) auto

section \<open>A failed commit\<close>

text \<open>LMDB's own commit fails.\<close>

definition commit_fails :: "('e, 't) platform \<Rightarrow> ('e, 't, 'z) cas_scheme \<Rightarrow> bool" where
  "commit_fails E s \<longleftrightarrow> outcome E (tick s) = Fine \<and> (\<exists>t. wtxn s = Some t \<and>
     fst (mdb_txn_commit E t (mdb_env (world s))) \<noteq> MDB_SUCCESS)"

lemma failed_commit:
  assumes "pack_ok E s" and "commit_fails E s"
  obtains e s' where "sync E s = (Inl e, s')" "io_exn e" "wtxn_freed s'" "wtxn s' = wtxn s"
    "writer_thread s' = writer_thread s" "flock_owner (world s') = Some (self E)"
proof -
  have quiet: "quiet E" and inv: "cas_inv E s" using assms(1) by (simp_all add: pack_ok_def platform_okD)
  from assms(2) obtain t where t: "outcome E (tick s) = Fine" "wtxn s = Some t"
    "fst (mdb_txn_commit E t (mdb_env (world s))) \<noteq> MDB_SUCCESS" by (auto simp: commit_fails_def)
  obtain rc e' where rc: "mdb_txn_commit E t (mdb_env (world s)) = (rc, e')" by fastforce
  from cas_inv_batch [OF inv t(2)] obtain g i p where at: "batch_at E s t g i p" by metis
  have "wp (sync E) (\<lambda>_ _. False) (\<lambda>e s'. io_exn e \<and> wtxn_freed s' \<and> wtxn s' = wtxn s \<and>
      writer_thread s' = writer_thread s \<and> flock_owner (world s') = Some (self E)) s"
    using at t rc quiet
    by (simp add: sync_def commit_batch_def wp_simps current_def deref_def sys_fdatasync_def wp_sys_eq
        use_batch_def batch_at_def txn_commit_def mdb_check_def)
      (simp add: wp_def sys_quiet thenE_def bindE_def modS_def whenE_def throw_def)
  then show thesis using that by (cases "sync E s") (auto simp: wp_def split: sum.splits)
qed


text \<open>An environment whose commits fail, and the handle with one blob in its batch.\<close>

definition sample_full :: "(tables, tables) platform" where
  "sample_full = sample\<lparr>mdb_txn_commit := (\<lambda>_ e. (28, e))\<rparr>"

definition sample_batch :: "(tables, tables) cas" where
  "sample_batch = sample_cas\<lparr>world := (set_inode 1 ''hi'' sample_world)\<lparr>flock_owner := Some 1\<rparr>,
     maps := [\<lparr>m_fd = 1, m_gen = 0, m_size = 0\<rparr>], cur := Some 0,
     wtxn := Some (Tables [(sample_hash ''hi'', encode_entry (entry_for 0 ''hi'' ''hi''))] [(''format'', ''2'')]),
     writer_thread := 1, pack_end := 2, batch_bytes := 2\<rparr>"

lemma sample_full_ok: "platform_ok sample_full"
proof -
  have "mdb_reads_ok sample_full = mdb_reads_ok sample"
    by (simp add: mdb_reads_ok_def sample_full_def)
  moreover have "mdb_scan_ok sample_full = mdb_scan_ok sample"
    by (simp add: mdb_scan_ok_def sample_full_def)
  moreover have "mdb_writes_ok sample_full = mdb_writes_ok sample"
    by (simp add: mdb_writes_ok_def sample_full_def)
  moreover have "mdb_env_ok sample_full"
    using sample_env by (auto simp: mdb_env_ok_def sample_full_def)
  moreover have "lz4_ok sample_full = lz4_ok sample" "blake3_ok sample_full = blake3_ok sample"
    "quiet sample_full = quiet sample"
    by (simp_all add: lz4_ok_def blake3_ok_def quiet_def sample_full_def)
  ultimately show ?thesis using sample_platform by (simp add: platform_ok_def lmdb_ok_def)
qed

lemma sample_batch_ok: "pack_ok sample_full sample_batch"
proof -
  let ?v = "encode_entry (entry_for 0 ''hi'' ''hi'')"
  have dec: "decode_entry ?v = Inr (entry_for 0 ''hi'' ''hi'')"
    by (rule decode_encode_entry) (simp add: entry_for_def)
  have blob: "entry_blob sample_full ''hi'' ?v = Some ''hi''"
    by (rule entry_blobI [OF dec])
      (simp_all add: in_pack_def entry_bytes_def unpack_def compressed_def entry_for_def substr_def)
  have "index_ok sample_full ''hi'' [sample_hash ''hi'' \<mapsto> ?v]"
    using blob by (simp add: index_ok_def) (simp add: sample_full_def)
  then have at: "batch_at sample_full sample_batch
      (Tables [(sample_hash ''hi'', ?v)] [(''format'', ''2'')]) 0 1 0"
    by (simp add: batch_at_def sample_batch_def map_at_def)
      (simp add: sample_full_def sample_cas_def sample_world_def sample_def table_gen_def index_ok_def)
  have live: "live_pack sample_full (world sample_batch) 0 1"
    using sample_live
    by (simp add: sample_batch_def live_pack_def sample_full_def find_inode_def set_inode_def)
  have "cas_inv sample_full sample_batch"
  proof (rule cas_invI [OF _ live])
    show "files_ok (world sample_batch)"
      by (simp add: files_ok_def sample_batch_def sample_world_def max_off_def)
    show "index_ok sample_full (inodes (world sample_batch) 1)
        (mdb_committed sample_full (mdb_env (world sample_batch)) Blobs)"
      by (simp add: index_ok_def sample_batch_def sample_world_def sample_full_def sample_def)
    show "handle_maps_inv sample_batch"
      using sample_pack_name
      by (auto simp: handle_maps_inv_def maps_inv_def map_ok_def sample_batch_def sample_cas_def
          sample_world_def find_inode_def)
    show "maps_below 0 sample_batch" by (simp add: maps_below_def sample_batch_def)
    show "batch_inv sample_full sample_batch 0 1"
      using at by (auto simp: batch_inv_def sample_batch_def)
  qed
  then show ?thesis
    using sample_full_ok
    by (simp add: pack_ok_def own_batch_def sample_batch_def) (simp add: sample_full_def sample_def)
qed


end
