(* ===== verification/Paths.thy ===== *)
theory Paths
  imports Tree_Codec
begin

text \<open>
  Archive and lookup paths (\<open>split_path\<close> of \<open>src/src/tree.cpp\<close>). The lemmas show which
  component lists come out (no empty, dot or dot-dot component, no slash, bounded length and
  depth), that such a list joined by slashes splits into itself, and that a path is split
  component by component, a dot-dot never leaving the root.
\<close>

definition kMaxTreeDepth :: nat where "kMaxTreeDepth = 512"

function split_loop :: "bytes list \<Rightarrow> bytes \<Rightarrow> bytes list option" where
  "split_loop comps path =
     (if path = [] then Some comps
      else let comp = takeWhile (\<lambda>c. c \<noteq> CHR ''/'') path; rest = drop (Suc (length comp)) path
        in if comp = [] \<or> comp = ''.'' then split_loop comps rest
        else if comp = ''..'' then split_loop (if comps \<noteq> [] then butlast comps else comps) rest
        else if kMaxNameLen < length comp \<or> kMaxTreeDepth \<le> length comps then None
        else split_loop (comps @ [comp]) rest)"
  by pat_completeness auto
termination
  by (relation "measure (\<lambda>(comps, path). length path)") auto

declare split_loop.simps [simp del]

definition split_path :: "bytes \<Rightarrow> bytes list option" where
  "split_path path = split_loop [] path"

section \<open>A reference: the components one by one\<close>

text \<open>What a piece of a path between slashes does to the directory reached.\<close>

definition walk_comp :: "bytes list \<Rightarrow> bytes \<Rightarrow> bytes list option" where
  "walk_comp comps c = (if c = [] \<or> c = ''.'' then Some comps
     else if c = ''..'' then Some (butlast comps)
     else if kMaxNameLen < length c \<or> kMaxTreeDepth \<le> length comps then None else Some (comps @ [c]))"

fun walk_comps :: "bytes list \<Rightarrow> bytes list \<Rightarrow> bytes list option" where
  "walk_comps comps [] = Some comps"
| "walk_comps comps (c # cs) = Option.bind (walk_comp comps c) (\<lambda>comps'. walk_comps comps' cs)"

lemma split_loop_Nil [simp]: "split_loop comps [] = Some comps"
  by (simp add: split_loop.simps)

lemma split_loop_step:
  assumes "path \<noteq> []" and "takeWhile (\<lambda>c. c \<noteq> CHR ''/'') path = piece"
  shows "split_loop comps path = Option.bind (walk_comp comps piece)
    (\<lambda>comps'. split_loop comps' (drop (Suc (length piece)) path))"
  using assms by (subst split_loop.simps) (simp add: walk_comp_def Let_def)

text \<open>A path is its first piece and the rest behind the slash.\<close>

lemma split_loop_slash:
  assumes "CHR ''/'' \<notin> set c"
  shows "split_loop comps (c @ CHR ''/'' # rest) = Option.bind (walk_comp comps c) (\<lambda>comps'. split_loop comps' rest)"
    and "split_loop comps c = walk_comp comps c"
proof -
  have all: "\<And>x. x \<in> set c \<Longrightarrow> x \<noteq> CHR ''/''" using assms by auto
  have "takeWhile (\<lambda>x. x \<noteq> CHR ''/'') (c @ CHR ''/'' # rest) = c"
    using takeWhile_append2 [of c "\<lambda>x. x \<noteq> CHR ''/''"] all by simp
  then show "split_loop comps (c @ CHR ''/'' # rest) = Option.bind (walk_comp comps c) (\<lambda>comps'. split_loop comps' rest)"
    using split_loop_step [of "c @ CHR ''/'' # rest" c comps] by simp
  have "takeWhile (\<lambda>x. x \<noteq> CHR ''/'') c = c" using all by (simp add: takeWhile_eq_all_conv)
  then show "split_loop comps c = walk_comp comps c"
    using split_loop_step [of c c comps] by (cases "c = []") (simp_all add: walk_comp_def)
qed

fun join_path :: "bytes list \<Rightarrow> bytes" where
  "join_path [] = []"
| "join_path [c] = c"
| "join_path (c # cs) = c @ CHR ''/'' # join_path cs"

lemma split_loop_join:
  "\<forall>c\<in>set cs. CHR ''/'' \<notin> set c \<Longrightarrow> split_loop comps (join_path cs) = walk_comps comps cs"
  by (induction cs arbitrary: comps rule: join_path.induct) (simp_all add: split_loop_slash)

section \<open>Components\<close>

definition comp_ok :: "bytes \<Rightarrow> bool" where
  "comp_ok c \<longleftrightarrow> c \<noteq> [] \<and> CHR ''/'' \<notin> set c \<and> c \<noteq> ''.'' \<and> c \<noteq> ''..'' \<and> length c \<le> kMaxNameLen"

definition path_ok :: "bytes list \<Rightarrow> bool" where
  "path_ok cs \<longleftrightarrow> (\<forall>c\<in>set cs. comp_ok c) \<and> length cs \<le> kMaxTreeDepth"

lemma path_ok_Nil [simp]: "path_ok []"
  by (simp add: path_ok_def)

lemma walk_comp_ok:
  "path_ok comps \<Longrightarrow> CHR ''/'' \<notin> set c \<Longrightarrow> walk_comp comps c = Some cs \<Longrightarrow> path_ok cs"
proof -
  assume ok: "path_ok comps" and c: "CHR ''/'' \<notin> set c" and walk: "walk_comp comps c = Some cs"
  have "path_ok (butlast comps)" using ok by (auto simp: path_ok_def dest: in_set_butlastD)
  moreover have "path_ok (comps @ [c])"
    if "c \<noteq> []" "c \<noteq> ''.''" "c \<noteq> ''..''" "length c \<le> kMaxNameLen" "length comps < kMaxTreeDepth"
  proof -
    have "comp_ok c" unfolding comp_ok_def using that c by blast
    with ok that(5) show ?thesis by (simp add: path_ok_def)
  qed
  ultimately show "path_ok cs" using walk ok unfolding walk_comp_def
    by (simp only: not_le not_less de_Morgan_disj option.inject option.distinct split: if_split_asm) blast+
qed

lemma split_loop_ok: "path_ok comps \<Longrightarrow> split_loop comps path = Some cs \<Longrightarrow> path_ok cs"
proof (induction "length path" arbitrary: comps path rule: less_induct)
  case less
  show ?case
  proof (cases "path = []")
    case True
    with less.prems show ?thesis by simp
  next
    case False
    define piece where "piece = takeWhile (\<lambda>c. c \<noteq> CHR ''/'') path"
    have noslash: "CHR ''/'' \<notin> set piece" by (auto simp: piece_def dest: set_takeWhileD)
    from less.prems(2) obtain comps' where comps': "walk_comp comps piece = Some comps'"
      "split_loop comps' (drop (Suc (length piece)) path) = Some cs"
      unfolding split_loop_step [OF False piece_def [symmetric]] by (auto simp: bind_eq_Some_conv)
    show ?thesis
      by (rule less.hyps [OF _ walk_comp_ok [OF less.prems(1) noslash comps'(1)] comps'(2)])
        (use False in simp)
  qed
qed

lemma split_path_ok: "split_path path = Some cs \<Longrightarrow> path_ok cs"
  unfolding split_path_def by (rule split_loop_ok [OF path_ok_Nil])

text \<open>A list of proper components, joined, splits into itself.\<close>

lemma walk_comps_ok:
  "\<forall>c\<in>set cs. comp_ok c \<Longrightarrow> length comps + length cs \<le> kMaxTreeDepth \<Longrightarrow> walk_comps comps cs = Some (comps @ cs)"
  by (induction cs arbitrary: comps) (auto simp: walk_comp_def comp_ok_def)

lemma split_path_join: "path_ok cs \<Longrightarrow> split_path (join_path cs) = Some cs"
  using walk_comps_ok [of cs "[]"] split_loop_join [of cs "[]"]
  by (simp add: split_path_def path_ok_def comp_ok_def)

end
