(* ===== verification/Mem_Tree.thy ===== *)
theory Mem_Tree
  imports Paths
begin

text \<open>
  The tree an ingest builds in memory (\<open>MemNode\<close>, \<open>lookup_node\<close>, \<open>add_node\<close> of
  \<open>src/src/tree.cpp\<close>). The \<open>std::map\<close> of a node's children is its list of pairs in
  ascending key order; \<open>slot_put\<close> is an assignment to \<open>children[name]\<close>. The loop of
  \<open>add_node\<close>, which walks down a pointer and writes through it, is the recursion
  \<open>add_at\<close>, which rebuilds the nodes on the way back.

  The lemmas relate the tree to the function from paths to entries it stands for.
\<close>

datatype mem_node = MemNode (mn_type: char) (mn_id: bytes) (mn_children: "(bytes \<times> mem_node) list")

definition dir_node :: mem_node where
  "dir_node = MemNode (CHR ''d'') [] []"

abbreviation is_dir :: "mem_node \<Rightarrow> bool" where
  "is_dir n \<equiv> mn_type n = CHR ''d''"

section \<open>Children\<close>

fun slot_put :: "bytes \<Rightarrow> 'a \<Rightarrow> (bytes \<times> 'a) list \<Rightarrow> (bytes \<times> 'a) list" where
  "slot_put k v [] = [(k, v)]"
| "slot_put k v ((k', v') # xs) =
     (if k < k' then (k, v) # (k', v') # xs
      else if k = k' then (k, v) # xs else (k', v') # slot_put k v xs)"

lemma map_of_slot_put [simp]: "map_of (slot_put k v xs) = (map_of xs)(k \<mapsto> v)"
  by (induction xs) auto

lemma keys_slot_put [simp]: "fst ` set (slot_put k v xs) = insert k (fst ` set xs)"
  by (simp add: dom_map_of_conv_image_fst [symmetric])

lemma slot_put_not_Nil [simp]: "slot_put k v xs \<noteq> []"
  by (cases xs) (auto split: if_splits)

lemma sorted_slot_put:
  "sorted_wrt (<) (map fst xs) \<Longrightarrow> sorted_wrt (<) (map fst (slot_put k v xs))"
proof (induction xs)
  case Nil
  then show ?case by simp
next
  case (Cons x xs)
  obtain k' v' where x: "x = (k', v')" by fastforce
  have "\<forall>y\<in>fst ` set (slot_put k v xs). k' < y" if "k' < k"
    using that Cons.prems by (auto simp: x)
  with Cons show ?case by (auto simp: x)
qed

text \<open>An element put is the value put or one that was there.\<close>

lemma set_slot_put: "set (slot_put k v xs) \<subseteq> insert (k, v) (set xs)"
  by (induction xs) (auto split: if_splits)

text \<open>A path between apostrophes, in messages.\<close>

definition quoted :: "bytes \<Rightarrow> bytes" where
  "quoted path = CHR 0x27 # path @ [CHR 0x27]"

section \<open>Lookups and updates\<close>

fun lookup_node :: "mem_node \<Rightarrow> bytes list \<Rightarrow> mem_node option" where
  "lookup_node cur [] = Some cur"
| "lookup_node cur (c # cs) = (if \<not> is_dir cur then None
     else case map_of (mn_children cur) c of None \<Rightarrow> None | Some sub \<Rightarrow> lookup_node sub cs)"

text \<open>\<open>at_root\<close> is the test \<open>cur == &root\<close>; a component that is not there is emplaced as an
  empty directory before the walk goes on into it.\<close>

fun add_at :: "bool \<Rightarrow> bytes \<Rightarrow> mem_node \<Rightarrow> bytes list \<Rightarrow> mem_node \<Rightarrow> exn + mem_node" where
  "add_at at_root path node [] cur =
     (if is_dir cur then
        (if is_dir node then Inr cur
         else if mn_children cur \<noteq> [] \<or> at_root
         then Inl (RuntimeError (''cannot create '' @ quoted path @ '', conflicting non-empty directory''))
         else Inr node)
      else Inr node)"
| "add_at at_root path node (c # cs) cur =
     (if \<not> is_dir cur then Inl (RuntimeError (''parent of '' @ quoted path @ '' is not a directory''))
      else case map_of (mn_children cur) c of
        None \<Rightarrow> (if cs = [] then Inr (MemNode (mn_type cur) (mn_id cur) (slot_put c node (mn_children cur)))
          else case add_at False path node cs dir_node of Inl e \<Rightarrow> Inl e
            | Inr sub \<Rightarrow> Inr (MemNode (mn_type cur) (mn_id cur) (slot_put c sub (mn_children cur))))
      | Some sub0 \<Rightarrow> (case add_at False path node cs sub0 of Inl e \<Rightarrow> Inl e
            | Inr sub \<Rightarrow> Inr (MemNode (mn_type cur) (mn_id cur) (slot_put c sub (mn_children cur)))))"

definition add_node :: "mem_node \<Rightarrow> bytes list \<Rightarrow> bytes \<Rightarrow> mem_node \<Rightarrow> exn + mem_node" where
  "add_node root comps path node = add_at True path node comps root"

section \<open>The tree as a function on paths\<close>

datatype entry = Dir | File char bytes

fun entry_of :: "mem_node \<Rightarrow> entry" where
  "entry_of (MemNode t h cs) = (if t = CHR ''d'' then Dir else File t h)"

definition paths :: "mem_node \<Rightarrow> bytes list \<Rightarrow> entry option" where
  "paths n cs = map_option entry_of (lookup_node n cs)"

text \<open>The specification of an insertion: what is in the way, and the new function.\<close>

definition blocked :: "bool \<Rightarrow> (bytes list \<Rightarrow> entry option) \<Rightarrow> bytes list \<Rightarrow> entry \<Rightarrow> bool" where
  "blocked at_root fs p e \<longleftrightarrow> (\<exists>q t h. strict_prefix q p \<and> fs q = Some (File t h)) \<or>
     fs p = Some Dir \<and> e \<noteq> Dir \<and> (at_root \<and> p = [] \<or> (\<exists>q. strict_prefix p q \<and> fs q \<noteq> None))"

definition inserted :: "(bytes list \<Rightarrow> entry option) \<Rightarrow> bytes list \<Rightarrow> entry \<Rightarrow> bytes list \<Rightarrow> entry option" where
  "inserted fs p e = (\<lambda>q. if q = p then Some e
     else if strict_prefix q p \<and> fs q = None then Some Dir else fs q)"

lemma entry_of_Dir [simp]: "entry_of n = Dir \<longleftrightarrow> is_dir n"
  by (cases n) auto

lemma paths_Nil [simp]: "paths n [] = Some (entry_of n)"
  by (simp add: paths_def)

lemma paths_Cons:
  "paths n (c # cs) = (if \<not> is_dir n then None
     else case map_of (mn_children n) c of None \<Rightarrow> None | Some sub \<Rightarrow> paths sub cs)"
  by (simp add: paths_def split: option.split)

lemma strict_prefix_Cons [simp]: "strict_prefix (c # p) (d # q) \<longleftrightarrow> c = d \<and> strict_prefix p q"
  by (auto simp: strict_prefix_def)

lemma strict_prefix_Nil [simp]: "\<not> strict_prefix p []" "strict_prefix [] p \<longleftrightarrow> p \<noteq> []"
  by (auto simp: strict_prefix_def)

lemma entry_of_File: "entry_of n = File t h \<Longrightarrow> \<not> is_dir n"
  by (cases n) (auto split: if_splits)

lemma has_children: "is_dir n \<Longrightarrow> mn_children n \<noteq> [] \<longleftrightarrow> (\<exists>q. q \<noteq> [] \<and> paths n q \<noteq> None)"
proof
  assume "is_dir n" "mn_children n \<noteq> []"
  then obtain c sub where "map_of (mn_children n) c = Some sub"
    by (metis map_of_eq_empty_iff not_None_eq ext)
  with \<open>is_dir n\<close> have "paths n [c] \<noteq> None" by (simp add: paths_Cons)
  then show "\<exists>q. q \<noteq> [] \<and> paths n q \<noteq> None" by blast
next
  assume "is_dir n" "\<exists>q. q \<noteq> [] \<and> paths n q \<noteq> None"
  then obtain c q where "paths n (c # q) \<noteq> None" by (metis list.exhaust)
  then show "mn_children n \<noteq> []" by (auto simp: paths_Cons split: if_splits)
qed

lemma is_dir_dir_node [simp]: "is_dir dir_node"
  by (simp add: dir_node_def)

lemma paths_dir_node [simp]: "paths dir_node q = (if q = [] then Some Dir else None)"
  by (cases q) (simp_all add: paths_Cons dir_node_def)

lemma paths_slot:
  "paths (MemNode (CHR ''d'') h (slot_put c sub (mn_children n))) (d # q) =
    (if d = c then paths sub q else paths (MemNode (CHR ''d'') h (mn_children n)) (d # q))"
  by (simp add: paths_Cons)

lemma paths_none: "mn_children n = [] \<or> \<not> is_dir n \<Longrightarrow> q \<noteq> [] \<Longrightarrow> paths n q = None"
  by (cases q) (auto simp: paths_Cons)

lemma ex_prefix_Cons:
  "(\<exists>q t h. strict_prefix q (c # cs) \<and> fs q = Some (File t h)) \<longleftrightarrow>
     (\<exists>t h. fs [] = Some (File t h)) \<or> (\<exists>q t h. strict_prefix q cs \<and> fs (c # q) = Some (File t h))"
  "(\<exists>q. strict_prefix (c # cs) q \<and> P q) \<longleftrightarrow> (\<exists>q. strict_prefix cs q \<and> P (c # q))"
proof -
  have "strict_prefix q (c # cs) \<longleftrightarrow> q = [] \<or> (\<exists>q'. q = c # q' \<and> strict_prefix q' cs)" for q
    by (cases q) auto
  then show "(\<exists>q t h. strict_prefix q (c # cs) \<and> fs q = Some (File t h)) \<longleftrightarrow>
     (\<exists>t h. fs [] = Some (File t h)) \<or> (\<exists>q t h. strict_prefix q cs \<and> fs (c # q) = Some (File t h))"
    by metis
  have "strict_prefix (c # cs) q \<longleftrightarrow> (\<exists>q'. q = c # q' \<and> strict_prefix cs q')" for q
    by (cases q) auto
  then show "(\<exists>q. strict_prefix (c # cs) q \<and> P q) \<longleftrightarrow> (\<exists>q. strict_prefix cs q \<and> P (c # q))"
    by metis
qed

lemma entry_of_dir: "is_dir n \<Longrightarrow> entry_of n = Dir"
  by simp

lemma paths_sub: "is_dir cur \<Longrightarrow> map_of (mn_children cur) c = r \<Longrightarrow>
    paths cur (c # q) = (case r of None \<Rightarrow> None | Some sub \<Rightarrow> paths sub q)"
  by (simp add: paths_Cons)

lemma blocked_Cons:
  assumes "is_dir cur"
  shows "blocked at_root (paths cur) (c # cs) e = (case map_of (mn_children cur) c of
    None \<Rightarrow> False | Some sub \<Rightarrow> blocked False (paths sub) cs e)"
  using assms unfolding blocked_def ex_prefix_Cons
  by (cases "map_of (mn_children cur) c") (simp_all add: paths_sub entry_of_dir)

lemma inserted_slot:
  assumes "is_dir cur"
    and "\<And>q. paths sub q = inserted (\<lambda>q. paths cur (c # q)) cs e q"
  shows "paths (MemNode (mn_type cur) h (slot_put c sub (mn_children cur))) = inserted (paths cur) (c # cs) e"
proof
  fix q
  show "paths (MemNode (mn_type cur) h (slot_put c sub (mn_children cur))) q = inserted (paths cur) (c # cs) e q"
    using assms by (cases q) (auto simp: inserted_def paths_Cons entry_of_dir split: option.splits)
qed

text \<open>What \<open>add_at\<close> answers and makes, as the specification has it.\<close>

definition added :: "bool \<Rightarrow> mem_node \<Rightarrow> bytes list \<Rightarrow> entry \<Rightarrow> exn + mem_node \<Rightarrow> bool" where
  "added at_root cur p e r \<longleftrightarrow> (case r of
      Inl x \<Rightarrow> blocked at_root (paths cur) p e
    | Inr cur' \<Rightarrow> \<not> blocked at_root (paths cur) p e \<and> paths cur' = inserted (paths cur) p e)"

lemma add_at_paths:
  assumes "mn_children node = []"
  shows "added at_root cur p (entry_of node) (add_at at_root path node p cur)"
proof (induction p arbitrary: at_root cur)
  case Nil
  show ?case
    using has_children [of cur] paths_none [OF disjI1 [OF assms]] paths_none [of cur]
    by (auto simp: added_def blocked_def inserted_def fun_eq_iff entry_of_dir)
next
  case (Cons c cs)
  show ?case
  proof (cases "is_dir cur")
    case False
    then have "\<exists>t h. entry_of cur = File t h" by (cases cur) simp
    then have "blocked at_root (paths cur) (c # cs) (entry_of node)"
      unfolding blocked_def ex_prefix_Cons by simp
    with False show ?thesis by (simp add: added_def)
  next
    case True
    show ?thesis
    proof (cases "map_of (mn_children cur) c")
      case None
      have wide: "blocked False (paths dir_node) cs (entry_of node) \<Longrightarrow> cs = []"
        by (cases cs) (auto simp: blocked_def strict_prefix_def split: if_splits)
      have none: "paths cur (c # q) = None" for q using None by (simp add: paths_Cons)
      show ?thesis
      proof (cases "cs = []")
        case True
        have "paths node q = inserted (\<lambda>q. paths cur (c # q)) [] (entry_of node) q" for q
          using paths_none [OF disjI1 [OF assms]] by (cases "q = []") (simp_all add: inserted_def none)
        from inserted_slot [OF \<open>is_dir cur\<close> this] show ?thesis
          using True \<open>is_dir cur\<close> None by (simp add: added_def blocked_Cons)
      next
        case False
        have "inserted (paths dir_node) cs (entry_of node) q = inserted (\<lambda>q. paths cur (c # q)) cs (entry_of node) q" for q
          using False by (auto simp: inserted_def none)
        then show ?thesis
          using Cons.IH [of False dir_node] \<open>is_dir cur\<close> None False wide
            inserted_slot [OF \<open>is_dir cur\<close>, where cs = cs and e = "entry_of node"]
          by (simp add: added_def blocked_Cons split: sum.splits)
      qed
    next
      case (Some sub)
      have sub: "paths cur (c # q) = paths sub q" for q using True Some by (simp add: paths_sub)
      show ?thesis
        using Cons.IH [of False sub] True Some inserted_slot [OF True, where cs = cs and e = "entry_of node"]
        by (simp add: added_def blocked_Cons sub split: sum.splits)
    qed
  qed
qed
lemma mn_children_dir_node [simp]: "mn_children dir_node = []"
  by (simp add: dir_node_def)

lemma add_at_error: "add_at r path node p n0 = Inl x \<Longrightarrow> \<exists>m. x = RuntimeError m"
proof (induction p arbitrary: r n0)
  case (Cons c cs)
  show ?case
  proof (cases "is_dir n0")
    case True
    with Cons.prems obtain r' n1 where "add_at r' path node cs n1 = Inl x"
      by (cases "map_of (mn_children n0) c"; cases "cs = []") (auto split: sum.splits)
    then show ?thesis by (rule Cons.IH)
  qed (use Cons.prems in auto)
qed (auto split: if_splits)

text \<open>The nodes an ingest makes, and the trees that come of adding them.\<close>

fun node_ok :: "mem_node \<Rightarrow> bool" where
  "node_ok (MemNode t h cs) \<longleftrightarrow> tree_type t \<and> sorted_wrt (<) (map fst cs) \<and>
     (\<forall>x\<in>set cs. comp_ok (fst x) \<and> node_ok (snd x)) \<and> (t \<noteq> CHR ''d'' \<longrightarrow> cs = [] \<and> length h \<le> kMaxIdLen)"

lemma node_ok_dir_node [simp]: "node_ok dir_node"
  by (simp add: dir_node_def tree_type_def)

lemma node_ok_slot_put:
  assumes "node_ok (MemNode (CHR ''d'') h cs)" and "comp_ok c" and "node_ok sub"
  shows "node_ok (MemNode (CHR ''d'') h (slot_put c sub cs))"
  using assms set_slot_put [of c sub cs] by (auto simp: sorted_slot_put)

lemma node_ok_sub: "node_ok (MemNode t h cs) \<Longrightarrow> map_of cs c = Some sub \<Longrightarrow> node_ok sub \<and> comp_ok c"
  using map_of_SomeD [of cs c sub] by fastforce

lemma add_at_ok:
  assumes "node_ok node" and "mn_children node = []"
  shows "node_ok cur \<Longrightarrow> \<forall>c\<in>set p. comp_ok c \<Longrightarrow> add_at at_root path node p cur = Inr cur' \<Longrightarrow> node_ok cur'"
proof (induction p arbitrary: at_root cur cur')
  case Nil
  with assms show ?case by (auto split: if_splits)
next
  case (Cons c p)
  obtain t h xs where cur: "cur = MemNode t h xs" by (cases cur)
  have t: "t = CHR ''d''" using Cons.prems(3) by (auto simp: cur split: if_splits)
  have "\<exists>sub. cur' = MemNode t h (slot_put c sub xs) \<and> node_ok sub"
  proof (cases "map_of xs c")
    case None
    show ?thesis
    proof (cases "p = []")
      case True
      with Cons.prems(3) None t have "cur' = MemNode t h (slot_put c node xs)" by (simp add: cur)
      with assms(1) show ?thesis by blast
    next
      case False
      with Cons.prems(3) None t obtain sub where "add_at False path node p dir_node = Inr sub"
        "cur' = MemNode t h (slot_put c sub xs)" by (auto simp: cur split: sum.splits)
      with Cons.IH [OF node_ok_dir_node] Cons.prems(2) show ?thesis by auto
    qed
  next
    case (Some sub0)
    with Cons.prems(3) t obtain sub where "add_at False path node p sub0 = Inr sub"
      "cur' = MemNode t h (slot_put c sub xs)" by (auto simp: cur split: sum.splits)
    moreover have "node_ok sub0"
      using node_ok_sub [of t h xs c sub0] Cons.prems(1) Some by (simp only: cur)
    moreover have "\<forall>c\<in>set p. comp_ok c" using Cons.prems(2) by simp
    ultimately show ?thesis using Cons.IH by blast
  qed
  then obtain sub where "cur' = MemNode t h (slot_put c sub xs)" "node_ok sub" by blast
  with Cons.prems show ?case by (simp add: cur t node_ok_slot_put del: node_ok.simps)
qed

end
