(* ===== verification/Flush.thy ===== *)
theory Flush
  imports Mem_Tree Blob_Store
begin

text \<open>
  \<open>flush_tree\<close> of \<open>src/src/tree.cpp\<close>: the in-memory tree is written to the store, one
  tree object per directory, children before their parents. The pointers of the pre-order
  listing are the nodes' paths (a \<open>std::map\<close> never moves its nodes), and a write through
  one replaces the node at that path.

  The lemmas show that this loop computes the Merkle hash of the tree, defined by recursion on
  it, and that the objects it leaves in the store read back as the tree.
\<close>

section \<open>The code\<close>

definition sub_dirs :: "bytes list \<Rightarrow> mem_node \<Rightarrow> (bytes list \<times> mem_node) list" where
  "sub_dirs p n = map (\<lambda>x. (p @ [fst x], snd x)) (filter (\<lambda>x. is_dir (snd x)) (mn_children n))"

lemma size_sub_dirs: "sum_list (map (\<lambda>x. size (snd x)) (sub_dirs p n)) < size n"
proof (cases n)
  case (MemNode t h cs)
  have "sum_list (map (\<lambda>x. size (snd x)) (sub_dirs p n)) \<le> size_list (size_prod (\<lambda>_. 0) size) cs"
    unfolding MemNode sub_dirs_def by (induction cs) (auto simp: size_prod_simp)
  then show ?thesis by (simp add: MemNode)
qed

function dir_order :: "(bytes list \<times> mem_node) list \<Rightarrow> bytes list list" where
  "dir_order [] = []"
| "dir_order ((p, n) # q) = p # dir_order (q @ sub_dirs p n)"
  by pat_completeness auto
termination
  by (relation "measure (\<lambda>q. sum_list (map (\<lambda>x. size (snd x)) q))") (auto simp: size_sub_dirs)

definition node_entries :: "mem_node \<Rightarrow> tree_entry list" where
  "node_entries n = map (\<lambda>x. \<lparr>te_name = fst x, te_type = mn_type (snd x), te_id = mn_id (snd x)\<rparr>) (mn_children n)"

fun node_set :: "mem_node \<Rightarrow> bytes list \<Rightarrow> mem_node \<Rightarrow> mem_node" where
  "node_set n [] m = m"
| "node_set n (c # cs) m = (case map_of (mn_children n) c of None \<Rightarrow> n
   | Some sub \<Rightarrow> MemNode (mn_type n) (mn_id n) (slot_put c (node_set sub cs m) (mn_children n)))"

definition flush_dir ::
  "(bytes \<Rightarrow> ('s, bytes) prog) \<Rightarrow> bytes list \<Rightarrow> mem_node \<Rightarrow> ('s, mem_node) prog" where
  "flush_dir store p root = (case lookup_node root p of
     None \<Rightarrow> throw (Undefined ''dangling node'')
   | Some dir \<Rightarrow> bindE (put_tree store (node_entries dir)) (\<lambda>h.
       ret (node_set root p (MemNode (mn_type dir) h []))))"

definition flush_tree :: "(bytes \<Rightarrow> ('s, bytes) prog) \<Rightarrow> mem_node \<Rightarrow> ('s, bytes) prog" where
  "flush_tree store root = bindE (foldE (flush_dir store) (rev (dir_order [([], root)])) root)
     (\<lambda>root'. ret (mn_id root'))"

section \<open>The Merkle hash of a tree\<close>

fun merkle :: "(bytes \<Rightarrow> bytes) \<Rightarrow> mem_node \<Rightarrow> bytes" where
  "merkle dg (MemNode t h cs) = (if t \<noteq> CHR ''d'' then h
     else dg (concat (map (\<lambda>x. tree_entry_bytes
       \<lparr>te_name = fst x, te_type = mn_type (snd x), te_id = merkle dg (snd x)\<rparr>) cs)))"

definition dir_bytes :: "(bytes \<Rightarrow> bytes) \<Rightarrow> mem_node \<Rightarrow> bytes" where
  "dir_bytes dg n = concat (map (\<lambda>x. tree_entry_bytes
     \<lparr>te_name = fst x, te_type = mn_type (snd x), te_id = merkle dg (snd x)\<rparr>) (mn_children n))"

lemma merkle_dir: "is_dir n \<Longrightarrow> merkle dg n = dg (dir_bytes dg n)"
  by (cases n) (simp add: dir_bytes_def)

lemma merkle_file: "\<not> is_dir n \<Longrightarrow> merkle dg n = mn_id n"
  by (cases n) simp

declare merkle.simps [simp del]

text \<open>The tree while it is being flushed: the directories in \<open>P\<close> have been written.\<close>

fun flushed :: "(bytes \<Rightarrow> bytes) \<Rightarrow> bytes list set \<Rightarrow> mem_node \<Rightarrow> mem_node" where
  "flushed dg P (MemNode t h cs) = (if t = CHR ''d'' \<and> [] \<in> P then MemNode t (merkle dg (MemNode t h cs)) []
     else MemNode t h (map (\<lambda>x. (fst x, flushed dg {q. fst x # q \<in> P} (snd x))) cs))"

lemma mn_type_flushed [simp]: "mn_type (flushed dg P n) = mn_type n"
  by (cases n) simp

lemma map_of_map_key: "map_of (map (\<lambda>x. (fst x, f (fst x) (snd x))) xs) c = map_option (f c) (map_of xs c)"
  by (induction xs) auto

lemma flushed_none: "flushed dg {} n = n"
proof (induction n)
  case (MemNode t h cs)
  have "map (\<lambda>x. (fst x, flushed dg {} (snd x))) cs = cs"
    by (rule map_idI) (use MemNode in \<open>force simp: snds.simps\<close>)
  then show ?case by simp
qed

lemma flushed_open: "\<not> (is_dir n \<and> [] \<in> P) \<Longrightarrow>
    flushed dg P n = MemNode (mn_type n) (mn_id n) (map (\<lambda>x. (fst x, flushed dg {q. fst x # q \<in> P} (snd x))) (mn_children n))"
  by (cases n) auto

lemma lookup_flushed:
  assumes "lookup_node n p = Some m" and "\<forall>q\<in>P. \<not> strict_prefix q p"
  shows "lookup_node (flushed dg P n) p = Some (flushed dg {q. p @ q \<in> P} m)"
  using assms
proof (induction p arbitrary: n P)
  case Nil
  then show ?case by simp
next
  case (Cons c p)
  then obtain sub where n: "is_dir n" "map_of (mn_children n) c = Some sub" "lookup_node sub p = Some m"
    by (auto split: if_splits option.splits)
  have "[] \<notin> P" using Cons.prems(2) by auto
  then have eq: "flushed dg P n = MemNode (mn_type n) (mn_id n) (map (\<lambda>x. (fst x, flushed dg {q. fst x # q \<in> P} (snd x))) (mn_children n))"
    by (intro flushed_open) simp
  have "\<forall>q\<in>{q. c # q \<in> P}. \<not> strict_prefix q p" using Cons.prems(2) by fastforce
  from Cons.IH [OF n(3) this] n(1,2) show ?case
    by (simp add: eq map_of_map_key [where f = "\<lambda>k. flushed dg {q. k # q \<in> P}"])
qed

lemma slot_put_map:
  assumes "sorted_wrt (<) (map fst xs)" and "map_of xs c = Some sub"
  shows "slot_put c v (map (\<lambda>x. (fst x, f (fst x) (snd x))) xs) =
    map (\<lambda>x. (fst x, if fst x = c then v else f (fst x) (snd x))) xs"
  using assms
proof (induction xs)
  case Nil
  then show ?case by simp
next
  case (Cons x xs)
  show ?case
  proof (cases "fst x = c")
    case True
    with Cons.prems(1) have "c \<notin> fst ` set xs" by auto
    then have "\<forall>y\<in>set xs. fst y \<noteq> c" by auto
    with True show ?thesis by (cases x) simp
  next
    case False
    with Cons.prems(2) have "map_of xs c = Some sub" by (cases x) (simp split: if_splits)
    moreover from this have "fst x < c" using Cons.prems(1) map_of_SomeD [of xs c sub] by fastforce
    ultimately show ?thesis using Cons by (cases x) auto
  qed
qed

lemma flushed_here: "is_dir n \<Longrightarrow> [] \<in> P \<Longrightarrow> flushed dg P n = MemNode (CHR ''d'') (merkle dg n) []"
  by (cases n) auto

lemma node_set_flushed:
  assumes "lookup_node n p = Some m" and "is_dir m" and "\<forall>q\<in>P. \<not> prefix q p" and "node_ok n"
  shows "node_set (flushed dg P n) p (MemNode (CHR ''d'') (merkle dg m) []) = flushed dg (insert p P) n"
  using assms
proof (induction p arbitrary: n P)
  case Nil
  then show ?case by (simp add: flushed_here)
next
  case (Cons c p)
  obtain t h cs where n_def: "n = MemNode t h cs" by (cases n)
  with Cons.prems obtain sub where n: "t = CHR ''d''" "map_of cs c = Some sub" "lookup_node sub p = Some m"
    by (auto split: if_splits option.splits)
  have "[] \<notin> P" using Cons.prems(3) by auto
  have "\<forall>q\<in>{q. c # q \<in> P}. \<not> prefix q p" using Cons.prems(3) by fastforce
  note IH = Cons.IH [OF n(3) Cons.prems(2) this]
  have sub: "node_ok sub" using node_ok_sub n(2) Cons.prems(4) n_def by blast
  have sorted: "sorted_wrt (<) (map fst cs)" using Cons.prems(4) by (simp add: n_def)
  have ins: "{q. d # q \<in> insert (c # p) P} = (if d = c then insert p {q. c # q \<in> P} else {q. d # q \<in> P})" for d
    by auto
  have "distinct (map fst cs)" using sorted by (simp add: strict_sorted_iff)
  then have "x \<in> set cs \<Longrightarrow> fst x = c \<Longrightarrow> snd x = sub" for x
    using n(2) eq_key_imp_eq_value [of cs c sub "snd x"] by (cases x) (auto dest: map_of_SomeD)
  then have "map (\<lambda>x. (fst x, if fst x = c then flushed dg (insert p {q. c # q \<in> P}) sub else flushed dg {q. fst x # q \<in> P} (snd x))) cs
     = map (\<lambda>x. (fst x, flushed dg {q. fst x # q \<in> insert (c # p) P} (snd x))) cs"
    by (intro map_cong refl) (simp add: ins del: insert_iff insert_Collect)
  then show ?case
    using IH [OF sub] \<open>[] \<notin> P\<close> n
    by (simp add: n_def map_of_map_key [where f = "\<lambda>k. flushed dg {q. k # q \<in> P}"]
      slot_put_map [OF sorted n(2), where f = "\<lambda>k. flushed dg {q. k # q \<in> P}"])
qed

text \<open>A directory all of whose subdirectories have been written.\<close>

lemma entries_flushed:
  assumes "[] \<notin> P" and "\<forall>x\<in>set (mn_children n). is_dir (snd x) \<longrightarrow> [fst x] \<in> P"
  shows "node_entries (flushed dg P n) =
    map (\<lambda>x. \<lparr>te_name = fst x, te_type = mn_type (snd x), te_id = merkle dg (snd x)\<rparr>) (mn_children n)"
proof -
  have "mn_id (flushed dg {q. fst x # q \<in> P} (snd x)) = merkle dg (snd x)" if "x \<in> set (mn_children n)" for x
    using assms(2) that by (cases "snd x") (auto simp: merkle_file)
  then show ?thesis using assms(1)
    by (simp add: flushed_open node_entries_def)
qed

section \<open>The order of the directories\<close>

text \<open>Queues of directories of the tree, none above another.\<close>

definition queue_ok :: "mem_node \<Rightarrow> (bytes list \<times> mem_node) list \<Rightarrow> bool" where
  "queue_ok root Q \<longleftrightarrow> (\<forall>x\<in>set Q. lookup_node root (fst x) = Some (snd x) \<and> is_dir (snd x)) \<and>
     sorted_wrt (\<lambda>p q. \<not> prefix p q \<and> \<not> prefix q p) (map fst Q)"

lemma lookup_append:
  "lookup_node n (p @ q) = (case lookup_node n p of None \<Rightarrow> None | Some m \<Rightarrow> lookup_node m q)"
  by (induction p arbitrary: n) (auto split: option.split)

lemma dir_order_prefix: "r \<in> set (dir_order Q) \<Longrightarrow> \<exists>x\<in>set Q. prefix (fst x) r"
proof (induction Q rule: dir_order.induct)
  case (2 p n q)
  show ?case
  proof (cases "r = p")
    case False
    with 2 obtain x where x: "x \<in> set (q @ sub_dirs p n)" "prefix (fst x) r" by auto
    show ?thesis
    proof (cases "x \<in> set q")
      case True
      with x(2) show ?thesis by auto
    next
      case False
      with x(1) have "prefix p (fst x)" by (auto simp: sub_dirs_def)
      with x(2) show ?thesis using prefix_order.trans by auto
    qed
  qed simp
qed simp

lemma dir_order_queue: "x \<in> set Q \<Longrightarrow> fst x \<in> set (dir_order Q)"
  by (induction Q rule: dir_order.induct) auto

lemma node_ok_lookup: "node_ok n \<Longrightarrow> lookup_node n p = Some m \<Longrightarrow> node_ok m"
proof (induction p arbitrary: n)
  case (Cons c p)
  then show ?case
    using node_ok_sub [of _ _ "mn_children n" c] by (cases n) (fastforce split: if_splits option.splits)
qed simp

lemma queue_ok_next:
  assumes "queue_ok root ((p, n) # q)" and "node_ok root"
  shows "queue_ok root (q @ sub_dirs p n)"
proof -
  have n: "lookup_node root p = Some n" "is_dir n" using assms(1) by (simp_all add: queue_ok_def)
  have ok: "node_ok n" using node_ok_lookup assms(2) n(1) by blast
  then have sorted: "sorted_wrt (<) (map fst (mn_children n))" by (cases n) simp
  have 1: "lookup_node root (p @ [fst x]) = Some (snd x)" if "x \<in> set (mn_children n)" for x
  proof -
    have "distinct (map fst (mn_children n))" using sorted by (simp add: strict_sorted_iff)
    with that have "map_of (mn_children n) (fst x) = Some (snd x)" by (simp add: map_of_eq_Some_iff)
    with n show ?thesis by (simp add: lookup_append)
  qed
  have 2: "\<not> prefix p r \<and> \<not> prefix r p" if "r \<in> fst ` set q" for r
    using assms(1) that by (auto simp: queue_ok_def)
  have "sorted_wrt (\<lambda>p q. \<not> prefix p q \<and> \<not> prefix q p) (map (\<lambda>x. p @ [fst x]) (filter (\<lambda>x. is_dir (snd x)) (mn_children n)))"
    unfolding sorted_wrt_map
    by (rule sorted_wrt_mono_rel [OF _ sorted_wrt_filter])
      (use sorted in \<open>auto simp: sorted_wrt_map\<close>)
  then have 3: "sorted_wrt (\<lambda>p q. \<not> prefix p q \<and> \<not> prefix q p) (map fst (sub_dirs p n))"
    by (simp add: sub_dirs_def comp_def)
  have 4: "\<not> prefix r (p @ [c]) \<and> \<not> prefix (p @ [c]) r" if "r \<in> fst ` set q" for r c
    using 2 [OF that] by (auto simp: prefix_snoc dest: append_prefixD)
  show ?thesis
    using assms(1) 1 3 4 unfolding queue_ok_def
    by (auto simp: sorted_wrt_append sub_dirs_def)
qed

text \<open>Every directory of the tree is in the listing.\<close>

lemma dir_order_complete:
  "x \<in> set Q \<Longrightarrow> lookup_node (snd x) r = Some m \<Longrightarrow> is_dir m \<Longrightarrow> fst x @ r \<in> set (dir_order Q)"
proof (induction Q arbitrary: x r rule: dir_order.induct)
  case (2 p n q)
  show ?case
  proof (cases "x \<in> set q")
    case True
    with 2 show ?thesis by simp
  next
    case False
    with 2 have x: "x = (p, n)" by simp
    show ?thesis
    proof (cases r)
      case Nil
      with x show ?thesis by simp
    next
      case (Cons c r')
      with 2 x obtain sub where sub: "is_dir n" "map_of (mn_children n) c = Some sub" "lookup_node sub r' = Some m"
        by (auto split: if_splits option.splits)
      then have "is_dir sub" using 2 by (cases r') (auto split: if_splits)
      then have "(p @ [c], sub) \<in> set (q @ sub_dirs p n)"
        using map_of_SomeD [OF sub(2)] by (force simp: sub_dirs_def)
      from "2.IH" [OF this] sub(3) 2(4) show ?thesis by (simp add: x Cons)
    qed
  qed
qed simp

section \<open>What is stored\<close>

text \<open>Blobs put one after the other: the first of two with the same hash stays.\<close>

definition blobs :: "(bytes \<Rightarrow> bytes) \<Rightarrow> bytes list \<Rightarrow> bytes \<Rightarrow> bytes option" where
  "blobs dg ds = map_of (map (\<lambda>d. (dg d, d)) ds)"

lemma blobs_Nil [simp]: "blobs dg [] = Map.empty"
  by (simp add: blobs_def)

lemma blobs_snoc: "blobs dg (ds @ [d]) ++ m = [dg d \<mapsto> d] ++ (blobs dg ds ++ m)"
  by (simp add: blobs_def)

text \<open>The tree objects of the directories, in the order they are written.\<close>

definition tree_blobs :: "(bytes \<Rightarrow> bytes) \<Rightarrow> mem_node \<Rightarrow> bytes list list \<Rightarrow> bytes list" where
  "tree_blobs dg root ps = map (\<lambda>p. dir_bytes dg (the (lookup_node root p))) ps"

definition flush_blobs :: "(bytes \<Rightarrow> bytes) \<Rightarrow> mem_node \<Rightarrow> bytes list" where
  "flush_blobs dg root = tree_blobs dg root (rev (dir_order [([], root)]))"

definition dirs_fit :: "(bytes \<Rightarrow> bytes) \<Rightarrow> mem_node \<Rightarrow> bool" where
  "dirs_fit dg root \<longleftrightarrow> (\<forall>d\<in>set (flush_blobs dg root). length d \<le> max_off)"

definition merkle_entries :: "(bytes \<Rightarrow> bytes) \<Rightarrow> mem_node \<Rightarrow> tree_entry list" where
  "merkle_entries dg n = map (\<lambda>x. \<lparr>te_name = fst x, te_type = mn_type (snd x), te_id = merkle dg (snd x)\<rparr>) (mn_children n)"

lemma merkle_entries_bytes:
  assumes "node_ok n" and "is_dir n" and "\<And>d. length (dg d) \<le> kMaxIdLen"
  shows "tree_ok (merkle_entries dg n) \<and> tree_bytes (merkle_entries dg n) = Inr (dir_bytes dg n)"
proof -
  obtain t h cs where n: "n = MemNode t h cs" by (cases n)
  have id: "length (merkle dg m) \<le> kMaxIdLen" if "node_ok m" for m
    using that assms(3) by (cases "is_dir m"; cases m) (simp_all add: merkle_dir merkle_file)
  have type: "tree_type (mn_type m)" if "node_ok m" for m
    using that by (cases m) simp
  have ok: "\<forall>e\<in>set (merkle_entries dg n). entry_ok e"
    using assms(1) id type by (auto simp: merkle_entries_def entry_ok_def n comp_ok_def)
  moreover have "sorted_wrt (<) (map te_name (merkle_entries dg n))"
    using assms(1) by (simp add: merkle_entries_def n comp_def)
  moreover have "map tree_entry_bytes (merkle_entries dg n) = map (\<lambda>x. tree_entry_bytes
      \<lparr>te_name = fst x, te_type = mn_type (snd x), te_id = merkle dg (snd x)\<rparr>) (mn_children n)"
    by (simp add: merkle_entries_def)
  ultimately show ?thesis
    using tree_bytes_ok [OF ok] by (simp add: tree_ok_def dir_bytes_def)
qed

context blob_store
begin

lemma digest_fits: "ok s \<Longrightarrow> length (digest d) \<le> kMaxIdLen"
  by (simp add: digest_length kHashLen_def kMaxIdLen_def)

lemma wp_flush_dirs:
  assumes root: "node_ok root" and s: "ok s"
    and Qok: "queue_ok root Qs"
    and fit: "\<forall>d\<in>set (tree_blobs digest root (dir_order Qs)). length d \<le> max_off"
    and Q: "\<And>s'. ok s' \<Longrightarrow> contents s' = blobs digest (tree_blobs digest root (rev (dir_order Qs))) ++ contents s \<Longrightarrow>
      rest s' = rest s \<Longrightarrow> Q (flushed digest (set (dir_order Qs)) root) s'"
    and R: "\<And>e s'. io_exn e \<Longrightarrow> R e s'"
  shows "wp (foldE (flush_dir store) (rev (dir_order Qs)) root) Q R s"
  using Qok fit Q
proof (induction Qs arbitrary: Q rule: dir_order.induct)
  case 1
  then show ?case using s by (simp add: wp_ret flushed_none tree_blobs_def)
next
  case (2 p n q)
  let ?ps = "dir_order (q @ sub_dirs p n)"
  note next_ok = queue_ok_next [OF "2.prems"(1) root]
  have n: "lookup_node root p = Some n" "is_dir n" using "2.prems"(1) by (simp_all add: queue_ok_def)
  have n_ok: "node_ok n" by (rule node_ok_lookup [OF root n(1)])
  have above: "\<not> prefix r p" if "r \<in> set ?ps" for r
  proof -
    from dir_order_prefix [OF that] obtain x where x: "x \<in> set (q @ sub_dirs p n)" "prefix (fst x) r" by blast
    then have "\<not> prefix (fst x) p" using "2.prems"(1) by (auto simp: queue_ok_def sub_dirs_def)
    with x(2) show ?thesis using prefix_order.trans by blast
  qed
  have subs: "\<forall>x\<in>set (mn_children n). is_dir (snd x) \<longrightarrow> [fst x] \<in> {r. p @ r \<in> set ?ps}"
  proof (intro ballI impI)
    fix x
    assume "x \<in> set (mn_children n)" "is_dir (snd x)"
    then have "(p @ [fst x], snd x) \<in> set (q @ sub_dirs p n)" by (auto simp: sub_dirs_def)
    from dir_order_queue [OF this] show "[fst x] \<in> {r. p @ r \<in> set ?ps}" by simp
  qed
  show ?case
    unfolding dir_order.simps rev.simps foldE_snoc wp_bindE
  proof (rule "2.IH" [OF next_ok])
    show "\<forall>d\<in>set (tree_blobs digest root ?ps). length d \<le> max_off"
      using "2.prems"(2) by (simp add: tree_blobs_def)
    fix s1
    assume s1: "ok s1" "contents s1 = blobs digest (tree_blobs digest root (rev ?ps)) ++ contents s" "rest s1 = rest s"
    let ?cur = "flushed digest (set ?ps) root"
    let ?dir = "flushed digest {r. p @ r \<in> set ?ps} n"
    have look: "lookup_node ?cur p = Some ?dir"
      using above by (intro lookup_flushed [OF n(1)]) (auto simp: strict_prefix_def)
    have "p \<notin> set ?ps" using above by auto
    then have entries: "node_entries ?dir = merkle_entries digest n"
      unfolding merkle_entries_def by (intro entries_flushed [OF _ subs]) simp
    have bytes: "tree_bytes (merkle_entries digest n) = Inr (dir_bytes digest n)"
      using merkle_entries_bytes [OF n_ok n(2)] digest_fits [OF s] by blast
    have "length (dir_bytes digest n) \<le> max_off"
      using "2.prems"(2) n(1) by (simp add: tree_blobs_def)
    then show "wp (flush_dir store p ?cur) Q R s1"
      unfolding flush_dir_def look option.case entries wp_bindE
    proof (rule wp_put_tree [OF s1(1) bytes])
      fix s'
      assume s': "ok s'" "contents s' = [digest (dir_bytes digest n) \<mapsto> dir_bytes digest n] ++ contents s1" "rest s' = rest s1"
      have "node_set ?cur p (MemNode (mn_type ?dir) (digest (dir_bytes digest n)) []) =
          flushed digest (insert p (set ?ps)) root"
        using node_set_flushed [OF n, of "set ?ps" digest] above root n(2) merkle_dir [OF n(2), of digest] by simp
      moreover have "Q (flushed digest (insert p (set ?ps)) root) s'"
        using "2.prems"(3) [OF s'(1)] s'(2,3) s1(2,3) n(1) by (simp add: tree_blobs_def blobs_snoc)
      ultimately show "wp (ret (node_set ?cur p (MemNode (mn_type ?dir) (digest (dir_bytes digest n)) []))) Q R s'"
        by (simp add: wp_ret)
    qed (rule R)
  qed
qed

lemma wp_flush_tree:
  assumes "node_ok root" and "is_dir root" and "ok s" and "dirs_fit digest root"
    and Q: "\<And>s'. ok s' \<Longrightarrow> contents s' = blobs digest (flush_blobs digest root) ++ contents s \<Longrightarrow>
      rest s' = rest s \<Longrightarrow> Q (merkle digest root) s'"
    and R: "\<And>e s'. io_exn e \<Longrightarrow> R e s'"
  shows "wp (flush_tree store root) Q R s"
  unfolding flush_tree_def wp_bindE
proof (rule wp_flush_dirs [OF assms(1,3)])
  show "queue_ok root [([], root)]" using assms(2) by (simp add: queue_ok_def)
  show "\<forall>d\<in>set (tree_blobs digest root (dir_order [([], root)])). length d \<le> max_off"
    using assms(4) by (simp add: dirs_fit_def flush_blobs_def tree_blobs_def)
  fix s'
  assume "ok s'" "contents s' = blobs digest (tree_blobs digest root (rev (dir_order [([], root)]))) ++ contents s"
    "rest s' = rest s"
  moreover have "mn_id (flushed digest (set (dir_order [([], root)])) root) = merkle digest root"
    using flushed_here [OF assms(2)] dir_order_queue [of "([], root)" "[([], root)]"] by simp
  ultimately show "wp (ret (mn_id (flushed digest (set (dir_order [([], root)])) root))) Q R s'"
    using Q by (simp add: wp_ret flush_blobs_def)
qed (rule R)

end

end
