(* ===== verification/Walker.thy ===== *)
theory Walker
  imports Flush
begin

text \<open>
  Reading a stored tree along a path (\<open>TreeWalker\<close> of \<open>src/src/tree.cpp\<close>). The walker
  keeps the trees it has read in a cache; the state is the store's and the cache.

  The lemmas show that a lookup answers what the stored trees say, with the binary search and the
  cache only saving work, and that a tree that was flushed is found again entry by entry.
\<close>

section \<open>The code\<close>

type_synonym cache = "bytes \<Rightarrow> tree_entry list option"

definition walker_tree :: "(bytes \<Rightarrow> ('s, bytes option) prog) \<Rightarrow> bytes \<Rightarrow> ('s \<times> cache, tree_entry list) prog" where
  "walker_tree fetch tree_id = bindE (readS (\<lambda>s. snd s tree_id)) (\<lambda>slot. case slot of
     Some es \<Rightarrow> ret es
   | None \<Rightarrow> thenE (modS (\<lambda>(s, c). (s, c(tree_id \<mapsto> []))))
       (bindE (on_store (read_tree fetch tree_id)) (\<lambda>es.
        thenE (modS (\<lambda>(s, c). (s, c(tree_id \<mapsto> es)))) (ret es))))"

text \<open>\<open>std::ranges::lower_bound\<close> on the names: the search halves the \<open>len\<close> entries from
  \<open>first\<close> on.\<close>

function lower_bound :: "tree_entry list \<Rightarrow> bytes \<Rightarrow> nat \<Rightarrow> nat \<Rightarrow> nat" where
  "lower_bound es c first len =
     (if len = 0 then first
      else let half = len div 2 in
        if te_name (es ! (first + half)) < c then lower_bound es c (first + half + 1) (len - half - 1)
        else lower_bound es c first half)"
  by pat_completeness auto
termination
  by (relation "measure (\<lambda>(es, c, first, len). len)") auto

declare lower_bound.simps [simp del]

definition root_entry :: "bytes \<Rightarrow> tree_entry" where
  "root_entry root = \<lparr>te_name = [], te_type = CHR ''d'', te_id = root\<rparr>"

fun walk_loop ::
  "(bytes \<Rightarrow> ('s, bytes option) prog) \<Rightarrow> bytes list \<Rightarrow> tree_entry \<Rightarrow> ('s \<times> cache, tree_entry option) prog" where
  "walk_loop fetch [] out = ret (Some out)"
| "walk_loop fetch (c # cs) out =
     (if te_type out \<noteq> CHR ''d'' then ret None
      else bindE (walker_tree fetch (te_id out)) (\<lambda>es.
        let i = lower_bound es c 0 (length es) in
        if i = length es \<or> te_name (es ! i) \<noteq> c then ret None else walk_loop fetch cs (es ! i)))"

definition walker_lookup ::
  "(bytes \<Rightarrow> ('s, bytes option) prog) \<Rightarrow> bytes \<Rightarrow> bytes \<Rightarrow> ('s \<times> cache, tree_entry option) prog" where
  "walker_lookup fetch root path = (case split_path path of
     None \<Rightarrow> ret None
   | Some comps \<Rightarrow> walk_loop fetch comps (root_entry root))"

section \<open>The reference: a walk over the stored trees\<close>

definition entry_named :: "tree_entry list \<Rightarrow> bytes \<Rightarrow> tree_entry option" where
  "entry_named es c = map_of (map (\<lambda>e. (te_name e, e)) es) c"

fun walk :: "(bytes \<Rightarrow> bytes option) \<Rightarrow> tree_entry \<Rightarrow> bytes list \<Rightarrow> tree_entry option" where
  "walk m e [] = Some e"
| "walk m e (c # cs) = (if te_type e \<noteq> CHR ''d'' then None
     else case tree_at m (te_id e) of None \<Rightarrow> None
     | Some es \<Rightarrow> (case entry_named es c of None \<Rightarrow> None | Some e' \<Rightarrow> walk m e' cs))"

section \<open>Binary search\<close>

text \<open>The search never leaves the range, and splits it into the names below and the others.\<close>

lemma lower_bound_split:
  assumes "sorted_wrt (<) (map te_name es)" and "first + len \<le> length es"
    and "\<forall>i<first. te_name (es ! i) < c" and "\<forall>i. first + len \<le> i \<and> i < length es \<longrightarrow> c \<le> te_name (es ! i)"
  shows "(\<forall>i<lower_bound es c first len. te_name (es ! i) < c) \<and> lower_bound es c first len \<le> length es \<and>
    (\<forall>i. lower_bound es c first len \<le> i \<and> i < length es \<longrightarrow> c \<le> te_name (es ! i))"
  using assms
proof (induction es c first len rule: lower_bound.induct)
  case (1 es c first len)
  have mono: "te_name (es ! i) \<le> te_name (es ! j)" if "i \<le> j" "j < length es" for i j
    using sorted_wrt_nth_less [OF 1(3), of i j] that by (cases "i = j") auto
  show ?case
  proof (cases "len = 0")
    case True
    then have "lower_bound es c first len = first" by (subst lower_bound.simps) simp
    with 1(4-6) True show ?thesis by simp
  next
    case False
    define half where "half = len div 2"
    have mid: "first + half < length es" "half < len" using False 1(4) by (auto simp: half_def)
    have step: "lower_bound es c first len = (if te_name (es ! (first + half)) < c
        then lower_bound es c (first + half + 1) (len - half - 1) else lower_bound es c first half)"
      using False by (subst lower_bound.simps) (simp add: half_def Let_def)
    show ?thesis
    proof (cases "te_name (es ! (first + half)) < c")
      case True
      have "\<forall>i<first + half + 1. te_name (es ! i) < c"
        using mono [of _ "first + half"] mid(1) True by (auto simp: less_Suc_eq_le intro: le_less_trans)
      moreover have "first + half + 1 + (len - half - 1) = first + len" using mid(2) by simp
      ultimately show ?thesis
        unfolding step if_P [OF True]
        by (intro 1(1) [OF False half_def True 1(3)]) (use 1(4,6) in simp_all)
    next
      case nless: False
      have "\<forall>i. first + half \<le> i \<and> i < length es \<longrightarrow> c \<le> te_name (es ! i)"
        using mono [of "first + half"] nless by (auto simp: not_less intro: order_trans)
      then show ?thesis
        unfolding step if_not_P [OF nless]
        by (intro 1(2) [OF False half_def nless 1(3)]) (use 1(5) mid in simp_all)
    qed
  qed
qed

lemma lower_bound_le: "sorted_wrt (<) (map te_name es) \<Longrightarrow> lower_bound es c 0 (length es) \<le> length es"
  by (rule conjunct1 [OF conjunct2 [OF lower_bound_split]]) auto

text \<open>So the entry found is the one with the name, if there is one.\<close>

lemma entry_named_nth:
  assumes "sorted_wrt (<) (map te_name es)" and "i < length es"
  shows "entry_named es (te_name (es ! i)) = Some (es ! i)"
proof -
  have "distinct (map fst (map (\<lambda>e. (te_name e, e)) es))"
    using assms(1) by (simp add: strict_sorted_iff comp_def)
  then show ?thesis
    unfolding entry_named_def using assms(2) by (simp add: map_of_eq_Some_iff)
qed

lemma lower_bound_entry:
  assumes "sorted_wrt (<) (map te_name es)" and "i = lower_bound es c 0 (length es)"
  shows "entry_named es c = (if i = length es \<or> te_name (es ! i) \<noteq> c then None else Some (es ! i))"
proof -
  have split: "(\<forall>j<i. te_name (es ! j) < c) \<and> i \<le> length es \<and> (\<forall>j. i \<le> j \<and> j < length es \<longrightarrow> c \<le> te_name (es ! j))"
    unfolding assms(2) by (rule lower_bound_split [OF assms(1)]) auto
  show ?thesis
  proof (cases "i = length es \<or> te_name (es ! i) \<noteq> c")
    case True
    have "te_name (es ! j) \<noteq> c" if "j < length es" for j
    proof (cases "j < i")
      case True
      with split show ?thesis by auto
    next
      case False
      show ?thesis
      proof
        assume j: "te_name (es ! j) = c"
        then have "i \<noteq> j" using \<open>i = length es \<or> te_name (es ! i) \<noteq> c\<close> that by auto
        then have "te_name (es ! i) < te_name (es ! j)"
          using sorted_wrt_nth_less [OF assms(1), of i j] False that by simp
        moreover have "c \<le> te_name (es ! i)" using split False that by simp
        ultimately show False using j by simp
      qed
    qed
    then have "c \<notin> te_name ` set es" by (metis (mono_tags) imageE in_set_conv_nth)
    then have "entry_named es c = None" by (simp add: entry_named_def map_of_eq_None_iff comp_def image_image)
    with True show ?thesis by simp
  next
    case False
    with split have "i < length es" by simp
    from entry_named_nth [OF assms(1) this] False show ?thesis by auto
  qed
qed

section \<open>Lookups\<close>

text \<open>What the cache holds is what the store holds.\<close>

definition cache_ok :: "(bytes \<Rightarrow> bytes option) \<Rightarrow> cache \<Rightarrow> bool" where
  "cache_ok m c \<longleftrightarrow> (\<forall>h es. c h = Some es \<longrightarrow> tree_at m h = Some es)"

lemma cache_ok_empty [simp]: "cache_ok m Map.empty"
  by (simp add: cache_ok_def)

text \<open>Directories are named by hashes all the way down.\<close>

definition rooted :: "(bytes \<Rightarrow> bytes option) \<Rightarrow> tree_entry \<Rightarrow> bool" where
  "rooted m e \<longleftrightarrow> (\<forall>cs e'. walk m e cs = Some e' \<and> te_type e' = CHR ''d'' \<longrightarrow> length (te_id e') = kHashLen)"

text \<open>A tree object below \<open>e\<close> is missing or broken.\<close>

definition incomplete :: "(bytes \<Rightarrow> bytes option) \<Rightarrow> tree_entry \<Rightarrow> bool" where
  "incomplete m e \<longleftrightarrow> (\<exists>cs e'. walk m e cs = Some e' \<and> te_type e' = CHR ''d'' \<and> tree_at m (te_id e') = None)"

lemma incomplete_here: "te_type e = CHR ''d'' \<Longrightarrow> tree_at m (te_id e) = None \<Longrightarrow> incomplete m e"
  unfolding incomplete_def by (metis walk.simps(1))

lemma incomplete_step: "incomplete m e' \<Longrightarrow> (\<And>cs. walk m e (c # cs) = walk m e' cs) \<Longrightarrow> incomplete m e"
  unfolding incomplete_def by metis

lemma rooted_id: "rooted m e \<Longrightarrow> te_type e = CHR ''d'' \<Longrightarrow> length (te_id e) = kHashLen"
  using walk.simps(1) [of m e] by (auto simp: rooted_def simp del: walk.simps)

lemma rooted_step: "rooted m e \<Longrightarrow> (\<And>cs. walk m e (c # cs) = walk m e' cs) \<Longrightarrow> rooted m e'"
  unfolding rooted_def by metis

context blob_source
begin

lemma wp_walker_tree:
  assumes "ok s" and "length h = kHashLen" and "cache_ok (contents s) c"
    and "\<And>es s' c'. tree_at (contents s) h = Some es \<Longrightarrow> kept s s' \<Longrightarrow> cache_ok (contents s) c' \<Longrightarrow> Q es (s', c')"
    and "\<And>e s' c'. io_exn e \<or> is_corrupt e \<and> tree_at (contents s) h = None \<Longrightarrow> kept s s' \<Longrightarrow> R e (s', c')"
  shows "wp (walker_tree fetch h) Q R (s, c)"
proof (cases "c h")
  case (Some es)
  with assms(3,4) kept_refl [OF assms(1)] show ?thesis
    by (auto simp: walker_tree_def wp_simps cache_ok_def)
next
  case None
  then have "wp (walker_tree fetch h) Q R (s, c) = wp (read_tree fetch h) (\<lambda>es s'. Q es (s', c(h \<mapsto> es)))
      (\<lambda>e s'. R e (s', c(h \<mapsto> []))) s"
    by (simp add: walker_tree_def wp_simps wp_on_store)
  also have \<dots>
    by (rule wp_read_tree [OF assms(1,2)]) (use assms(3-5) in \<open>auto simp: cache_ok_def\<close>)
  finally show ?thesis .
qed

lemma wp_walk_loop:
  assumes "ok s" and "cache_ok (contents s) c" and "rooted (contents s) out"
    and Q: "\<And>s' c'. kept s s' \<Longrightarrow> cache_ok (contents s) c' \<Longrightarrow> Q (walk (contents s) out cs) (s', c')"
    and R: "\<And>e s' c'. io_exn e \<or> is_corrupt e \<and> incomplete (contents s) out \<Longrightarrow> kept s s' \<Longrightarrow> R e (s', c')"
  shows "wp (walk_loop fetch cs out) Q R (s, c)"
  using assms
proof (induction cs arbitrary: out s c)
  case Nil
  then show ?case using kept_refl by (auto simp: wp_simps)
next
  case (Cons d cs)
  show ?case
  proof (cases "te_type out = CHR ''d''")
    case False
    with Cons.prems(4) [OF kept_refl] Cons.prems(1,2) show ?thesis by (simp add: wp_simps)
  next
    case True
    show ?thesis
      unfolding walk_loop.simps(2) if_not_P [OF not_not [THEN iffD2, OF True]] wp_bindE
    proof (rule wp_walker_tree [OF Cons.prems(1) _ Cons.prems(2)])
      show "length (te_id out) = kHashLen" by (rule rooted_id [OF Cons.prems(3) True])
    next
      fix es s' c'
      assume es: "tree_at (contents s) (te_id out) = Some es" and k: "kept s s'" and c': "cache_ok (contents s) c'"
      have k': "ok s'" "contents s' = contents s" using k by (simp_all add: kept_def)
      define i where "i = lower_bound es d 0 (length es)"
      have sorted: "sorted_wrt (<) (map te_name es)" using tree_at_ok [OF es] by (simp add: tree_ok_def)
      note found = lower_bound_entry [OF sorted i_def]
      show "wp (let i = lower_bound es d 0 (length es) in
          if i = length es \<or> te_name (es ! i) \<noteq> d then ret None else walk_loop fetch cs (es ! i)) Q R (s', c')"
      proof (cases "i = length es \<or> te_name (es ! i) \<noteq> d")
        case stop: True
        with found Cons.prems(4) [OF k c'] True es show ?thesis
          by (simp add: i_def [symmetric] wp_ret)
      next
        case False
        have step: "walk (contents s) out (d # cs) = walk (contents s) (es ! i) cs" for cs
          using True es found False by simp
        have "wp (walk_loop fetch cs (es ! i)) Q R (s', c')"
        proof (rule Cons.IH [OF k'(1)])
          show "rooted (contents s') (es ! i)"
            unfolding k'(2) by (rule rooted_step [OF Cons.prems(3) step])
          show "cache_ok (contents s') c'" using c' k'(2) by simp
          show "R e (s'', c'')" if "io_exn e \<or> is_corrupt e \<and> incomplete (contents s') (es ! i)" "kept s' s''" for e s'' c''
            using Cons.prems(5) [of e s'' c''] that k k'(2) kept_trans incomplete_step [OF _ step] by metis
        qed (use Cons.prems(4) k k' step kept_trans in metis)
        with False show ?thesis by (simp add: i_def [symmetric])
      qed
    next
      fix e s' c'
      assume "io_exn e \<or> is_corrupt e \<and> tree_at (contents s) (te_id out) = None" and k: "kept s s'"
      then show "R e (s', c')" using Cons.prems(5) [OF _ k, of e c'] incomplete_here [OF True] by blast
    qed
  qed
qed

lemma wp_walker_lookup:
  assumes "ok s" and "cache_ok (contents s) c" and "rooted (contents s) (root_entry root)"
    and Q: "\<And>s' c'. kept s s' \<Longrightarrow> cache_ok (contents s) c' \<Longrightarrow> Q (Option.bind (split_path path)
      (walk (contents s) (root_entry root))) (s', c')"
    and R: "\<And>e s' c'. io_exn e \<or> is_corrupt e \<and>
      incomplete (contents s) (root_entry root) \<Longrightarrow> kept s s' \<Longrightarrow> R e (s', c')"
  shows "wp (walker_lookup fetch root path) Q R (s, c)"
proof (cases "split_path path")
  case None
  with assms(2) Q [OF kept_refl [OF assms(1)]] show ?thesis by (simp add: walker_lookup_def wp_ret)
next
  case (Some cs)
  with Q R show ?thesis
    unfolding walker_lookup_def by (auto intro: wp_walk_loop [OF assms(1-3)])
qed

end

section \<open>Stored trees\<close>

definition no_collision :: "(bytes \<Rightarrow> bytes) \<Rightarrow> (bytes \<Rightarrow> bytes option) \<Rightarrow> bytes list \<Rightarrow> bool" where
  "no_collision dg m ds \<longleftrightarrow> inj_on dg (ran m \<union> set ds)"

lemma blobs_append: "blobs dg (xs @ ys) ++ m = blobs dg ys ++ (blobs dg xs ++ m)"
  by (simp add: blobs_def)

lemma ran_blobs: "ran (blobs dg ds ++ m) \<subseteq> set ds \<union> ran m"
proof
  fix d
  assume "d \<in> ran (blobs dg ds ++ m)"
  then obtain h where "blobs dg ds h = Some d \<or> m h = Some d" by (auto simp: ran_def)
  then show "d \<in> set ds \<union> ran m" by (auto simp: blobs_def ran_def dest: map_of_SomeD)
qed

lemma no_collision_step: "no_collision dg m (ds @ es) \<Longrightarrow> no_collision dg (blobs dg ds ++ m) es"
  using ran_blobs [of dg ds m] by (auto simp: no_collision_def elim!: inj_on_subset)

lemma no_collision_found:
  "no_collision dg m ds \<Longrightarrow> (\<And>h d. m h = Some d \<Longrightarrow> dg d = h) \<Longrightarrow> d \<in> set ds \<Longrightarrow> m (dg d) = Some d' \<Longrightarrow> d' = d"
  by (auto simp: no_collision_def ran_def dest: inj_onD)

lemma blobs_find:
  assumes "no_collision dg m ds" and "\<And>h d. m h = Some d \<Longrightarrow> dg d = h" and "d \<in> set ds"
  shows "(blobs dg ds ++ m) (dg d) = Some d"
proof (cases "m (dg d)")
  case None
  have "\<exists>d'. map_of (map (\<lambda>d. (dg d, d)) ds) (dg d) = Some d'"
    using assms(3) by (intro weak_map_of_SomeI [of "dg d" d]) auto
  then obtain d' where d': "map_of (map (\<lambda>d. (dg d, d)) ds) (dg d) = Some d'" by blast
  from map_of_SomeD [OF this] have "d' \<in> set ds" "dg d' = dg d" by auto
  then have "d' = d" using assms(1,3) by (auto simp: no_collision_def dest: inj_onD)
  with None d' show ?thesis by (simp add: blobs_def map_add_def)
next
  case (Some d')
  then have "dg d' = dg d" "d' \<in> ran m" using assms(2) by (auto simp: ranI)
  then have "d' = d" using assms(1,3) by (auto simp: no_collision_def dest: inj_onD)
  with Some show ?thesis by simp
qed

lemma flush_blobs_dir:
  assumes "lookup_node root p = Some n" and "is_dir n"
  shows "dir_bytes dg n \<in> set (flush_blobs dg root)"
proof -
  have "p \<in> set (dir_order [([], root)])"
    using dir_order_complete [of "([], root)" "[([], root)]" p n] assms by simp
  with assms(1) show ?thesis by (force simp: flush_blobs_def tree_blobs_def)
qed

lemma entry_named_merkle:
  "entry_named (merkle_entries dg n) c =
     map_option (\<lambda>m. \<lparr>te_name = c, te_type = mn_type m, te_id = merkle dg m\<rparr>) (map_of (mn_children n) c)"
proof -
  have "map_of (map (\<lambda>x. (fst x, \<lparr>te_name = fst x, te_type = mn_type (snd x), te_id = merkle dg (snd x)\<rparr>)) xs) c =
     map_option (\<lambda>m. \<lparr>te_name = c, te_type = mn_type m, te_id = merkle dg m\<rparr>) (map_of xs c)" for xs
    by (induction xs) auto
  then show ?thesis by (simp add: entry_named_def merkle_entries_def comp_def)
qed

text \<open>The node a walk reaches is the one the path leads to in memory.\<close>

lemma walk_stored:
  assumes "\<And>p n. lookup_node root p = Some n \<Longrightarrow> is_dir n \<Longrightarrow> tree_at m (merkle dg n) = Some (merkle_entries dg n)"
  shows "walk m \<lparr>te_name = name, te_type = mn_type root, te_id = merkle dg root\<rparr> cs =
    map_option (\<lambda>n. \<lparr>te_name = last (name # cs), te_type = mn_type n, te_id = merkle dg n\<rparr>) (lookup_node root cs)"
  using assms
proof (induction cs arbitrary: root name)
  case Nil
  then show ?case by simp
next
  case (Cons c cs)
  show ?case
  proof (cases "is_dir root \<and> map_of (mn_children root) c \<noteq> None")
    case True
    then obtain sub where sub: "map_of (mn_children root) c = Some sub" by blast
    have "tree_at m (merkle dg n) = Some (merkle_entries dg n)" if "lookup_node sub p = Some n" "is_dir n" for p n
      using Cons.prems [of "c # p" n] that sub True by simp
    from Cons.IH [OF this] sub True Cons.prems [of "[]" root] show ?thesis
      by (simp add: entry_named_merkle)
  next
    case False
    with Cons.prems [of "[]" root] show ?thesis by (auto simp: entry_named_merkle)
  qed
qed

context blob_store
begin

lemma flushed_trees:
  assumes "node_ok root" and "ok s" and "no_collision digest (contents s) (flush_blobs digest root)"
    and "lookup_node root p = Some n" and "is_dir n"
  shows "tree_at (blobs digest (flush_blobs digest root) ++ contents s) (merkle digest n) = Some (merkle_entries digest n)"
proof -
  have "(blobs digest (flush_blobs digest root) ++ contents s) (digest (dir_bytes digest n)) = Some (dir_bytes digest n)"
    by (rule blobs_find [OF assms(3) contents_digest [OF assms(2)] flush_blobs_dir [OF assms(4,5)]])
  then show ?thesis
    using merkle_entries_bytes [OF node_ok_lookup [OF assms(1,4)] assms(5), of digest] digest_fits [OF assms(2)]
      merkle_dir [OF assms(5), of digest]
    by (simp add: tree_at_Some)
qed

end

end
