(* ===== verification/Nar_Dump.thy ===== *)
theory Nar_Dump
  imports Nar
begin

text \<open>
  The NAR writer does what the format says (\<open>tree_reader\<close>, \<open>nar_dumper\<close>): on a store
  whose reads can be relied on and with a sink that keeps account of its input. Sinks are the one
  of \<open>nar_sha256\<close> (\<open>src/src/tree.cpp\<close>), which hashes and counts, and one that collects.
  OpenSSL is a parameter.
\<close>

section \<open>The loop writes the format\<close>

locale tree_reader = trees: blob_source ok contents rest fetch + leaves: blob_source ok contents rest peek
  for ok :: "'s \<Rightarrow> bool" and contents :: "'s \<Rightarrow> bytes \<Rightarrow> bytes option" and rest :: "'s \<Rightarrow> 'r"
    and fetch :: "bytes \<Rightarrow> ('s, bytes option) prog" and peek :: "bytes \<Rightarrow> ('s, bytes option) prog" +
  assumes hash_length: "ok s \<Longrightarrow> contents s h = Some d \<Longrightarrow> length h = kHashLen"

lemma read_tree_on_store: "read_tree (\<lambda>h. on_store (fetch h)) h = on_store (read_tree fetch h)"
  by (auto simp: fun_eq_iff read_tree_def on_store_def bindE_def throw_def liftE_def ret_def
      split: prod.split sum.split option.split)

text \<open>What a leaf's object has behind its type tag.\<close>

definition leaf_bytes :: "char \<Rightarrow> bytes \<Rightarrow> bytes" where
  "leaf_bytes t d = (if t = CHR ''s'' then nar_string ''symlink'' @ nar_string ''target''
     else nar_string ''regular'' @ (if t = CHR ''x'' then nar_string ''executable'' @ nar_string [] else []) @
       nar_string ''contents'') @ nar_string d @ nar_string '')''"

lemma leaf_object: "nar_object (leaf_tree t d) = nar_string ''('' @ nar_string ''type'' @ leaf_bytes t d"
  by (simp add: leaf_tree_def leaf_bytes_def)

text \<open>What may be thrown when the tree cannot be written out.\<close>

definition bad_tree :: "exn \<Rightarrow> bool" where
  "bad_tree e \<longleftrightarrow> is_corrupt e \<or> e = InvalidArgument ''bad hash length''"

locale nar_dumper = tree_reader ok contents rest fetch peek + nar_sink fine seen sink
  for ok :: "'s \<Rightarrow> bool" and contents :: "'s \<Rightarrow> bytes \<Rightarrow> bytes option" and rest :: "'s \<Rightarrow> 'r"
    and fetch :: "bytes \<Rightarrow> ('s, bytes option) prog" and peek :: "bytes \<Rightarrow> ('s, bytes option) prog"
    and fine :: "'c \<Rightarrow> bool" and seen :: "'c \<Rightarrow> bytes" and sink :: "bytes \<Rightarrow> ('s \<times> 'c, unit) prog"
begin

lemma wp_tree_children:
  assumes "ok s"
    and "\<And>es s'. tree_at (contents s) h = Some es \<Longrightarrow> trees.kept s s' \<Longrightarrow> Q es (s', c)"
    and "\<And>e s'. io_exn e \<or> bad_tree e \<and> tree_at (contents s) h = None \<Longrightarrow> trees.kept s s' \<Longrightarrow> R e (s', c)"
  shows "wp (read_tree (\<lambda>h. on_store (fetch h)) h) Q R (s, c)"
proof (cases "length h = kHashLen")
  case True
  with assms show ?thesis
    by (auto simp: read_tree_on_store wp_on_store bad_tree_def intro!: trees.wp_read_tree)
next
  case False
  then have "tree_at (contents s) h = None"
    using hash_length [OF assms(1)] by (auto simp: tree_at_def split: option.split)
  with False assms(1,3) show ?thesis
    by (simp add: read_tree_on_store wp_on_store bad_tree_def)
      (simp add: wp_def trees.read_tree_bad trees.kept_refl)
qed

lemma wp_leaf_contents:
  assumes "ok s"
    and "\<And>s'. trees.kept s s' \<Longrightarrow> Q (contents s h) (s', c)"
    and "\<And>e s'. io_exn e \<or> bad_tree e \<and> contents s h = None \<Longrightarrow> trees.kept s s' \<Longrightarrow> R e (s', c)"
  shows "wp (on_store (peek h)) Q R (s, c)"
proof (cases "length h = kHashLen")
  case True
  with assms show ?thesis
    by (auto simp: wp_on_store intro!: leaves.wp_fetch)
next
  case False
  then have "contents s h = None" using hash_length [OF assms(1)] by (cases "contents s h") auto
  with False assms(1,3) show ?thesis
    by (simp add: wp_on_store bad_tree_def) (simp add: wp_def leaves.fetch_bad trees.kept_refl)
qed

lemma wp_nar_leaf:
  assumes "ok s" and "fine c"
    and "\<And>d s' c'. contents s (te_id e) = Some d \<Longrightarrow> trees.kept s s' \<Longrightarrow> fine c' \<Longrightarrow>
      seen c' = seen c @ leaf_bytes (te_type e) d \<Longrightarrow> Q () (s', c')"
    and "\<And>x s' c'. io_exn x \<or> bad_tree x \<and> contents s (te_id e) = None \<Longrightarrow> trees.kept s s' \<Longrightarrow> R x (s', c')"
  shows "wp (nar_leaf (\<lambda>h. on_store (peek h)) sink e) Q R (s, c)"
  unfolding nar_leaf_def wp_bindE
proof (rule wp_leaf_contents [OF assms(1)])
  fix s'
  assume k: "trees.kept s s'"
  show "wp (case contents s (te_id e) of None \<Rightarrow> throw (CorruptError ''missing blob'')
    | Some contents \<Rightarrow>
       thenE (if te_type e = CHR ''s'' then thenE (nar_str sink ''symlink'') (nar_str sink ''target'')
         else thenE (nar_str sink ''regular'')
           (thenE (whenE (te_type e = CHR ''x'') (thenE (nar_str sink ''executable'') (nar_str sink [])))
             (nar_str sink ''contents'')))
       (thenE (nar_str sink contents) (nar_str sink '')''))) Q R (s', c)"
  proof (cases "contents s (te_id e)")
    case None
    with assms(4) k show ?thesis by (simp add: wp_throw bad_tree_def)
  next
    case (Some d)
    have R: "R x (s', c')" if "io_exn x" for x c' using assms(4) that k by blast
    have Q: "Q () (s', c')" if "fine c'" "seen c' = seen c @ leaf_bytes (te_type e) d" for c'
      using assms(3) that k Some by blast
    show ?thesis
      by (cases "te_type e = CHR ''s''"; cases "te_type e = CHR ''x''")
        (auto simp: Some wp_simps leaf_bytes_def intro!: wp_nar_str assms(2) Q R)
  qed
qed (use assms(4) in blast)


lemma wp_nar_loop:
  assumes "ok s" and "fine c"
    and "\<And>b s' c'. work_bytes (contents s) work = Some b \<Longrightarrow> trees.kept s s' \<Longrightarrow> fine c' \<Longrightarrow> seen c' = seen c @ b \<Longrightarrow> Q () (s', c')"
    and "\<And>x s' c'. io_exn x \<or> bad_tree x \<and> work_bytes (contents s) work = None \<Longrightarrow> trees.kept s s' \<Longrightarrow> R x (s', c')"
  shows "wp (nar_loop (\<lambda>h. on_store (fetch h)) (\<lambda>h. on_store (peek h)) sink work) Q R (s, c)"
  using assms
proof (induction F \<equiv> "\<lambda>h. on_store (fetch h) :: ('s \<times> 'c, bytes option) prog"
    V \<equiv> "\<lambda>h. on_store (peek h) :: ('s \<times> 'c, bytes option) prog" K \<equiv> sink work
    arbitrary: s c rule: nar_loop.induct)
  case 1
  then show ?case using trees.kept_refl by (auto simp: wp_ret)
next
  case (2 str work)
  note prems = 2(2-5)
  show ?case
    unfolding nar_loop.simps wp_thenE
  proof (rule wp_nar_str [OF prems(2)])
    fix c1
    assume c1: "fine c1" "seen c1 = seen c @ nar_string str"
    show "wp (nar_loop (\<lambda>h. on_store (fetch h)) (\<lambda>h. on_store (peek h)) sink work) Q R (s, c1)"
    proof (rule 2(1) [OF prems(1) c1(1)])
      show "Q () (s', c')" if "work_bytes (contents s) work = Some b" "trees.kept s s'" "fine c'" "seen c' = seen c1 @ b" for b s' c'
        using prems(3) [of "nar_string str @ b" s' c'] that c1(2) by simp
      show "R x (s', c')" if "io_exn x \<or> bad_tree x \<and> work_bytes (contents s) work = None" "trees.kept s s'" for x s' c'
        using prems(4) [of x s' c'] that by auto
    qed
  qed (use prems(4) trees.kept_refl [OF prems(1)] in blast)
next
  case (3 entry depth work)
  note prems = 3(3-6)
  have io: "R x (s, c')" if "io_exn x" for x c' using prems(4) trees.kept_refl [OF prems(1)] that by blast
  show ?case
  proof (cases "kMaxTreeDepth < depth")
    case True
    with io show ?thesis by (simp add: wp_throw)
  next
    case False
    then have depth: "depth \<le> kMaxTreeDepth" by simp
    show ?thesis
    proof (cases "te_type entry = CHR ''d''")
      case True
      note item = fs_of_dir [OF True depth, of "contents s"]
      show ?thesis
        unfolding nar_loop.simps if_not_P [OF False] if_P [OF True] wp_thenE wp_bindE
      proof (rule wp_nar_str [OF prems(2)], rule wp_nar_str, assumption, rule wp_nar_str, assumption, rule wp_tree_children [OF prems(1)])
        fix c1 c2 c3 es s'
        assume "seen c1 = seen c @ nar_string ''(''" "seen c2 = seen c1 @ nar_string ''type''"
          and c3: "fine c3" "seen c3 = seen c2 @ nar_string ''directory''"
          and es: "tree_at (contents s) (te_id entry) = Some es" and k: "trees.kept s s'"
        then have seen: "seen c3 = seen c @ nar_string ''('' @ nar_string ''type'' @ nar_string ''directory''" by simp
        have s': "ok s'" "contents s' = contents s" using k by (simp_all add: trees.kept_def)
        note push = work_bytes_push [OF depth, of "contents s" es work]
        show "wp (nar_loop (\<lambda>h. on_store (fetch h)) (\<lambda>h. on_store (peek h)) sink (nar_push depth es work)) Q R (s', c3)"
        proof (rule 3(1) [OF False True s'(1) c3(1)])
          show "Q () (s'', c')" if "work_bytes (contents s') (nar_push depth es work) = Some b" "trees.kept s' s''" "fine c'"
              "seen c' = seen c3 @ b" for b s'' c'
            using prems(3) [of "nar_string ''('' @ nar_string ''type'' @ nar_string ''directory'' @ b" s'' c'] that seen
              trees.kept_trans [OF k that(2)] item
            by (auto simp: s' push es split: option.splits)
          show "R x (s'', c')" if "io_exn x \<or> bad_tree x \<and> work_bytes (contents s') (nar_push depth es work) = None"
              "trees.kept s' s''" for x s'' c'
            using prems(4) [of x s'' c'] that trees.kept_trans [OF k that(2)] item
            by (auto simp: s' push es split: option.splits)
        qed
      next
        show "R x (s', c')" if "io_exn x \<or> bad_tree x \<and> tree_at (contents s) (te_id entry) = None" "trees.kept s s'" for x s' c'
          using prems(4) [of x s' c'] that item by auto
      qed (rule io, assumption)+
    next
      case leaf: False
      note item = fs_of_leaf [OF leaf depth, of "contents s"]
      show ?thesis
        unfolding nar_loop.simps if_not_P [OF False] if_not_P [OF leaf] wp_thenE
      proof (rule wp_nar_str [OF prems(2)], rule wp_nar_str, assumption, rule wp_nar_leaf [OF prems(1)], assumption)
        fix c1 c2 c3 d s'
        assume "seen c1 = seen c @ nar_string ''(''" "seen c2 = seen c1 @ nar_string ''type''"
          and c3: "fine c3" "seen c3 = seen c2 @ leaf_bytes (te_type entry) d"
          and d: "contents s (te_id entry) = Some d" and k: "trees.kept s s'"
        then have seen: "seen c3 = seen c @ nar_object (leaf_tree (te_type entry) d)" by (simp add: leaf_object)
        have s': "ok s'" "contents s' = contents s" using k by (simp_all add: trees.kept_def)
        show "wp (nar_loop (\<lambda>h. on_store (fetch h)) (\<lambda>h. on_store (peek h)) sink work) Q R (s', c3)"
        proof (rule 3(2) [OF False leaf s'(1) c3(1)])
          show "Q () (s'', c')" if "work_bytes (contents s') work = Some b" "trees.kept s' s''" "fine c'"
              "seen c' = seen c3 @ b" for b s'' c'
            using prems(3) [of "nar_object (leaf_tree (te_type entry) d) @ b" s'' c'] that seen
              trees.kept_trans [OF k that(2)] item by (auto simp: s' d)
          show "R x (s'', c')" if "io_exn x \<or> bad_tree x \<and> work_bytes (contents s') work = None"
              "trees.kept s' s''" for x s'' c'
            using prems(4) [of x s'' c'] that trees.kept_trans [OF k that(2)] by (auto simp: s' split: option.splits)
        qed
      next
        show "R x (s', c')" if "io_exn x \<or> bad_tree x \<and> contents s (te_id entry) = None" "trees.kept s s'" for x s' c'
          using prems(4) [of x s' c'] that item by auto
      qed (rule io, assumption)+
    qed
  qed
qed

lemma wp_nar_dump:
  assumes "ok s" and "fine c"
    and Q: "\<And>t s' c'. fs_of (contents s) (kMaxTreeDepth + 1) (root_entry root) = Some t \<Longrightarrow> trees.kept s s' \<Longrightarrow>
      fine c' \<Longrightarrow> seen c' = seen c @ nar t \<Longrightarrow> Q () (s', c')"
    and R: "\<And>x s' c'. io_exn x \<or> bad_tree x \<and> fs_of (contents s) (kMaxTreeDepth + 1) (root_entry root) = None \<Longrightarrow>
      trees.kept s s' \<Longrightarrow> R x (s', c')"
  shows "wp (nar_dump (\<lambda>h. on_store (fetch h)) (\<lambda>h. on_store (peek h)) sink root) Q R (s, c)"
  unfolding nar_dump_def wp_thenE
proof (rule wp_nar_str [OF assms(2)], rule wp_nar_loop [OF assms(1)], assumption)
  show "Q () (s', c')" if "seen c1 = seen c @ nar_string ''nix-archive-1''"
    "work_bytes (contents s) [NarNode (root_entry root) 0] = Some b" "trees.kept s s'" "fine c'" "seen c' = seen c1 @ b"
    for c1 b s' c'
    using that Q [of _ s' c'] by (auto simp: nar_def split: option.splits)
  show "R x (s', c')" if "io_exn x \<or> bad_tree x \<and> work_bytes (contents s) [NarNode (root_entry root) 0] = None"
    "trees.kept s s'" for x s' c'
    using that R [of x s' c'] by (auto split: option.splits)
qed (use R trees.kept_refl [OF assms(1)] in blast)

end

section \<open>Hashing on the way\<close>

text \<open>OpenSSL's digest contexts: each call may fail; what a context has absorbed and the hash
  function are only spoken of.\<close>

record 'c evp =
  evp_new :: "'c option"
  evp_init :: "'c \<Rightarrow> 'c option"
  evp_update :: "'c \<Rightarrow> bytes \<Rightarrow> 'c option"
  evp_final :: "'c \<Rightarrow> bytes option"
  evp_absorbed :: "'c \<Rightarrow> bytes"
  evp_sha256 :: "bytes \<Rightarrow> bytes"

definition evp_ok :: "'c evp \<Rightarrow> bool" where
  "evp_ok X \<longleftrightarrow> (\<forall>c c'. evp_init X c = Some c' \<longrightarrow> evp_absorbed X c' = []) \<and>
     (\<forall>c d c'. evp_update X c d = Some c' \<longrightarrow> evp_absorbed X c' = evp_absorbed X c @ d) \<and>
     (\<forall>c d. evp_final X c = Some d \<longrightarrow> d = evp_sha256 X (evp_absorbed X c))"

definition kSha256Len :: nat where "kSha256Len = 32"
definition kHashBufSize :: nat where "kHashBufSize = 2 ^ 16"
definition kHashDirectThreshold :: nat where "kHashDirectThreshold = 256"

record 'c hash_state =
  hs_ctx :: 'c
  hs_buf :: bytes
  hs_size :: u64

definition hash_update :: "'c evp \<Rightarrow> bytes \<Rightarrow> ('s \<times> 'c hash_state, unit) prog" where
  "hash_update X chunk = bindE (readS (\<lambda>s. evp_update X (hs_ctx (snd s)) chunk)) (\<lambda>r. case r of
     None \<Rightarrow> throw (RuntimeError ''sha256 update failed'')
   | Some c \<Rightarrow> modS (\<lambda>(s, h). (s, h\<lparr>hs_ctx := c\<rparr>)))"

definition hash_flush :: "'c evp \<Rightarrow> ('s \<times> 'c hash_state, unit) prog" where
  "hash_flush X = bindE (readS (\<lambda>s. hs_buf (snd s))) (\<lambda>buf. whenE (buf \<noteq> [])
     (thenE (hash_update X buf) (modS (\<lambda>(s, h). (s, h\<lparr>hs_buf := []\<rparr>)))))"

definition hash_sink :: "'c evp \<Rightarrow> bytes \<Rightarrow> ('s \<times> 'c hash_state, unit) prog" where
  "hash_sink X chunk = thenE (modS (\<lambda>(s, h). (s, h\<lparr>hs_size := hs_size h + of_nat (length chunk)\<rparr>)))
     (if kHashDirectThreshold \<le> length chunk then thenE (hash_flush X) (hash_update X chunk)
      else thenE (bindE (readS (\<lambda>s. length (hs_buf (snd s)))) (\<lambda>n.
          whenE (kHashBufSize < n + length chunk) (hash_flush X)))
        (modS (\<lambda>(s, h). (s, h\<lparr>hs_buf := hs_buf h @ chunk\<rparr>))))"

definition nar_sha256 ::
  "'c evp \<Rightarrow> (bytes \<Rightarrow> ('s, bytes option) prog) \<Rightarrow> (bytes \<Rightarrow> ('s, bytes option) prog) \<Rightarrow> bytes \<Rightarrow> ('s, bytes \<times> u64) prog" where
  "nar_sha256 X fetch peek root = (case Option.bind (evp_new X) (evp_init X) of
     None \<Rightarrow> throw (RuntimeError ''sha256 init failed'')
   | Some c \<Rightarrow> with_local \<lparr>hs_ctx = c, hs_buf = [], hs_size = 0\<rparr>
       (thenE (nar_dump (\<lambda>h. on_store (fetch h)) (\<lambda>h. on_store (peek h)) (hash_sink X) root)
       (thenE (hash_flush X) (bindE (readS snd) (\<lambda>h. case evp_final X (hs_ctx h) of
          None \<Rightarrow> throw (RuntimeError ''sha256 final failed'')
        | Some digest \<Rightarrow> if length digest \<noteq> kSha256Len then throw (RuntimeError ''sha256 final failed'')
            else ret (digest, hs_size h))))))"

text \<open>What has gone through the sink is what the context has absorbed and the buffer holds.\<close>

definition hash_seen :: "'c evp \<Rightarrow> 'c hash_state \<Rightarrow> bytes" where
  "hash_seen X h = evp_absorbed X (hs_ctx h) @ hs_buf h"

definition hash_fine :: "'c evp \<Rightarrow> 'c hash_state \<Rightarrow> bool" where
  "hash_fine X h \<longleftrightarrow> evp_ok X \<and> length (hs_buf h) \<le> kHashBufSize \<and> hs_size h = of_nat (length (hash_seen X h))"

lemma wp_hash_update:
  assumes "evp_ok X"
    and "\<And>c. evp_absorbed X c = evp_absorbed X (hs_ctx h) @ d \<Longrightarrow> Q () (s, h\<lparr>hs_ctx := c\<rparr>)"
    and "\<And>e. io_exn e \<Longrightarrow> R e (s, h)"
  shows "wp (hash_update X d) Q R (s, h)"
  using assms by (auto simp: hash_update_def wp_simps evp_ok_def split: option.split)

lemma wp_hash_flush:
  assumes "evp_ok X"
    and "\<And>h'. hash_seen X h' = hash_seen X h \<Longrightarrow> hs_buf h' = [] \<Longrightarrow> hs_size h' = hs_size h \<Longrightarrow> Q () (s, h')"
    and "\<And>e. io_exn e \<Longrightarrow> R e (s, h)"
  shows "wp (hash_flush X) Q R (s, h)"
  using assms by (auto simp: hash_flush_def wp_simps hash_seen_def intro!: wp_hash_update)

lemma wp_hash_sink:
  assumes "hash_fine X h"
  shows "wp (hash_sink X d) (\<lambda>_ sc. fst sc = s \<and> hash_fine X (snd sc) \<and> hash_seen X (snd sc) = hash_seen X h @ d)
    (\<lambda>e sc. io_exn e \<and> fst sc = s) (s, h)"
proof -
  have X: "evp_ok X" using assms by (simp add: hash_fine_def)
  show ?thesis
  proof (cases "kHashDirectThreshold \<le> length d")
    case True
    then show ?thesis
      using assms unfolding hash_sink_def if_P [OF True] wp_thenE wp_modS
      by (auto intro!: wp_hash_flush [OF X] wp_hash_update [OF X] simp: hash_fine_def hash_seen_def)
  next
    case False
    then have small: "length d \<le> kHashBufSize" by (simp add: kHashDirectThreshold_def kHashBufSize_def)
    show ?thesis
      using assms small unfolding hash_sink_def if_not_P [OF False] wp_thenE wp_modS wp_bindE wp_readS wp_whenE
      by (auto intro!: wp_hash_flush [OF X] simp: hash_fine_def hash_seen_def wp_modS)
  qed
qed

interpretation hash: nar_sink "hash_fine X" "hash_seen X" "hash_sink X" for X
  by unfold_locales (rule wp_hash_sink)

text \<open>A sink that collects its input.\<close>

definition append_sink :: "bytes \<Rightarrow> ('s \<times> bytes, unit) prog" where
  "append_sink d = modS (\<lambda>(s, out). (s, out @ d))"

interpretation append: nar_sink "\<lambda>_. True" "\<lambda>out. out" append_sink
  by unfold_locales (simp add: append_sink_def wp_modS)

context tree_reader
begin

sublocale hashed: nar_dumper ok contents rest fetch peek "hash_fine X" "hash_seen X" "hash_sink X" for X :: "'c evp"
  by unfold_locales

lemma wp_nar_sha256:
  assumes "ok s" and X: "evp_ok X"
    and Q: "\<And>t s'. fs_of (contents s) (kMaxTreeDepth + 1) (root_entry root) = Some t \<Longrightarrow> trees.kept s s' \<Longrightarrow>
      Q (evp_sha256 X (nar t), of_nat (length (nar t))) s'"
    and R: "\<And>x s'. io_exn x \<or> bad_tree x \<and> fs_of (contents s) (kMaxTreeDepth + 1) (root_entry root) = None \<Longrightarrow> trees.kept s s' \<Longrightarrow> R x s'"
  shows "wp (nar_sha256 X fetch peek root) Q R s"
proof (cases "Option.bind (evp_new X) (evp_init X)")
  case None
  with R [OF _ trees.kept_refl [OF assms(1)]] show ?thesis by (simp add: nar_sha256_def wp_throw)
next
  case (Some c)
  then have "evp_absorbed X c = []" using X by (auto simp: evp_ok_def bind_eq_Some_conv)
  then have start: "hash_fine X \<lparr>hs_ctx = c, hs_buf = [], hs_size = 0\<rparr>" "hash_seen X \<lparr>hs_ctx = c, hs_buf = [], hs_size = 0\<rparr> = []"
    using X by (simp_all add: hash_fine_def hash_seen_def)
  show ?thesis
    unfolding nar_sha256_def Some option.case wp_with_local wp_thenE
  proof (rule hashed.wp_nar_dump [OF assms(1) start(1)], unfold start(2) append_Nil)
    fix t s' h
    assume t: "fs_of (contents s) (kMaxTreeDepth + 1) (root_entry root) = Some t" "trees.kept s s'"
      and h: "hash_fine X h" "hash_seen X h = nar t"
    show "wp (hash_flush X) (\<lambda>_. wp (bindE (readS snd) (\<lambda>h. case evp_final X (hs_ctx h) of
          None \<Rightarrow> throw (RuntimeError ''sha256 final failed'')
        | Some digest \<Rightarrow> if length digest \<noteq> kSha256Len then throw (RuntimeError ''sha256 final failed'')
            else ret (digest, hs_size h))) (\<lambda>a sc. Q a (fst sc)) (\<lambda>e sc. R e (fst sc))) (\<lambda>e sc. R e (fst sc)) (s', h)"
    proof (rule wp_hash_flush [OF X])
      fix h'
      assume h': "hash_seen X h' = hash_seen X h" "hs_buf h' = []" "hs_size h' = hs_size h"
      then have "evp_absorbed X (hs_ctx h') = nar t" using h(2) by (simp add: hash_seen_def)
      then have "evp_final X (hs_ctx h') = Some d \<Longrightarrow> d = evp_sha256 X (nar t)" for d
        using X unfolding evp_ok_def by metis
      moreover have "hs_size h' = of_nat (length (nar t))" using h h'(3) by (simp add: hash_fine_def)
      moreover have "io_exn x \<Longrightarrow> R x s'" for x using R t(2) by blast
      ultimately show "wp (bindE (readS snd) (\<lambda>h. case evp_final X (hs_ctx h) of
          None \<Rightarrow> throw (RuntimeError ''sha256 final failed'')
        | Some digest \<Rightarrow> if length digest \<noteq> kSha256Len then throw (RuntimeError ''sha256 final failed'')
            else ret (digest, hs_size h))) (\<lambda>a sc. Q a (fst sc)) (\<lambda>e sc. R e (fst sc)) (s', h')"
        using Q [OF t] by (auto simp: wp_simps split: option.split)
    qed (use R t(2) in auto)
  qed (use R in auto)
qed

end

section \<open>The pack CAS as the store\<close>

interpretation pack_trees: tree_reader "\<lambda>s. pack_ok E s \<and> pack_fits E s" "store_view E" "pack_rest E" "get E" "get_view E" for E
proof (intro tree_reader.intro get_fits_source pack_view.blob_source_axioms tree_reader_axioms.intro)
  fix s h d
  assume "pack_ok E s \<and> pack_fits E s" "store_view E s h = Some d"
  then show "length h = kHashLen" using pack.contents_digest pack.digest_length by metis
qed

interpretation pack_nar: nar_dumper "\<lambda>s. pack_ok E s \<and> pack_fits E s" "store_view E" "pack_rest E" "get E" "get_view E"
    "\<lambda>_. True" "\<lambda>out. out" append_sink for E
  by unfold_locales

end
