(* ===== verification/Tree_Spec.thy ===== *)
theory Tree_Spec
  imports Pack_Spec Nar_Dump
begin

text \<open>
  What the tree layer promises, each property with an instance on the platform of \<open>Sample\<close>.
\<close>

section \<open>Tree objects\<close>

text \<open>C35: Tree objects are canonical: the buffers \<open>readTree\<close> accepts are exactly those \<open>putTree\<close>
  writes for a list of well-formed entries in strictly ascending name order, and parsing gives
  that list back.\<close>

theorem tree_objects_canonical:
  "parse_tree [] buf = Inr es \<longleftrightarrow> tree_ok es \<and> tree_bytes es = Inr buf"
  by (rule parse_tree_iff)

text \<open>A directory that was put reads back entry by entry, if the hash of its tree object did not
  already name another blob.\<close>

theorem put_tree_then_read_tree:
  assumes "pack_ok E s" and "tree_ok es" and "tree_bytes es = Inr d" and "length d \<le> max_off"
    and "\<forall>d'. store_view E s (blake3 E d) = Some d' \<longrightarrow> d' = d"
  shows "wp (bindE (put_tree (put E) es) (read_tree (get E))) (\<lambda>r s'. r = es \<and> pack_ok E s')
    (\<lambda>e s'. io_exn e) s"
  unfolding wp_bindE
proof (rule pack.wp_put_tree [OF assms(1,3,4)])
  fix s'
  assume s': "pack_ok E s'" "store_view E s' = [blake3 E d \<mapsto> d] ++ store_view E s"
  have "tree_at (store_view E s') (blake3 E d) = Some es"
    unfolding s'(2) by (rule pack.stored_tree [OF assms(2,3)])
      (use assms(5) in \<open>cases "store_view E s (blake3 E d)"; simp\<close>)
  moreover have "length (blake3 E d) = kHashLen" by (rule pack.digest_length [OF s'(1)])
  ultimately show "wp (read_tree (get E) (blake3 E d)) (\<lambda>r s'. r = es \<and> pack_ok E s') (\<lambda>e s'. io_exn e) s'"
    by (intro pack.wp_read_tree [OF s'(1)]) (auto simp: pack.kept_def)
qed

theorem put_tree_then_read_tree_witness:
  "wp (bindE (put_tree (put sample) [\<lparr>te_name = ''a'', te_type = CHR ''r'', te_id = ''x''\<rparr>]) (read_tree (get sample)))
    (\<lambda>r s'. map te_name r = [''a'']) (\<lambda>e s'. io_exn e) sample_cas"
  by (rule wp_mono [OF put_tree_then_read_tree [OF sample_pack_ok, where
        d = "tree_entry_bytes \<lparr>te_name = ''a'', te_type = CHR ''r'', te_id = ''x''\<rparr>"]])
    (auto simp: tree_ok_def entry_ok_def tree_type_def kMaxNameLen_def kMaxIdLen_def tree_entry_bytes_def
      max_off_def sample_view)

section \<open>Paths\<close>

text \<open>C37: The components of a path are proper names (not empty, no slash, neither dot nor dot-dot, at
  most 65535 bytes) and at most 512, so no path leads out of the tree; joined by slashes they
  split into themselves, so splitting is a normal form.\<close>

theorem split_path_normal_form:
  assumes "split_path path = Some cs"
  shows "path_ok cs \<and> split_path (join_path cs) = Some cs"
  using split_path_ok [OF assms] by (simp add: split_path_join)

theorem split_path_normal_form_witness:
  "split_path ''a//./b/../../../c'' = Some [''c''] \<and> path_ok [''c'']"
proof -
  have "split_path ''a//./b/../../../c'' = Some [''c'']"
    by (simp add: split_path_def split_loop.simps kMaxNameLen_def kMaxTreeDepth_def)
  with split_path_normal_form [OF this] show ?thesis by simp
qed

section \<open>The tree of an ingest\<close>

text \<open>C33: Adding an entry to the in-memory tree does to the function from paths to entries what the
  rules for overwriting say: it is refused exactly when a file is in the way or a file would replace
  the root or a non-empty directory; otherwise the path gets the entry (an existing directory
  stays one with what is in it), missing parents become directories, and no other path changes.\<close>

theorem add_node_refines_paths:
  assumes "mn_children node = []"
  shows "case add_node root p path node of
      Inl e \<Rightarrow> blocked True (paths root) p (entry_of node)
    | Inr root' \<Rightarrow> \<not> blocked True (paths root) p (entry_of node) \<and>
        paths root' = inserted (paths root) p (entry_of node)"
  using add_at_paths [OF assms] by (simp add: added_def add_node_def)

definition sample_tree :: mem_node where
  "sample_tree = MemNode (CHR ''d'') [] [(''a'', MemNode (CHR ''r'') ''x'' []),
     (''b'', MemNode (CHR ''d'') [] [(''c'', MemNode (CHR ''s'') ''y'' [])])]"

theorem add_node_refines_paths_witness:
  "\<exists>e. add_node sample_tree [''a'', ''z''] ''a/z'' (MemNode (CHR ''r'') ''w'' []) = Inl e \<and>
     blocked True (paths sample_tree) [''a'', ''z''] (File (CHR ''r'') ''w'')"
  using add_node_refines_paths [of "MemNode (CHR ''r'') ''w'' []" sample_tree "[''a'', ''z'']" "''a/z''"]
  by (simp add: sample_tree_def add_node_def)

text \<open>C1: Flushing a tree writes every directory below before the ones above and answers with the
  Merkle hash of the tree, and afterwards walking the stored objects from that hash reaches, path by
  path, exactly the entries of the in-memory tree: same names, types and blob hashes, nothing more
  and nothing less. No other blob is lost, no meta record changes. Needs that no two of the blobs
  involved have the same hash.\<close>

theorem flush_stores_tree:
  assumes "pack_ok E s" and "node_ok root" and "is_dir root" and "dirs_fit (blake3 E) root"
    and "no_collision (blake3 E) (store_view E s) (flush_blobs (blake3 E) root)"
  shows "wp (flush_tree (put E) root)
    (\<lambda>h s'. h = merkle (blake3 E) root \<and> pack_ok E s' \<and> store_view E s \<subseteq>\<^sub>m store_view E s' \<and>
       reader_table E s' Meta = reader_table E s Meta \<and>
       (\<forall>cs. walk (store_view E s') (root_entry h) cs = map_option
         (\<lambda>n. \<lparr>te_name = last ([] # cs), te_type = mn_type n, te_id = merkle (blake3 E) n\<rparr>) (lookup_node root cs)))
    (\<lambda>e s'. io_exn e) s"
proof (rule pack.wp_flush_tree [OF assms(2,3,1,4)])
  fix s'
  assume s': "pack_ok E s'" "store_view E s' = blobs (blake3 E) (flush_blobs (blake3 E) root) ++ store_view E s"
    "pack_rest E s' = pack_rest E s"
  have "walk (store_view E s') (root_entry (merkle (blake3 E) root)) cs = map_option
     (\<lambda>n. \<lparr>te_name = last ([] # cs), te_type = mn_type n, te_id = merkle (blake3 E) n\<rparr>) (lookup_node root cs)" for cs
    using walk_stored [where name = "[]" and cs = cs and root = root, OF pack.flushed_trees [OF assms(2,1,5)]] assms(3)
    by (simp add: s'(2) root_entry_def)
  then show "merkle (blake3 E) root = merkle (blake3 E) root \<and> pack_ok E s' \<and> store_view E s \<subseteq>\<^sub>m store_view E s' \<and>
       reader_table E s' Meta = reader_table E s Meta \<and>
       (\<forall>cs. walk (store_view E s') (root_entry (merkle (blake3 E) root)) cs = map_option
         (\<lambda>n. \<lparr>te_name = last ([] # cs), te_type = mn_type n, te_id = merkle (blake3 E) n\<rparr>) (lookup_node root cs))"
    using s' by (simp add: pack_rest_def map_le_map_add)
qed simp

lemma sample_tree_flush:
  "node_ok sample_tree" "is_dir sample_tree" "dirs_fit sample_hash sample_tree"
  "no_collision sample_hash Map.empty (flush_blobs sample_hash sample_tree)"
  by (simp_all add: sample_tree_def tree_type_def comp_ok_def kMaxNameLen_def kMaxIdLen_def)
    (simp_all add: dirs_fit_def no_collision_def flush_blobs_def tree_blobs_def sub_dirs_def dir_bytes_def
      merkle.simps tree_entry_bytes_def sample_hash_def max_off_def len_byte_def)

theorem flush_stores_tree_witness:
  "wp (flush_tree (put sample) sample_tree)
    (\<lambda>h s'. map_option te_id (walk (store_view sample s') (root_entry h) [''b'', ''c'']) = Some ''y'')
    (\<lambda>e s'. io_exn e) sample_cas"
proof -
  have "lookup_node sample_tree [''b'', ''c''] = Some (MemNode (CHR ''s'') ''y'' [])"
    by (simp add: sample_tree_def)
  then show ?thesis
    by (intro wp_mono [OF flush_stores_tree [OF sample_pack_ok sample_tree_flush(1,2)]])
      (simp_all add: sample_tree_flush(3,4) sample_view merkle_file del: walk.simps lookup_node.simps)
qed

section \<open>Looking paths up\<close>

text \<open>C11: Looking a path up in a stored tree, with whatever valid cache, answers what a walk over the
  stored objects along the path's components finds, by binary search in each directory; the store
  is left alone and the cache stays valid. It calls the store corrupt only if a tree object below
  the root is missing or broken.\<close>

theorem lookup_walks_tree:
  assumes "pack_ok E s" and "cache_ok (store_view E s) c" and "rooted (store_view E s) (root_entry root)"
  shows "wp (walker_lookup (get E) root path)
    (\<lambda>r (s', c'). r = Option.bind (split_path path) (walk (store_view E s) (root_entry root)) \<and>
       pack_ok E s' \<and> store_view E s' = store_view E s \<and> cache_ok (store_view E s) c')
    (\<lambda>e (s', c'). (io_exn e \<or> is_corrupt e \<and> incomplete (store_view E s) (root_entry root)) \<and>
       pack_ok E s' \<and> store_view E s' = store_view E s) (s, c)"
  by (rule pack.wp_walker_lookup [OF assms]) (auto simp: pack.kept_def)

lemma walk_missing: "m h = None \<Longrightarrow> walk m (root_entry h) cs = (if cs = [] then Some (root_entry h) else None)"
  by (cases cs) (simp_all add: root_entry_def tree_at_def)

theorem lookup_walks_tree_witness:
  "wp (walker_lookup (get sample) (sample_hash ''hi'') ''/'') (\<lambda>r sc. r = Some (root_entry (sample_hash ''hi'')))
    (\<lambda>e sc. io_exn e \<or> is_corrupt e) (sample_cas, Map.empty)"
proof (rule wp_mono [OF lookup_walks_tree [OF sample_pack_ok cache_ok_empty]])
  show "rooted (store_view sample sample_cas) (root_entry (sample_hash ''hi''))"
    by (auto simp: rooted_def sample_view walk_missing split: if_splits) (simp add: root_entry_def)
  show "r = Some (root_entry (sample_hash ''hi''))"
    if "case sc of (s', c') \<Rightarrow> r = Option.bind (split_path ''/'') (walk (store_view sample sample_cas) (root_entry (sample_hash ''hi''))) \<and>
       pack_ok sample s' \<and> store_view sample s' = store_view sample sample_cas \<and> cache_ok (store_view sample sample_cas) c'" for r sc
    using that by (auto simp: split_path_def split_loop.simps)
qed auto

text \<open>C40: After one failed read of a tree (a short-lived I/O error is enough) the walker's cache holds an
  empty directory in its place: every later lookup below it answers that there is no such file,
  without an error, whatever the store holds by then.\<close>

theorem failed_read_hides_tree:
  assumes "read_tree (get E) root s = (Inl e, s')" and "c root = None" and "split_path path = Some (x # xs)"
  shows "walker_lookup (get E) root path (s, c) = (Inl e, (s', c(root \<mapsto> []))) \<and>
    walker_lookup (get E) root path (t, c(root \<mapsto> [])) = (Inr None, (t, c(root \<mapsto> [])))"
  using assms
  by (simp add: walker_lookup_def root_entry_def walker_tree_def bindE_def thenE_def readS_def modS_def ret_def
      on_store_def lower_bound.simps)

theorem failed_read_hides_tree_witness:
  "\<exists>e. walker_lookup (get sample) ''short'' ''a'' (sample_cas, Map.empty) =
      (Inl e, (sample_cas, [''short'' \<mapsto> []])) \<and>
    walker_lookup (get sample) ''short'' ''a'' (sample_cas, [''short'' \<mapsto> []]) =
      (Inr None, (sample_cas, [''short'' \<mapsto> []]))"
  using failed_read_hides_tree [OF pack.read_tree_bad, where root = "''short''" and E = sample and s = sample_cas and
      c = Map.empty and path = "''a''" and x = "''a''" and xs = "[]" and t = sample_cas]
  by (simp add: kHashLen_def split_path_def split_loop.simps kMaxNameLen_def kMaxTreeDepth_def)

section \<open>NAR serialisation\<close>

text \<open>C12: Dumping a root writes exactly the NAR of the file system tree stored below it and leaves the
  store alone; it always ends. It fails only with an error of the environment, or because there is
  no such tree: an object below the root is missing or broken, or the tree is deeper than the
  limit.\<close>

theorem nar_dump_writes_nar:
  assumes "pack_ok E s" and "pack_fits E s"
  shows "wp (nar_dump (\<lambda>h. on_store (get E h)) (\<lambda>h. on_store (get_view E h)) append_sink root)
    (\<lambda>_ (s', out'). map_option nar (fs_of (store_view E s) (kMaxTreeDepth + 1) (root_entry root)) = Some (drop (length out) out') \<and>
       take (length out) out' = out \<and> pack_ok E s' \<and> abs_maps E s' = abs_maps E s)
    (\<lambda>e (s', out'). io_exn e \<or> bad_tree e \<and> fs_of (store_view E s) (kMaxTreeDepth + 1) (root_entry root) = None) (s, out)"
  by (rule pack_nar.wp_nar_dump) (use assms in \<open>auto simp: pack_view.kept_def abs_maps_def pack_rest_def\<close>)

theorem nar_dump_writes_nar_witness:
  "wp (nar_dump (\<lambda>h. on_store (get sample h)) (\<lambda>h. on_store (get_view sample h)) append_sink (sample_hash ''hi''))
    (\<lambda>_ _. False) (\<lambda>e _. io_exn e \<or> bad_tree e) (sample_cas, [])"
  by (rule wp_mono [OF nar_dump_writes_nar [OF sample_pack_ok sample_fits]])
    (auto simp: sample_view root_entry_def tree_at_def)

text \<open>C34: \<open>nar_sha256\<close> answers the SHA-256 hash and the length (modulo 2^64) of the NAR of the stored
  tree, whatever its chunks and their buffering, and fails only as the dump does or when OpenSSL
  does.\<close>

theorem nar_sha256_hashes_nar:
  assumes "pack_ok E s" and "pack_fits E s" and "evp_ok X"
  shows "wp (nar_sha256 X (get E) (get_view E) root)
    (\<lambda>(digest, size) s'. (\<exists>t. fs_of (store_view E s) (kMaxTreeDepth + 1) (root_entry root) = Some t \<and>
       digest = evp_sha256 X (nar t) \<and> size = of_nat (length (nar t))) \<and> pack_ok E s' \<and> abs_maps E s' = abs_maps E s)
    (\<lambda>e s'. io_exn e \<or> bad_tree e \<and> fs_of (store_view E s) (kMaxTreeDepth + 1) (root_entry root) = None) s"
  by (rule pack_trees.wp_nar_sha256) (use assms in \<open>auto simp: pack_view.kept_def abs_maps_def pack_rest_def\<close>)

definition sample_evp :: "bytes evp" where
  "sample_evp = \<lparr>evp_new = Some [], evp_init = (\<lambda>_. Some []), evp_update = (\<lambda>c d. Some (c @ d)),
     evp_final = (\<lambda>c. Some (sample_hash c)), evp_absorbed = (\<lambda>c. c), evp_sha256 = sample_hash\<rparr>"

theorem nar_sha256_hashes_nar_witness:
  "wp (nar_sha256 sample_evp (get sample) (get_view sample) (sample_hash ''hi'')) (\<lambda>_ _. False)
    (\<lambda>e _. io_exn e \<or> bad_tree e) sample_cas"
  by (rule wp_mono [OF nar_sha256_hashes_nar [OF sample_pack_ok sample_fits]])
    (auto simp: sample_view root_entry_def tree_at_def sample_evp_def evp_ok_def)

end
