(* ===== verification/Tar_Items.thy ===== *)
theory Tar_Items
  imports Prelude
begin

text \<open>
  From an archive to a list of items (\<open>TarItem\<close>, \<open>read_regular\<close>, \<open>read_item\<close>,
  \<open>read_items\<close>, \<open>archive_err\<close> of \<open>src/src/tree.cpp\<close>). libarchive is a parameter: an
  archive is what its functions will answer, entry by entry and read by read; nothing is assumed
  of the answers but that they come to an end.
\<close>

section \<open>libarchive\<close>

datatype filetype = AE_IFREG | AE_IFDIR | AE_IFLNK | AE_OTHER

text \<open>\<open>archive_read_data\<close> answers with some bytes, with none at the end of the entry, or with an
  error that may have a text. After the last listed answer it is at the end.\<close>

datatype read_answer = Got bytes | ReadError "bytes option"

record header =
  hd_pathname :: "bytes option"
  hd_hardlink :: "bytes option"
  hd_filetype :: filetype
  hd_symlink :: "bytes option"
  hd_size :: int
  hd_perm :: nat
  hd_data :: "read_answer list"

text \<open>What \<open>archive_read_next_header\<close> answers after the last entry.\<close>

datatype archive_end = Eof | NoHeader "bytes option"

datatype archive = Archive "header list" archive_end

section \<open>The code\<close>

record tar_item =
  ti_path :: bytes
  ti_type :: char
  ti_data :: bytes

text \<open>Octal 111.\<close>

definition kExecBits :: nat where "kExecBits = 0x49"

definition archive_err :: "bytes option \<Rightarrow> bytes" where
  "archive_err msg = (case msg of Some m \<Rightarrow> m | None \<Rightarrow> ''unknown archive error'')"

text \<open>\<open>append_reads\<close> is the read loop: it stops at the first empty answer. (How many bytes an
  answer has is libarchive's choice, up to the size of the buffer it is given.)\<close>

fun append_reads :: "read_answer list \<Rightarrow> bytes \<Rightarrow> exn + bytes" where
  "append_reads [] data = Inr data"
| "append_reads (ReadError msg # rs) data = Inl (RuntimeError (archive_err msg))"
| "append_reads (Got d # rs) data = (if d = [] then Inr data else append_reads rs (data @ d))"

definition read_regular :: "header \<Rightarrow> tar_item \<Rightarrow> exn + tar_item" where
  "read_regular h item = (if hd_size h < 0 then Inl (RuntimeError ''negative entry size'')
     else case append_reads (hd_data h) [] of Inl e \<Rightarrow> Inl e
     | Inr data \<Rightarrow> Inr (item\<lparr>ti_type := (if and (hd_perm h) kExecBits \<noteq> 0 then CHR ''x'' else CHR ''r''), ti_data := data\<rparr>))"

definition read_item :: "header \<Rightarrow> exn + tar_item" where
  "read_item h = (case hd_pathname h of
     None \<Rightarrow> Inl (RuntimeError ''archive entry without name'')
   | Some name \<Rightarrow> let item = \<lparr>ti_path = name, ti_type = CHR 0x00, ti_data = []\<rparr> in
     case hd_hardlink h of
       Some target \<Rightarrow> Inr (item\<lparr>ti_type := CHR ''h'', ti_data := target\<rparr>)
     | None \<Rightarrow> (case hd_filetype h of
         AE_IFDIR \<Rightarrow> Inr (item\<lparr>ti_type := CHR ''d''\<rparr>)
       | AE_IFLNK \<Rightarrow> (case hd_symlink h of
           None \<Rightarrow> Inl (RuntimeError ''symlink without target'')
         | Some target \<Rightarrow> Inr (item\<lparr>ti_type := CHR ''s'', ti_data := target\<rparr>))
       | AE_IFREG \<Rightarrow> read_regular h item
       | AE_OTHER \<Rightarrow> Inl (RuntimeError (''file '' @ CHR 0x27 # name @ CHR 0x27 # '' in tarball has unsupported file type''))))"

definition end_error :: "archive_end \<Rightarrow> exn option" where
  "end_error e = (case e of Eof \<Rightarrow> None
   | NoHeader msg \<Rightarrow> Some (RuntimeError (''archive error: '' @ archive_err msg)))"

text \<open>The items \<open>read_items\<close> pushes while the queue takes them, and the exception it ends with.\<close>

fun read_all :: "header list \<Rightarrow> archive_end \<Rightarrow> tar_item list \<times> exn option" where
  "read_all [] e = ([], end_error e)"
| "read_all (h # hs) e = (case read_item h of Inl x \<Rightarrow> ([], Some x)
   | Inr item \<Rightarrow> (case read_all hs e of (items, x) \<Rightarrow> (item # items, x)))"

section \<open>The items that come out\<close>

definition item_type :: "char \<Rightarrow> bool" where
  "item_type c \<longleftrightarrow> c \<in> {CHR ''h'', CHR ''d'', CHR ''s'', CHR ''r'', CHR ''x''}"

lemma read_item_type: "read_item h = Inr item \<Longrightarrow> item_type (ti_type item)"
  by (auto simp: read_item_def read_regular_def item_type_def Let_def split: option.splits filetype.splits sum.splits if_splits)

lemma read_all_types: "item \<in> set (fst (read_all hs e)) \<Longrightarrow> item_type (ti_type item)"
  by (induction hs) (auto split: sum.splits prod.splits dest: read_item_type)

text \<open>Every failure is a runtime error.\<close>

lemma append_reads_error: "append_reads rs data = Inl x \<Longrightarrow> \<exists>m. x = RuntimeError m"
  by (induction rs data rule: append_reads.induct) (auto split: if_splits)

lemma read_item_error: "read_item h = Inl x \<Longrightarrow> \<exists>m. x = RuntimeError m"
  by (auto simp: read_item_def read_regular_def Let_def split: option.splits filetype.splits sum.splits if_splits
      dest: append_reads_error)

lemma read_all_error: "snd (read_all hs e) = Some x \<Longrightarrow> \<exists>m. x = RuntimeError m"
  by (induction hs) (auto simp: end_error_def split: archive_end.splits sum.splits prod.splits dest: read_item_error)

end
