(* ===== verification/Item_Queue.thy ===== *)
theory Item_Queue
  imports Tar_Items
begin

text \<open>
  The queue between the thread that reads the archive and the one that applies its items
  (\<open>ItemQueue\<close> and the threads of \<open>ingest_archive\<close> in \<open>src/src/tree.cpp\<close>). Each
  operation of the queue holds its mutex, so the program is a step relation: a step is one
  operation of one thread, a wait is a step that is not possible yet. What the consumer does with
  an item is a parameter.

  The lemmas show that the queue stays within its bounds, that no schedule gets stuck or runs
  forever, and that all schedules have the same outcome, that of reading and applying in turn.
\<close>

section \<open>The queue\<close>

record item_queue =
  q_items :: "tar_item list"
  q_bytes :: u64
  q_done :: bool
  q_closed :: bool
  q_err :: "exn option"

definition kMaxItems :: nat where "kMaxItems = 512"
definition kMaxBytes :: u64 where "kMaxBytes = 128 * 2 ^ 20"

definition data_size :: "tar_item \<Rightarrow> u64" where
  "data_size item = of_nat (length (ti_data item))"

definition empty_queue :: item_queue where
  "empty_queue = \<lparr>q_items = [], q_bytes = 0, q_done = False, q_closed = False, q_err = None\<rparr>"

text \<open>The conditions \<open>push\<close> and \<open>pop\<close> wait for, and what they do then.\<close>

definition can_push :: "tar_item \<Rightarrow> item_queue \<Rightarrow> bool" where
  "can_push item q \<longleftrightarrow> q_closed q \<or> q_items q = [] \<or>
     length (q_items q) < kMaxItems \<and> q_bytes q + data_size item \<le> kMaxBytes"

definition push :: "tar_item \<Rightarrow> item_queue \<Rightarrow> exn + item_queue" where
  "push item q = (if q_closed q then Inl (RuntimeError ''consumer gone'')
     else Inr (q\<lparr>q_bytes := q_bytes q + data_size item, q_items := q_items q @ [item]\<rparr>))"

definition can_pop :: "item_queue \<Rightarrow> bool" where
  "can_pop q \<longleftrightarrow> q_items q \<noteq> [] \<or> q_done q"

definition pop :: "item_queue \<Rightarrow> (tar_item \<times> item_queue) option" where
  "pop q = (case q_items q of [] \<Rightarrow> None
   | item # items \<Rightarrow> Some (item, q\<lparr>q_items := items, q_bytes := q_bytes q - data_size item\<rparr>))"

definition close :: "item_queue \<Rightarrow> item_queue" where
  "close q = q\<lparr>q_closed := True\<rparr>"

definition finish :: "exn option \<Rightarrow> item_queue \<Rightarrow> item_queue" where
  "finish e q = q\<lparr>q_done := True, q_err := e\<rparr>"

section \<open>The two threads\<close>

datatype producer = Reading "header list" archive_end | Pushing tar_item "header list" archive_end
  | Finishing "exn option" | Exited

text \<open>\<open>Joining\<close> waits for the producer to exit, with the exception to rethrow if there is one.\<close>

datatype consumer = Popping | Applying tar_item | Closing exn | Joining "exn option" | Returned "exn option"

record 'c conf =
  cf_queue :: item_queue
  cf_prod :: producer
  cf_cons :: consumer
  cf_state :: 'c

definition start :: "archive \<Rightarrow> 'c \<Rightarrow> 'c conf" where
  "start arc c = (case arc of Archive hs e \<Rightarrow>
     \<lparr>cf_queue = empty_queue, cf_prod = Reading hs e, cf_cons = Popping, cf_state = c\<rparr>)"

inductive step :: "(tar_item \<Rightarrow> ('c, unit) prog) \<Rightarrow> 'c conf \<Rightarrow> 'c conf \<Rightarrow> bool" for apply_it where
  read_ok: "cf_prod C = Reading (h # hs) e \<Longrightarrow> read_item h = Inr item \<Longrightarrow>
     step apply_it C (C\<lparr>cf_prod := Pushing item hs e\<rparr>)"
| read_bad: "cf_prod C = Reading (h # hs) e \<Longrightarrow> read_item h = Inl x \<Longrightarrow>
     step apply_it C (C\<lparr>cf_prod := Finishing (Some x)\<rparr>)"
| read_end: "cf_prod C = Reading [] e \<Longrightarrow> step apply_it C (C\<lparr>cf_prod := Finishing (end_error e)\<rparr>)"
| push_ok: "cf_prod C = Pushing item hs e \<Longrightarrow> can_push item (cf_queue C) \<Longrightarrow> push item (cf_queue C) = Inr q \<Longrightarrow>
     step apply_it C (C\<lparr>cf_prod := Reading hs e, cf_queue := q\<rparr>)"
| push_bad: "cf_prod C = Pushing item hs e \<Longrightarrow> can_push item (cf_queue C) \<Longrightarrow> push item (cf_queue C) = Inl x \<Longrightarrow>
     step apply_it C (C\<lparr>cf_prod := Finishing (Some x)\<rparr>)"
| finish: "cf_prod C = Finishing x \<Longrightarrow>
     step apply_it C (C\<lparr>cf_prod := Exited, cf_queue := finish x (cf_queue C)\<rparr>)"
| pop_item: "cf_cons C = Popping \<Longrightarrow> can_pop (cf_queue C) \<Longrightarrow> pop (cf_queue C) = Some (item, q) \<Longrightarrow>
     step apply_it C (C\<lparr>cf_cons := Applying item, cf_queue := q\<rparr>)"
| pop_end: "cf_cons C = Popping \<Longrightarrow> can_pop (cf_queue C) \<Longrightarrow> pop (cf_queue C) = None \<Longrightarrow>
     step apply_it C (C\<lparr>cf_cons := Joining None\<rparr>)"
| apply_ok: "cf_cons C = Applying item \<Longrightarrow> apply_it item (cf_state C) = (Inr (), c) \<Longrightarrow>
     step apply_it C (C\<lparr>cf_cons := Popping, cf_state := c\<rparr>)"
| apply_bad: "cf_cons C = Applying item \<Longrightarrow> apply_it item (cf_state C) = (Inl x, c) \<Longrightarrow>
     step apply_it C (C\<lparr>cf_cons := Closing x, cf_state := c\<rparr>)"
| close: "cf_cons C = Closing x \<Longrightarrow>
     step apply_it C (C\<lparr>cf_cons := Joining (Some x), cf_queue := close (cf_queue C)\<rparr>)"
| join: "cf_cons C = Joining x \<Longrightarrow> cf_prod C = Exited \<Longrightarrow>
     step apply_it C (C\<lparr>cf_cons := Returned (if x = None then q_err (cf_queue C) else x)\<rparr>)"

inductive_cases step_cases: "step apply_it C C'"

inductive_simps step_returned: "step apply_it (C\<lparr>cf_cons := Returned x\<rparr>) C'"

section \<open>Bounds\<close>

definition total_size :: "tar_item list \<Rightarrow> nat" where
  "total_size items = (\<Sum>item\<leftarrow>items. length (ti_data item))"

text \<open>The byte count is the size of what is queued; more than one item only within the limit.\<close>

definition queue_bounds :: "item_queue \<Rightarrow> bool" where
  "queue_bounds q \<longleftrightarrow> unat (q_bytes q) = total_size (q_items q) \<and> length (q_items q) \<le> kMaxItems \<and>
     (total_size (q_items q) \<le> unat kMaxBytes \<or> length (q_items q) \<le> 1)"

definition item_fits :: "tar_item \<Rightarrow> bool" where
  "item_fits item \<longleftrightarrow> length (ti_data item) < 2 ^ 63"

lemma unat_data_size: "item_fits item \<Longrightarrow> unat (data_size item) = length (ti_data item)"
  by (simp add: data_size_def item_fits_def)

lemma queue_bounds_empty: "queue_bounds empty_queue"
  by (simp add: queue_bounds_def empty_queue_def total_size_def)

lemma total_size_simps [simp]:
  "total_size [] = 0" "total_size (item # items) = length (ti_data item) + total_size items"
  "total_size (items @ items') = total_size items + total_size items'"
  by (simp_all add: total_size_def)

lemma queue_bounds_push:
  assumes "queue_bounds q" and "item_fits item" and "\<forall>x\<in>set (q_items q). item_fits x"
    and "can_push item q" and "push item q = Inr q'"
  shows "queue_bounds q'"
proof -
  from assms(5) have open_q: "\<not> q_closed q" and q': "q' = q\<lparr>q_bytes := q_bytes q + data_size item, q_items := q_items q @ [item]\<rparr>"
    by (simp_all add: push_def split: if_splits)
  note size = unat_data_size [OF assms(2)]
  show ?thesis
  proof (cases "q_items q = []")
    case True
    with assms(1) have "q_bytes q = 0" by (simp add: queue_bounds_def unat_eq_0)
    with True size show ?thesis by (simp add: q' queue_bounds_def kMaxItems_def)
  next
    case False
    with assms(4) open_q have room: "length (q_items q) < kMaxItems" "q_bytes q + data_size item \<le> kMaxBytes"
      by (auto simp: can_push_def)
    have "total_size (q_items q) < 2 ^ 63"
    proof (cases "length (q_items q) \<le> 1")
      case True
      with False obtain x where "q_items q = [x]" by (cases "q_items q") auto
      with assms(3) show ?thesis by (simp add: item_fits_def)
    next
      case False
      with assms(1) show ?thesis by (simp add: queue_bounds_def kMaxBytes_def)
    qed
    then have "unat (q_bytes q) + unat (data_size item) < 2 ^ 64"
      using assms(1,2) size by (simp add: queue_bounds_def item_fits_def)
    then have sum: "unat (q_bytes q + data_size item) = total_size (q_items q) + length (ti_data item)"
      using assms(1) size by (simp add: queue_bounds_def unat_add_lem [THEN iffD1])
    then show ?thesis using room
      by (simp add: q' queue_bounds_def word_le_nat_alt)
  qed
qed

lemma queue_bounds_pop:
  assumes "queue_bounds q" and "\<forall>x\<in>set (q_items q). item_fits x" and "pop q = Some (item, q')"
  shows "queue_bounds q'"
proof -
  from assms(3) obtain items where q: "q_items q = item # items"
    and q': "q' = q\<lparr>q_items := items, q_bytes := q_bytes q - data_size item\<rparr>"
    by (auto simp: pop_def split: list.splits)
  have size: "unat (data_size item) = length (ti_data item)" using assms(2) q by (simp add: unat_data_size)
  then have "data_size item \<le> q_bytes q"
    using assms(1) q by (simp add: queue_bounds_def word_le_nat_alt)
  then have "unat (q_bytes q - data_size item) = total_size items"
    using assms(1) q size by (simp add: queue_bounds_def unat_sub)
  then show ?thesis using assms(1) q by (auto simp: q' queue_bounds_def)
qed

section \<open>The invariant of the two threads\<close>

definition conf_inv :: "'c conf \<Rightarrow> bool" where
  "conf_inv C \<longleftrightarrow> (q_done (cf_queue C) \<longleftrightarrow> cf_prod C = Exited) \<and>
     (case cf_cons C of
       Joining None \<Rightarrow> cf_prod C = Exited \<and> q_items (cf_queue C) = [] \<and> \<not> q_closed (cf_queue C)
     | Joining (Some _) \<Rightarrow> q_closed (cf_queue C)
     | Returned _ \<Rightarrow> cf_prod C = Exited
     | _ \<Rightarrow> \<not> q_closed (cf_queue C))"

lemma conf_inv_start: "conf_inv (start arc c)"
  by (simp add: conf_inv_def start_def empty_queue_def split: archive.split)

lemma conf_inv_step: "step apply_it C C' \<Longrightarrow> conf_inv C \<Longrightarrow> conf_inv C'"
  by (induction rule: step.induct)
    (auto simp: conf_inv_def push_def pop_def can_pop_def close_def finish_def
      split: consumer.splits option.splits list.splits if_splits)

text \<open>No schedule gets stuck: until the consumer has returned, one of the threads can go on.\<close>

lemma producer_progress:
  assumes "cf_prod C \<noteq> Exited" and "\<And>item hs e. cf_prod C = Pushing item hs e \<Longrightarrow> can_push item (cf_queue C)"
  shows "\<exists>C'. step apply_it C C'"
proof (cases "cf_prod C")
  case (Reading hs e)
  then show ?thesis
    by (cases hs; cases "read_item (hd hs)") (auto intro: step.intros)
next
  case (Pushing item hs e)
  then show ?thesis
    using assms(2) by (cases "push item (cf_queue C)") (auto intro: step.intros)
qed (use assms(1) in \<open>auto intro: step.intros\<close>)

lemma progress:
  assumes "conf_inv C" and "\<And>x. cf_cons C \<noteq> Returned x"
  shows "\<exists>C'. step apply_it C C'"
proof (cases "cf_cons C")
  case Popping
  show ?thesis
  proof (cases "can_pop (cf_queue C)")
    case True
    with Popping show ?thesis
      by (cases "pop (cf_queue C)") (auto intro: step.intros)
  next
    case False
    with assms(1) have "cf_prod C \<noteq> Exited" "q_items (cf_queue C) = []"
      by (auto simp: conf_inv_def can_pop_def)
    then show ?thesis by (intro producer_progress) (simp_all add: can_push_def)
  qed
next
  case (Applying item)
  obtain r c where "apply_it item (cf_state C) = (r, c)" by fastforce
  with Applying show ?thesis by (cases r) (auto intro: step.intros)
next
  case (Joining x)
  show ?thesis
  proof (cases "cf_prod C = Exited")
    case True
    with Joining show ?thesis by (auto intro: step.intros)
  next
    case False
    with assms(1) Joining have "q_closed (cf_queue C)"
      by (auto simp: conf_inv_def split: option.splits)
    with False show ?thesis by (intro producer_progress) (simp_all add: can_push_def)
  qed
qed (use assms(2) in \<open>auto intro: step.intros\<close>)

text \<open>No schedule runs forever.\<close>

fun producer_work :: "producer \<Rightarrow> nat" where
  "producer_work (Reading hs e) = 4 * length hs + 2"
| "producer_work (Pushing item hs e) = 4 * length hs + 5"
| "producer_work (Finishing x) = 1"
| "producer_work Exited = 0"

fun consumer_work :: "consumer \<Rightarrow> nat" where
  "consumer_work Popping = 3"
| "consumer_work (Applying item) = 4"
| "consumer_work (Closing x) = 2"
| "consumer_work (Joining x) = 1"
| "consumer_work (Returned x) = 0"

definition conf_work :: "'c conf \<Rightarrow> nat" where
  "conf_work C = producer_work (cf_prod C) + 2 * length (q_items (cf_queue C)) + consumer_work (cf_cons C)"

lemma step_work: "step apply_it C C' \<Longrightarrow> conf_work C' < conf_work C"
  by (induction rule: step.induct)
    (auto simp: conf_work_def push_def pop_def close_def finish_def split: if_splits list.splits)

section \<open>Every schedule has the same outcome\<close>

text \<open>What the producer still has to push, and the exception it will end with.\<close>

fun to_come :: "producer \<Rightarrow> item_queue \<Rightarrow> tar_item list \<times> exn option" where
  "to_come (Reading hs e) q = read_all hs e"
| "to_come (Pushing item hs e) q = (case read_all hs e of (items, x) \<Rightarrow> (item # items, x))"
| "to_come (Finishing x) q = ([], x)"
| "to_come Exited q = ([], q_err q)"

lemma to_come_same [simp]:
  "to_come p (q\<lparr>q_items := items, q_bytes := n\<rparr>) = to_come p q"
  "to_come p (q\<lparr>q_bytes := n, q_items := items\<rparr>) = to_come p q"
  "to_come p (q\<lparr>q_closed := b\<rparr>) = to_come p q"
  by (cases p; simp)+

text \<open>Reading and applying in turn: the exception the ingest throws, and the state it leaves.\<close>

definition outcome_of :: "(tar_item \<Rightarrow> ('c, unit) prog) \<Rightarrow> tar_item list \<Rightarrow> exn option \<Rightarrow> 'c \<Rightarrow> exn option \<times> 'c" where
  "outcome_of apply_it items x c = (case forE items apply_it c of (Inl e, c') \<Rightarrow> (Some e, c') | (Inr _, c') \<Rightarrow> (x, c'))"

text \<open>The outcome a configuration is heading for.\<close>

definition fate :: "(tar_item \<Rightarrow> ('c, unit) prog) \<Rightarrow> 'c conf \<Rightarrow> exn option \<times> 'c" where
  "fate apply_it C = (case to_come (cf_prod C) (cf_queue C) of (items, x) \<Rightarrow>
     let pending = q_items (cf_queue C) @ items in
     case cf_cons C of
       Popping \<Rightarrow> outcome_of apply_it pending x (cf_state C)
     | Applying item \<Rightarrow> outcome_of apply_it (item # pending) x (cf_state C)
     | Closing e \<Rightarrow> (Some e, cf_state C)
     | Joining e \<Rightarrow> (if e = None then x else e, cf_state C)
     | Returned e \<Rightarrow> (e, cf_state C))"

lemma outcome_of_Cons:
  "outcome_of apply_it (item # items) x c = (case apply_it item c of
     (Inl e, c') \<Rightarrow> (Some e, c') | (Inr _, c') \<Rightarrow> outcome_of apply_it items x c')"
  by (simp add: outcome_of_def thenE_def bindE_def split: prod.split sum.split)

lemma outcome_of_Nil [simp]: "outcome_of apply_it [] x c = (x, c)"
  by (simp add: outcome_of_def ret_def)

lemma fate_step: "step apply_it C C' \<Longrightarrow> conf_inv C \<Longrightarrow> fate apply_it C' = fate apply_it C"
  by (induction rule: step.induct)
    (auto simp: fate_def conf_inv_def push_def pop_def can_pop_def close_def finish_def Let_def outcome_of_Cons
      split: prod.splits consumer.splits option.splits list.splits if_splits sum.splits)

section \<open>Runs\<close>

abbreviation runs_to :: "(tar_item \<Rightarrow> ('c, unit) prog) \<Rightarrow> 'c conf \<Rightarrow> 'c conf \<Rightarrow> bool" where
  "runs_to apply_it \<equiv> (step apply_it)\<^sup>*\<^sup>*"

lemma runs_inv: "runs_to apply_it C C' \<Longrightarrow> conf_inv C \<Longrightarrow> conf_inv C' \<and> fate apply_it C' = fate apply_it C"
  by (induction rule: rtranclp_induct) (auto simp: conf_inv_step fate_step)

definition archive_items :: "archive \<Rightarrow> tar_item list \<times> exn option" where
  "archive_items arc = (case arc of Archive hs e \<Rightarrow> read_all hs e)"

lemma archive_items_type: "i \<in> set (fst (archive_items arc)) \<Longrightarrow> item_type (ti_type i)"
  by (cases arc) (simp add: archive_items_def read_all_types)

lemma archive_items_error: "snd (archive_items arc) = Some e \<Longrightarrow> \<exists>m. e = RuntimeError m"
  by (cases arc) (simp add: archive_items_def read_all_error)

lemma fate_start: "fate apply_it (start arc c) =
    outcome_of apply_it (fst (archive_items arc)) (snd (archive_items arc)) c"
  by (simp add: fate_def start_def empty_queue_def archive_items_def split: archive.split prod.split)

lemma runs_outcome:
  assumes "runs_to apply_it (start arc c) C" and "cf_cons C = Returned x"
  shows "(x, cf_state C) = outcome_of apply_it (fst (archive_items arc)) (snd (archive_items arc)) c"
  using runs_inv [OF assms(1) conf_inv_start] assms(2)
  by (simp add: fate_start [symmetric]) (simp add: fate_def split: prod.split)

text \<open>Every run can be carried on to the consumer's return.\<close>

lemma runs_return: "conf_inv C \<Longrightarrow> \<exists>C' x. runs_to apply_it C C' \<and> cf_cons C' = Returned x"
proof (induction "conf_work C" arbitrary: C rule: less_induct)
  case less
  show ?case
  proof (cases "\<exists>x. cf_cons C = Returned x")
    case True
    then show ?thesis by blast
  next
    case False
    then obtain C1 where C1: "step apply_it C C1" using progress [OF less.prems] by blast
    from less.hyps [OF step_work [OF C1] conf_inv_step [OF C1 less.prems]]
    obtain C' x where "runs_to apply_it C1 C'" "cf_cons C' = Returned x" by blast
    with C1 show ?thesis by (blast intro: converse_rtranclp_into_rtranclp)
  qed
qed

text \<open>No run is longer than the work there is.\<close>

lemma steps_work: "(step apply_it ^^ n) C C' \<Longrightarrow> n + conf_work C' \<le> conf_work C"
proof (induction n arbitrary: C')
  case (Suc n)
  then obtain C1 where "n + conf_work C1 \<le> conf_work C" "step apply_it C1 C'" by auto
  with step_work [OF this(2)] show ?case by simp
qed simp

lemma steps_return:
  assumes "(step apply_it ^^ n) (start arc c) C"
  obtains k C' x where "(step apply_it ^^ k) C C'" "cf_cons C' = Returned x" "n + k \<le> conf_work (start arc c)"
proof -
  have "conf_inv C" using runs_inv [OF relpowp_imp_rtranclp [OF assms] conf_inv_start] by simp
  then obtain C' x k where k: "(step apply_it ^^ k) C C'" "cf_cons C' = Returned x"
    using runs_return by (metis rtranclp_imp_relpowp)
  show thesis
    using that [OF k] steps_work [OF k(1)] steps_work [OF assms] by simp
qed

text \<open>The bounds hold in every configuration.\<close>

definition items_fit :: "'c conf \<Rightarrow> bool" where
  "items_fit C \<longleftrightarrow> queue_bounds (cf_queue C) \<and> (\<forall>x\<in>set (q_items (cf_queue C)). item_fits x) \<and>
     (\<forall>x\<in>set (fst (to_come (cf_prod C) (cf_queue C))). item_fits x)"

lemma items_fit_start: "\<forall>x\<in>set (fst (archive_items arc)). item_fits x \<Longrightarrow> items_fit (start arc c)"
  using queue_bounds_empty
  by (auto simp: items_fit_def start_def archive_items_def empty_queue_def split: archive.splits)

lemma queue_bounds_same:
  "queue_bounds (q\<lparr>q_closed := b\<rparr>) = queue_bounds q" "queue_bounds (q\<lparr>q_done := b, q_err := x\<rparr>) = queue_bounds q"
  by (simp_all add: queue_bounds_def)

lemma items_fit_step: "step apply_it C C' \<Longrightarrow> items_fit C \<Longrightarrow> items_fit C'"
proof (induction rule: step.induct)
  case (push_ok C item hs e q)
  then have C: "queue_bounds (cf_queue C)" "\<forall>x\<in>set (q_items (cf_queue C)). item_fits x" "item_fits item"
    "\<forall>x\<in>set (fst (read_all hs e)). item_fits x"
    by (cases "read_all hs e"; simp add: items_fit_def)+
  have "queue_bounds q" by (rule queue_bounds_push [OF C(1,3,2) push_ok(2,3)])
  moreover have "q_items q = q_items (cf_queue C) @ [item]"
    using push_ok(3) by (auto simp: push_def split: if_splits)
  ultimately show ?case using C by (simp add: items_fit_def)
next
  case (pop_item C item q)
  then have C: "queue_bounds (cf_queue C)" "\<forall>x\<in>set (q_items (cf_queue C)). item_fits x"
    by (simp_all add: items_fit_def)
  have "queue_bounds q" by (rule queue_bounds_pop [OF C pop_item(3)])
  moreover from pop_item(3) obtain items where "q = (cf_queue C)\<lparr>q_items := items, q_bytes := q_bytes (cf_queue C) - data_size item\<rparr>"
    "q_items (cf_queue C) = item # items" by (auto simp: pop_def split: list.splits)
  ultimately show ?case using pop_item(4) by (simp add: items_fit_def)
qed (auto simp: items_fit_def close_def finish_def queue_bounds_same split: prod.splits sum.splits)

lemma runs_bounds: "runs_to apply_it C C' \<Longrightarrow> items_fit C \<Longrightarrow> items_fit C'"
  by (induction rule: rtranclp_induct) (auto intro: items_fit_step)

end
