(* ===== verification/Ingest.thy ===== *)
theory Ingest
  imports Item_Queue Walker Tree_Store
begin

text \<open>
  Ingesting an archive (\<open>apply_item\<close>, \<open>ingest_archive\<close>, \<open>ingest_tarball_file\<close> of
  \<open>src/src/tree.cpp\<close>): its items are applied to a tree in memory, file contents going to the
  store at once, and the tree is flushed, registered as a root and committed.

  The two threads of \<open>ingest_archive\<close> are \<open>Item_Queue.step\<close>; here they are run in turn
  (\<open>consume\<close>), which \<open>Item_Queue\<close> shows to have the outcome of every schedule.

  The reference is a function on functions from paths to entries with their contents
  (\<open>tar_apply\<close>): what the archive says. The lemmas show that the in-memory tree and the blobs
  stored stand for it throughout.
\<close>

section \<open>The code\<close>

text \<open>\<open>MemNode root\<close> and the counter of \<open>IngestResult\<close> are local variables of the caller.\<close>

definition missing_target :: "bytes \<Rightarrow> bytes \<Rightarrow> mem_node option \<Rightarrow> exn" where
  "missing_target path target node = RuntimeError (''hard link from '' @ quoted path @ '' to '' @ quoted target @
     (if node = None then '': target does not exist'' else '': target is a directory''))"

definition apply_item ::
  "(bytes \<Rightarrow> ('s, bytes) prog) \<Rightarrow> tar_item \<Rightarrow> ('s \<times> (mem_node \<times> u64), unit) prog" where
  "apply_item store item = (case split_path (ti_path item) of
     None \<Rightarrow> throw (RuntimeError (''path '' @ quoted (ti_path item) @ '' too long''))
   | Some comps \<Rightarrow> bindE get_local (\<lambda>(root, files).
       if ti_type item = CHR ''h'' then
         (let node = Option.bind (split_path (ti_data item)) (lookup_node root) in
          case node of
            None \<Rightarrow> throw (missing_target (ti_path item) (ti_data item) node)
          | Some n \<Rightarrow> if is_dir n then throw (missing_target (ti_path item) (ti_data item) node)
              else bindE (liftE (add_node root comps (ti_path item) (MemNode (mn_type n) (mn_id n) [])))
                (\<lambda>root'. mod_local (\<lambda>_. (root', files))))
       else if ti_type item = CHR ''d'' then
         bindE (liftE (add_node root comps (ti_path item) dir_node)) (\<lambda>root'. mod_local (\<lambda>_. (root', files)))
       else bindE (on_store (store (ti_data item))) (\<lambda>h.
         bindE (liftE (add_node root comps (ti_path item) (MemNode (ti_type item) h [])))
           (\<lambda>root'. mod_local (\<lambda>_. (root', files + 1))))))"

text \<open>The threads, in turn: apply what can be read, then rethrow what the reader failed with.\<close>

definition consume :: "(bytes \<Rightarrow> ('s, bytes) prog) \<Rightarrow> archive \<Rightarrow> ('s \<times> (mem_node \<times> u64), unit) prog" where
  "consume store arc = (case archive_items arc of (items, err) \<Rightarrow>
     thenE (forE items (apply_item store)) (case err of None \<Rightarrow> ret () | Some e \<Rightarrow> throw e))"

record ingest_result =
  ir_root :: bytes
  ir_files :: u64

text \<open>Up to the flush of the tree: its root and the number of files.\<close>

definition ingest_tree :: "(bytes \<Rightarrow> ('s, bytes) prog) \<Rightarrow> archive \<Rightarrow> ('s, bytes \<times> u64) prog" where
  "ingest_tree store arc = with_local (dir_node, 0) (thenE (consume store arc)
     (bindE get_local (\<lambda>(root, files). bindE (on_store (flush_tree store root)) (\<lambda>h. ret (h, files)))))"

definition ingest_archive ::
  "('e, 't) platform \<Rightarrow> archive \<Rightarrow> (('e, 't, 'z) tree_store_scheme, ingest_result) prog" where
  "ingest_archive E arc = bindE (ingest_tree (put E) arc)
     (\<lambda>(h, files). thenE (register_root E h True) (thenE (sync_store E) (thenE (maybe_gc E)
       (ret \<lparr>ir_root = h, ir_files = files\<rparr>))))"

text \<open>\<open>archive_read_open_filename\<close> gives an archive or an error.\<close>

definition ingest_tarball_file ::
  "('e, 't) platform \<Rightarrow> (bytes \<Rightarrow> bytes option + archive) \<Rightarrow> bytes \<Rightarrow>
     (('e, 't, 'z) tree_store_scheme, ingest_result) prog" where
  "ingest_tarball_file E open_file path = (case open_file path of
     Inl msg \<Rightarrow> throw (RuntimeError (path @ '': '' @ archive_err msg))
   | Inr arc \<Rightarrow> ingest_archive E arc)"

lemma consume_outcome:
  "consume store arc c = (case outcome_of (apply_item store) (fst (archive_items arc)) (snd (archive_items arc)) c of
     (None, c') \<Rightarrow> (Inr (), c') | (Some e, c') \<Rightarrow> (Inl e, c'))"
  by (simp add: consume_def outcome_of_def thenE_def bindE_def throw_def ret_def
      split: prod.splits sum.splits option.splits unit.splits)

section \<open>What an archive says\<close>

text \<open>A tree of entries with their contents.\<close>

type_synonym fs_map = "bytes list \<Rightarrow> entry option"

definition tar_entry :: "fs_map \<Rightarrow> tar_item \<Rightarrow> entry option" where
  "tar_entry fs item = (if ti_type item = CHR ''h'' then
       (case Option.bind (split_path (ti_data item)) fs of Some (File t d) \<Rightarrow> Some (File t d) | _ \<Rightarrow> None)
     else if ti_type item = CHR ''d'' then Some Dir
     else Some (File (ti_type item) (ti_data item)))"

definition tar_apply :: "tar_item \<Rightarrow> fs_map \<Rightarrow> fs_map option" where
  "tar_apply item fs = (case split_path (ti_path item) of None \<Rightarrow> None
   | Some p \<Rightarrow> (case tar_entry fs item of None \<Rightarrow> None
     | Some e \<Rightarrow> if blocked True fs p e then None else Some (inserted fs p e)))"

fun tar_run :: "tar_item list \<Rightarrow> fs_map \<Rightarrow> fs_map option" where
  "tar_run [] fs = Some fs"
| "tar_run (item # items) fs = Option.bind (tar_apply item fs) (tar_run items)"

text \<open>What the archive as a whole says: nothing, if it cannot be read to its end.\<close>

definition tar_tree :: "archive \<Rightarrow> fs_map option" where
  "tar_tree arc = (case archive_items arc of (items, Some e) \<Rightarrow> None
   | (items, None) \<Rightarrow> tar_run items [[] \<mapsto> Dir])"

end
