(* ===== verification/Ingest_Tree.thy ===== *)
theory Ingest_Tree
  imports Ingest
begin

text \<open>
  What an ingest stores: at every point the in-memory tree stands for the function from paths to
  entries the items so far describe (\<open>stands_for\<close>), and once it is flushed the store holds
  that tree with the contents of its files (\<open>holds_tree\<close>).
\<close>

section \<open>The in-memory tree stands for it\<close>

fun hashed :: "(bytes \<Rightarrow> bytes) \<Rightarrow> entry \<Rightarrow> entry" where
  "hashed dg Dir = Dir"
| "hashed dg (File t d) = File t (dg d)"

lemma hashed_Dir [simp]: "hashed dg e = Dir \<longleftrightarrow> e = Dir"
  by (cases e) simp_all

lemma hashed_File: "hashed dg e = File t h \<longleftrightarrow> (\<exists>d. e = File t d \<and> dg d = h)"
  by (cases e) auto

lemma blocked_hashed: "blocked r (\<lambda>p. map_option (hashed dg) (fs p)) p (hashed dg e) = blocked r fs p e"
proof -
  have "(\<exists>q t h. strict_prefix q p \<and> map_option (hashed dg) (fs q) = Some (File t h)) \<longleftrightarrow>
      (\<exists>q t d. strict_prefix q p \<and> fs q = Some (File t d))"
    by (auto simp: hashed_File)
  moreover have "map_option (hashed dg) (fs p) = Some Dir \<longleftrightarrow> fs p = Some Dir" by auto
  ultimately show ?thesis by (simp add: blocked_def)
qed

lemma inserted_hashed:
  "inserted (\<lambda>p. map_option (hashed dg) (fs p)) p (hashed dg e) = (\<lambda>q. map_option (hashed dg) (inserted fs p e q))"
  by (auto simp: inserted_def)

definition stands_for :: "(bytes \<Rightarrow> bytes) \<Rightarrow> (bytes \<Rightarrow> bytes option) \<Rightarrow> mem_node \<Rightarrow> fs_map \<Rightarrow> bool" where
  "stands_for dg m root fs \<longleftrightarrow> node_ok root \<and> is_dir root \<and> paths root = (\<lambda>p. map_option (hashed dg) (fs p)) \<and>
     (\<forall>p t d. fs p = Some (File t d) \<longrightarrow> m (dg d) = Some d) \<and> (\<forall>p. fs p \<noteq> None \<longrightarrow> path_ok p)"

lemma stands_for_root: "stands_for dg m dir_node [[] \<mapsto> Dir]"
  by (auto simp: stands_for_def split: if_splits)

lemma path_ok_prefix: "path_ok p \<Longrightarrow> prefix q p \<Longrightarrow> path_ok q"
  unfolding path_ok_def using set_mono_prefix prefix_length_le by fastforce

lemma lookup_paths:
  "paths root p = Some e \<longleftrightarrow> (\<exists>n. lookup_node root p = Some n \<and> entry_of n = e)"
  by (simp add: paths_def)

lemma stands_for_add:
  assumes rel: "stands_for dg m root fs" and p: "path_ok p"
    and node: "node_ok node" "mn_children node = []" "entry_of node = hashed dg e"
    and e: "\<And>t d. e = File t d \<Longrightarrow> m' (dg d) = Some d" and m': "m \<subseteq>\<^sub>m m'"
  shows "case add_node root p path node of Inl x \<Rightarrow> blocked True fs p e \<and> io_exn x
    | Inr root' \<Rightarrow> \<not> blocked True fs p e \<and> stands_for dg m' root' (inserted fs p e)"
proof -
  have paths: "paths root = (\<lambda>p. map_option (hashed dg) (fs p))" and comps: "\<forall>c\<in>set p. comp_ok c"
    using rel p by (simp_all add: stands_for_def path_ok_def)
  note added = add_at_paths [OF node(2), of True root p path, unfolded added_def node(3) paths blocked_hashed inserted_hashed]
  show ?thesis
  proof (cases "add_node root p path node")
    case (Inl x)
    then have "add_at True path node p root = Inl x" by (simp add: add_node_def)
    with added add_at_error [OF this] Inl show ?thesis by auto
  next
    case (Inr root')
    then have add: "add_at True path node p root = Inr root'" by (simp add: add_node_def)
    have ok: "node_ok root'" by (rule add_at_ok [OF node(1,2) _ comps add]) (use rel in \<open>simp add: stands_for_def\<close>)
    have fs_root: "fs [] = Some Dir"
    proof -
      have "map_option (hashed dg) (fs []) = Some Dir"
        using rel paths_Nil [of root] entry_of_dir [of root] by (simp add: stands_for_def)
      then show ?thesis by auto
    qed
    have "\<not> blocked True fs p e" using added add by simp
    then have "inserted fs p e [] = Some Dir"
      using fs_root by (cases "p = []") (auto simp: inserted_def blocked_def)
    moreover have "paths root' [] = map_option (hashed dg) (inserted fs p e [])" using added add by simp
    ultimately have "is_dir root'" by simp
    have "path_ok q" if "inserted fs p e q \<noteq> None" for q
      using that rel p path_ok_prefix [OF p] by (auto simp: inserted_def stands_for_def strict_prefix_def split: if_splits)
    moreover have "m' (dg d) = Some d" if "inserted fs p e q = Some (File t d)" for q t d
    proof (cases "q = p")
      case False
      with that have "fs q = Some (File t d)" by (auto simp: inserted_def split: if_splits)
      with rel m' show ?thesis by (auto simp: stands_for_def map_le_def dom_def)
    qed (use that e in \<open>auto simp: inserted_def\<close>)
    ultimately show ?thesis using added add Inr ok \<open>is_dir root'\<close> by (simp add: stands_for_def)
  qed
qed

text \<open>The entry of an item, as a node.\<close>

lemma stands_for_link:
  assumes "stands_for dg m root fs" and "lookup_node root p = Some n" and "\<not> is_dir n"
  obtains d where "fs p = Some (File (mn_type n) d)" "dg d = mn_id n" "m (dg d) = Some d"
proof -
  have "paths root p = Some (File (mn_type n) (mn_id n))"
    using assms(2,3) by (cases n) (simp add: paths_def)
  then obtain d where "fs p = Some (File (mn_type n) d)" "dg d = mn_id n"
    using assms(1) by (auto simp: stands_for_def hashed_File)
  moreover from this have "m (dg d) = Some d" using assms(1) unfolding stands_for_def by blast
  ultimately show thesis by (rule that)
qed

lemma stands_for_no_link:
  assumes "stands_for dg m root fs" and "case lookup_node root p of None \<Rightarrow> True | Some n \<Rightarrow> is_dir n"
  shows "fs p = None \<or> fs p = Some Dir"
proof -
  have "paths root p = None \<or> paths root p = Some Dir"
    using assms(2) by (auto simp: paths_def split: option.splits)
  with assms(1) show ?thesis by (auto simp: stands_for_def)
qed

text \<open>The same code on a store that only hashes: which tree comes out does not depend on the store.\<close>

abbreviation build :: "(bytes \<Rightarrow> bytes) \<Rightarrow> tar_item \<Rightarrow> (unit \<times> (mem_node \<times> u64), unit) prog" where
  "build dg \<equiv> apply_item (\<lambda>d. ret (dg d))"

lemma leaf_ok: "item_type t \<Longrightarrow> t \<noteq> CHR ''h'' \<Longrightarrow> t \<noteq> CHR ''d'' \<Longrightarrow> length h \<le> kMaxIdLen \<Longrightarrow> node_ok (MemNode t h [])"
  by (auto simp: item_type_def tree_type_def)

definition item_data :: "tar_item \<Rightarrow> bytes list" where
  "item_data item = (if ti_type item = CHR ''h'' \<or> ti_type item = CHR ''d'' then [] else [ti_data item])"

context blob_store
begin

lemma wp_apply_item:
  assumes s: "ok s" and rel: "stands_for digest (contents s) root fs" and type: "item_type (ti_type item)"
    and size: "length (ti_data item) \<le> max_off"
    and free: "\<And>d d'. d \<in> set (item_data item) \<Longrightarrow> contents s (digest d) = Some d' \<Longrightarrow> d' = d"
    and Q: "\<And>s' root' files' fs'. ok s' \<Longrightarrow> tar_apply item fs = Some fs' \<Longrightarrow> stands_for digest (contents s') root' fs' \<Longrightarrow>
      contents s' = blobs digest (item_data item) ++ contents s \<Longrightarrow> rest s' = rest s \<Longrightarrow>
      build digest item ((), (root, files)) = (Inr (), ((), (root', files'))) \<Longrightarrow> Q () (s', (root', files'))"
    and R: "\<And>e sc. io_exn e \<Longrightarrow> R e sc"
  shows "wp (apply_item store item) Q R (s, (root, files))"
proof (cases "split_path (ti_path item)")
  case None
  then show ?thesis by (simp add: apply_item_def wp_simps R)
next
  case (Some p)
  have p: "path_ok p" by (rule split_path_ok [OF Some])
  note add = stands_for_add [OF rel p]
  consider "ti_type item = CHR ''h''" | "ti_type item = CHR ''d''" | "ti_type item \<noteq> CHR ''h''" "ti_type item \<noteq> CHR ''d''" by blast
  then show ?thesis
  proof cases
    case 1
    let ?n = "Option.bind (split_path (ti_data item)) (lookup_node root)"
    show ?thesis
    proof (cases "?n = None \<or> (\<exists>n. ?n = Some n \<and> is_dir n)")
      case True
      with 1 Some show ?thesis
        by (auto simp: apply_item_def wp_simps missing_target_def R Let_def)
    next
      case False
      then obtain n where n: "?n = Some n" "\<not> is_dir n" by (cases ?n) auto
      then obtain q where q: "split_path (ti_data item) = Some q" "lookup_node root q = Some n"
        by (auto simp: bind_eq_Some_conv)
      obtain d where d: "fs q = Some (File (mn_type n) d)" "digest d = mn_id n" "contents s (digest d) = Some d"
        by (rule stands_for_link [OF rel q(2) n(2)])
      have "node_ok n" using rel node_ok_lookup q(2) by (auto simp: stands_for_def)
      then have node: "node_ok (MemNode (mn_type n) (mn_id n) [])" using n(2) by (cases n) simp
      have entry: "tar_entry fs item = Some (File (mn_type n) d)"
        using 1 q(1) d(1) by (simp add: tar_entry_def)
      note added = add [of "MemNode (mn_type n) (mn_id n) []" "File (mn_type n) d" "contents s" "ti_path item", OF node]
      have built: "build digest item ((), (root, files)) = (case add_node root p (ti_path item) (MemNode (mn_type n) (mn_id n) []) of
          Inl e \<Rightarrow> (Inl e, ((), (root, files))) | Inr root' \<Rightarrow> (Inr (), ((), (root', files))))"
        using 1 Some n by (simp add: apply_item_def prog_defs Let_def split: sum.split)
      show ?thesis
        using 1 Some n added d entry Q [OF s] built
        by (auto simp: apply_item_def wp_simps item_data_def tar_apply_def R Let_def split: sum.split)
    qed
  next
    case 2
    have fs': "add_node root p (ti_path item) dir_node = Inr root' \<Longrightarrow> tar_apply item fs = Some (inserted fs p Dir) \<and>
        stands_for digest (contents s) root' (inserted fs p Dir)" for root'
      using add [of dir_node Dir "contents s" "ti_path item"] Some 2
      by (simp add: tar_apply_def tar_entry_def)
    have built: "build digest item ((), (root, files)) = (case add_node root p (ti_path item) dir_node of
          Inl e \<Rightarrow> (Inl e, ((), (root, files))) | Inr root' \<Rightarrow> (Inr (), ((), (root', files))))"
      using 2 Some by (simp add: apply_item_def prog_defs split: sum.split)
    show ?thesis
      using 2 Some add [of dir_node Dir "contents s" "ti_path item"] fs' Q [OF s] built
      by (auto simp: apply_item_def wp_simps item_data_def R split: sum.split)
  next
    case 3
    let ?d = "ti_data item"
    have data: "item_data item = [?d]" using 3 by (simp add: item_data_def)
    have entry: "tar_entry fs item = Some (File (ti_type item) ?d)" using 3 by (simp add: tar_entry_def)
    have "wp (store ?d) (\<lambda>h s'. wp (bindE (liftE (add_node root p (ti_path item) (MemNode (ti_type item) h [])))
        (\<lambda>root'. mod_local (\<lambda>_. (root', files + 1)))) Q R (s', (root, files))) (\<lambda>e s'. R e (s', (root, files))) s"
    proof (rule wp_store [OF s size])
      fix s'
      assume s': "ok s'" "contents s' = [digest ?d \<mapsto> ?d] ++ contents s" "rest s' = rest s"
      have stored: "contents s' (digest ?d) = Some ?d"
        using free [of ?d] data by (cases "contents s (digest ?d)") (auto simp: s'(2) map_add_def)
      have built: "build digest item ((), (root, files)) = (case add_node root p (ti_path item) (MemNode (ti_type item) (digest ?d) []) of
          Inl e \<Rightarrow> (Inl e, ((), (root, files))) | Inr root' \<Rightarrow> (Inr (), ((), (root', files + 1))))"
        using 3 Some by (simp add: apply_item_def prog_defs on_store_def split: sum.split)
      have le: "contents s \<subseteq>\<^sub>m contents s'" by (simp add: s'(2) map_le_map_add)
      have node: "node_ok (MemNode (ti_type item) (digest ?d) [])"
        by (rule leaf_ok [OF type 3]) (simp add: digest_length [OF s] kHashLen_def kMaxIdLen_def)
      have "contents s' = blobs digest [?d] ++ contents s" by (simp add: s'(2) blobs_def)
      note Q' = Q [OF s'(1), unfolded data, OF _ _ this s'(3)]
      note added = add [of "MemNode (ti_type item) (digest ?d) []" "File (ti_type item) ?d" "contents s'" "ti_path item", OF node]
      show "wp (bindE (liftE (add_node root p (ti_path item) (MemNode (ti_type item) (digest ?d) [])))
        (\<lambda>root'. mod_local (\<lambda>_. (root', files + 1)))) Q R (s', (root, files))"
        using 3 Some added stored le entry Q' built
        by (auto simp: wp_simps tar_apply_def R split: sum.split)
    qed (rule R)
    then show ?thesis using 3 Some by (simp add: apply_item_def wp_simps wp_on_store)
  qed
qed


lemma wp_apply_items:
  assumes "ok s" and "stands_for digest (contents s) root fs" and "\<forall>i\<in>set items. item_type (ti_type i)"
    and "\<forall>i\<in>set items. length (ti_data i) \<le> max_off"
    and "no_collision digest (contents s) (concat (map item_data items))"
    and Q: "\<And>s' root' files' fs'. ok s' \<Longrightarrow> tar_run items fs = Some fs' \<Longrightarrow> stands_for digest (contents s') root' fs' \<Longrightarrow>
      contents s' = blobs digest (concat (map item_data items)) ++ contents s \<Longrightarrow> rest s' = rest s \<Longrightarrow>
      forE items (build digest) ((), (root, files)) = (Inr (), ((), (root', files'))) \<Longrightarrow> Q () (s', (root', files'))"
    and R: "\<And>e sc. io_exn e \<Longrightarrow> R e sc"
  shows "wp (forE items (apply_item store)) Q R (s, (root, files))"
  using assms(1-5) Q
proof (induction items arbitrary: s root fs files)
  case Nil
  then show ?case by (simp add: wp_ret) (simp add: ret_def)
next
  case (Cons i items)
  show ?case
    unfolding forE.simps wp_thenE
  proof (rule wp_apply_item [OF Cons.prems(1,2)])
    show "item_type (ti_type i)" "length (ti_data i) \<le> max_off" using Cons.prems(3,4) by simp_all
    show "d' = d" if "d \<in> set (item_data i)" "contents s (digest d) = Some d'" for d d'
      by (rule no_collision_found [OF Cons.prems(5) contents_digest [OF Cons.prems(1)] _ that(2)]) (use that in simp_all)
    fix s1 root1 files1 fs1
    assume s1: "ok s1" "tar_apply i fs = Some fs1" "stands_for digest (contents s1) root1 fs1"
      "contents s1 = blobs digest (item_data i) ++ contents s" "rest s1 = rest s"
      "build digest i ((), (root, files)) = (Inr (), ((), (root1, files1)))"
    show "wp (forE items (apply_item store)) Q R (s1, (root1, files1))"
    proof (rule Cons.IH [OF s1(1,3)])
      show "no_collision digest (contents s1) (concat (map item_data items))"
        using no_collision_step [of digest "contents s" "item_data i"] Cons.prems(5) s1(4) by simp
      show "Q () (s', (root', files'))" if "ok s'" "tar_run items fs1 = Some fs'" "stands_for digest (contents s') root' fs'"
        "contents s' = blobs digest (concat (map item_data items)) ++ contents s1" "rest s' = rest s1"
        "forE items (build digest) ((), (root1, files1)) = (Inr (), ((), (root', files')))" for s' root' files' fs'
        using that s1 by (intro Cons.prems(6)) (simp_all add: blobs_append thenE_def bindE_def)
    qed (use Cons.prems in simp_all)
  qed (rule R)
qed


end

section \<open>What is in the store afterwards\<close>

text \<open>The tree below a root, with the contents of its files; no object of it is missing.\<close>

definition holds_tree :: "(bytes \<Rightarrow> bytes option) \<Rightarrow> bytes \<Rightarrow> fs_map \<Rightarrow> bool" where
  "holds_tree m h fs \<longleftrightarrow> (\<forall>p. case walk m (root_entry h) p of None \<Rightarrow> fs p = None
     | Some e \<Rightarrow> if te_type e = CHR ''d'' then fs p = Some Dir \<and> tree_at m (te_id e) \<noteq> None
         else \<exists>d. m (te_id e) = Some d \<and> fs p = Some (File (te_type e) d))"

text \<open>The tree and the file count an ingest comes to, and all it puts into the store, in order.\<close>

definition ingest_local :: "(bytes \<Rightarrow> bytes) \<Rightarrow> archive \<Rightarrow> mem_node \<times> u64" where
  "ingest_local dg arc = snd (snd (forE (fst (archive_items arc)) (build dg) ((), (dir_node, 0))))"

definition ingest_blobs :: "(bytes \<Rightarrow> bytes) \<Rightarrow> archive \<Rightarrow> bytes list" where
  "ingest_blobs dg arc = concat (map item_data (fst (archive_items arc))) @ flush_blobs dg (fst (ingest_local dg arc))"

lemma stands_for_holds:
  assumes "stands_for dg m root fs" and "m \<subseteq>\<^sub>m m'"
    and walk: "\<And>p. walk m' (root_entry h) p = map_option (\<lambda>n. \<lparr>te_name = last ([] # p), te_type = mn_type n, te_id = merkle dg n\<rparr>) (lookup_node root p)"
    and dirs: "\<And>p n. lookup_node root p = Some n \<Longrightarrow> is_dir n \<Longrightarrow> tree_at m' (merkle dg n) \<noteq> None"
  shows "holds_tree m' h fs"
  unfolding holds_tree_def
proof
  fix p
  have fs: "map_option (hashed dg) (fs p) = map_option entry_of (lookup_node root p)"
  proof -
    have "paths root p = map_option (hashed dg) (fs p)" using assms(1) by (simp add: stands_for_def)
    then show ?thesis by (simp add: paths_def)
  qed
  show "case walk m' (root_entry h) p of None \<Rightarrow> fs p = None
     | Some e \<Rightarrow> if te_type e = CHR ''d'' then fs p = Some Dir \<and> tree_at m' (te_id e) \<noteq> None
         else \<exists>d. m' (te_id e) = Some d \<and> fs p = Some (File (te_type e) d)"
  proof (cases "lookup_node root p")
    case None
    with fs show ?thesis by (simp add: walk)
  next
    case (Some n)
    show ?thesis
    proof (cases "is_dir n")
      case True
      then have "map_option (hashed dg) (fs p) = Some Dir" using fs Some by (simp add: entry_of_dir)
      then have "fs p = Some Dir" by auto
      with Some True dirs [OF Some True] show ?thesis by (simp add: walk)
    next
      case False
      obtain d where d: "fs p = Some (File (mn_type n) d)" "dg d = mn_id n" "m (dg d) = Some d"
        by (rule stands_for_link [OF assms(1) Some False])
      then have "m' (mn_id n) = Some d" using assms(2) by (auto simp: map_le_def dom_def)
      with Some False d show ?thesis by (simp add: walk merkle_file)
    qed
  qed
qed

context blob_store
begin

text \<open>Up to the registration of the root.\<close>

lemma wp_ingest_tree:
  assumes s: "ok s" and size: "\<forall>d\<in>set (ingest_blobs digest arc). length d \<le> max_off"
    and names: "\<forall>i\<in>set (fst (archive_items arc)). length (ti_data i) \<le> max_off"
    and free: "no_collision digest (contents s) (ingest_blobs digest arc)"
    and Q: "\<And>fs s'. tar_tree arc = Some fs \<Longrightarrow> ok s' \<Longrightarrow> holds_tree (contents s') (merkle digest (fst (ingest_local digest arc))) fs \<Longrightarrow>
      contents s' = blobs digest (ingest_blobs digest arc) ++ contents s \<Longrightarrow> rest s' = rest s \<Longrightarrow>
      Q (merkle digest (fst (ingest_local digest arc)), snd (ingest_local digest arc)) s'"
    and R: "\<And>e s'. io_exn e \<Longrightarrow> R e s'"
  shows "wp (ingest_tree store arc) Q R s"
proof -
  obtain items err where arc: "archive_items arc = (items, err)" by fastforce
  have types: "\<forall>i\<in>set items. item_type (ti_type i)"
    using archive_items_type [of _ arc] arc by simp
  have free': "no_collision digest (contents s) (concat (map item_data items))"
    using free unfolding no_collision_def ingest_blobs_def arc by (auto elim: inj_on_subset)
  show ?thesis
    unfolding ingest_tree_def wp_with_local wp_thenE consume_def arc prod.case
  proof (rule wp_apply_items [OF s stands_for_root types _ free'])
    show "\<forall>i\<in>set items. length (ti_data i) \<le> max_off" using names arc by simp
    fix s1 root files fs
    assume s1: "ok s1" "tar_run items [[] \<mapsto> Dir] = Some fs" "stands_for digest (contents s1) root fs"
      "contents s1 = blobs digest (concat (map item_data items)) ++ contents s" "rest s1 = rest s"
      and run: "forE items (build digest) ((), (dir_node, 0)) = (Inr (), ((), (root, files)))"
    have local: "ingest_local digest arc = (root, files)" by (simp add: ingest_local_def arc run)
    note root = s1(3) [unfolded stands_for_def]
    have dirs: "dirs_fit digest root" using size local by (simp add: dirs_fit_def ingest_blobs_def)
    have free1: "no_collision digest (contents s1) (flush_blobs digest root)"
      using no_collision_step [of digest "contents s" "concat (map item_data items)"] free local
      by (simp add: s1(4) ingest_blobs_def arc)
    show "wp (case err of None \<Rightarrow> ret () | Some e \<Rightarrow> throw e) (\<lambda>_. wp (bindE get_local (\<lambda>(root, files).
        bindE (on_store (flush_tree store root)) (\<lambda>h. ret (h, files)))) (\<lambda>a sc. Q a (fst sc)) (\<lambda>e sc. R e (fst sc)))
        (\<lambda>e sc. R e (fst sc)) (s1, (root, files))"
    proof (cases err)
      case (Some e)
      then have "io_exn e" using arc archive_items_error [of arc e] by auto
      with Some R show ?thesis by (simp add: wp_throw)
    next
      case None
      have "wp (flush_tree store root) (\<lambda>h s'. Q (h, files) s') R s1"
      proof (rule wp_flush_tree [OF _ _ s1(1) dirs])
        show "node_ok root" "is_dir root" using root by simp_all
        fix s'
        assume s': "ok s'" "contents s' = blobs digest (flush_blobs digest root) ++ contents s1" "rest s' = rest s1"
        have "walk (contents s') (root_entry (merkle digest root)) p = map_option
            (\<lambda>n. \<lparr>te_name = last ([] # p), te_type = mn_type n, te_id = merkle digest n\<rparr>) (lookup_node root p)" for p
          using walk_stored [where name = "[]" and cs = p and root = root, OF flushed_trees [OF _ s1(1) free1]] root
          by (simp add: s'(2) root_entry_def)
        then have "holds_tree (contents s') (merkle digest root) fs"
          using flushed_trees [OF conjunct1 [OF root] s1(1) free1] by (intro stands_for_holds [OF s1(3)]) (simp_all add: s'(2) map_le_map_add)
        moreover have "contents s' = blobs digest (ingest_blobs digest arc) ++ contents s"
          by (simp add: s'(2) s1(4) ingest_blobs_def arc local blobs_append)
        moreover have "tar_tree arc = Some fs" using s1(2) None by (simp add: tar_tree_def arc)
        ultimately show "Q (merkle digest root, files) s'"
          using Q s'(1,3) s1(5) local by simp
      qed (rule R)
      with None show ?thesis by (simp add: wp_simps wp_on_store)
    qed
  qed (rule R)
qed

end

end
