(* ===== verification/Ingest_Spec.thy ===== *)
theory Ingest_Spec
  imports Tree_Spec Ingest_Tree
begin

text \<open>
  What ingesting an archive promises, each property with an instance on a small archive and the
  platform of \<open>Sample\<close>.
\<close>

section \<open>Ingesting an archive\<close>

text \<open>C28: Whatever the schedule of the thread that reads the archive and the one that applies its
  items, the ingest comes to the outcome of reading and applying in turn: the same exception or
  none, and the same state of store and tree. The items before an unreadable entry are applied, and
  of two errors the consumer's wins.\<close>

theorem ingest_schedule_free:
  assumes "runs_to (apply_item store) (start arc c) C" and "cf_cons C = Returned x"
  shows "consume store arc c = (case x of None \<Rightarrow> Inr () | Some e \<Rightarrow> Inl e, cf_state C)"
  by (simp add: consume_outcome runs_outcome [OF assms, symmetric] split: option.split)

definition sample_archive :: archive where
  "sample_archive = Archive
     [\<lparr>hd_pathname = Some ''d/f'', hd_hardlink = None, hd_filetype = AE_IFREG, hd_symlink = None, hd_size = 2,
        hd_perm = 420, hd_data = [Got ''hi'']\<rparr>] Eof"

lemma sample_archive_items:
  "archive_items sample_archive = ([\<lparr>ti_path = ''d/f'', ti_type = CHR ''r'', ti_data = ''hi''\<rparr>], None)"
  by (simp add: sample_archive_def archive_items_def read_item_def read_regular_def kExecBits_def end_error_def)

text \<open>An archive with a broken header, and a run on it.\<close>

definition empty_archive :: archive where
  "empty_archive = Archive [] (NoHeader None)"

lemma empty_archive_runs:
  "\<exists>C. runs_to f (start empty_archive c) C \<and> cf_cons C = Returned (Some (RuntimeError ''archive error: unknown archive error'')) \<and> cf_state C = c"
proof -
  obtain C x where C: "runs_to f (start empty_archive c) C" "cf_cons C = Returned x"
    using runs_return [OF conf_inv_start [of empty_archive c]] by blast
  with runs_outcome [OF C] show ?thesis
    by (auto simp: empty_archive_def archive_items_def end_error_def archive_err_def)
qed

theorem ingest_schedule_free_witness:
  "consume (put sample) empty_archive (sample_cas, (dir_node, 0)) =
    (Inl (RuntimeError ''archive error: unknown archive error''), (sample_cas, (dir_node, 0)))"
proof -
  obtain C where "runs_to (apply_item (put sample)) (start empty_archive (sample_cas, (dir_node, 0))) C"
    "cf_cons C = Returned (Some (RuntimeError ''archive error: unknown archive error''))" "cf_state C = (sample_cas, (dir_node, 0))"
    using empty_archive_runs [of "apply_item (put sample)" "(sample_cas, (dir_node, 0))"] by blast
  with ingest_schedule_free [OF this(1,2)] show ?thesis by simp
qed



text \<open>C27: An ingest ends: whatever the two threads have done so far and in whatever order, the consumer can return, and
  no schedule takes more than four steps per header of the archive and five.\<close>

theorem ingest_terminates:
  assumes "(step f ^^ n) (start (Archive headers ending) c) C"
  shows "\<exists>k C' x. (step f ^^ k) C C' \<and> cf_cons C' = Returned x \<and> n + k \<le> 4 * length headers + 5"
proof -
  have "conf_work (start (Archive headers ending) c) = 4 * length headers + 5"
    by (simp add: conf_work_def start_def empty_queue_def)
  with steps_return [OF assms] show ?thesis by metis
qed

theorem ingest_terminates_witness:
  "\<exists>headers ending k C x. sample_archive = Archive headers ending \<and>
    (step (apply_item (put sample)) ^^ k) (start sample_archive (sample_cas, (dir_node, 0))) C \<and>
    cf_cons C = Returned x \<and> k \<le> 4 * length headers + 5"
proof -
  obtain headers ending where arc: "sample_archive = Archive headers ending" by (cases sample_archive)
  let ?C = "start (Archive headers ending) (sample_cas, (dir_node, 0))"
  have "(step (apply_item (put sample)) ^^ 0) ?C ?C" by simp
  from ingest_terminates [OF this] show ?thesis unfolding arc by auto
qed

text \<open>C36: The queue is bounded in every schedule: at most 512 items, and more than one only as long as
  their contents come to no more than 128 MiB; the byte counter never wraps.\<close>

theorem queue_stays_bounded:
  assumes "runs_to f (start arc c) C" and "\<forall>item\<in>set (fst (archive_items arc)). length (ti_data item) < 2 ^ 63"
  shows "length (q_items (cf_queue C)) \<le> 512 \<and> unat (q_bytes (cf_queue C)) = total_size (q_items (cf_queue C)) \<and>
    (1 < length (q_items (cf_queue C)) \<longrightarrow> total_size (q_items (cf_queue C)) \<le> 2 ^ 27)"
proof -
  have "items_fit (start arc c)" by (rule items_fit_start) (use assms(2) in \<open>simp add: item_fits_def\<close>)
  then have "items_fit C" by (rule runs_bounds [OF assms(1)])
  then show ?thesis by (auto simp: items_fit_def queue_bounds_def kMaxItems_def kMaxBytes_def)
qed

theorem queue_stays_bounded_witness:
  "\<exists>C. runs_to (apply_item (put sample)) (start sample_archive (sample_cas, (dir_node, 0))) C \<and> length (q_items (cf_queue C)) \<le> 512"
  using queue_stays_bounded [OF rtranclp.rtrancl_refl, where arc = sample_archive and c = "(sample_cas, (dir_node, 0))"]
  by (auto simp: sample_archive_items)

text \<open>C2: Ingesting an archive stores exactly the tree it says: if no error is thrown, the entries read
  in order and applied by the overwrite rules give a tree, and walking the stored objects from the
  answered root reaches its paths, its types and its contents, nothing more and nothing less; every
  blob that was there is kept, and nothing else is added but file contents and tree objects.\<close>

theorem ingest_stores_archive:
  assumes "pack_ok E s" and "\<forall>d\<in>set (ingest_blobs (blake3 E) arc). length d \<le> max_off"
    and "\<forall>item\<in>set (fst (archive_items arc)). length (ti_data item) \<le> max_off"
    and "no_collision (blake3 E) (store_view E s) (ingest_blobs (blake3 E) arc)"
  shows "wp (ingest_tree (put E) arc)
    (\<lambda>(root, files) s'. (\<exists>fs. tar_tree arc = Some fs \<and> holds_tree (store_view E s') root fs) \<and> pack_ok E s' \<and>
       store_view E s' = blobs (blake3 E) (ingest_blobs (blake3 E) arc) ++ store_view E s \<and>
       reader_table E s' Meta = reader_table E s Meta)
    (\<lambda>e s'. io_exn e) s"
  by (rule pack.wp_ingest_tree [OF assms(1-4)]) (auto simp: pack_rest_def)


lemma sample_tree_of: "ingest_local sample_hash sample_archive = (MemNode (CHR ''d'') [] [(''d'', MemNode (CHR ''d'') [] [(''f'', MemNode (CHR ''r'') (sample_hash ''hi'') [])])], 1)"
  by (simp add: ingest_local_def sample_archive_items apply_item_def 
   split_path_def split_loop.simps kMaxNameLen_def kMaxTreeDepth_def prog_defs on_store_def add_node_def Let_def dir_node_def)

lemma sample_ingest:
  "set (ingest_blobs sample_hash sample_archive) = {''hi'',
     tree_entry_bytes \<lparr>te_name = ''f'', te_type = CHR ''r'', te_id = sample_hash ''hi''\<rparr>,
     tree_entry_bytes \<lparr>te_name = ''d'', te_type = CHR ''d'',
       te_id = sample_hash (tree_entry_bytes \<lparr>te_name = ''f'', te_type = CHR ''r'', te_id = sample_hash ''hi''\<rparr>)\<rparr>}"
  by (simp add: ingest_blobs_def sample_tree_of sample_archive_items item_data_def
   flush_blobs_def tree_blobs_def sub_dirs_def dir_bytes_def merkle.simps)

lemma sample_ingest_ok:
  "\<forall>d\<in>set (ingest_blobs sample_hash sample_archive). length d \<le> max_off"
  "no_collision sample_hash Map.empty (ingest_blobs sample_hash sample_archive)"
  "\<forall>item\<in>set (fst (archive_items sample_archive)). length (ti_data item) \<le> max_off"
  unfolding no_collision_def sample_ingest
  by (simp_all add: sample_archive_items tree_entry_bytes_def max_off_def sample_hash_def)

lemma sample_tar_tree:
  "\<exists>fs. tar_tree sample_archive = Some fs \<and> fs [''d'', ''f''] = Some (File (CHR ''r'') ''hi'')"
  by (simp add: tar_tree_def sample_archive_items tar_apply_def tar_entry_def split_path_def split_loop.simps
    kMaxNameLen_def kMaxTreeDepth_def blocked_def inserted_def)

theorem ingest_stores_archive_witness:
  "wp (ingest_tree (put sample) sample_archive)
    (\<lambda>(root, files) s'. \<exists>e. walk (store_view sample s') (root_entry root) [''d'', ''f''] = Some e \<and>
       store_view sample s' (te_id e) = Some ''hi'')
    (\<lambda>e s'. io_exn e) sample_cas"
proof -
  obtain fs where fs: "tar_tree sample_archive = Some fs" "fs [''d'', ''f''] = Some (File (CHR ''r'') ''hi'')"
    using sample_tar_tree by blast
  have "\<exists>e. walk m (root_entry root) [''d'', ''f''] = Some e \<and> m (te_id e) = Some ''hi''" if "holds_tree m root fs" for m root
    using that [unfolded holds_tree_def, THEN spec [of _ "[''d'', ''f'']"]] fs(2)
    by (auto simp del: walk.simps split: option.splits if_splits)
  with fs(1) show ?thesis
    by (intro wp_mono [OF ingest_stores_archive [OF sample_pack_ok, of sample_archive]])
      (auto simp: sample_ingest_ok sample_view simp del: walk.simps)
qed

end
