(* ===== verification/Sample_Store.thy ===== *)
theory Sample_Store
  imports Gc Ingest_Spec
begin

text \<open>
  Stores with one committed blob and some records, on the platform of \<open>Sample\<close>.
\<close>

definition sample_index :: "bytes \<Rightarrow> (bytes \<times> bytes) list \<Rightarrow> tables" where
  "sample_index d recs = Tables [(sample_hash d, encode_entry (entry_for 0 d d))] ((''format'', ''2'') # recs)"

definition sample_with :: "bytes \<Rightarrow> (bytes \<times> bytes) list \<Rightarrow> (tables, tables) cas" where
  "sample_with d recs = sample_cas\<lparr>world := (set_inode 1 d sample_world)\<lparr>mdb_env := sample_index d recs\<rparr>\<rparr>"

definition sample_fits :: "bytes \<Rightarrow> (bytes \<times> bytes) list \<Rightarrow> bool" where
  "sample_fits d recs \<longleftrightarrow> length d \<le> 1000 \<and> map_of recs ''gen'' = None"

lemma sample_entry_blob:
  assumes "sample_fits d recs"
  shows "entry_blob sample d (encode_entry (entry_for 0 d d)) = Some d"
proof -
  have len: "unat (of_nat (length d) :: u64) = length d"
    using assms by (simp add: unat_of_nat sample_fits_def)
  then have "decode_entry (encode_entry (entry_for 0 d d)) = Inr (entry_for 0 d d)"
    using assms by (intro decode_encode_entry) (simp add: entry_for_def sample_fits_def)
  then show ?thesis
    by (rule entry_blobI) (simp_all add: in_pack_def entry_bytes_def unpack_def compressed_def entry_for_def substr_def len)
qed

lemma sample_with_world:
  "inodes (world (sample_with d recs)) 1 = d"
  "mdb_committed sample (mdb_env (world (sample_with d recs))) Blobs = [sample_hash d \<mapsto> encode_entry (entry_for 0 d d)]"
  "mdb_committed sample (mdb_env (world (sample_with d recs))) Meta = (map_of recs)(''format'' \<mapsto> ''2'')"
  by (simp_all add: sample_with_def sample_index_def set_inode_def) (auto simp: sample_def)

lemma sample_with_live: "sample_fits d recs \<Longrightarrow> live_pack sample (world (sample_with d recs)) 0 1"
  using sample_with_world(3) [of d recs]
  by (simp add: live_pack_def sample_pack_name table_gen_def sample_fits_def)
    (simp add: find_inode_def sample_with_def sample_world_def set_inode_def)

lemma sample_with_inv:
  assumes "sample_fits d recs"
  shows "cas_inv sample (sample_with d recs)"
proof (rule cas_invI [OF _ sample_with_live [OF assms]])
  show "files_ok (world (sample_with d recs))"
    using assms by (simp add: files_ok_def sample_with_def sample_world_def set_inode_def max_off_def sample_fits_def)
  show "index_ok sample (inodes (world (sample_with d recs)) 1) (mdb_committed sample (mdb_env (world (sample_with d recs))) Blobs)"
    unfolding sample_with_world using sample_entry_blob [OF assms] by (simp add: index_ok_def)
qed (simp_all add: handle_maps_inv_def maps_inv_def maps_below_def batch_inv_def sample_with_def sample_cas_def)

lemma sample_with_ok: "sample_fits d recs \<Longrightarrow> gc_ok sample (sample_with d recs)"
  using sample_platform sample_with_inv sample_with_live sample_with_world(1)
  by (auto simp: gc_ok_def pack_ok_def own_batch_def can_compact_def live_pack_def reader_table_def batch_txn_def
      sample_with_def sample_cas_def kMapSize_def sample_fits_def)

lemma sample_with_view: "sample_fits d recs \<Longrightarrow> store_view sample (sample_with d recs) = [sample_hash d \<mapsto> d]"
  using committed_view_live [OF sample_with_live] sample_entry_blob sample_with_world
  by (auto simp: store_view_none index_view_def fun_eq_iff sample_with_def sample_cas_def)

lemma sample_with_table: "reader_table sample (sample_with d recs) Meta = (map_of recs)(''format'' \<mapsto> ''2'')"
  using sample_with_world(3) [of d recs] by (simp add: reader_table_def batch_txn_def sample_with_def sample_cas_def)

text \<open>The same in a tree store, whose record extends that of the pack.\<close>

lemma extend_facts [simp]:
  "cas_inv E (cas.extend s z) = cas_inv E (cas.truncate s)"
  "own_batch E (cas.extend s z) = own_batch E (cas.truncate s)"
  "can_compact E (cas.extend s z) = can_compact E (cas.truncate s)"
  "store_view E (cas.extend s z) = store_view E (cas.truncate s)"
  "reader_table E (cas.extend s z) = reader_table E (cas.truncate s)"
  by (simp_all add: cas_inv_def handle_maps_inv_def maps_below_def batch_inv_def batch_at_def map_at_def own_batch_def
      reader_table_def batch_txn_def store_view_def batch_view_def can_compact_def cas.defs cong: option.case_cong)

definition sample_tree_store :: "bytes \<Rightarrow> (bytes \<times> bytes) list \<Rightarrow> (tables, tables) tree_store" where
  "sample_tree_store d recs = cas.extend (sample_with d recs) (tree_store.fields [(root_key (sample_hash ''no'') True, 7)] 1000 0 0)"

lemma truncate_cas [simp]: "cas.truncate (s :: ('e, 't) cas) = s"
  by (simp add: cas.defs)

lemma sample_tree_store_facts:
  assumes "sample_fits d recs"
  shows "gc_ok sample (sample_tree_store d recs)" "touches_ok (sample_tree_store d recs)"
    "store_view sample (sample_tree_store d recs) = [sample_hash d \<mapsto> d]"
    "reader_table sample (sample_tree_store d recs) Meta = (map_of recs)(''format'' \<mapsto> ''2'')"
  using sample_with_ok [OF assms] sample_with_view [OF assms] sample_with_table
  by (simp_all add: gc_ok_def pack_ok_def sample_tree_store_def)
    (auto simp: touches_ok_def cas.defs tree_store.defs)

end
