(* ===== verification/Open_Inv.thy ===== *)
theory Open_Inv
  imports Sample_Store
begin

text \<open>
  What opening a store does with the directory it finds. \<open>store_dir\<close> is a directory an earlier process left
  behind in order: the committed index is sound over the pack of its generation, which need not exist
  while there is nothing in it, and its format is this program's, or not written yet.
\<close>

section \<open>Directories\<close>

definition live_bytes :: "'e world \<Rightarrow> u64 \<Rightarrow> bytes" where
  "live_bytes w g = (case find_inode w (pack_name g) of None \<Rightarrow> [] | Some i \<Rightarrow> inodes w i)"

definition index_at :: "('e, 't) platform \<Rightarrow> (bytes \<Rightarrow> bytes option) \<Rightarrow> u64 \<Rightarrow> 'e world \<Rightarrow> bool" where
  "index_at E v g w \<longleftrightarrow> table_gen (mdb_committed E (mdb_env w)) = Some g \<and>
     index_ok E (live_bytes w g) (mdb_committed E (mdb_env w) Blobs) \<and> index_view E (live_bytes w g) (mdb_committed E (mdb_env w) Blobs) = v"

text \<open>The table with its format written.\<close>

definition format_at :: "(bytes \<Rightarrow> bytes option) \<Rightarrow> (dbi \<Rightarrow> bytes \<Rightarrow> bytes option) \<Rightarrow> bool" where
  "format_at mt tbl \<longleftrightarrow> mt = (tbl Meta)(''format'' \<mapsto> kFormat) \<and>
     (tbl Meta ''format'' = Some kFormat \<or> tbl Meta ''format'' = None \<and> tbl Blobs = Map.empty)"

definition store_dir ::
  "('e, 't) platform \<Rightarrow> (bytes \<Rightarrow> bytes option) \<Rightarrow> (bytes \<Rightarrow> bytes option) \<Rightarrow> u64 \<Rightarrow> 'e world \<Rightarrow> bool" where
  "store_dir E v mt g w \<longleftrightarrow> files_ok w \<and> index_at E v g w \<and> format_at mt (mdb_committed E (mdb_env w))"

lemma store_dir_env:
  assumes "store_dir E v mt g w" and "mdb_committed E e = mdb_committed E (mdb_env w)"
  shows "store_dir E v mt g (w\<lparr>mdb_env := e\<rparr>)"
  using assms by (simp add: store_dir_def index_at_def files_ok_def live_bytes_def find_inode_def cong: option.case_cong)

lemma store_dir_lock [simp]: "store_dir E v mt g (w\<lparr>flock_owner := x\<rparr>) = store_dir E v mt g w"
  by (simp add: store_dir_def index_at_def files_ok_def live_bytes_def find_inode_def cong: option.case_cong)

lemma live_bytes_link:
  assumes "files_ok w" and "find_inode w name = None"
  shows "live_bytes (link_new name w) g = live_bytes w g"
  using files_ok_less [OF assms(1), of "pack_name g"] assms(2)
  by (auto simp: live_bytes_def find_link_new split: option.splits) (simp_all add: link_new_def)

lemma store_dir_link:
  assumes "store_dir E v mt g w" and "find_inode w name = None"
  shows "store_dir E v mt g (link_new name w)"
  using assms files_ok_link_new [of w name] live_bytes_link [of w name g]
  by (simp add: store_dir_def index_at_def) (simp add: link_new_def)

lemma store_dir_unlink:
  assumes "store_dir E v mt g w" and "name \<noteq> pack_name g"
  shows "store_dir E v mt g (w\<lparr>dirents := filter (\<lambda>x. fst x \<noteq> name) (dirents w)\<rparr>)"
proof -
  have "map_of (filter (\<lambda>x. fst x \<noteq> name) xs) (pack_name g) = map_of xs (pack_name g)" for xs :: "(bytes \<times> nat) list"
    using assms(2) by (induction xs) auto
  moreover have "files_ok (w\<lparr>dirents := filter (\<lambda>x. fst x \<noteq> name) (dirents w)\<rparr>)"
    using assms(1) by (auto simp: store_dir_def files_ok_def distinct_map_filter)
  ultimately show ?thesis
    using assms(1) by (simp add: store_dir_def index_at_def live_bytes_def find_inode_def cong: option.case_cong)
qed

lemma store_dir_fresh:
  assumes "lmdb_ok E" and "files_ok w"
  shows "store_dir E Map.empty [''format'' \<mapsto> kFormat] 0 (w\<lparr>dirents := [], mdb_env := mdb_fresh E, flock_owner := x\<rparr>)"
  using assms(2) lmdb_envD(3) [OF assms(1)]
  by (simp add: store_dir_def index_at_def format_at_def files_ok_def table_gen_def index_ok_def index_view_def fun_eq_iff)

section \<open>The steps of opening\<close>

text \<open>A handle without mappings and without a batch.\<close>

definition bare :: "('e, 't, 'z) cas_scheme \<Rightarrow> bool" where
  "bare s \<longleftrightarrow> maps s = [] \<and> cur s = None \<and> retired s = [] \<and> wtxn s = None"

lemma orphan_gen_pack: "orphan_gen (pack_name g) = Some (unat g)"
proof -
  have "unat g < 2 ^ LENGTH(64)" by (rule unsigned_less)
  then show ?thesis
    using from_chars_dec_string [of "unat g" "2 ^ 64"] by (simp add: orphan_gen_def pack_name_def kPackPrefix_def)
qed

lemma wp_check_format:
  assumes ok: "lmdb_ok E" and f: "format_at mt (mdb_table E t)"
    and Q: "\<And>t'. mdb_table E t' = (mdb_table E t)(Meta := mt) \<Longrightarrow> Q t' s" and R: "\<And>e. io_exn e \<Longrightarrow> R e s"
  shows "wp (liftE (check_format E t)) Q R s"
proof -
  obtain res val where get: "mdb_get E t Meta ''format'' = (res, val)" by fastforce
  obtain res2 n where stat: "mdb_stat_entries E t Blobs = (res2, n)" by fastforce
  obtain res3 t' where put: "mdb_put E t Meta ''format'' kFormat False = (res3, t')" by fastforce
  consider (found) "res = MDB_SUCCESS" | (none) "res = MDB_NOTFOUND" | (err) "res \<noteq> MDB_SUCCESS" "res \<noteq> MDB_NOTFOUND" by blast
  then show ?thesis
  proof cases
    case found
    then have "mdb_table E t Meta ''format'' = Some val" using lmdb_readsD(2) [OF ok] get by blast
    with f have "val = kFormat" "mt = mdb_table E t Meta" by (auto simp: format_at_def)
    with found get Q [of t] show ?thesis by (simp add: check_format_def wp_simps)
  next
    case none
    then have "mdb_table E t Meta ''format'' = None" using lmdb_readsD(3) [OF ok] get by blast
    with f have m: "mdb_table E t Blobs = Map.empty" "mt = (mdb_table E t Meta)(''format'' \<mapsto> kFormat)" by (auto simp: format_at_def)
    then have "n = 0" if "res2 = MDB_SUCCESS" using lmdb_readsD(4) [OF ok] stat that by blast
    moreover have "mdb_table E t' = (mdb_table E t)(Meta := mt)" if "res3 = MDB_SUCCESS"
      using lmdb_writesD(1) [OF ok put] that m(2) by simp
    ultimately show ?thesis
      using none get stat put Q R by (simp add: check_format_def wp_simps mdb_exn_def)
  next
    case err
    with get R show ?thesis by (simp add: check_format_def wp_simps mdb_exn_def)
  qed
qed

lemma wp_open_index:
  fixes s :: "('e, 't, 'z) cas_scheme"
  assumes ok: "platform_ok E" and dir: "store_dir E v mt g (world s)" and b: "bare s"
    and Q: "\<And>s'. store_dir E v mt g (world s') \<Longrightarrow> mdb_committed E (mdb_env (world s')) Meta = mt \<Longrightarrow> bare s' \<Longrightarrow> Q g s'"
    and R: "\<And>e s'. io_exn e \<Longrightarrow> store_dir E v mt g (world s') \<Longrightarrow> bare s' \<Longrightarrow> R e s'"
  shows "wp (open_index E) Q R s"
  unfolding open_index_def
proof (intro wp_thenE_I wp_sys [OF platform_okD(3) [OF ok]] wp_bindE_I wp_readS_I)
  note lm = platform_okD(2) [OF ok]
  fix r :: outcome and n
  obtain res e' where op: "mdb_open E (mdb_env (world s)) = (res, e')" by fastforce
  have com: "mdb_committed E e' = mdb_committed E (mdb_env (world s))" by (rule lmdb_envD(2) [OF lm op])
  have keep: "store_dir E v mt g ((world s)\<lparr>mdb_env := e\<rparr>)" if "mdb_committed E e = mdb_committed E (mdb_env (world s))" for e
    using store_dir_env [OF dir that] .
  have bare: "bare (s\<lparr>world := w, tick := m\<rparr>)" for w m using b by (simp add: bare_def)
  have fmt: "format_at mt (mdb_committed E (mdb_env (world s)))" "table_gen (mdb_committed E (mdb_env (world s))) = Some g"
    using dir by (simp_all add: store_dir_def index_at_def)
  let ?s1 = "\<lambda>m. s\<lparr>tick := m, world := (world s)\<lparr>mdb_env := e'\<rparr>\<rparr>"
  have "wp (thenE (mdb_check E res ''env_open'') (bindE (txn_begin E) (\<lambda>t. bindE (liftE (check_format E t)) (\<lambda>t'.
      bindE (liftE (read_gen E t')) (\<lambda>gen. thenE (commit_owned E t') (ret gen)))))) Q R (?s1 n)" for n
  proof (intro wp_thenE_I wp_mdb_check wp_bindE_I wp_txn_begin [OF ok])
    fix t m
    assume t: "mdb_table E t = mdb_committed E (mdb_env (world (?s1 n)))"
    then have t: "mdb_table E t = mdb_committed E (mdb_env (world s))" using com by simp
    show "wp (liftE (check_format E t)) (\<lambda>t'. wp (bindE (liftE (read_gen E t')) (\<lambda>gen. thenE (commit_owned E t') (ret gen))) Q R) R
        (?s1 n\<lparr>tick := m\<rparr>)"
    proof (rule wp_check_format [OF lm])
      show "format_at mt (mdb_table E t)" using fmt t by simp
      fix t'
      assume t': "mdb_table E t' = (mdb_table E t)(Meta := mt)"
      have gen: "table_gen (mdb_table E t') = Some g" using fmt t t' by (simp add: table_gen_def format_at_def)
      show "wp (bindE (liftE (read_gen E t')) (\<lambda>gen. thenE (commit_owned E t') (ret gen))) Q R (?s1 n\<lparr>tick := m\<rparr>)"
        unfolding commit_owned_def
      proof (intro wp_bindE_I wp_thenE_I wp_read_gen [OF lm gen] wp_txn_commit [OF ok])
        fix res e'' k
        assume e'': "mdb_committed E e'' = (if res = MDB_SUCCESS then mdb_table E t'
          else mdb_committed E (mdb_env (world (?s1 n\<lparr>tick := m\<rparr>))))"
        have "store_dir E v mt g ((world s)\<lparr>mdb_env := e''\<rparr>)"
        proof (cases "res = MDB_SUCCESS")
          case True
          with e'' t t' have "mdb_committed E e'' = (mdb_committed E (mdb_env (world s)))(Meta := mt)" by simp
          with dir fmt show ?thesis
            by (simp add: store_dir_def index_at_def format_at_def table_gen_def files_ok_def live_bytes_def find_inode_def cong: option.case_cong)
        qed (use e'' com keep in simp)
        moreover have "mdb_committed E e'' Meta = mt" if "res = MDB_SUCCESS" using that e'' t' by simp
        ultimately show "wp (mdb_check E res ''txn_commit'') (\<lambda>_. wp (ret g) Q R) R
          (?s1 n\<lparr>tick := m\<rparr>\<lparr>tick := k, world := (world (?s1 n\<lparr>tick := m\<rparr>))\<lparr>mdb_env := e''\<rparr>\<rparr>)"
          using b by (auto simp: bare_def intro!: wp_mdb_check wp_ret_I Q R)
      qed (use keep com b in \<open>auto simp: bare_def intro!: R\<close>)
    qed (use keep com b in \<open>auto simp: bare_def intro!: R\<close>)
  qed (use keep com b in \<open>auto simp: bare_def intro!: R\<close>)
  then show "wp (case mdb_open E (mdb_env (world (s\<lparr>tick := n\<rparr>))) of (res, e') \<Rightarrow> thenE (modW (\<lambda>w. w\<lparr>mdb_env := e'\<rparr>))
      (thenE (mdb_check E res ''env_open'') (bindE (txn_begin E) (\<lambda>t. bindE (liftE (check_format E t)) (\<lambda>t'.
       bindE (liftE (read_gen E t')) (\<lambda>gen. thenE (commit_owned E t') (ret gen))))))) Q R (s\<lparr>tick := n\<rparr>)"
    using op by (auto intro!: wp_thenE_I wp_modW simp: wp_thenE)
qed

lemma wp_cleanup_orphans:
  fixes s :: "('e, 't, 'z) cas_scheme"
  assumes ok: "platform_ok E" and dir: "store_dir E v mt g (world s)" "mdb_committed E (mdb_env (world s)) Meta = mt" and b: "bare s"
    and Q: "\<And>s'. store_dir E v mt g (world s') \<Longrightarrow> mdb_committed E (mdb_env (world s')) Meta = mt \<Longrightarrow> bare s' \<Longrightarrow> Q () s'"
    and R: "\<And>e s'. io_exn e \<Longrightarrow> store_dir E v mt g (world s') \<Longrightarrow> bare s' \<Longrightarrow> R e s'"
  shows "wp (cleanup_orphans E g) Q R s"
  unfolding cleanup_orphans_def
proof (intro wp_bindE_I wp_sys_readdir [OF platform_okD(3) [OF ok]])
  let ?I = "\<lambda>s'. store_dir E v mt g (world s') \<and> mdb_committed E (mdb_env (world s')) Meta = mt \<and> bare s'"
  fix n
  have "wp (forE (map fst (dirents (world s))) (\<lambda>name. case orphan_gen name of None \<Rightarrow> ret ()
      | Some gen \<Rightarrow> whenE (of_nat gen \<noteq> g) (sys_unlink E name))) (\<lambda>_. ?I) (\<lambda>e s'. io_exn e \<and> ?I s') (s\<lparr>tick := n\<rparr>)"
  proof (rule wp_forE_inv)
    fix name s'
    assume I: "?I s'"
    show "wp (case orphan_gen name of None \<Rightarrow> ret () | Some gen \<Rightarrow> whenE (of_nat gen \<noteq> g) (sys_unlink E name)) (\<lambda>_. ?I)
      (\<lambda>e s'. io_exn e \<and> ?I s') s'"
    proof (intro wp_option_I wp_ret_I wp_whenE_I wp_sys_unlink [OF platform_okD(3) [OF ok]])
      fix gen n
      assume "orphan_gen name = Some gen" "of_nat gen \<noteq> g"
      then have "name \<noteq> pack_name g" by (auto simp: orphan_gen_pack)
      with I store_dir_unlink [of E v mt g "world s'" name] show "?I (s'\<lparr>tick := n, world := (world s')\<lparr>dirents := filter (\<lambda>x. fst x \<noteq> name) (dirents (world s'))\<rparr>\<rparr>)"
        by (simp add: bare_def)
    qed (use I in \<open>simp_all add: bare_def\<close>)
  qed (use dir b in \<open>simp add: bare_def\<close>)
  then show "wp (case Inr (map fst (dirents (world s))) of Inl err \<Rightarrow> sys_err ''directory_iterator'' err
     | Inr ns \<Rightarrow> forE ns (\<lambda>name. case orphan_gen name of None \<Rightarrow> ret ()
        | Some gen \<Rightarrow> whenE (of_nat gen \<noteq> g) (sys_unlink E name))) Q R (s\<lparr>tick := n\<rparr>)"
    by (auto intro: Q R elim!: wp_mono)
qed (use dir b in \<open>auto simp: bare_def intro!: wp_sys_err R\<close>)

text \<open>What a store is after it was opened.\<close>

definition opened ::
  "('e, 't) platform \<Rightarrow> (bytes \<Rightarrow> bytes option) \<Rightarrow> (bytes \<Rightarrow> bytes option) \<Rightarrow> ('e, 't, 'z) cas_scheme \<Rightarrow> bool" where
  "opened E v mt s \<longleftrightarrow> pack_ok E s \<and> wtxn s = None \<and> store_view E s = v \<and> reader_table E s Meta = mt"

lemma opened_mapped:
  assumes ok: "platform_ok E" and dir: "store_dir E v mt g (world s)" "mdb_committed E (mdb_env (world s)) Meta = mt"
    and i: "find_inode (world s) (pack_name g) = Some i" and h: "maps s = [\<lparr>m_fd = i, m_gen = g, m_size = of_nat (length (inodes (world s) i))\<rparr>]"
    "cur s = Some 0" "retired s = []" "wtxn s = None"
  shows "opened E v mt s"
proof -
  have w: "files_ok (world s)" "index_at E v g (world s)" using dir(1) by (simp_all add: store_dir_def)
  have live: "live_pack E (world s) g i" using w(2) i by (simp add: live_pack_def index_at_def)
  have pk: "live_bytes (world s) g = inodes (world s) i" using i by (simp add: live_bytes_def)
  have "j = i \<longleftrightarrow> name = pack_name g" if "find_inode (world s) name = Some j" for name j
    using files_ok_inj [OF w(1), of name i "pack_name g"] that i by auto
  then have "map_ok (world s) \<lparr>m_fd = i, m_gen = g, m_size = of_nat (length (inodes (world s) i))\<rparr>"
    using files_ok_less [OF w(1) i] files_ok_unat [OF w(1)] by (simp add: map_ok_def)
  then have "handle_maps_inv s" "maps_below g s" by (simp_all add: handle_maps_inv_def maps_inv_def maps_below_def h)
  moreover have "index_ok E (inodes (world s) i) (mdb_committed E (mdb_env (world s)) Blobs)" using w(2) pk by (simp add: index_at_def)
  ultimately have idle: "idle_inv E g i s" using w(1) live by (simp add: idle_inv_def)
  then have "pack_ok E s" using ok idle_cas_inv [OF idle h(4)] h(4) by (simp add: pack_ok_def own_batch_def)
  moreover have "store_view E s = v"
    using store_view_none [OF h(4)] committed_view_live [OF live] w(2) pk by (simp add: index_at_def)
  ultimately show ?thesis using h(4) dir(2) by (simp add: opened_def reader_table_idle batch_txn_None committed_tables_def)
qed

lemma wp_open_mapping:
  fixes s :: "('e, 't, 'z) cas_scheme"
  assumes ok: "platform_ok E" and dir: "store_dir E v mt g (world s)" "mdb_committed E (mdb_env (world s)) Meta = mt" and b: "bare s"
    and Q: "\<And>s'. opened E v mt s' \<Longrightarrow> Q (Some 0) s'"
    and R: "\<And>e s'. io_exn e \<Longrightarrow> store_dir E v mt g (world s') \<Longrightarrow> bare s' \<Longrightarrow> R e s'"
  shows "wp (mapping_for E g True) Q R s"
proof -
  note q = platform_okD(3) [OF ok]
  have none: "find_mapping s g = None" using b by (simp add: find_mapping_def bare_def)
  let ?m = "\<lambda>s i. \<lparr>m_fd = i, m_gen = g, m_size = of_nat (length (inodes (world s) i))\<rparr>"
  define I where "I = (\<lambda>s :: ('e, 't, 'z) cas_scheme. store_dir E v mt g (world s) \<and> mdb_committed E (mdb_env (world s)) Meta = mt \<and> bare s)"
  define A where "A = (\<lambda>r s'. \<exists>(s1 :: ('e, 't, 'z) cas_scheme) i n. r = Some (0 :: nat) \<and> s' = s1\<lparr>tick := n, maps := [?m s1 i]\<rparr> \<and> I s1 \<and>
    find_inode (world s1) (pack_name g) = Some i)"
  have I: "I (s\<lparr>tick := n\<rparr>)" for n using dir b by (simp add: I_def bare_def)
  have err: "io_exn e \<and> store_dir E v mt g (world s') \<and> bare s'" if "I s'" "io_exn e" for e s' using that by (simp add: I_def)
  have mapped: "wp (bindE (sys_fstat_size E i) (\<lambda>r. case r of Inl err \<Rightarrow> sys_err ''fstat pack'' err
       | Inr n \<Rightarrow> bindE (sys_mmap E i) (\<lambda>r. case r of Inl err \<Rightarrow> sys_err ''mmap pack'' err
         | Inr _ \<Rightarrow> bindE (readS (\<lambda>s. length (maps s))) (\<lambda>p.
             thenE (modS (\<lambda>s. s\<lparr>maps := maps s @ [\<lparr>m_fd = i, m_gen = g, m_size = n\<rparr>]\<rparr>)) (ret (Some p))))))
      A (\<lambda>e s'. io_exn e \<and> store_dir E v mt g (world s') \<and> bare s') s1"
    if "I s1" "find_inode (world s1) (pack_name g) = Some i" for s1 i
    using that by (intro wp_rules q) (auto simp: A_def I_def bare_def intro!: wp_rules q exI [of _ s1])
  have map: "wp (map_pack E g True) A (\<lambda>e s'. io_exn e \<and> store_dir E v mt g (world s') \<and> bare s') s"
    unfolding map_pack_def
  proof (intro wp_bindE_I wp_readS_I wp_sys_open [OF q])
    show "wp (case Inr i of Inl err \<Rightarrow> if \<not> True \<and> err = ''ENOENT'' then ret None else sys_err (''open '' @ pack_path s g) err
       | Inr fd \<Rightarrow> bindE (sys_fstat_size E fd) (\<lambda>r. case r of Inl err \<Rightarrow> sys_err ''fstat pack'' err
         | Inr n \<Rightarrow> bindE (sys_mmap E fd) (\<lambda>r. case r of Inl err \<Rightarrow> sys_err ''mmap pack'' err
           | Inr _ \<Rightarrow> bindE (readS (\<lambda>s. length (maps s))) (\<lambda>p.
             thenE (modS (\<lambda>s. s\<lparr>maps := maps s @ [\<lparr>m_fd = fd, m_gen = g, m_size = n\<rparr>]\<rparr>)) (ret (Some p))))))
        A (\<lambda>e s'. io_exn e \<and> store_dir E v mt g (world s') \<and> bare s') (s\<lparr>tick := n\<rparr>)"
      if "find_inode (world s) (pack_name g) = Some i" for i n
      using mapped [OF I] that by simp
    show "wp (case Inr (next_inode (world s)) of Inl err \<Rightarrow> if \<not> True \<and> err = ''ENOENT'' then ret None else sys_err (''open '' @ pack_path s g) err
       | Inr fd \<Rightarrow> bindE (sys_fstat_size E fd) (\<lambda>r. case r of Inl err \<Rightarrow> sys_err ''fstat pack'' err
         | Inr n \<Rightarrow> bindE (sys_mmap E fd) (\<lambda>r. case r of Inl err \<Rightarrow> sys_err ''mmap pack'' err
           | Inr _ \<Rightarrow> bindE (readS (\<lambda>s. length (maps s))) (\<lambda>p.
             thenE (modS (\<lambda>s. s\<lparr>maps := maps s @ [\<lparr>m_fd = fd, m_gen = g, m_size = n\<rparr>]\<rparr>)) (ret (Some p))))))
        A (\<lambda>e s'. io_exn e \<and> store_dir E v mt g (world s') \<and> bare s') (s\<lparr>tick := n, world := link_new (pack_name g) (world s)\<rparr>)"
      if n: "find_inode (world s) (pack_name g) = None" for n
    proof -
      have "I (s\<lparr>tick := n, world := link_new (pack_name g) (world s)\<rparr>)"
        using dir b store_dir_link [OF dir(1) n] by (simp add: I_def bare_def) (simp add: link_new_def)
      then show ?thesis using mapped [of "s\<lparr>tick := n, world := link_new (pack_name g) (world s)\<rparr>" "next_inode (world s)"] n
        by (simp add: find_link_new)
    qed
  qed (use I err in \<open>auto intro!: wp_sys_err\<close>)
  have install: "wp (case r of None \<Rightarrow> ret None | Some p \<Rightarrow> thenE (modS (install_mapping g p)) (ret (Some p))) Q R s'" if a: "A r s'" for r s'
  proof -
    obtain s1 i n where s1: "r = Some 0" "s' = s1\<lparr>tick := n, maps := [?m s1 i]\<rparr>" "I s1" "find_inode (world s1) (pack_name g) = Some i"
      using a by (auto simp: A_def)
    have "opened E v mt (s'\<lparr>cur := Some 0\<rparr>)"
      by (rule opened_mapped [OF ok]) (use s1 in \<open>simp_all add: I_def bare_def\<close>)
    with s1 show ?thesis by (simp add: wp_simps install_mapping_def I_def bare_def Q)
  qed
  have "wp (map_pack E g True) (\<lambda>r. wp (case r of None \<Rightarrow> ret None | Some p \<Rightarrow> thenE (modS (install_mapping g p)) (ret (Some p))) Q R) R s"
    by (rule wp_mono [OF map]) (auto intro: install R)
  with none show ?thesis by (simp add: mapping_for_def wp_simps)
qed

section \<open>Opening\<close>

lemma wp_sys_mkdir:
  assumes "quiet E" and "\<And>r n. Q r (s\<lparr>tick := n\<rparr>)"
  shows "wp (sys_mkdir E) Q R s"
  unfolding sys_mkdir_def by (intro wp_bindE_I wp_sys [OF assms(1)]) (auto intro!: wp_ret_I assms(2) split: outcome.split)

lemma wp_open_once:
  fixes s :: "('e, 't, 'z) cas_scheme"
  assumes ok: "platform_ok E" and dir: "store_dir E v mt g (world s)"
    and Q: "\<And>s'. opened E v mt s' \<Longrightarrow> Q () s'"
    and R: "\<And>e s'. io_exn e \<Longrightarrow> store_dir E v mt g (world s') \<Longrightarrow> bare s' \<Longrightarrow> R e s'"
  shows "wp (open_once E path) Q R s"
proof -
  note q = platform_okD(3) [OF ok]
  define I where "I = (\<lambda>s :: ('e, 't, 'z) cas_scheme. store_dir E v mt g (world s) \<and> mdb_committed E (mdb_env (world s)) Meta = mt \<and> bare s)"
  define D where "D = (\<lambda>s :: ('e, 't, 'z) cas_scheme. store_dir E v mt g (world s) \<and> bare s)"
  have R: "R e s'" if "io_exn e" "D s'" for e s' using that R by (simp add: D_def)
  have ID: "D s'" if "I s'" for s' using that by (simp add: I_def D_def)
  have I_tick: "I (s'\<lparr>tick := n\<rparr>)" if "I s'" for s' n using that by (simp add: I_def bare_def)
  have I_lock: "I (s'\<lparr>tick := n, world := (world s')\<lparr>flock_owner := x\<rparr>\<rparr>)" if "I s'" for s' n x using that by (simp add: I_def bare_def)
  have map: "wp (bindE (mapping_for E g True) (\<lambda>p. whenE (p = None) (throw (RuntimeError ''cannot map pack'')))) Q R s'" if "I s'" for s'
    unfolding wp_bindE by (rule wp_open_mapping [OF ok]) (use that R Q in \<open>auto simp: I_def D_def wp_simps\<close>)
  have flock: "wp (bindE (sys_flock_nb E) (\<lambda>r. thenE (case r of Inl _ \<Rightarrow> ret () | Inr _ \<Rightarrow> thenE (cleanup_orphans E g) (unlock_writer E))
      (bindE (mapping_for E g True) (\<lambda>p. whenE (p = None) (throw (RuntimeError ''cannot map pack'')))))) Q R s'" if I: "I s'" for s'
  proof (intro wp_bindE_I wp_sys_flock_nb [OF q] wp_thenE_I)
    show "wp (case Inl err of Inl _ \<Rightarrow> ret () | Inr _ \<Rightarrow> thenE (cleanup_orphans E g) (unlock_writer E))
       (\<lambda>_. wp (bindE (mapping_for E g True) (\<lambda>p. whenE (p = None) (throw (RuntimeError ''cannot map pack'')))) Q R) R (s'\<lparr>tick := n\<rparr>)" for err n
      using map [OF I_tick [OF I]] by (simp add: wp_ret)
    let ?s = "\<lambda>n. s'\<lparr>tick := n, world := (world s')\<lparr>flock_owner := Some (self E)\<rparr>\<rparr>"
    have "wp (cleanup_orphans E g) (\<lambda>_. wp (unlock_writer E)
        (\<lambda>_. wp (bindE (mapping_for E g True) (\<lambda>p. whenE (p = None) (throw (RuntimeError ''cannot map pack'')))) Q R) R) R (?s n)" for n
    proof (rule wp_cleanup_orphans [OF ok])
      fix s2 :: "('e, 't, 'z) cas_scheme"
      assume "store_dir E v mt g (world s2)" "mdb_committed E (mdb_env (world s2)) Meta = mt" "bare s2"
      then have "I s2" by (simp add: I_def)
      then show "wp (unlock_writer E) (\<lambda>_. wp (bindE (mapping_for E g True) (\<lambda>p. whenE (p = None) (throw (RuntimeError ''cannot map pack'')))) Q R) R s2"
        unfolding unlock_writer_def by (intro wp_sys_flock_un [OF q] map I_tick I_lock)
    qed (use I_lock [OF I] R in \<open>simp_all add: I_def D_def\<close>)
    then show "wp (case Inr () of Inl _ \<Rightarrow> ret () | Inr _ \<Rightarrow> thenE (cleanup_orphans E g) (unlock_writer E))
       (\<lambda>_. wp (bindE (mapping_for E g True) (\<lambda>p. whenE (p = None) (throw (RuntimeError ''cannot map pack'')))) Q R) R (?s n)" for n
      by (simp add: wp_thenE)
  qed
  have lock: "wp (bindE (sys_open E ''lock'' True False) (\<lambda>r. case r of
              Inl err \<Rightarrow> sys_err (''open '' @ path @ ''/lock'') err
            | Inr _ \<Rightarrow> bindE (sys_flock_nb E) (\<lambda>r.
                thenE (case r of Inl _ \<Rightarrow> ret () | Inr _ \<Rightarrow> thenE (cleanup_orphans E g) (unlock_writer E))
                (bindE (mapping_for E g True) (\<lambda>p.
                 whenE (p = None) (throw (RuntimeError ''cannot map pack''))))))) Q R s'" if I: "I s'" for s'
  proof (intro wp_bindE_I wp_sys_open [OF q])
    fix n
    assume n: "find_inode (world s') ''lock'' = None"
    have "I (s'\<lparr>tick := n, world := link_new ''lock'' (world s')\<rparr>)"
      using I store_dir_link [OF _ n, of E v mt g] by (simp add: I_def bare_def) (simp add: link_new_def)
    with flock show "wp (case Inr (next_inode (world s')) of Inl err \<Rightarrow> sys_err (''open '' @ path @ ''/lock'') err
            | Inr _ \<Rightarrow> bindE (sys_flock_nb E) (\<lambda>r.
                thenE (case r of Inl _ \<Rightarrow> ret () | Inr _ \<Rightarrow> thenE (cleanup_orphans E g) (unlock_writer E))
                (bindE (mapping_for E g True) (\<lambda>p. whenE (p = None) (throw (RuntimeError ''cannot map pack'')))))) Q R
        (s'\<lparr>tick := n, world := link_new ''lock'' (world s')\<rparr>)" by simp
  qed (use flock I_tick [OF I] ID R in \<open>auto intro!: wp_sys_err\<close>)
  have index: "wp (bindE (open_index E) (\<lambda>gen. bindE (sys_open E ''lock'' True False) (\<lambda>r. case r of
              Inl err \<Rightarrow> sys_err (''open '' @ path @ ''/lock'') err
            | Inr _ \<Rightarrow> bindE (sys_flock_nb E) (\<lambda>r.
                thenE (case r of Inl _ \<Rightarrow> ret () | Inr _ \<Rightarrow> thenE (cleanup_orphans E gen) (unlock_writer E))
                (bindE (mapping_for E gen True) (\<lambda>p.
                 whenE (p = None) (throw (RuntimeError ''cannot map pack'')))))))) Q R s'" if "D s'" for s'
    unfolding wp_bindE [of "open_index E"]
  proof (rule wp_open_index [OF ok, where v = v and mt = mt and g = g])
    show "store_dir E v mt g (world s')" "bare s'" using that by (simp_all add: D_def)
  qed (rule lock, simp add: I_def, rule R, simp_all add: D_def)
  have D: "D (fresh_impl path s\<lparr>tick := n\<rparr>)" for n using dir by (simp add: D_def fresh_impl_def bare_def)
  have D_tick: "D (s'\<lparr>tick := n\<rparr>)" if "D s'" for s' n using that by (simp add: D_def bare_def)
  show ?thesis
    unfolding open_once_def
    by (intro wp_thenE_I wp_modS_I wp_bindE_I wp_sys_mkdir [OF q] wp_sum_I wp_sys_err R index [unfolded wp_bindE] index D_tick D | assumption)+
qed

lemma wp_open_fresh:
  fixes s :: "('e, 't, 'z) cas_scheme"
  assumes ok: "platform_ok E" and "files_ok (world s)"
    and Q: "\<And>s'. opened E Map.empty [''format'' \<mapsto> kFormat] s' \<Longrightarrow> Q () s'" and R: "\<And>e s'. io_exn e \<Longrightarrow> R e s'"
  shows "wp (open_once E path) Q R (s\<lparr>tick := n, world := (world s)\<lparr>dirents := [], mdb_env := mdb_fresh E, flock_owner := None\<rparr>\<rparr>)"
  by (rule wp_open_once [OF ok, where g = 0])
    (use store_dir_fresh [OF platform_okD(2) [OF ok] assms(2), of None] Q R in simp_all)

lemma wp_remove_all:
  assumes "quiet E" and "\<And>n. Q () (s\<lparr>tick := n\<rparr>)"
    and "\<And>n. Q () (s\<lparr>tick := n, world := (world s)\<lparr>dirents := [], mdb_env := mdb_fresh E, flock_owner := None\<rparr>\<rparr>)"
  shows "wp (remove_all E) Q R s"
  unfolding remove_all_def
  by (intro wp_bindE_I wp_sys [OF assms(1)]) (auto simp: wp_simps modW_def assms split: outcome.split)

lemma wp_pack_open:
  fixes s :: "('e, 't, 'z) cas_scheme"
  assumes ok: "platform_ok E" and dir: "store_dir E v mt g (world s)"
    and kept: "\<And>s'. opened E v mt s' \<Longrightarrow> Q () s'" and wiped: "\<And>s'. opened E Map.empty [''format'' \<mapsto> kFormat] s' \<Longrightarrow> Q () s'"
    and R: "\<And>e s'. io_exn e \<Longrightarrow> R e s'"
  shows "wp (pack_open E path) Q R s"
  unfolding pack_open_def wp_tryE
proof (rule wp_open_once [OF ok dir])
  fix e and s' :: "('e, 't, 'z) cas_scheme"
  assume a: "store_dir E v mt g (world s')" "bare s'"
  let ?s1 = "s'\<lparr>retired := [], cur := None, world := (if flock_owner (world s') = Some (self E) then (world s')\<lparr>flock_owner := None\<rparr> else world s')\<rparr>"
  have d1: "store_dir E v mt g (world ?s1)" using a by simp
  have "wp (remove_all E) (\<lambda>_. wp (open_once E path) Q R) R ?s1"
  proof (rule wp_remove_all [OF platform_okD(3) [OF ok]])
    show "wp (open_once E path) Q R (?s1\<lparr>tick := n\<rparr>)" for n
      by (rule wp_open_once [OF ok]) (use d1 kept R in simp_all)
    show "wp (open_once E path) Q R (?s1\<lparr>tick := n, world := (world ?s1)\<lparr>dirents := [], mdb_env := mdb_fresh E, flock_owner := None\<rparr>\<rparr>)" for n
      by (rule wp_open_fresh [OF ok]) (use d1 wiped R in \<open>simp_all add: store_dir_def\<close>)
  qed
  with a show "wp (thenE (destroy E) (thenE (remove_all E) (open_once E path))) Q R s'"
    by (simp add: destroy_def wp_simps bare_def)
qed (rule kept)

section \<open>Directories of another format\<close>

text \<open>The format is another one, or none is written and the index is not empty, or the generation is broken.\<close>

definition foreign_tables :: "(dbi \<Rightarrow> bytes \<Rightarrow> bytes option) \<Rightarrow> bool" where
  "foreign_tables tbl \<longleftrightarrow> table_gen tbl = None \<or>
     (case tbl Meta ''format'' of None \<Rightarrow> tbl Blobs \<noteq> Map.empty | Some f \<Rightarrow> f \<noteq> kFormat)"

definition foreign_dir :: "('e, 't) platform \<Rightarrow> 'e world \<Rightarrow> bool" where
  "foreign_dir E w \<longleftrightarrow> files_ok w \<and> foreign_tables (mdb_committed E (mdb_env w))"

definition refused :: "exn \<Rightarrow> bool" where
  "refused e \<longleftrightarrow> io_exn e \<or> is_corrupt e"

lemma foreign_dir_env: "foreign_dir E w \<Longrightarrow> mdb_committed E e = mdb_committed E (mdb_env w) \<Longrightarrow> foreign_dir E (w\<lparr>mdb_env := e\<rparr>)"
  by (simp add: foreign_dir_def files_ok_def)

lemma wp_foreign_tables:
  assumes ok: "lmdb_ok E" and f: "foreign_tables (mdb_table E t)" and R: "\<And>e. refused e \<Longrightarrow> R e s"
  shows "wp (bindE (liftE (check_format E t)) (\<lambda>t'. bindE (liftE (read_gen E t')) (rest t'))) Q R s"
proof -
  obtain res val where get: "mdb_get E t Meta ''format'' = (res, val)" by fastforce
  obtain res2 n where stat: "mdb_stat_entries E t Blobs = (res2, n)" by fastforce
  obtain res3 t' where put: "mdb_put E t Meta ''format'' kFormat False = (res3, t')" by fastforce
  have gen: "\<exists>e. read_gen E t' = Inl e \<and> refused e" if "table_gen (mdb_table E t') = None" for t'
  proof -
    obtain res val where g: "mdb_get E t' Meta ''gen'' = (res, val)" by fastforce
    have "res \<noteq> MDB_NOTFOUND" "res = MDB_SUCCESS \<longrightarrow> length val \<noteq> 8"
      using lmdb_readsD(2,3) [OF ok] g that by (auto simp: table_gen_def split: option.splits if_splits)
    with g show ?thesis by (simp add: read_gen_def refused_def mdb_exn_def)
  qed
  consider (found) "res = MDB_SUCCESS" | (none) "res = MDB_NOTFOUND" | (err) "res \<noteq> MDB_SUCCESS" "res \<noteq> MDB_NOTFOUND" by blast
  then show ?thesis
  proof cases
    case found
    then have "mdb_table E t Meta ''format'' = Some val" using lmdb_readsD(2) [OF ok] get by blast
    with f have foreign: "val \<noteq> kFormat \<or> table_gen (mdb_table E t) = None" by (auto simp: foreign_tables_def)
    show ?thesis
    proof (cases "val = kFormat")
      case True
      with foreign obtain e where "read_gen E t = Inl e" "refused e" using gen [of t] by auto
      with True found get R show ?thesis by (simp add: check_format_def wp_simps)
    next
      case False
      with found get R show ?thesis by (simp add: check_format_def wp_simps refused_def)
    qed
  next
    case none
    then have "mdb_table E t Meta ''format'' = None" using lmdb_readsD(3) [OF ok] get by blast
    with f have "mdb_table E t Blobs \<noteq> Map.empty \<or> table_gen (mdb_table E t) = None" unfolding foreign_tables_def by simp blast
    then have n: "n \<noteq> 0 \<or> table_gen (mdb_table E t) = None" if "res2 = MDB_SUCCESS"
      using lmdb_readsD(4) [OF ok, of t Blobs n] stat that by simp
    have g: "table_gen (mdb_table E t') = table_gen (mdb_table E t)" using lmdb_writesD(1) [OF ok put] by (simp add: table_gen_def)
    show ?thesis
    proof (cases "res2 = MDB_SUCCESS \<and> n = 0 \<and> res3 = MDB_SUCCESS")
      case True
      with n g obtain e where "read_gen E t' = Inl e" "refused e" using gen [of t'] by auto
      with True none get stat put R show ?thesis by (simp add: check_format_def wp_simps)
    next
      case False
      with none get stat put R show ?thesis by (auto simp: check_format_def wp_simps mdb_exn_def refused_def)
    qed
  next
    case err
    with get R show ?thesis by (simp add: check_format_def wp_simps mdb_exn_def refused_def)
  qed
qed

lemma wp_open_once_foreign:
  fixes s :: "('e, 't, 'z) cas_scheme"
  assumes ok: "platform_ok E" and dir: "foreign_dir E (world s)"
    and R: "\<And>e s'. refused e \<Longrightarrow> foreign_dir E (world s') \<Longrightarrow> bare s' \<Longrightarrow> R e s'"
  shows "wp (open_once E path) Q R s"
proof -
  note q = platform_okD(3) [OF ok] and lm = platform_okD(2) [OF ok]
  define D where "D = (\<lambda>s :: ('e, 't, 'z) cas_scheme. foreign_dir E (world s) \<and> bare s)"
  have err: "R e s'" if "refused e" "D s'" for e s' using that R by (simp add: D_def)
  have io: "R e s'" if "io_exn e" "D s'" for e s' using that err by (simp add: refused_def)
  have D: "D (fresh_impl path s\<lparr>tick := n\<rparr>)" for n using dir by (simp add: D_def fresh_impl_def bare_def)
  have D_tick: "D (s'\<lparr>tick := n\<rparr>)" if "D s'" for s' n using that by (simp add: D_def bare_def)
  have index: "wp (bindE (open_index E) rest) Q R s'" if D: "D s'" for s' rest
    unfolding open_index_def wp_bindE [of "thenE (sys E) _"]
  proof (intro wp_thenE_I wp_sys [OF q] wp_bindE_I wp_readS_I)
    fix r n
    obtain res e' where op: "mdb_open E (mdb_env (world s')) = (res, e')" by fastforce
    have com: "mdb_committed E e' = mdb_committed E (mdb_env (world s'))" by (rule lmdb_envD(2) [OF lm op])
    let ?s1 = "s'\<lparr>tick := n, world := (world s')\<lparr>mdb_env := e'\<rparr>\<rparr>"
    have D1: "D ?s1" using D foreign_dir_env [OF _ com] by (simp add: D_def bare_def)
    have "wp (thenE (mdb_check E res ''env_open'') (bindE (txn_begin E) (\<lambda>t. bindE (liftE (check_format E t)) (\<lambda>t'.
      bindE (liftE (read_gen E t')) (\<lambda>gen. thenE (commit_owned E t') (ret gen)))))) (\<lambda>a. wp (rest a) Q R) R ?s1"
      unfolding wp_thenE wp_bindE [of "txn_begin E"]
    proof (intro wp_mdb_check wp_txn_begin [OF ok])
      show "wp (bindE (liftE (check_format E t)) (\<lambda>t'. bindE (liftE (read_gen E t')) (\<lambda>gen. thenE (commit_owned E t') (ret gen))))
        (\<lambda>a. wp (rest a) Q R) R (?s1\<lparr>tick := m\<rparr>)" if "mdb_table E t = mdb_committed E (mdb_env (world ?s1))" for t m
        by (rule wp_foreign_tables [OF lm]) (use that D1 err D_tick [OF D1] in \<open>simp_all add: D_def foreign_dir_def\<close>)
    qed (use io D1 D_tick [OF D1] in simp_all)
    then show "wp (case mdb_open E (mdb_env (world (s'\<lparr>tick := n\<rparr>))) of (res, e') \<Rightarrow> thenE (modW (\<lambda>w. w\<lparr>mdb_env := e'\<rparr>))
      (thenE (mdb_check E res ''env_open'') (bindE (txn_begin E) (\<lambda>t. bindE (liftE (check_format E t)) (\<lambda>t'.
       bindE (liftE (read_gen E t')) (\<lambda>gen. thenE (commit_owned E t') (ret gen))))))) (\<lambda>a. wp (rest a) Q R) R (s'\<lparr>tick := n\<rparr>)"
      using op by (auto intro!: wp_thenE_I wp_modW simp: wp_thenE)
  qed
  show ?thesis
    unfolding open_once_def
    by (intro wp_thenE_I wp_modS_I wp_bindE_I [of "sys_mkdir E"] wp_sys_mkdir [OF q] wp_sum_I wp_sys_err io index D_tick D | assumption)+
qed

lemma wp_pack_open_foreign:
  fixes s :: "('e, 't, 'z) cas_scheme"
  assumes ok: "platform_ok E" and dir: "foreign_dir E (world s)"
    and Q: "\<And>s'. opened E Map.empty [''format'' \<mapsto> kFormat] s' \<Longrightarrow> Q () s'"
    and R: "\<And>e s'. refused e \<Longrightarrow> R e s'"
  shows "wp (pack_open E path) Q R s"
  unfolding pack_open_def wp_tryE
proof (rule wp_open_once_foreign [OF ok dir])
  fix e and s' :: "('e, 't, 'z) cas_scheme"
  assume a: "foreign_dir E (world s')" "bare s'"
  let ?s1 = "s'\<lparr>retired := [], cur := None, world := (if flock_owner (world s') = Some (self E) then (world s')\<lparr>flock_owner := None\<rparr> else world s')\<rparr>"
  have d1: "foreign_dir E (world ?s1)" using a by (simp add: foreign_dir_def files_ok_def)
  have "wp (remove_all E) (\<lambda>_. wp (open_once E path) Q R) R ?s1"
  proof (rule wp_remove_all [OF platform_okD(3) [OF ok]])
    show "wp (open_once E path) Q R (?s1\<lparr>tick := n\<rparr>)" for n
      by (rule wp_open_once_foreign [OF ok]) (use d1 R in simp_all)
    show "wp (open_once E path) Q R (?s1\<lparr>tick := n, world := (world ?s1)\<lparr>dirents := [], mdb_env := mdb_fresh E, flock_owner := None\<rparr>\<rparr>)" for n
      by (rule wp_open_fresh [OF ok]) (use d1 Q R in \<open>simp_all add: foreign_dir_def refused_def\<close>)
  qed
  with a show "wp (thenE (destroy E) (thenE (remove_all E) (open_once E path))) Q R s'"
    by (simp add: destroy_def wp_simps bare_def)
qed

end
