(* ===== verification/Accessor.thy ===== *)
theory Accessor
  imports Nar_Dump Tree_Store
begin

text \<open>
  The source accessors of the plugin: \<open>PackAccessor\<close> (\<open>src/plugin/pack_accessor.hh\<close>), which
  shows a stored tree, and \<open>BlobAccessor\<close> (\<open>src/plugin/store.cc\<close>), which shows a single file or
  symlink. The store's reading calls are in a record, the accessor's walker cache is the second part of the
  state, and the hook for corrupt stores is an operation of the caller's.

  A \<open>nix::CanonPath\<close> is the list of its components. \<open>readFile\<close> is given one continuation for its two
  callbacks: \<open>deliver n d\<close> is \<open>sizeCallback(n); sink(d)\<close>.
\<close>

section \<open>The code\<close>

type_synonym canon_path = "bytes list"

datatype node_type = TRegular | TDirectory | TSymlink

record stat =
  st_type :: node_type
  st_executable :: bool
  st_size :: "u64 option"

record 's blob_calls =
  call_get :: "bytes \<Rightarrow> ('s, bytes option) prog"
  call_view :: "bytes \<Rightarrow> ('s, bytes option) prog"
  call_size :: "bytes \<Rightarrow> ('s, u64 option) prog"

definition tarmac_entry_type :: "char \<Rightarrow> node_type" where
  "tarmac_entry_type c = (if c = CHR ''d'' then TDirectory else if c = CHR ''s'' then TSymlink else TRegular)"

definition abs_path :: "canon_path \<Rightarrow> bytes" where
  "abs_path path = CHR ''/'' # join_path path"

definition path_error :: "canon_path \<Rightarrow> bytes \<Rightarrow> exn" where
  "path_error path what = NixError (''path '' @ quoted (abs_path path) @ what)"

definition missing_blob :: "canon_path \<Rightarrow> exn" where
  "missing_blob path = NixError (''missing blob for '' @ quoted (abs_path path))"

definition corrupt_error :: "bytes \<Rightarrow> exn" where
  "corrupt_error msg = NixError (''tarmac cache is corrupt ('' @ msg @ '')'')"

definition healing :: "('s, unit) prog \<Rightarrow> ('s, 'a) prog \<Rightarrow> ('s, 'a) prog" where
  "healing hook m = tryE m (\<lambda>e. case e of
     CorruptError msg \<Rightarrow> thenE hook (throw (corrupt_error msg))
   | _ \<Rightarrow> throw e)"

definition find_entry ::
  "'s blob_calls \<Rightarrow> ('s, unit) prog \<Rightarrow> bytes \<Rightarrow> canon_path \<Rightarrow> ('s \<times> cache, tree_entry option) prog" where
  "find_entry S hook root path = healing (on_store hook) (walker_lookup (call_get S) root (join_path path))"

definition read_file ::
  "'s blob_calls \<Rightarrow> ('s, unit) prog \<Rightarrow> bytes \<Rightarrow> canon_path \<Rightarrow> (u64 \<Rightarrow> bytes \<Rightarrow> ('s, 'a) prog) \<Rightarrow> ('s \<times> cache, 'a) prog" where
  "read_file S hook root path deliver = bindE (find_entry S hook root path) (\<lambda>entry. case entry of
     None \<Rightarrow> throw (path_error path '' is not a regular file'')
   | Some e \<Rightarrow> if te_type e = CHR ''d'' \<or> te_type e = CHR ''s''
       then throw (path_error path '' is not a regular file'')
       else bindE (healing (on_store hook) (on_store (call_view S (te_id e)))) (\<lambda>r. case r of
           None \<Rightarrow> throw (missing_blob path)
         | Some contents \<Rightarrow> on_store (deliver (of_nat (length contents)) contents)))"

definition path_exists ::
  "'s blob_calls \<Rightarrow> ('s, unit) prog \<Rightarrow> bytes \<Rightarrow> canon_path \<Rightarrow> ('s \<times> cache, bool) prog" where
  "path_exists S hook root path = bindE (find_entry S hook root path) (\<lambda>entry. ret (entry \<noteq> None))"

text \<open>What both accessors report of an entry with a type and an id.\<close>

definition stat_entry :: "'s blob_calls \<Rightarrow> char \<Rightarrow> bytes \<Rightarrow> ('s, stat) prog" where
  "stat_entry S t h = (let info = \<lparr>st_type = tarmac_entry_type t, st_executable = False, st_size = None\<rparr> in
     if st_type info = TRegular then bindE (call_size S h) (\<lambda>n. ret (info\<lparr>st_executable := t = CHR ''x'', st_size := n\<rparr>))
     else ret info)"

definition maybe_lstat ::
  "'s blob_calls \<Rightarrow> ('s, unit) prog \<Rightarrow> bytes \<Rightarrow> canon_path \<Rightarrow> ('s \<times> cache, stat option) prog" where
  "maybe_lstat S hook root path = bindE (find_entry S hook root path) (\<lambda>entry. case entry of
     None \<Rightarrow> ret None
   | Some e \<Rightarrow> bindE (on_store (stat_entry S (te_type e) (te_id e))) (\<lambda>info. ret (Some info)))"

definition read_directory ::
  "'s blob_calls \<Rightarrow> ('s, unit) prog \<Rightarrow> bytes \<Rightarrow> canon_path \<Rightarrow> ('s \<times> cache, (bytes \<times> node_type) list) prog" where
  "read_directory S hook root path = bindE (find_entry S hook root path) (\<lambda>entry. case entry of
     None \<Rightarrow> throw (path_error path '' is not a directory'')
   | Some e \<Rightarrow> if te_type e \<noteq> CHR ''d'' then throw (path_error path '' is not a directory'')
       else bindE (healing (on_store hook) (on_store (read_tree (call_get S) (te_id e))))
         (\<lambda>es. ret (map (\<lambda>child. (te_name child, tarmac_entry_type (te_type child))) es)))"

definition read_link ::
  "'s blob_calls \<Rightarrow> ('s, unit) prog \<Rightarrow> bytes \<Rightarrow> canon_path \<Rightarrow> ('s \<times> cache, bytes) prog" where
  "read_link S hook root path = bindE (find_entry S hook root path) (\<lambda>entry. case entry of
     None \<Rightarrow> throw (path_error path '' is not a symlink'')
   | Some e \<Rightarrow> if te_type e \<noteq> CHR ''s'' then throw (path_error path '' is not a symlink'')
       else healing (on_store hook) (on_store (read_blob (call_get S) (te_id e))))"

section \<open>Requests\<close>

datatype request = ReadFile canon_path | PathExists canon_path | MaybeLstat canon_path
  | ReadDirectory canon_path | ReadLink canon_path

datatype answer = Contents u64 bytes | Exists bool | Stat "stat option"
  | Entries "(bytes \<times> node_type) list" | Target bytes

primrec serve :: "'s blob_calls \<Rightarrow> ('s, unit) prog \<Rightarrow> bytes \<Rightarrow> request \<Rightarrow> ('s \<times> cache, answer) prog" where
  "serve S hook root (ReadFile p) = read_file S hook root p (\<lambda>n d. ret (Contents n d))"
| "serve S hook root (PathExists p) = bindE (path_exists S hook root p) (\<lambda>b. ret (Exists b))"
| "serve S hook root (MaybeLstat p) = bindE (maybe_lstat S hook root p) (\<lambda>i. ret (Stat i))"
| "serve S hook root (ReadDirectory p) = bindE (read_directory S hook root p) (\<lambda>es. ret (Entries es))"
| "serve S hook root (ReadLink p) = bindE (read_link S hook root p) (\<lambda>d. ret (Target d))"

primrec request_path :: "request \<Rightarrow> canon_path" where
  "request_path (ReadFile p) = p"
| "request_path (PathExists p) = p"
| "request_path (MaybeLstat p) = p"
| "request_path (ReadDirectory p) = p"
| "request_path (ReadLink p) = p"

text \<open>The answers of a file system that holds the stored tree.\<close>

definition blob_length :: "(bytes \<Rightarrow> bytes option) \<Rightarrow> bytes \<Rightarrow> u64 option" where
  "blob_length m h = map_option (\<lambda>d. of_nat (length d)) (m h)"

definition stat_of :: "(bytes \<Rightarrow> bytes option) \<Rightarrow> char \<Rightarrow> bytes \<Rightarrow> stat" where
  "stat_of m t h = \<lparr>st_type = tarmac_entry_type t, st_executable = t = CHR ''x'',
     st_size = if t = CHR ''d'' \<or> t = CHR ''s'' then None else blob_length m h\<rparr>"

primrec tree_answer :: "(bytes \<Rightarrow> bytes option) \<Rightarrow> tree_entry option \<Rightarrow> request \<Rightarrow> exn + answer" where
  "tree_answer m entry (ReadFile p) = (case entry of None \<Rightarrow> Inl (path_error p '' is not a regular file'')
     | Some e \<Rightarrow> if te_type e = CHR ''d'' \<or> te_type e = CHR ''s'' then Inl (path_error p '' is not a regular file'')
       else case m (te_id e) of None \<Rightarrow> Inl (missing_blob p) | Some d \<Rightarrow> Inr (Contents (of_nat (length d)) d))"
| "tree_answer m entry (PathExists p) = Inr (Exists (entry \<noteq> None))"
| "tree_answer m entry (MaybeLstat p) = Inr (Stat (map_option (\<lambda>e. stat_of m (te_type e) (te_id e)) entry))"
| "tree_answer m entry (ReadDirectory p) = (case Option.bind entry (\<lambda>e. if te_type e = CHR ''d'' then tree_at m (te_id e) else None) of
       None \<Rightarrow> Inl (path_error p '' is not a directory'')
     | Some es \<Rightarrow> Inr (Entries (map (\<lambda>child. (te_name child, tarmac_entry_type (te_type child))) es)))"
| "tree_answer m entry (ReadLink p) = (case Option.bind entry (\<lambda>e. if te_type e = CHR ''s'' then m (te_id e) else None) of
       None \<Rightarrow> Inl (path_error p '' is not a symlink'') | Some d \<Rightarrow> Inr (Target d))"

section \<open>Canonical paths\<close>

definition is_canon :: "canon_path \<Rightarrow> bool" where
  "is_canon p \<longleftrightarrow> (\<forall>c\<in>set p. c \<noteq> [] \<and> CHR ''/'' \<notin> set c \<and> c \<noteq> ''.'' \<and> c \<noteq> ''..'')"

lemma walk_comps_canon:
  "is_canon cs \<Longrightarrow> length comps \<le> kMaxTreeDepth \<Longrightarrow> walk_comps comps cs =
    (if (\<forall>c\<in>set cs. length c \<le> kMaxNameLen) \<and> length comps + length cs \<le> kMaxTreeDepth then Some (comps @ cs) else None)"
proof (induction cs arbitrary: comps)
  case (Cons c cs)
  then have "c \<noteq> []" "c \<noteq> ''.''" "c \<noteq> ''..''" "is_canon cs" by (simp_all add: is_canon_def)
  with Cons.IH [of "comps @ [c]"] Cons.prems(2) show ?case by (auto simp: walk_comp_def)
qed simp

lemma split_canon: "is_canon p \<Longrightarrow> split_path (join_path p) = (if path_ok p then Some p else None)"
  using walk_comps_canon [of p "[]"]
  by (auto simp: split_path_def split_loop_join is_canon_def path_ok_def comp_ok_def)

definition entry_at :: "(bytes \<Rightarrow> bytes option) \<Rightarrow> bytes \<Rightarrow> canon_path \<Rightarrow> tree_entry option" where
  "entry_at m root p = (if path_ok p then walk m (root_entry root) p else None)"

text \<open>Every id below the root has the length of a hash; and an object below it is missing or broken.\<close>

definition ids_ok :: "(bytes \<Rightarrow> bytes option) \<Rightarrow> bytes \<Rightarrow> bool" where
  "ids_ok m root \<longleftrightarrow> (\<forall>cs e. walk m (root_entry root) cs = Some e \<longrightarrow> length (te_id e) = kHashLen)"

definition damaged :: "(bytes \<Rightarrow> bytes option) \<Rightarrow> bytes \<Rightarrow> bool" where
  "damaged m root \<longleftrightarrow> (\<exists>cs e. walk m (root_entry root) cs = Some e \<and>
     (if te_type e = CHR ''d'' then tree_at m (te_id e) = None else m (te_id e) = None))"

lemma ids_ok_rooted: "ids_ok m root \<Longrightarrow> rooted m (root_entry root)"
  by (auto simp: ids_ok_def rooted_def)

lemma incomplete_damaged: "incomplete m (root_entry root) \<Longrightarrow> damaged m root"
  unfolding incomplete_def damaged_def by metis

lemma entry_at_id: "ids_ok m root \<Longrightarrow> entry_at m root p = Some e \<Longrightarrow> length (te_id e) = kHashLen"
  by (auto simp: ids_ok_def entry_at_def split: if_splits)

lemma entry_at_damaged:
  "entry_at m root p = Some e \<Longrightarrow> (if te_type e = CHR ''d'' then tree_at m (te_id e) = None else m (te_id e) = None) \<Longrightarrow> damaged m root"
  unfolding damaged_def entry_at_def by (metis option.distinct(1))

section \<open>What an accessor answers\<close>

definition cache_corrupt :: "exn \<Rightarrow> bool" where
  "cache_corrupt e \<longleftrightarrow> (\<exists>msg. e = corrupt_error msg)"

lemma wp_healing:
  assumes "wp m Q (\<lambda>e s'. if is_corrupt e then wp hook (\<lambda>_ s''. \<forall>e'. cache_corrupt e' \<longrightarrow> R e' s'') R s' else R e s') s"
  shows "wp (healing hook m) Q R s"
  unfolding healing_def wp_tryE
proof (rule wp_mono [OF assms])
  fix e s'
  assume a: "if is_corrupt e then wp hook (\<lambda>_ s''. \<forall>e'. cache_corrupt e' \<longrightarrow> R e' s'') R s' else R e s'"
  show "wp (case e of CorruptError msg \<Rightarrow> thenE hook (throw (corrupt_error msg)) | _ \<Rightarrow> throw e) Q R s'"
  proof (cases e)
    case (CorruptError msg)
    with a have "wp hook (\<lambda>_ s''. \<forall>e'. cache_corrupt e' \<longrightarrow> R e' s'') R s'" by simp
    then have "wp hook (\<lambda>_ s''. R (corrupt_error msg) s'') R s'"
      by (rule wp_mono) (auto simp: cache_corrupt_def)
    with CorruptError show ?thesis by (simp add: wp_thenE wp_fun_eqs)
  qed (use a in \<open>simp_all add: wp_simps\<close>)
qed

locale accessor_source = tree_reader ok contents rest fetch peek
  for ok :: "'s \<Rightarrow> bool" and contents :: "'s \<Rightarrow> bytes \<Rightarrow> bytes option" and rest :: "'s \<Rightarrow> 'r"
    and fetch :: "bytes \<Rightarrow> ('s, bytes option) prog" and peek :: "bytes \<Rightarrow> ('s, bytes option) prog" +
  fixes size_of :: "bytes \<Rightarrow> ('s, u64 option) prog"
    and hook :: "('s, unit) prog"
    and hooked :: "'s \<Rightarrow> 's \<Rightarrow> bool"
  assumes size_of: "ok s \<Longrightarrow> length h = kHashLen \<Longrightarrow> wp (size_of h)
      (\<lambda>r s'. r = blob_length (contents s) h \<and> ok s' \<and> contents s' = contents s \<and> rest s' = rest s)
      (\<lambda>e s'. io_exn e \<and> ok s' \<and> contents s' = contents s \<and> rest s' = rest s) s"
    and hook: "ok s \<Longrightarrow> wp hook (\<lambda>_ s'. hooked s s') (\<lambda>_ _. False) s"
begin

abbreviation calls :: "'s blob_calls" where
  "calls \<equiv> \<lparr>call_get = fetch, call_view = peek, call_size = size_of\<rparr>"

text \<open>How a request fails for another reason than what is asked for.\<close>

definition fails :: "'s \<Rightarrow> bytes \<Rightarrow> exn \<Rightarrow> 's \<Rightarrow> bool" where
  "fails s root e s' \<longleftrightarrow> io_exn e \<and> trees.kept s s' \<or>
     cache_corrupt e \<and> damaged (contents s) root \<and> (\<exists>s1. trees.kept s s1 \<and> hooked s1 s')"

lemma fails_kept: "trees.kept s s1 \<Longrightarrow> fails s1 root e s' \<Longrightarrow> fails s root e s'"
  unfolding fails_def by (auto simp: trees.kept_def)

lemma wp_heal:
  assumes m: "wp m Q (\<lambda>e (s', c'). (io_exn e \<or> is_corrupt e \<and> damaged (contents s) root) \<and> trees.kept s s') (s, c)"
    and R: "\<And>e s' c'. fails s root e s' \<Longrightarrow> R e (s', c')"
  shows "wp (healing (on_store hook) m) Q R (s, c :: 'c)"
proof (rule wp_healing, rule wp_mono [OF m])
  fix e and sc :: "'s \<times> 'c"
  assume a: "case sc of (s', c') \<Rightarrow> (io_exn e \<or> is_corrupt e \<and> damaged (contents s) root) \<and> trees.kept s s'"
  obtain s' c' where sc: "sc = (s', c')" by fastforce
  show "if is_corrupt e then wp (on_store hook) (\<lambda>_ s''. \<forall>e'. cache_corrupt e' \<longrightarrow> R e' s'') R sc else R e sc"
  proof (cases "is_corrupt e")
    case True
    then have d: "damaged (contents s) root" "trees.kept s s'" using a sc io_exn_not_corrupt by auto
    have "ok s'" using d(2) by (simp add: trees.kept_def)
    have "R e' (s'', c')" if "hooked s' s''" "cache_corrupt e'" for s'' e'
      using that d by (intro R) (auto simp: fails_def)
    with hook [OF \<open>ok s'\<close>] have "wp (on_store hook) (\<lambda>_ s''. \<forall>e'. cache_corrupt e' \<longrightarrow> R e' s'') R sc"
      unfolding wp_on_store sc by (auto elim!: wp_mono)
    with True show ?thesis by simp
  next
    case False
    with a sc R [of e s' c'] show ?thesis by (simp add: fails_def)
  qed
qed

lemma wp_find_entry:
  assumes s: "ok s" and c: "cache_ok (contents s) c" and ids: "ids_ok (contents s) root" and p: "is_canon p"
    and Q: "\<And>s' c'. trees.kept s s' \<Longrightarrow> cache_ok (contents s) c' \<Longrightarrow> Q (entry_at (contents s) root p) (s', c')"
    and R: "\<And>e s' c'. fails s root e s' \<Longrightarrow> R e (s', c')"
  shows "wp (find_entry calls hook root p) Q R (s, c)"
  unfolding find_entry_def blob_calls.simps
proof (rule wp_heal)
  show "wp (walker_lookup fetch root (join_path p)) Q
     (\<lambda>e (s', c'). (io_exn e \<or> is_corrupt e \<and> damaged (contents s) root) \<and> trees.kept s s') (s, c)"
    by (rule trees.wp_walker_lookup [OF s c ids_ok_rooted [OF ids]])
      (use Q split_canon [OF p] incomplete_damaged in \<open>auto simp: entry_at_def split: if_splits\<close>)
qed (rule R)

lemma wp_size:
  assumes "ok s" and "length h = kHashLen"
    and "\<And>s'. trees.kept s s' \<Longrightarrow> Q (blob_length (contents s) h) s'" and "\<And>e s'. io_exn e \<Longrightarrow> trees.kept s s' \<Longrightarrow> R e s'"
  shows "wp (size_of h) Q R s"
  using size_of [OF assms(1,2)] by (rule wp_mono) (auto simp: trees.kept_def intro: assms(3,4))

lemma wp_stat_entry:
  assumes "ok s" and "length h = kHashLen"
    and Q: "\<And>s'. trees.kept s s' \<Longrightarrow> Q (stat_of (contents s) t h) s'" and R: "\<And>e s'. io_exn e \<Longrightarrow> trees.kept s s' \<Longrightarrow> R e s'"
  shows "wp (stat_entry calls t h) Q R s"
proof (cases "t = CHR ''d'' \<or> t = CHR ''s''")
  case True
  with Q [OF trees.kept_refl [OF assms(1)]] show ?thesis
    by (auto simp: stat_entry_def stat_of_def tarmac_entry_type_def wp_ret)
next
  case False
  then have "wp (stat_entry calls t h) Q R s = wp (size_of h)
      (\<lambda>n. Q \<lparr>st_type = tarmac_entry_type t, st_executable = t = CHR ''x'', st_size = n\<rparr>) R s"
    by (simp add: stat_entry_def tarmac_entry_type_def wp_bindE wp_fun_eqs)
  also have \<dots>
    by (rule wp_size [OF assms(1,2)]) (use Q R False in \<open>auto simp: stat_of_def\<close>)
  finally show ?thesis .
qed

lemma wp_read_file:
  assumes s: "ok s" and c: "cache_ok (contents s) c" and ids: "ids_ok (contents s) root" and p: "is_canon path"
    and A: "\<And>e s' c'. trees.kept s s' \<Longrightarrow> cache_ok (contents s) c' \<Longrightarrow>
      (case tree_answer (contents s) (entry_at (contents s) root path) (ReadFile path) of
         Inl e \<Rightarrow> R e (s', c')
       | Inr r \<Rightarrow> \<forall>d. r = Contents (of_nat (length d)) d \<longrightarrow>
           wp (deliver (of_nat (length d)) d) (\<lambda>a s''. Q a (s'', c')) (\<lambda>e s''. R e (s'', c')) s')"
    and R: "\<And>e s' c'. fails s root e s' \<Longrightarrow> R e (s', c')"
  shows "wp (read_file calls hook root path deliver) Q R (s, c)"
  unfolding read_file_def wp_bindE
proof (rule wp_find_entry [OF s c ids p])
  fix s' c'
  assume k: "trees.kept s s'" and c': "cache_ok (contents s) c'"
  have s': "ok s'" "contents s' = contents s" using k by (simp_all add: trees.kept_def)
  show "wp (case entry_at (contents s) root path of None \<Rightarrow> throw (path_error path '' is not a regular file'')
     | Some e \<Rightarrow> if te_type e = CHR ''d'' \<or> te_type e = CHR ''s'' then throw (path_error path '' is not a regular file'')
       else bindE (healing (on_store hook) (on_store (call_view calls (te_id e)))) (\<lambda>r. case r of None \<Rightarrow> throw (missing_blob path)
         | Some contents \<Rightarrow> on_store (deliver (of_nat (length contents)) contents))) Q R (s', c')"
  proof (cases "\<exists>e. entry_at (contents s) root path = Some e \<and> te_type e \<noteq> CHR ''d'' \<and> te_type e \<noteq> CHR ''s''")
    case False
    with A [OF k c'] show ?thesis by (auto simp: wp_simps split: option.split)
  next
    case True
    then obtain e where e: "entry_at (contents s) root path = Some e" "te_type e \<noteq> CHR ''d''" "te_type e \<noteq> CHR ''s''" by blast
    have "wp (peek (te_id e)) (\<lambda>r s''. wp (case r of None \<Rightarrow> throw (missing_blob path)
         | Some contents \<Rightarrow> on_store (deliver (of_nat (length contents)) contents)) Q R (s'', c'))
       (\<lambda>e' s''. io_exn e' \<and> trees.kept s s'') s'"
    proof (rule leaves.wp_fetch [OF s'(1) entry_at_id [OF ids e(1)]])
      fix s''
      assume "leaves.kept s' s''"
      then have k'': "trees.kept s s''" by (rule trees.kept_trans [OF k])
      show "wp (case contents s' (te_id e) of None \<Rightarrow> throw (missing_blob path)
         | Some contents \<Rightarrow> on_store (deliver (of_nat (length contents)) contents)) Q R (s'', c')"
        using A [OF k'' c'] e s'(2) by (cases "contents s (te_id e)") (simp_all add: wp_simps wp_on_store)
    qed (use k trees.kept_trans in auto)
    then have "wp (healing (on_store hook) (on_store (peek (te_id e)))) (\<lambda>r. wp (case r of None \<Rightarrow> throw (missing_blob path)
         | Some contents \<Rightarrow> on_store (deliver (of_nat (length contents)) contents)) Q R) R (s', c')"
      by (intro wp_healing) (auto simp: wp_on_store fails_def dest: io_exn_not_corrupt intro!: R elim!: wp_mono)
    with e show ?thesis by (simp add: wp_bindE)
  qed
qed (rule R)

lemma wp_maybe_lstat:
  assumes s: "ok s" and c: "cache_ok (contents s) c" and ids: "ids_ok (contents s) root" and p: "is_canon path"
    and Q: "\<And>s' c'. trees.kept s s' \<Longrightarrow> cache_ok (contents s) c' \<Longrightarrow>
      Q (map_option (\<lambda>e. stat_of (contents s) (te_type e) (te_id e)) (entry_at (contents s) root path)) (s', c')"
    and R: "\<And>e s' c'. fails s root e s' \<Longrightarrow> R e (s', c')"
  shows "wp (maybe_lstat calls hook root path) Q R (s, c)"
  unfolding maybe_lstat_def wp_bindE
proof (rule wp_find_entry [OF s c ids p])
  fix s' c'
  assume k: "trees.kept s s'" and c': "cache_ok (contents s) c'"
  have s': "ok s'" "contents s' = contents s" using k by (simp_all add: trees.kept_def)
  show "wp (case entry_at (contents s) root path of None \<Rightarrow> ret None
     | Some e \<Rightarrow> bindE (on_store (stat_entry calls (te_type e) (te_id e))) (\<lambda>info. ret (Some info))) Q R (s', c')"
  proof (cases "entry_at (contents s) root path")
    case None
    with Q [OF k c'] show ?thesis by (simp add: wp_ret)
  next
    case (Some e)
    have "wp (stat_entry calls (te_type e) (te_id e)) (\<lambda>i s''. Q (Some i) (s'', c')) (\<lambda>e' s''. R e' (s'', c')) s'"
      by (rule wp_stat_entry [OF s'(1) entry_at_id [OF ids Some]])
        (use Q [OF _ c'] R Some s'(2) trees.kept_trans [OF k] in \<open>auto simp: fails_def\<close>)
    with Some show ?thesis by (simp add: wp_bindE wp_on_store wp_fun_eqs)
  qed
qed (rule R)

text \<open>Listing a directory and reading a link fetch one more object, under the same protection.\<close>

lemma wp_heal_fetch:
  assumes k: "trees.kept s s'" and m: "wp m (\<lambda>a s''. Q a (s'', c')) (\<lambda>e s''. (io_exn e \<or> is_corrupt e \<and> damaged (contents s) root) \<and> trees.kept s s'') s'"
    and R: "\<And>e s' c'. fails s root e s' \<Longrightarrow> R e (s', c')"
  shows "wp (healing (on_store hook) (on_store m)) Q R (s', c')"
proof (rule wp_heal)
  have "contents s' = contents s" using k by (simp add: trees.kept_def)
  then show "wp (on_store m) Q (\<lambda>e (s'', c''). (io_exn e \<or> is_corrupt e \<and> damaged (contents s') root) \<and> trees.kept s' s'') (s', c')"
    unfolding wp_on_store using m k by (auto elim!: wp_mono simp: trees.kept_def)
qed (rule R [OF fails_kept [OF k]])

lemma wp_read_directory:
  assumes s: "ok s" and c: "cache_ok (contents s) c" and ids: "ids_ok (contents s) root" and p: "is_canon path"
    and A: "\<And>e s' c'. trees.kept s s' \<Longrightarrow> cache_ok (contents s) c' \<Longrightarrow>
      (case tree_answer (contents s) (entry_at (contents s) root path) (ReadDirectory path) of
         Inl e \<Rightarrow> R e (s', c') | Inr r \<Rightarrow> \<forall>es. r = Entries es \<longrightarrow> Q es (s', c'))"
    and R: "\<And>e s' c'. fails s root e s' \<Longrightarrow> R e (s', c')"
  shows "wp (read_directory calls hook root path) Q R (s, c)"
  unfolding read_directory_def wp_bindE
proof (rule wp_find_entry [OF s c ids p])
  fix s' c'
  assume k: "trees.kept s s'" and c': "cache_ok (contents s) c'"
  have s': "ok s'" "contents s' = contents s" using k by (simp_all add: trees.kept_def)
  show "wp (case entry_at (contents s) root path of None \<Rightarrow> throw (path_error path '' is not a directory'')
     | Some e \<Rightarrow> if te_type e \<noteq> CHR ''d'' then throw (path_error path '' is not a directory'')
       else bindE (healing (on_store hook) (on_store (read_tree (call_get calls) (te_id e))))
         (\<lambda>es. ret (map (\<lambda>child. (te_name child, tarmac_entry_type (te_type child))) es))) Q R (s', c')"
  proof (cases "\<exists>e. entry_at (contents s) root path = Some e \<and> te_type e = CHR ''d''")
    case False
    with A [OF k c'] show ?thesis by (auto simp: wp_simps split: option.split)
  next
    case True
    then obtain e where e: "entry_at (contents s) root path = Some e" "te_type e = CHR ''d''" by blast
    have "wp (healing (on_store hook) (on_store (read_tree fetch (te_id e))))
        (\<lambda>es. wp (ret (map (\<lambda>child. (te_name child, tarmac_entry_type (te_type child))) es)) Q R) R (s', c')"
    proof (rule wp_heal_fetch [OF k], rule trees.wp_read_tree [OF s'(1) entry_at_id [OF ids e(1)]])
      show "wp (ret (map (\<lambda>child. (te_name child, tarmac_entry_type (te_type child))) es)) Q R (s'', c')"
        if "tree_at (contents s') (te_id e) = Some es" "trees.kept s' s''" for es s''
        using A [OF trees.kept_trans [OF k that(2)] c'] e s'(2) that(1) by (simp add: wp_ret)
      show "(io_exn e' \<or> is_corrupt e' \<and> damaged (contents s) root) \<and> trees.kept s s''"
        if "io_exn e' \<or> is_corrupt e' \<and> tree_at (contents s') (te_id e) = None" "trees.kept s' s''" for e' s''
        using that e s'(2) entry_at_damaged [OF e(1)] trees.kept_trans [OF k] by auto
    qed (rule R)
    with e show ?thesis by (simp add: wp_bindE)
  qed
qed (rule R)

lemma wp_read_link:
  assumes s: "ok s" and c: "cache_ok (contents s) c" and ids: "ids_ok (contents s) root" and p: "is_canon path"
    and A: "\<And>e s' c'. trees.kept s s' \<Longrightarrow> cache_ok (contents s) c' \<Longrightarrow>
      (case tree_answer (contents s) (entry_at (contents s) root path) (ReadLink path) of
         Inl e \<Rightarrow> R e (s', c') | Inr r \<Rightarrow> \<forall>d. r = Target d \<longrightarrow> Q d (s', c'))"
    and R: "\<And>e s' c'. fails s root e s' \<Longrightarrow> R e (s', c')"
  shows "wp (read_link calls hook root path) Q R (s, c)"
  unfolding read_link_def wp_bindE
proof (rule wp_find_entry [OF s c ids p])
  fix s' c'
  assume k: "trees.kept s s'" and c': "cache_ok (contents s) c'"
  have s': "ok s'" "contents s' = contents s" using k by (simp_all add: trees.kept_def)
  show "wp (case entry_at (contents s) root path of None \<Rightarrow> throw (path_error path '' is not a symlink'')
     | Some e \<Rightarrow> if te_type e \<noteq> CHR ''s'' then throw (path_error path '' is not a symlink'')
       else healing (on_store hook) (on_store (read_blob (call_get calls) (te_id e)))) Q R (s', c')"
  proof (cases "\<exists>e. entry_at (contents s) root path = Some e \<and> te_type e = CHR ''s''")
    case False
    with A [OF k c'] show ?thesis by (auto simp: wp_simps split: option.split)
  next
    case True
    then obtain e where e: "entry_at (contents s) root path = Some e" "te_type e = CHR ''s''" by blast
    have "wp (healing (on_store hook) (on_store (read_blob fetch (te_id e)))) Q R (s', c')"
    proof (rule wp_heal_fetch [OF k], rule trees.wp_read_blob [OF s'(1) entry_at_id [OF ids e(1)]])
      show "Q d (s'', c')" if "contents s' (te_id e) = Some d" "trees.kept s' s''" for d s''
        using A [OF trees.kept_trans [OF k that(2)] c'] e s'(2) that(1) by simp
      show "(io_exn e' \<or> is_corrupt e' \<and> damaged (contents s) root) \<and> trees.kept s s''"
        if "io_exn e' \<or> is_corrupt e' \<and> contents s' (te_id e) = None" "trees.kept s' s''" for e' s''
        using that e s'(2) entry_at_damaged [OF e(1)] trees.kept_trans [OF k] by auto
    qed (rule R)
    with e show ?thesis by simp
  qed
qed (rule R)

lemma wp_serve:
  assumes s: "ok s" and c: "cache_ok (contents s) c" and ids: "ids_ok (contents s) root" and p: "is_canon (request_path q)"
    and A: "\<And>s' c'. trees.kept s s' \<Longrightarrow> cache_ok (contents s) c' \<Longrightarrow>
      (case tree_answer (contents s) (entry_at (contents s) root (request_path q)) q of
         Inl e \<Rightarrow> R e (s', c') | Inr r \<Rightarrow> Q r (s', c'))"
    and R: "\<And>e s' c'. fails s root e s' \<Longrightarrow> R e (s', c')"
  shows "wp (serve calls hook root q) Q R (s, c)"
proof (cases q)
  case (ReadFile path)
  show ?thesis
    unfolding ReadFile serve.simps
    by (rule wp_read_file [OF s c ids p [unfolded ReadFile request_path.simps]])
      (use A R ReadFile in \<open>auto simp: wp_ret split: sum.split\<close>)
next
  case (PathExists path)
  show ?thesis
    unfolding PathExists serve.simps path_exists_def wp_bindE
    by (rule wp_find_entry [OF s c ids p [unfolded PathExists request_path.simps]])
      (use A R PathExists in \<open>auto simp: wp_ret\<close>)
next
  case (MaybeLstat path)
  show ?thesis
    unfolding MaybeLstat serve.simps wp_bindE
    by (rule wp_maybe_lstat [OF s c ids p [unfolded MaybeLstat request_path.simps]])
      (use A R MaybeLstat in \<open>auto simp: wp_ret\<close>)
next
  case (ReadDirectory path)
  show ?thesis
    unfolding ReadDirectory serve.simps wp_bindE
    by (rule wp_read_directory [OF s c ids p [unfolded ReadDirectory request_path.simps]])
      (use A R ReadDirectory in \<open>auto simp: wp_ret split: sum.split\<close>)
next
  case (ReadLink path)
  show ?thesis
    unfolding ReadLink serve.simps wp_bindE
    by (rule wp_read_link [OF s c ids p [unfolded ReadLink request_path.simps]])
      (use A R ReadLink in \<open>auto simp: wp_ret split: sum.split\<close>)
qed

end

end
