(* ===== verification/Nix_Compat.thy ===== *)
theory Nix_Compat
  imports Prelude
begin

text \<open>
  What the plugin calls under different names in different versions of Nix (\<open>src/plugin/nix_compat.hh\<close>). The version is that
  which the plugin is built against; both spellings of the derivation interface are fields of the record \<open>nix_api\<close>.
\<close>

section \<open>The code\<close>

text \<open>Up to 2.35 a derivation has \<open>inputSrcs\<close> and \<open>inputDrvs\<close>, since 2.36 one set of inputs. A \<open>StorePathSet\<close> is the ascending list
  of its base names.\<close>

record 'drv nix_api =
  nix_version :: "nat \<times> nat"
  drv_inputs :: "'drv \<Rightarrow> bytes list"
  input_srcs :: "'drv \<Rightarrow> bytes list"
  input_drvs :: "'drv \<Rightarrow> bytes list"
  aterm_parse :: "bytes \<Rightarrow> bytes \<Rightarrow> exn + 'drv"
  parse_derivation :: "bytes \<Rightarrow> bytes \<Rightarrow> exn + 'drv"
  aterm_unparse :: "'drv \<Rightarrow> bytes"
  derivation_unparse :: "'drv \<Rightarrow> bytes"

definition nix_at_least :: "('drv, 'z) nix_api_scheme \<Rightarrow> nat \<Rightarrow> nat \<Rightarrow> bool" where
  "nix_at_least N major minor \<longleftrightarrow> (case nix_version N of (a, b) \<Rightarrow> a > major \<or> a = major \<and> b \<ge> minor)"

definition have_store :: "('drv, 'z) nix_api_scheme \<Rightarrow> bool" where
  "have_store N \<longleftrightarrow> nix_at_least N 2 35"

definition parse_drv :: "('drv, 'z) nix_api_scheme \<Rightarrow> bytes \<Rightarrow> bytes \<Rightarrow> exn + 'drv" where
  "parse_drv N text name = (if nix_at_least N 2 36 then aterm_parse N text name else parse_derivation N text name)"

definition unparse_drv :: "('drv, 'z) nix_api_scheme \<Rightarrow> 'drv \<Rightarrow> bytes" where
  "unparse_drv N drv = (if nix_at_least N 2 36 then aterm_unparse N drv else derivation_unparse N drv)"

definition drv_references :: "('drv, 'z) nix_api_scheme \<Rightarrow> 'drv \<Rightarrow> bytes list" where
  "drv_references N drv = (if nix_at_least N 2 36 then fold insort_insert (drv_inputs N drv) []
     else fold insort_insert (input_drvs N drv) (input_srcs N drv))"

section \<open>Versions\<close>

lemma at_least_trans: "nix_at_least N a b \<Longrightarrow> a' < a \<or> a' = a \<and> b' \<le> b \<Longrightarrow> nix_at_least N a' b'"
  by (auto simp: nix_at_least_def split: prod.splits)

lemma aterm_has_store: "nix_at_least N 2 36 \<Longrightarrow> have_store N"
  unfolding have_store_def by (erule at_least_trans) simp

section \<open>References\<close>

lemma fold_insort: "sorted rs \<Longrightarrow> distinct rs \<Longrightarrow>
    set (fold insort_insert ps rs) = set ps \<union> set rs \<and> sorted (fold insort_insert ps rs) \<and> distinct (fold insort_insert ps rs)"
  by (induction ps arbitrary: rs) (auto simp: set_insort_insert sorted_insort_insert distinct_insort_insert)

text \<open>The same set in every version, if both interfaces speak of the same derivation.\<close>

lemma drv_references_set:
  assumes "set (drv_inputs N drv) = set (input_srcs N drv) \<union> set (input_drvs N drv)"
    and "sorted (input_srcs N drv)" and "distinct (input_srcs N drv)"
  shows "set (drv_references N drv) = set (input_srcs N drv) \<union> set (input_drvs N drv)"
    and "sorted (drv_references N drv)" and "distinct (drv_references N drv)"
  using fold_insort [of "[]" "drv_inputs N drv"] fold_insort [OF assms(2,3), of "input_drvs N drv"] assms(1)
  by (auto simp: drv_references_def)

text \<open>What is written is read back, under either name.\<close>

definition aterm_ok :: "('drv, 'z) nix_api_scheme \<Rightarrow> ('drv \<Rightarrow> bytes) \<Rightarrow> bool" where
  "aterm_ok N path \<longleftrightarrow> (\<forall>drv. aterm_parse N (aterm_unparse N drv) (path drv) = Inr drv \<and>
     parse_derivation N (derivation_unparse N drv) (path drv) = Inr drv)"

lemma parse_unparse: "aterm_ok N path \<Longrightarrow> parse_drv N (unparse_drv N drv) (path drv) = Inr drv"
  by (simp add: aterm_ok_def parse_drv_def unparse_drv_def)

end
