(* ===== verification/Eval_Store.thy ===== *)
theory Eval_Store
  imports Accessor Nix_Compat
begin

text \<open>
  The evaluation store of the plugin (\<open>TarmacStore\<close> of \<open>src/plugin/store.cc\<close>): store objects in the pack CAS, their
  path records as JSON and their derivations' texts in its meta table.

  What the code calls of Nix and nlohmann::json is the record \<open>nix\<close>, which extends that of the version shims; a \<open>StorePath\<close> is its base name, a NAR or a flat
  file the bytes a source delivers, a file system object in memory the tree \<open>fs_tree\<close> that
  \<open>MemorySourceAccessor::File\<close> is. The map of a directory is the list of its entries in the map's order.
  \<open>parse_drv\<close> is given the path and takes the derivation's name from it (\<open>nameFromPath\<close>).
\<close>

section \<open>What is Nix's\<close>

datatype json = JString bytes | JNumber u64 | JArray "json list" | JObject "(bytes \<times> json) list"

datatype dump_method = NixArchive | Flat

record ('h, 'ca) path_info =
  vi_path :: bytes
  vi_nar_hash :: 'h
  vi_nar_size :: u64
  vi_ca :: "'ca option"
  vi_refs :: "bytes list"

record ('h, 'ca, 'drv) nix = "'drv nix_api" +
  json_dump :: "json \<Rightarrow> exn + bytes"
  json_parse :: "bytes \<Rightarrow> exn + json"
  valid_base :: "bytes \<Rightarrow> bool"
  is_derivation :: "bytes \<Rightarrow> bool"
  hash_sri :: "'h \<Rightarrow> bytes"
  parse_sri :: "bytes \<Rightarrow> exn + 'h"
  render_ca :: "'ca option \<Rightarrow> bytes"
  parse_ca :: "bytes \<Rightarrow> exn + 'ca"
  nar_hash :: "fs_tree \<Rightarrow> 'h \<times> u64"
  text_ca :: "bytes \<Rightarrow> 'ca"
  parse_dump :: "bytes \<Rightarrow> exn + fs_tree"
  mem_serve :: "fs_tree \<Rightarrow> request \<Rightarrow> exn + answer"
  drv_path :: "'drv \<Rightarrow> bytes"
  ca_path :: "bytes \<Rightarrow> fs_tree \<Rightarrow> bytes list \<Rightarrow> bytes \<times> 'ca"

definition store_path :: "('h, 'ca, 'drv) nix \<Rightarrow> bytes \<Rightarrow> exn + bytes" where
  "store_path N base = (if valid_base N base then Inr base else Inl (BadStorePath base))"

section \<open>Path records\<close>

record path_rec =
  pr_type :: char
  pr_root :: bytes
  pr_nar_hash :: bytes
  pr_nar_size :: u64
  pr_ca :: bytes
  pr_refs :: "bytes list"

text \<open>The keys of a \<open>nlohmann::json\<close> object are sorted.\<close>

definition record_json :: "path_rec \<Rightarrow> json" where
  "record_json r = JObject [(''ca'', JString (pr_ca r)), (''narHash'', JString (pr_nar_hash r)),
     (''narSize'', JNumber (pr_nar_size r)), (''refs'', JArray (map JString (pr_refs r))),
     (''root'', JString (to_hex (pr_root r))), (''t'', JString [pr_type r])]"

definition encode_record :: "('h, 'ca, 'drv) nix \<Rightarrow> path_rec \<Rightarrow> exn + bytes" where
  "encode_record N r = json_dump N (record_json r)"

definition json_at :: "json \<Rightarrow> bytes \<Rightarrow> exn + json" where
  "json_at j k = (case j of
     JObject kvs \<Rightarrow> (case map_of kvs k of Some v \<Rightarrow> Inr v | None \<Rightarrow> Inl (JsonError ''key not found''))
   | _ \<Rightarrow> Inl (JsonError ''cannot use at()''))"

definition json_string :: "json \<Rightarrow> exn + bytes" where
  "json_string j = (case j of JString s \<Rightarrow> Inr s | _ \<Rightarrow> Inl (JsonError ''type must be string''))"

definition json_number :: "json \<Rightarrow> exn + u64" where
  "json_number j = (case j of JNumber n \<Rightarrow> Inr n | _ \<Rightarrow> Inl (JsonError ''type must be number''))"

fun json_strings :: "json list \<Rightarrow> exn + bytes list" where
  "json_strings [] = Inr []"
| "json_strings (j # js) = (case json_string j of Inl e \<Rightarrow> Inl e
   | Inr s \<Rightarrow> (case json_strings js of Inl e \<Rightarrow> Inl e | Inr ss \<Rightarrow> Inr (s # ss)))"

definition json_array :: "json \<Rightarrow> exn + bytes list" where
  "json_array j = (case j of JArray js \<Rightarrow> json_strings js | _ \<Rightarrow> Inl (JsonError ''type must be array''))"

definition json_field :: "json \<Rightarrow> bytes \<Rightarrow> (json \<Rightarrow> exn + 'a) \<Rightarrow> ('s, 'a) prog" where
  "json_field j k conv = bindE (liftE (json_at j k)) (\<lambda>v. liftE (conv v))"

definition decode_record :: "('h, 'ca, 'drv) nix \<Rightarrow> bytes \<Rightarrow> ('s, path_rec) prog" where
  "decode_record N d = bindE (liftE (json_parse N d)) (\<lambda>j.
     bindE (json_field j ''t'' json_string) (\<lambda>t. bindE (case t of [] \<Rightarrow> throw (OutOfRange ''string::at'') | c # _ \<Rightarrow> ret c) (\<lambda>c.
     bindE (json_field j ''root'' json_string) (\<lambda>root. bindE (liftE (from_hex root)) (\<lambda>root_id.
     bindE (json_field j ''narHash'' json_string) (\<lambda>nar. bindE (json_field j ''narSize'' json_number) (\<lambda>size.
     bindE (json_field j ''ca'' json_string) (\<lambda>ca. bindE (json_field j ''refs'' json_array) (\<lambda>refs.
       ret \<lparr>pr_type = c, pr_root = root_id, pr_nar_hash = nar, pr_nar_size = size, pr_ca = ca, pr_refs = refs\<rparr>)))))))))"

section \<open>Objects\<close>

text \<open>\<open>ingest\<close>, its recursion over the entries of a directory as a second function.\<close>

fun ingest_object :: "(bytes \<Rightarrow> ('s, bytes) prog) \<Rightarrow> fs_tree \<Rightarrow> ('s, char \<times> bytes) prog"
  and ingest_entries :: "(bytes \<Rightarrow> ('s, bytes) prog) \<Rightarrow> (bytes \<times> fs_tree) list \<Rightarrow> ('s, tree_entry list) prog" where
  "ingest_object store (Regular exec contents) =
     bindE (store contents) (\<lambda>h. ret (if exec then CHR ''x'' else CHR ''r'', h))"
| "ingest_object store (Symlink target) = bindE (store target) (\<lambda>h. ret (CHR ''s'', h))"
| "ingest_object store (Directory entries) = bindE (ingest_entries store entries) (\<lambda>es.
     bindE (put_tree store es) (\<lambda>h. ret (CHR ''d'', h)))"
| "ingest_entries store [] = ret []"
| "ingest_entries store (x # xs) = bindE (ingest_object store (snd x)) (\<lambda>(t, h).
     bindE (ingest_entries store xs) (\<lambda>es. ret (\<lparr>te_name = fst x, te_type = t, te_id = h\<rparr> # es)))"

definition parse_to_memory :: "('h, 'ca, 'drv) nix \<Rightarrow> bytes \<Rightarrow> dump_method \<Rightarrow> exn + fs_tree" where
  "parse_to_memory N source m = (case m of NixArchive \<Rightarrow> parse_dump N source | Flat \<Rightarrow> Inr (Regular False source))"

definition drv_object :: "bytes \<Rightarrow> fs_tree" where
  "drv_object text = Regular False text"

section \<open>Records of the meta table\<close>

definition kPathPrefix :: bytes where "kPathPrefix = ''sp:''"
definition kDrvPrefix :: bytes where "kDrvPrefix = ''sd:''"

definition meta_key :: "bytes \<Rightarrow> bytes \<Rightarrow> bytes" where
  "meta_key pre path = pre @ path"

definition path_record ::
  "('e, 't) platform \<Rightarrow> ('h, 'ca, 'drv) nix \<Rightarrow> bytes \<Rightarrow> (('e, 't, 'z) tree_store_scheme, path_rec option) prog" where
  "path_record E N path = bindE (meta_get E (meta_key kPathPrefix path)) (\<lambda>raw. case raw of
     None \<Rightarrow> ret None
   | Some d \<Rightarrow> bindE (decode_record N d) (\<lambda>rec. bindE (has E (pr_root rec)) (\<lambda>present.
       if \<not> present then thenE (meta_del E (meta_key kPathPrefix path)) (ret None)
       else thenE (touch_root E (pr_root rec) (pr_type rec = CHR ''d'')) (ret (Some rec)))))"

definition drv_text ::
  "('e, 't) platform \<Rightarrow> bytes \<Rightarrow> (('e, 't, 'z) tree_store_scheme, bytes option) prog" where
  "drv_text E path = bindE (meta_get E (meta_key kDrvPrefix path)) (\<lambda>raw. case raw of
     None \<Rightarrow> ret None
   | Some h \<Rightarrow> bindE (get E h) (\<lambda>r. case r of
       None \<Rightarrow> thenE (meta_del E (meta_key kDrvPrefix path)) (ret None)
     | Some text \<Rightarrow> thenE (touch_root E h False) (ret (Some text))))"

section \<open>Queries\<close>

definition drv_path_info ::
  "('h, 'ca, 'drv) nix \<Rightarrow> bytes \<Rightarrow> bytes \<Rightarrow> exn + ('h, 'ca) path_info" where
  "drv_path_info N path text = (case nar_hash N (drv_object text) of (h, n) \<Rightarrow>
     (case parse_drv N text path of Inl e \<Rightarrow> Inl e
      | Inr drv \<Rightarrow> Inr \<lparr>vi_path = path, vi_nar_hash = h, vi_nar_size = n, vi_ca = Some (text_ca N text),
          vi_refs = drv_references N drv\<rparr>))"

text \<open>Inserting into the ordered set of references.\<close>

fun insert_refs :: "('h, 'ca, 'drv) nix \<Rightarrow> bytes list \<Rightarrow> bytes list \<Rightarrow> exn + bytes list" where
  "insert_refs N out [] = Inr out"
| "insert_refs N out (r # rs) = (case store_path N r of Inl e \<Rightarrow> Inl e | Inr p \<Rightarrow> insert_refs N (insort_insert p out) rs)"

definition path_info_of :: "('h, 'ca, 'drv) nix \<Rightarrow> bytes \<Rightarrow> path_rec \<Rightarrow> ('s, ('h, 'ca) path_info) prog" where
  "path_info_of N path rec = bindE (liftE (parse_sri N (pr_nar_hash rec))) (\<lambda>h.
     bindE (if pr_ca rec = [] then ret None else bindE (liftE (parse_ca N (pr_ca rec))) (\<lambda>ca. ret (Some ca))) (\<lambda>ca.
     bindE (liftE (insert_refs N [] (pr_refs rec))) (\<lambda>refs.
       ret \<lparr>vi_path = path, vi_nar_hash = h, vi_nar_size = pr_nar_size rec, vi_ca = ca, vi_refs = refs\<rparr>)))"

text \<open>The callback is given the result or, by \<open>rethrow\<close>, the exception.\<close>

definition query_path_info ::
  "('e, 't) platform \<Rightarrow> ('h, 'ca, 'drv) nix \<Rightarrow> bytes \<Rightarrow> (('e, 't, 'z) tree_store_scheme, ('h, 'ca) path_info option) prog" where
  "query_path_info E N path =
     (if is_derivation N path then bindE (drv_text E path) (\<lambda>text. case text of None \<Rightarrow> ret None
        | Some d \<Rightarrow> bindE (liftE (drv_path_info N path d)) (\<lambda>i. ret (Some i)))
      else bindE (path_record E N path) (\<lambda>rec. case rec of None \<Rightarrow> ret None
        | Some r \<Rightarrow> bindE (path_info_of N path r) (\<lambda>i. ret (Some i))))"

definition is_valid_path ::
  "('e, 't) platform \<Rightarrow> ('h, 'ca, 'drv) nix \<Rightarrow> bytes \<Rightarrow> (('e, 't, 'z) tree_store_scheme, bool) prog" where
  "is_valid_path E N path =
     (if is_derivation N path then bindE (drv_text E path) (\<lambda>text. ret (text \<noteq> None))
      else bindE (path_record E N path) (\<lambda>rec. ret (rec \<noteq> None)))"

text \<open>The local variable is \<open>res\<close>.\<close>

definition scan_hash_part ::
  "('e, 't) platform \<Rightarrow> ('h, 'ca, 'drv) nix \<Rightarrow> bytes \<Rightarrow> bytes \<Rightarrow> (('e, 't, 'z) tree_store_scheme, bytes option) prog" where
  "scan_hash_part E N pre hash_part = with_local None (thenE
     (meta_scan E (pre @ hash_part) (\<lambda>key _. bindE (liftE (store_path N (drop (length pre) key))) (\<lambda>p.
        thenE (mod_local (\<lambda>_. Some p)) (ret False))))
     get_local)"

definition query_hash_part ::
  "('e, 't) platform \<Rightarrow> ('h, 'ca, 'drv) nix \<Rightarrow> bytes \<Rightarrow> (('e, 't, 'z) tree_store_scheme, bytes option) prog" where
  "query_hash_part E N hash_part = bindE (scan_hash_part E N kPathPrefix hash_part) (\<lambda>res.
     if res \<noteq> None then ret res else scan_hash_part E N kDrvPrefix hash_part)"

section \<open>Additions\<close>

definition reject_repair :: "bool \<Rightarrow> ('s, unit) prog" where
  "reject_repair repair = whenE repair (throw (NixError ''repairing is not supported for this store''))"

definition record_of :: "('h, 'ca, 'drv) nix \<Rightarrow> ('h, 'ca) path_info \<Rightarrow> char \<Rightarrow> bytes \<Rightarrow> path_rec" where
  "record_of N info t h = \<lparr>pr_type = t, pr_root = h, pr_nar_hash = hash_sri N (vi_nar_hash info),
     pr_nar_size = vi_nar_size info, pr_ca = render_ca N (vi_ca info), pr_refs = vi_refs info\<rparr>"

definition store_object ::
  "('e, 't) platform \<Rightarrow> ('h, 'ca, 'drv) nix \<Rightarrow> ('h, 'ca) path_info \<Rightarrow> fs_tree \<Rightarrow> (('e, 't, 'z) tree_store_scheme, unit) prog" where
  "store_object E N info file = bindE (ingest_object (put E) file) (\<lambda>(t, h).
     thenE (register_root E h (t = CHR ''d''))
     (bindE (liftE (encode_record N (record_of N info t h))) (\<lambda>d.
      thenE (meta_put E (meta_key kPathPrefix (vi_path info)) d) (sync_store E))))"

definition write_derivation ::
  "('e, 't) platform \<Rightarrow> ('h, 'ca, 'drv) nix \<Rightarrow> 'drv \<Rightarrow> (('e, 't, 'z) tree_store_scheme, bytes) prog" where
  "write_derivation E N drv = (let path = drv_path N drv in
     bindE (drv_text E path) (\<lambda>text. thenE
       (whenE (text = None) (bindE (put E (unparse_drv N drv)) (\<lambda>h.
          thenE (register_root E h False) (thenE (meta_put E (meta_key kDrvPrefix path) h) (sync_store E)))))
       (ret path)))"

definition read_derivation ::
  "('e, 't) platform \<Rightarrow> ('h, 'ca, 'drv) nix \<Rightarrow> bytes \<Rightarrow> (('e, 't, 'z) tree_store_scheme, 'drv) prog" where
  "read_derivation E N path = bindE (drv_text E path) (\<lambda>text. case text of
     None \<Rightarrow> throw (NixError (''derivation '' @ quoted path @ '' is not valid''))
   | Some d \<Rightarrow> liftE (parse_drv N d path))"

text \<open>\<open>readFile\<close> on the root of an accessor in memory.\<close>

definition mem_contents :: "('h, 'ca, 'drv) nix \<Rightarrow> fs_tree \<Rightarrow> exn + bytes" where
  "mem_contents N file = (case mem_serve N file (ReadFile []) of
     Inl e \<Rightarrow> Inl e | Inr (Contents _ d) \<Rightarrow> Inr d | Inr _ \<Rightarrow> Inl (Undefined ''no contents''))"

definition add_to_store ::
  "('e, 't) platform \<Rightarrow> ('h, 'ca, 'drv) nix \<Rightarrow> ('h, 'ca) path_info \<Rightarrow> bytes \<Rightarrow> bool \<Rightarrow>
     (('e, 't, 'z) tree_store_scheme, unit) prog" where
  "add_to_store E N info source repair = thenE (reject_repair repair)
     (bindE (liftE (parse_to_memory N source NixArchive)) (\<lambda>file.
      if is_derivation N (vi_path info)
      then bindE (liftE (mem_contents N file)) (\<lambda>text. bindE (liftE (parse_drv N text (vi_path info))) (\<lambda>drv.
        thenE (write_derivation E N drv) (ret ())))
      else bindE (path_record E N (vi_path info)) (\<lambda>rec. whenE (rec = None) (store_object E N info file))))"

text \<open>\<open>ca_path\<close> stands for hashing the object and \<open>ValidPathInfo::makeFromCA\<close>.\<close>

definition add_to_store_from_dump ::
  "('e, 't) platform \<Rightarrow> ('h, 'ca, 'drv) nix \<Rightarrow> bytes \<Rightarrow> bytes \<Rightarrow> dump_method \<Rightarrow> bytes list \<Rightarrow> bool \<Rightarrow>
     (('e, 't, 'z) tree_store_scheme, bytes) prog" where
  "add_to_store_from_dump E N source name m refs repair =
     (if is_derivation N name
      then throw (NixError (''refusing to add derivation '' @ quoted name @ '' with addToStoreFromDump''))
      else thenE (reject_repair repair) (bindE (liftE (parse_to_memory N source m)) (\<lambda>file.
        case ca_path N name file refs of (path, ca) \<Rightarrow> case nar_hash N file of (h, n) \<Rightarrow>
          let info = \<lparr>vi_path = path, vi_nar_hash = h, vi_nar_size = n, vi_ca = Some ca, vi_refs = refs\<rparr> in
          bindE (path_record E N path) (\<lambda>rec. thenE (whenE (rec = None) (store_object E N info file)) (ret path)))))"

section \<open>Accessors\<close>

datatype accessor = PackAccessor bytes | BlobAccessor char bytes | DrvAccessor fs_tree

text \<open>\<open>BlobAccessor\<close>: it has no cache and no hook.\<close>

definition blob_read_file ::
  "'s blob_calls \<Rightarrow> char \<Rightarrow> bytes \<Rightarrow> canon_path \<Rightarrow> (u64 \<Rightarrow> bytes \<Rightarrow> ('s, 'a) prog) \<Rightarrow> ('s, 'a) prog" where
  "blob_read_file S t h path deliver = (if path \<noteq> [] \<or> t = CHR ''s'' then throw (path_error path '' is not a regular file'')
     else bindE (call_view S h) (\<lambda>r. case r of None \<Rightarrow> throw (missing_blob path)
       | Some contents \<Rightarrow> deliver (of_nat (length contents)) contents))"

definition blob_maybe_lstat :: "'s blob_calls \<Rightarrow> char \<Rightarrow> bytes \<Rightarrow> canon_path \<Rightarrow> ('s, stat option) prog" where
  "blob_maybe_lstat S t h path = (if path \<noteq> [] then ret None else bindE (stat_entry S t h) (\<lambda>info. ret (Some info)))"

definition blob_read_link :: "'s blob_calls \<Rightarrow> char \<Rightarrow> bytes \<Rightarrow> canon_path \<Rightarrow> ('s, bytes) prog" where
  "blob_read_link S t h path = (if path \<noteq> [] \<or> t \<noteq> CHR ''s'' then throw (path_error path '' is not a symlink'')
     else read_blob (call_get S) h)"

primrec blob_serve :: "'s blob_calls \<Rightarrow> char \<Rightarrow> bytes \<Rightarrow> request \<Rightarrow> ('s, answer) prog" where
  "blob_serve S t h (ReadFile p) = blob_read_file S t h p (\<lambda>n d. ret (Contents n d))"
| "blob_serve S t h (PathExists p) = ret (Exists (p = []))"
| "blob_serve S t h (MaybeLstat p) = bindE (blob_maybe_lstat S t h p) (\<lambda>i. ret (Stat i))"
| "blob_serve S t h (ReadDirectory p) = throw (path_error p '' is not a directory'')"
| "blob_serve S t h (ReadLink p) = bindE (blob_read_link S t h p) (\<lambda>d. ret (Target d))"

primrec serve_accessor ::
  "'s blob_calls \<Rightarrow> ('h, 'ca, 'drv) nix \<Rightarrow> accessor \<Rightarrow> request \<Rightarrow> ('s \<times> cache, answer) prog" where
  "serve_accessor S N (PackAccessor root) q = serve S (ret ()) root q"
| "serve_accessor S N (BlobAccessor t h) q = on_store (blob_serve S t h q)"
| "serve_accessor S N (DrvAccessor file) q = liftE (mem_serve N file q)"

definition accessor_for ::
  "('e, 't) platform \<Rightarrow> ('h, 'ca, 'drv) nix \<Rightarrow> bytes \<Rightarrow> (('e, 't, 'z) tree_store_scheme, accessor option) prog" where
  "accessor_for E N path =
     (if is_derivation N path then bindE (drv_text E path) (\<lambda>text. ret (map_option (\<lambda>d. DrvAccessor (drv_object d)) text))
      else bindE (path_record E N path) (\<lambda>rec. ret (map_option (\<lambda>r. if pr_type r = CHR ''d''
        then PackAccessor (pr_root r) else BlobAccessor (pr_type r) (pr_root r)) rec)))"

definition pack_calls :: "('e, 't) platform \<Rightarrow> ('e, 't, 'z) cas_scheme blob_calls" where
  "pack_calls E = \<lparr>call_get = get E, call_view = get_view E, call_size = blob_size E\<rparr>"

section \<open>The view of the whole store\<close>

text \<open>\<open>StoreViewAccessor\<close>: the accessors made so far by base name, each with its walker's cache. \<open>cached\<close>
  gives an accessor that is in the cache afterwards, or none.\<close>

type_synonym view_cache = "bytes \<Rightarrow> (accessor \<times> cache) option"

definition cached ::
  "('e, 't) platform \<Rightarrow> ('h, 'ca, 'drv) nix \<Rightarrow> bytes \<Rightarrow> (('e, 't, 'z) tree_store_scheme \<times> view_cache, (accessor \<times> cache) option) prog" where
  "cached E N base = bindE get_local (\<lambda>vc. case vc base of
     Some a \<Rightarrow> ret (Some a)
   | None \<Rightarrow> bindE (tryE (on_store (bindE (liftE (store_path N base)) (accessor_for E N)))
         (\<lambda>e. case e of BadStorePath _ \<Rightarrow> ret None | _ \<Rightarrow> throw e)) (\<lambda>r. case r of
       None \<Rightarrow> ret None
     | Some a \<Rightarrow> thenE (mod_local (\<lambda>vc. vc(base \<mapsto> (a, Map.empty)))) (ret (Some (a, Map.empty)))))"

text \<open>One call of an accessor of the cache.\<close>

definition use_accessor ::
  "('e, 't) platform \<Rightarrow> ('h, 'ca, 'drv) nix \<Rightarrow> bytes \<Rightarrow> accessor \<times> cache \<Rightarrow> request \<Rightarrow>
     (('e, 't, 'z) tree_store_scheme \<times> view_cache, answer) prog" where
  "use_accessor E N base ac q = (\<lambda>(s, vc). case serve_accessor (pack_calls E) N (fst ac) q (s, snd ac) of
     (r, (s', c')) \<Rightarrow> (r, (s', vc(base \<mapsto> (fst ac, c')))))"

primrec request_at :: "canon_path \<Rightarrow> request \<Rightarrow> request" where
  "request_at p (ReadFile _) = ReadFile p"
| "request_at p (PathExists _) = PathExists p"
| "request_at p (MaybeLstat _) = MaybeLstat p"
| "request_at p (ReadDirectory _) = ReadDirectory p"
| "request_at p (ReadLink _) = ReadLink p"

definition try_with_accessor ::
  "('e, 't) platform \<Rightarrow> ('h, 'ca, 'drv) nix \<Rightarrow> request \<Rightarrow> (('e, 't, 'z) tree_store_scheme \<times> view_cache, answer option) prog" where
  "try_with_accessor E N q = (case request_path q of [] \<Rightarrow> ret None
   | base # rest \<Rightarrow> bindE (cached E N base) (\<lambda>a. case a of None \<Rightarrow> ret None
     | Some ac \<Rightarrow> bindE (use_accessor E N base ac (request_at rest q)) (\<lambda>r. ret (Some r))))"

definition with_accessor ::
  "('e, 't) platform \<Rightarrow> ('h, 'ca, 'drv) nix \<Rightarrow> request \<Rightarrow> (('e, 't, 'z) tree_store_scheme \<times> view_cache, answer) prog" where
  "with_accessor E N q = bindE (try_with_accessor E N q) (\<lambda>r. case r of
     None \<Rightarrow> throw (path_error (request_path q) '' does not exist in the tarmac store'') | Some a \<Rightarrow> ret a)"

definition root_stat :: stat where
  "root_stat = \<lparr>st_type = TDirectory, st_executable = False, st_size = None\<rparr>"

primrec view_serve ::
  "('e, 't) platform \<Rightarrow> ('h, 'ca, 'drv) nix \<Rightarrow> request \<Rightarrow> (('e, 't, 'z) tree_store_scheme \<times> view_cache, answer) prog" where
  "view_serve E N (ReadFile p) = with_accessor E N (ReadFile p)"
| "view_serve E N (PathExists p) = (if p = [] then ret (Exists True)
     else bindE (try_with_accessor E N (PathExists p)) (\<lambda>r. ret (case r of None \<Rightarrow> Exists False | Some a \<Rightarrow> a)))"
| "view_serve E N (MaybeLstat p) = (if p = [] then ret (Stat (Some root_stat))
     else bindE (try_with_accessor E N (MaybeLstat p)) (\<lambda>r. ret (case r of None \<Rightarrow> Stat None | Some a \<Rightarrow> a)))"
| "view_serve E N (ReadDirectory p) = with_accessor E N (ReadDirectory p)"
| "view_serve E N (ReadLink p) = with_accessor E N (ReadLink p)"

end
