(* ===== verification/Objects.thy ===== *)
theory Objects
  imports Eval_Store
begin

text \<open>
  File system objects in the store: \<open>ingest\<close> stores a tree under its Merkle hash, and an accessor
  of what it stored answers every request as the tree itself would.
\<close>

section \<open>The tree as a file system\<close>

fun fs_lookup :: "fs_tree \<Rightarrow> canon_path \<Rightarrow> fs_tree option" where
  "fs_lookup t [] = Some t"
| "fs_lookup (Directory es) (c # cs) = (case map_of es c of None \<Rightarrow> None | Some t \<Rightarrow> fs_lookup t cs)"
| "fs_lookup _ (c # cs) = None"

fun object_type :: "fs_tree \<Rightarrow> char" where
  "object_type (Regular exec _) = (if exec then CHR ''x'' else CHR ''r'')"
| "object_type (Symlink _) = CHR ''s''"
| "object_type (Directory _) = CHR ''d''"

fun fs_stat :: "fs_tree \<Rightarrow> stat" where
  "fs_stat (Regular exec d) = \<lparr>st_type = TRegular, st_executable = exec, st_size = Some (of_nat (length d))\<rparr>"
| "fs_stat (Symlink _) = \<lparr>st_type = TSymlink, st_executable = False, st_size = None\<rparr>"
| "fs_stat (Directory _) = \<lparr>st_type = TDirectory, st_executable = False, st_size = None\<rparr>"

text \<open>Paths the walker refuses as too long or too deep lead nowhere.\<close>

definition fs_at :: "fs_tree \<Rightarrow> canon_path \<Rightarrow> fs_tree option" where
  "fs_at t p = (if path_ok p then fs_lookup t p else None)"

primrec fs_answer :: "fs_tree \<Rightarrow> request \<Rightarrow> exn + answer" where
  "fs_answer t (ReadFile p) = (case fs_at t p of Some (Regular _ d) \<Rightarrow> Inr (Contents (of_nat (length d)) d)
     | _ \<Rightarrow> Inl (path_error p '' is not a regular file''))"
| "fs_answer t (PathExists p) = Inr (Exists (fs_at t p \<noteq> None))"
| "fs_answer t (MaybeLstat p) = Inr (Stat (map_option fs_stat (fs_at t p)))"
| "fs_answer t (ReadDirectory p) = (case fs_at t p of
     Some (Directory es) \<Rightarrow> Inr (Entries (map (\<lambda>x. (fst x, tarmac_entry_type (object_type (snd x)))) es))
   | _ \<Rightarrow> Inl (path_error p '' is not a directory''))"
| "fs_answer t (ReadLink p) = (case fs_at t p of Some (Symlink d) \<Rightarrow> Inr (Target d)
     | _ \<Rightarrow> Inl (path_error p '' is not a symlink''))"

section \<open>The objects of a tree\<close>

fun object_id :: "(bytes \<Rightarrow> bytes) \<Rightarrow> fs_tree \<Rightarrow> bytes" where
  "object_id dg (Regular _ d) = dg d"
| "object_id dg (Symlink d) = dg d"
| "object_id dg (Directory es) = dg (concat (map (\<lambda>x. tree_entry_bytes
     \<lparr>te_name = fst x, te_type = object_type (snd x), te_id = object_id dg (snd x)\<rparr>) es))"

definition object_entries :: "(bytes \<Rightarrow> bytes) \<Rightarrow> (bytes \<times> fs_tree) list \<Rightarrow> tree_entry list" where
  "object_entries dg es = map (\<lambda>x. \<lparr>te_name = fst x, te_type = object_type (snd x), te_id = object_id dg (snd x)\<rparr>) es"

definition entries_bytes :: "(bytes \<Rightarrow> bytes) \<Rightarrow> (bytes \<times> fs_tree) list \<Rightarrow> bytes" where
  "entries_bytes dg es = concat (map tree_entry_bytes (object_entries dg es))"

fun object_blobs :: "(bytes \<Rightarrow> bytes) \<Rightarrow> fs_tree \<Rightarrow> bytes list" where
  "object_blobs dg (Regular _ d) = [d]"
| "object_blobs dg (Symlink d) = [d]"
| "object_blobs dg (Directory es) = concat (map (\<lambda>x. object_blobs dg (snd x)) es) @ [entries_bytes dg es]"

text \<open>A directory's names are sorted, as the map that holds them, and fit into a tree object.\<close>

fun object_ok :: "fs_tree \<Rightarrow> bool" where
  "object_ok (Directory es) \<longleftrightarrow> sorted_wrt (<) (map fst es) \<and> (\<forall>x\<in>set es. length (fst x) \<le> kMaxNameLen \<and> object_ok (snd x))"
| "object_ok _ \<longleftrightarrow> True"

lemma object_id_dir: "object_id dg (Directory es) = dg (entries_bytes dg es)"
  by (simp add: entries_bytes_def object_entries_def comp_def)

lemma object_type_ok [simp]: "tree_type (object_type t)"
  by (cases t) (simp_all add: tree_type_def)

lemma object_id_dg: "\<exists>d. object_id dg t = dg d"
  by (cases t) (auto simp: object_id_dir)

lemma object_entries_bytes:
  assumes "object_ok (Directory es)" and "\<And>d. length (dg d) \<le> kMaxIdLen"
  shows "tree_ok (object_entries dg es)" "tree_bytes (object_entries dg es) = Inr (entries_bytes dg es)"
proof -
  have "length (object_id dg t) \<le> kMaxIdLen" for t using object_id_dg [of dg t] assms(2) by auto
  then have "\<forall>e\<in>set (object_entries dg es). entry_ok e" using assms(1) by (auto simp: object_entries_def entry_ok_def)
  then show "tree_ok (object_entries dg es)" "tree_bytes (object_entries dg es) = Inr (entries_bytes dg es)"
    using assms(1) by (simp_all add: tree_ok_def tree_bytes_ok entries_bytes_def) (simp add: object_entries_def comp_def)
qed

section \<open>Storing one\<close>

context blob_store
begin

definition stores_object :: "fs_tree \<Rightarrow> bool" where
  "stores_object t \<longleftrightarrow> (\<forall>s. ok s \<longrightarrow> object_ok t \<longrightarrow> (\<forall>d\<in>set (object_blobs digest t). length d \<le> max_off) \<longrightarrow>
     wp (ingest_object store t)
       (\<lambda>r s'. r = (object_type t, object_id digest t) \<and> ok s' \<and>
          contents s' = blobs digest (object_blobs digest t) ++ contents s \<and> rest s' = rest s)
       (\<lambda>e s'. io_exn e) s)"

lemma stored_leaf: "ok s \<Longrightarrow> length d \<le> max_off \<Longrightarrow> wp (bindE (store d) (\<lambda>h. ret (c, h)))
    (\<lambda>r s'. r = (c, digest d) \<and> ok s' \<and> contents s' = blobs digest [d] ++ contents s \<and> rest s' = rest s) (\<lambda>e s'. io_exn e) s"
  unfolding wp_bindE wp_fun_eqs by (rule wp_store) (simp_all add: blobs_def)

lemma wp_ingest_entries:
  assumes "ok s" and "\<forall>x\<in>set xs. stores_object (snd x) \<and> object_ok (snd x)"
    and "\<forall>x\<in>set xs. \<forall>d\<in>set (object_blobs digest (snd x)). length d \<le> max_off"
  shows "wp (ingest_entries store xs)
    (\<lambda>r s'. r = object_entries digest xs \<and> ok s' \<and>
       contents s' = blobs digest (concat (map (\<lambda>x. object_blobs digest (snd x)) xs)) ++ contents s \<and> rest s' = rest s)
    (\<lambda>e s'. io_exn e) s"
  using assms
proof (induction xs arbitrary: s)
  case Nil
  then show ?case by (simp add: wp_ret object_entries_def)
next
  case (Cons x xs)
  let ?b = "concat (map (\<lambda>x. object_blobs digest (snd x)) xs)"
  have "wp (ingest_object store (snd x)) (\<lambda>r s'. r = (object_type (snd x), object_id digest (snd x)) \<and> ok s' \<and>
      contents s' = blobs digest (object_blobs digest (snd x)) ++ contents s \<and> rest s' = rest s) (\<lambda>e s'. io_exn e) s"
    using Cons.prems by (auto simp: stores_object_def)
  then show ?case
    unfolding ingest_entries.simps wp_bindE
  proof (rule wp_mono)
    fix r s1
    assume a: "r = (object_type (snd x), object_id digest (snd x)) \<and> ok s1 \<and>
      contents s1 = blobs digest (object_blobs digest (snd x)) ++ contents s \<and> rest s1 = rest s"
    have "wp (ingest_entries store xs) (\<lambda>r s'. r = object_entries digest xs \<and> ok s' \<and>
        contents s' = blobs digest ?b ++ contents s1 \<and> rest s' = rest s1) (\<lambda>e s'. io_exn e) s1"
      by (rule Cons.IH) (use a Cons.prems in auto)
    then show "wp (case r of (t, h) \<Rightarrow> bindE (ingest_entries store xs) (\<lambda>es. ret (\<lparr>te_name = fst x, te_type = t, te_id = h\<rparr> # es)))
        (\<lambda>r s'. r = object_entries digest (x # xs) \<and> ok s' \<and>
          contents s' = blobs digest (concat (map (\<lambda>x. object_blobs digest (snd x)) (x # xs))) ++ contents s \<and> rest s' = rest s)
        (\<lambda>e s'. io_exn e) s1"
      using a by (auto simp: wp_bindE wp_fun_eqs object_entries_def blobs_append elim!: wp_mono)
  qed
qed

lemma stores_object: "stores_object t"
proof (induction t)
  case (Regular exec d)
  show ?case using stored_leaf by (auto simp: stores_object_def)
next
  case (Symlink d)
  show ?case using stored_leaf by (auto simp: stores_object_def)
next
  case (Directory es)
  show ?case
    unfolding stores_object_def
  proof (intro allI impI)
    fix s
    assume s: "ok s" and o: "object_ok (Directory es)" and fit: "\<forall>d\<in>set (object_blobs digest (Directory es)). length d \<le> max_off"
    let ?b = "concat (map (\<lambda>x. object_blobs digest (snd x)) es)"
    have sub: "stores_object (snd x)" if "x \<in> set es" for x
      using Directory.IH [OF that, of "snd x"] by (cases x) simp
    have "wp (ingest_entries store es) (\<lambda>r s'. r = object_entries digest es \<and> ok s' \<and>
        contents s' = blobs digest ?b ++ contents s \<and> rest s' = rest s) (\<lambda>e s'. io_exn e) s"
      by (rule wp_ingest_entries) (use s sub o fit in auto)
    then show "wp (ingest_object store (Directory es))
       (\<lambda>r s'. r = (object_type (Directory es), object_id digest (Directory es)) \<and> ok s' \<and>
          contents s' = blobs digest (object_blobs digest (Directory es)) ++ contents s \<and> rest s' = rest s) (\<lambda>e s'. io_exn e) s"
      unfolding ingest_object.simps wp_bindE wp_fun_eqs
    proof (rule wp_mono)
      fix r s1
      assume a: "r = object_entries digest es \<and> ok s1 \<and> contents s1 = blobs digest ?b ++ contents s \<and> rest s1 = rest s"
      have "length (digest d) \<le> kMaxIdLen" for d
        using digest_length [OF s] by (simp add: kHashLen_def kMaxIdLen_def)
      note bytes = object_entries_bytes(2) [OF o this]
      show "wp (put_tree store r) (\<lambda>h s'. (CHR ''d'', h) = (object_type (Directory es), object_id digest (Directory es)) \<and> ok s' \<and>
          contents s' = blobs digest (object_blobs digest (Directory es)) ++ contents s \<and> rest s' = rest s) (\<lambda>e s'. io_exn e) s1"
        unfolding a [THEN conjunct1]
        by (rule wp_put_tree [OF _ bytes]) (use a fit in \<open>auto simp: object_id_dir blobs_append blobs_def simp del: object_id.simps\<close>)
    qed
  qed
qed

lemma wp_ingest_object:
  assumes "ok s" and "object_ok t" and "\<forall>d\<in>set (object_blobs digest t). length d \<le> max_off"
    and "\<And>s'. ok s' \<Longrightarrow> contents s' = blobs digest (object_blobs digest t) ++ contents s \<Longrightarrow> rest s' = rest s \<Longrightarrow>
      Q (object_type t, object_id digest t) s'"
    and "\<And>e s'. io_exn e \<Longrightarrow> R e s'"
  shows "wp (ingest_object store t) Q R s"
  using stores_object [of t] assms(1-3) unfolding stores_object_def by (auto elim!: wp_mono intro: assms(4,5))

end

section \<open>Reading one\<close>

definition holds_object :: "(bytes \<Rightarrow> bytes) \<Rightarrow> (bytes \<Rightarrow> bytes option) \<Rightarrow> fs_tree \<Rightarrow> bool" where
  "holds_object dg m t \<longleftrightarrow> object_ok t \<and> (\<forall>d\<in>set (object_blobs dg t). m (dg d) = Some d)"

definition object_entry :: "(bytes \<Rightarrow> bytes) \<Rightarrow> bytes \<Rightarrow> fs_tree \<Rightarrow> tree_entry" where
  "object_entry dg name t = \<lparr>te_name = name, te_type = object_type t, te_id = object_id dg t\<rparr>"

lemma object_entry_fields [simp]:
  "te_name (object_entry dg name t) = name" "te_type (object_entry dg name t) = object_type t"
  "te_id (object_entry dg name t) = object_id dg t"
  by (simp_all add: object_entry_def)

lemma holds_child:
  assumes "holds_object dg m (Directory es)" and "map_of es c = Some t"
  shows "holds_object dg m t"
  using assms map_of_SomeD [OF assms(2)] by (fastforce simp: holds_object_def)

lemma holds_tree:
  assumes "holds_object dg m (Directory es)" and "\<And>d. length (dg d) \<le> kMaxIdLen"
  shows "tree_at m (object_id dg (Directory es)) = Some (object_entries dg es)"
  using assms object_entries_bytes [of es dg]
  by (auto simp: tree_at_Some holds_object_def object_id_dir simp del: object_id.simps object_ok.simps)

lemma object_entries_named:
  "entry_named (object_entries dg es) c = map_option (object_entry dg c) (map_of es c)"
  unfolding entry_named_def object_entries_def
  by (induction es) (auto simp: object_entry_def)

lemma object_type_dir [simp]: "object_type t = CHR ''d'' \<longleftrightarrow> (\<exists>es. t = Directory es)"
  "object_type t = CHR ''s'' \<longleftrightarrow> (\<exists>d. t = Symlink d)"
  by (cases t; simp)+

text \<open>Walking the stored objects is walking the tree.\<close>

lemma walk_object:
  assumes "\<And>d. length (dg d) \<le> kMaxIdLen"
  shows "holds_object dg m t \<Longrightarrow> walk m (object_entry dg name t) cs =
    map_option (object_entry dg (last (name # cs))) (fs_lookup t cs)"
proof (induction cs arbitrary: t name)
  case Nil
  then show ?case by (cases t) simp_all
next
  case (Cons c cs)
  show ?case
  proof (cases "\<exists>es t'. t = Directory es \<and> map_of es c = Some t'")
    case True
    then obtain es t' where t: "t = Directory es" "map_of es c = Some t'" by blast
    from Cons.IH [OF holds_child [OF Cons.prems [unfolded t(1)] t(2)]] show ?thesis
      using holds_tree [OF Cons.prems [unfolded t(1)] assms] t
      by (simp add: object_entries_named del: object_id.simps)
  next
    case False
    show ?thesis
    proof (cases "\<exists>es. t = Directory es")
      case True
      then obtain es where t: "t = Directory es" by blast
      with False have "map_of es c = None" by (cases "map_of es c") auto
      with holds_tree [OF Cons.prems [unfolded t] assms] t show ?thesis
        by (simp add: object_entries_named del: object_id.simps)
    next
      case no: False
      then have "object_type t \<noteq> CHR ''d''" "fs_lookup t (c # cs) = None" by (cases t; auto)+
      then show ?thesis by simp
    qed
  qed
qed

lemma lookup_holds: "holds_object dg m t \<Longrightarrow> fs_lookup t cs = Some t' \<Longrightarrow> holds_object dg m t'"
proof (induction t cs rule: fs_lookup.induct)
  case (2 es c cs)
  then show ?case using holds_child [OF 2(2)] by (auto split: option.splits)
qed simp_all

text \<open>So a request for the stored entry has the answer of the tree.\<close>

lemma tree_answer_object:
  assumes "\<And>d. length (dg d) \<le> kMaxIdLen" and holds: "holds_object dg m t"
    and entry: "map_option (\<lambda>e. (te_type e, te_id e)) entry = map_option (\<lambda>t'. (object_type t', object_id dg t')) (fs_at t (request_path q))"
  shows "tree_answer m entry q = fs_answer t q"
proof (cases "fs_at t (request_path q)")
  case None
  with entry show ?thesis by (cases q) simp_all
next
  case (Some t')
  with entry obtain e where e: "entry = Some e" "te_type e = object_type t'" "te_id e = object_id dg t'"
    by (auto simp: map_option_eq_Some)
  have h: "holds_object dg m t'" using Some lookup_holds [OF holds] by (auto simp: fs_at_def split: if_splits)
  show ?thesis
  proof (cases t')
    case (Regular x d)
    with h have "m (dg d) = Some d" by (simp add: holds_object_def)
    with Regular Some e show ?thesis by (cases q) (simp_all add: stat_of_def blob_length_def tarmac_entry_type_def)
  next
    case (Symlink d)
    with h have "m (dg d) = Some d" by (simp add: holds_object_def)
    with Symlink Some e show ?thesis by (cases q) (simp_all add: stat_of_def tarmac_entry_type_def)
  next
    case (Directory es)
    note tree = holds_tree [OF h [unfolded Directory] assms(1)]
    show ?thesis
      using Directory Some e tree
      by (cases q) (simp_all add: stat_of_def tarmac_entry_type_def object_entries_def comp_def del: object_id.simps)
  qed
qed

lemma walk_object_root:
  assumes "\<And>d. length (dg d) \<le> kMaxIdLen" and "holds_object dg m (Directory es)"
  shows "walk m (root_entry (object_id dg (Directory es))) cs =
    map_option (object_entry dg (last ([] # cs))) (fs_lookup (Directory es) cs)"
  using walk_object [OF assms, of "[]" cs] by (simp add: object_entry_def root_entry_def del: object_id.simps)

lemma stored_object_ok:
  assumes len: "\<And>d. length (dg d) = kHashLen" and holds: "holds_object dg m (Directory es)"
  shows "ids_ok m (object_id dg (Directory es))" "\<not> damaged m (object_id dg (Directory es))"
    "tree_answer m (entry_at m (object_id dg (Directory es)) (request_path q)) q = fs_answer (Directory es) q"
proof -
  have fits: "length (dg d) \<le> kMaxIdLen" for d using len by (simp add: kHashLen_def kMaxIdLen_def)
  have ids: "length (object_id dg t) = kHashLen" for t using object_id_dg [of dg t] len by auto
  note w = walk_object_root [OF fits holds]
  show "ids_ok m (object_id dg (Directory es))"
    unfolding ids_ok_def w using ids by (auto simp del: object_id.simps)
  show "\<not> damaged m (object_id dg (Directory es))"
    unfolding damaged_def w
  proof (rule, elim exE conjE)
    fix cs e
    assume e: "map_option (object_entry dg (last ([] # cs))) (fs_lookup (Directory es) cs) = Some e"
      "if te_type e = CHR ''d'' then tree_at m (te_id e) = None else m (te_id e) = None"
    from e(1) obtain t' where t': "fs_lookup (Directory es) cs = Some t'" "e = object_entry dg (last ([] # cs)) t'" by auto
    note h = lookup_holds [OF holds t'(1)]
    show False
    proof (cases t')
      case (Directory es')
      with e(2) t'(2) holds_tree [OF h [unfolded Directory] fits] show False by (simp del: object_id.simps)
    qed (use e(2) t'(2) h in \<open>simp_all add: holds_object_def split: if_splits\<close>)
  qed
  show "tree_answer m (entry_at m (object_id dg (Directory es)) (request_path q)) q = fs_answer (Directory es) q"
    by (rule tree_answer_object [OF fits holds])
      (simp add: entry_at_def fs_at_def w option.map_comp comp_def del: object_id.simps fs_lookup.simps)
qed

text \<open>The accessor of a stored object.\<close>

definition object_accessor :: "(bytes \<Rightarrow> bytes) \<Rightarrow> fs_tree \<Rightarrow> accessor" where
  "object_accessor dg t = (case t of Directory _ \<Rightarrow> PackAccessor (object_id dg t) | _ \<Rightarrow> BlobAccessor (object_type t) (object_id dg t))"

section \<open>Serving one\<close>

context accessor_source
begin

lemma serve_object:
  assumes s: "ok s" and len: "\<And>d. length (dg d) = kHashLen" and holds: "holds_object dg (contents s) (Directory es)"
    and c: "cache_ok (contents s) c" and p: "is_canon (request_path q)"
    and A: "\<And>s' c'. trees.kept s s' \<Longrightarrow> cache_ok (contents s) c' \<Longrightarrow>
      (case fs_answer (Directory es) q of Inl e \<Rightarrow> R e (s', c') | Inr r \<Rightarrow> Q r (s', c'))"
    and R: "\<And>e s' c'. io_exn e \<Longrightarrow> trees.kept s s' \<Longrightarrow> R e (s', c')"
  shows "wp (serve calls hook (object_id dg (Directory es)) q) Q R (s, c)"
proof (rule wp_serve [OF s c _ p])
  note o = stored_object_ok [OF len holds]
  show "ids_ok (contents s) (object_id dg (Directory es))" by (rule o(1))
  show "R e (s', c')" if "fails s (object_id dg (Directory es)) e s'" for e s' c'
    using that o(2) R by (auto simp: fails_def)
qed (use A stored_object_ok(3) [OF len holds] in simp)

lemma blob_serve_object:
  assumes s: "ok s" and len: "\<And>d. length (dg d) = kHashLen" and holds: "holds_object dg (contents s) t"
    and leaf: "\<nexists>es. t = Directory es"
    and A: "\<And>s'. trees.kept s s' \<Longrightarrow> (case fs_answer t q of Inl e \<Rightarrow> R e s' | Inr r \<Rightarrow> Q r s')"
    and R: "\<And>e s'. io_exn e \<Longrightarrow> trees.kept s s' \<Longrightarrow> R e s'"
  shows "wp (blob_serve calls (object_type t) (object_id dg t) q) Q R s"
proof -
  obtain d where d: "object_id dg t = dg d" "contents s (dg d) = Some d" "(\<exists>x. t = Regular x d) \<or> t = Symlink d"
    using holds leaf by (cases t) (auto simp: holds_object_def)
  have at: "fs_at t p = (if p = [] then Some t else None)" for p
    using d(3) by (cases p) (auto simp: fs_at_def)
  note kept = trees.kept_refl [OF s]
  show ?thesis
  proof (cases q)
    case (ReadFile p)
    show ?thesis
    proof (cases "p = [] \<and> (\<exists>x. t = Regular x d)")
      case True
      then have "wp (peek (dg d)) (\<lambda>r. wp (case r of None \<Rightarrow> throw (missing_blob p) | Some d' \<Rightarrow> ret (Contents (of_nat (length d')) d')) Q R) R s"
        using d(2) A ReadFile at [of p] by (intro leaves.wp_fetch [OF s len]) (auto simp: wp_simps intro: R)
      with True ReadFile d(1) show ?thesis by (auto simp: blob_read_file_def wp_bindE)
    next
      case False
      with A [OF kept] at [of p] ReadFile d(3) show ?thesis by (auto simp: blob_read_file_def wp_simps split: if_splits)
    qed
  next
    case (PathExists p)
    with A [OF kept] at [of p] show ?thesis by (simp add: wp_ret split: if_splits)
  next
    case (MaybeLstat p)
    show ?thesis
    proof (cases "p = []")
      case True
      have "wp (stat_entry calls (object_type t) (dg d)) (\<lambda>i. Q (Stat (Some i))) R s"
        by (rule wp_stat_entry [OF s len])
          (use d A MaybeLstat at [of p] True in \<open>auto simp: stat_of_def blob_length_def tarmac_entry_type_def intro: R\<close>)
      with True MaybeLstat d(1) show ?thesis by (simp add: blob_maybe_lstat_def wp_bindE wp_fun_eqs)
    next
      case False
      with A [OF kept] at [of p] MaybeLstat show ?thesis by (simp add: blob_maybe_lstat_def wp_simps)
    qed
  next
    case (ReadDirectory p)
    with A [OF kept] at [of p] d(3) show ?thesis by (auto simp: wp_simps split: if_splits)
  next
    case (ReadLink p)
    show ?thesis
    proof (cases "p = [] \<and> t = Symlink d")
      case True
      then have "wp (read_blob fetch (dg d)) (\<lambda>d'. Q (Target d')) R s"
        using d(2) A ReadLink at [of p] by (intro trees.wp_read_blob [OF s len]) (auto intro: R)
      with True ReadLink d(1) show ?thesis by (simp add: blob_read_link_def wp_bindE wp_fun_eqs)
    next
      case False
      with A [OF kept] at [of p] ReadLink d(3) show ?thesis by (auto simp: blob_read_link_def wp_simps split: if_splits)
    qed
  qed
qed

end

end
