(* ===== verification/Eval_Inv.thy ===== *)
theory Eval_Inv
  imports Objects Gc
begin

text \<open>
  The evaluation store's operations on the pack CAS: what each of them leaves of the blobs and of the meta
  table. Touches and registrations only ever change the stamps of roots, so all statements are about
  the other records (\<open>same_records\<close>).
\<close>

section \<open>Steps of a tree store\<close>

definition es_ok :: "('e, 't) platform \<Rightarrow> ('e, 't, 'z) tree_store_scheme \<Rightarrow> bool" where
  "es_ok E s \<longleftrightarrow> pack_ok E s \<and> touches_ok s"

definition is_root_key :: "bytes \<Rightarrow> bool" where
  "is_root_key k \<longleftrightarrow> (\<exists>root tree. k = root_key root tree)"

definition same_records :: "(bytes \<Rightarrow> bytes option) \<Rightarrow> (bytes \<Rightarrow> bytes option) \<Rightarrow> bool" where
  "same_records a b \<longleftrightarrow> (\<forall>k. \<not> is_root_key k \<longrightarrow> a k = b k)"

text \<open>Every pack file can be mapped; \<open>sm\<close> says whether that is known.\<close>

definition packs_small :: "('e, 't, 'z) cas_scheme \<Rightarrow> bool" where
  "packs_small s \<longleftrightarrow> (\<forall>g i. find_inode (world s) (pack_name g) = Some i \<longrightarrow> length (inodes (world s) i) \<le> kMapSize)"

definition es_is ::
  "('e, 't) platform \<Rightarrow> bool \<Rightarrow> (bytes \<Rightarrow> bytes option) \<Rightarrow> (bytes \<Rightarrow> bytes option) \<Rightarrow> ('e, 't, 'z) tree_store_scheme \<Rightarrow> bool" where
  "es_is E sm m mt s \<longleftrightarrow> es_ok E s \<and> store_view E s = m \<and> same_records mt (reader_table E s Meta) \<and> (sm \<longrightarrow> packs_small s)"

lemma packs_small_files: "packs_small s \<Longrightarrow> same_files s s' \<Longrightarrow> packs_small s'"
  by (simp add: packs_small_def same_files_def find_inode_def)

lemma packs_small_fits: "packs_small s \<Longrightarrow> pack_fits E s"
  by (auto simp: packs_small_def pack_fits_def live_pack_def)

lemma packs_small_upd [simp]:
  "packs_small (s\<lparr>tick := n\<rparr>) = packs_small s"
  by (simp add: packs_small_def)

lemma packs_small_touch [simp]: "packs_small (s\<lparr>pending_touch := p\<rparr>) = packs_small s"
  by (simp add: packs_small_def)

lemma same_records_refl [simp]: "same_records a a"
  by (simp add: same_records_def)

lemma same_records_trans: "same_records a b \<Longrightarrow> same_records b c \<Longrightarrow> same_records a c"
  by (simp add: same_records_def)

lemma same_recordsD: "same_records a b \<Longrightarrow> \<not> is_root_key k \<Longrightarrow> b k = a k"
  by (simp add: same_records_def)

lemma same_records_root: "is_root_key k \<Longrightarrow> same_records a (a(k \<mapsto> v))"
  by (simp add: same_records_def)

lemma same_records_upd: "same_records a b \<Longrightarrow> same_records (a(k := v)) (b(k := v))"
  by (simp add: same_records_def)

lemma is_root_key_root [simp]: "is_root_key (root_key root tree)"
  by (auto simp: is_root_key_def)

lemma meta_key_not_root [simp]: "\<not> is_root_key (meta_key kPathPrefix p)" "\<not> is_root_key (meta_key kDrvPrefix p)"
  "meta_key kPathPrefix p \<noteq> ''gen''" "meta_key kDrvPrefix p \<noteq> ''gen''"
  by (auto simp: is_root_key_def root_key_def meta_key_def kPathPrefix_def kDrvPrefix_def)

lemma es_isI: "es_ok E s \<Longrightarrow> es_is E False (store_view E s) (reader_table E s Meta) s"
  by (simp add: es_is_def)

lemma es_is_mono: "es_is E sm m mt s \<Longrightarrow> same_records mt' mt \<Longrightarrow> es_is E sm m mt' s"
  unfolding es_is_def using same_records_trans by blast

lemma es_is_root: "es_is E sm m (mt(root_key root tree \<mapsto> v)) s \<Longrightarrow> es_is E sm m mt s"
  by (rule es_is_mono [OF _ same_records_root [OF is_root_key_root]])

lemma es_isD:
  assumes "es_is E sm m mt s"
  shows "platform_ok E" "cas_inv E s" "own_batch E s" "pack_ok E s" "store_view E s = m"
    "\<not> is_root_key k \<Longrightarrow> reader_table E s Meta k = mt k"
  using assms by (auto simp: es_is_def es_ok_def pack_ok_def same_records_def)

lemma es_is_tick [simp]: "es_is E sm m mt (s\<lparr>tick := n\<rparr>) = es_is E sm m mt s"
proof -
  have "store_view E (s\<lparr>tick := n\<rparr>) = store_view E s"
    by (simp add: store_view_def batch_view_def batch_txn_def cong: option.case_cong)
  then show ?thesis by (simp add: es_is_def es_ok_def pack_ok_def touches_ok_def)
qed

text \<open>An operation of the pack that touches the table only.\<close>

lemma es_is_meta:
  fixes s s' :: "('e, 't, 'z) tree_store_scheme"
  assumes "es_is E sm m mt s" and "meta_done E mt' s s' \<and> same_files s s'" and "same_records mt'' mt'"
  shows "es_is E sm m mt'' s'"
  using assms packs_small_files [of s s'] more_members(1) [of s' s] by (simp add: es_is_def es_ok_def pack_ok_def meta_done_def touches_ok_def)

lemma wp_es_put:
  assumes s: "es_is E sm m mt s" and key: "key \<noteq> ''gen''"
    and Q: "\<And>s'. es_is E sm m (mt(key \<mapsto> val)) s' \<Longrightarrow> Q () s'" and R: "\<And>e s'. io_exn e \<Longrightarrow> R e s'"
  shows "wp (meta_put E key val) Q R s"
proof -
  let ?mt = "(reader_table E s Meta)(key \<mapsto> val)"
  have r: "same_records (mt(key \<mapsto> val)) ?mt"
    using s by (intro same_records_upd) (simp add: es_is_def)
  have "wp (meta_put E key val) (\<lambda>_. meta_done E ?mt s) (\<lambda>e s'. io_exn e) s"
    by (rule wp_meta_put [OF es_isD(1-3) [OF s] key]) simp_all
  from wp_conj [OF this meta_put_files [OF platform_okD(3) [OF es_isD(1) [OF s]]]] show ?thesis
    by (rule wp_mono) (use R Q [OF es_is_meta [OF s _ r]] in simp_all)
qed

lemma wp_es_del:
  assumes s: "es_is E sm m mt s" and key: "key \<noteq> ''gen''"
    and Q: "\<And>s'. es_is E sm m (mt(key := None)) s' \<Longrightarrow> Q () s'" and R: "\<And>e s'. io_exn e \<Longrightarrow> R e s'"
  shows "wp (meta_del E key) Q R s"
proof -
  let ?mt = "(reader_table E s Meta)(key := None)"
  have r: "same_records (mt(key := None)) ?mt"
    using s by (intro same_records_upd) (simp add: es_is_def)
  have "wp (meta_del E key) (\<lambda>_. meta_done E ?mt s) (\<lambda>e s'. io_exn e) s"
    by (rule wp_meta_del [OF es_isD(1-3) [OF s] key]) simp_all
  from wp_conj [OF this meta_del_files [OF platform_okD(3) [OF es_isD(1) [OF s]]]] show ?thesis
    by (rule wp_mono) (use R Q [OF es_is_meta [OF s _ r]] in simp_all)
qed

lemma wp_es_lookup:
  assumes s: "es_is E sm m mt s" and key: "\<not> is_root_key key"
    and Q: "\<And>s'. es_is E sm m mt s' \<Longrightarrow> Q (mt key) s'" and R: "\<And>e s'. io_exn e \<Longrightarrow> R e s'"
  shows "wp (meta_get E key) Q R s"
  by (rule wp_meta_get [OF es_isD(1,2) [OF s]]) (use s R in \<open>auto simp: es_isD(6) [OF s key] intro: Q\<close>)

lemma wp_es_has:
  assumes s: "es_is E sm m mt s" and len: "length h = kHashLen"
    and Q: "\<And>s'. es_is E sm m mt s' \<Longrightarrow> Q (m h \<noteq> None) s'" and R: "\<And>e s'. io_exn e \<Longrightarrow> R e s'"
  shows "wp (has E h) Q R s"
proof (rule wp_has [OF es_isD(1,2) [OF s] len])
  show "Q (h \<in> dom (store_view E s)) (s\<lparr>tick := n\<rparr>)" for n
    using Q [of "s\<lparr>tick := n\<rparr>"] s es_isD(5) [OF s] by (simp add: domIff)
qed (rule R)

lemma wp_es_get:
  fixes s :: "('e, 't, 'z) tree_store_scheme"
  assumes s: "es_is E sm m mt s" and len: "length h = kHashLen"
    and Q: "\<And>s'. es_is E sm m mt s' \<Longrightarrow> Q (m h) s'" and R: "\<And>e s'. io_exn e \<Longrightarrow> R e s'"
  shows "wp (get E h) Q R s"
proof -
  obtain g i where live: "live_pack E (world s) g i" by (rule pack_okE [OF es_isD(4) [OF s]])
  show ?thesis
  proof (rule wp_get [OF es_isD(1,2) [OF s] live len])
    fix s' :: "('e, 't, 'z) tree_store_scheme"
    assume mp: "mapped g s s'"
    note k = mapped_pack_ok [OF es_isD(4) [OF s] live mp]
    have "pending_touch s' = pending_touch s" using k(3) by (intro more_members) (simp add: pack_rest_def)
    with s k packs_small_files [OF _ mapped_same_files [OF mp]] have "es_is E sm m mt s'"
      by (simp add: es_is_def es_ok_def pack_rest_def touches_ok_def)
    with Q es_isD(5) [OF s] show "Q (store_view E s h) s'" by simp
  qed (rule R)
qed

section \<open>Roots\<close>

lemma touches_ok_emplace:
  "touches_ok s \<Longrightarrow> touches_ok (s\<lparr>pending_touch := try_emplace (root_key root tree) now (pending_touch s)\<rparr>)"
  by (auto simp: touches_ok_def try_emplace_def)

lemma wp_es_touch:
  fixes s :: "('e, 't, 'z) tree_store_scheme"
  assumes s: "es_is E sm m mt s" and Q: "\<And>s'. es_is E sm m mt s' \<Longrightarrow> Q () s'" and R: "\<And>e s'. io_exn e \<Longrightarrow> R e s'"
  shows "wp (touch_root E root tree) Q R s"
proof -
  note q = platform_okD(3) [OF es_isD(1) [OF s]]
  let ?key = "root_key root tree"
  have touch: "es_is E sm m mt (s'\<lparr>pending_touch := try_emplace ?key now (pending_touch s')\<rparr>)" if "es_is E sm m mt s'" for s' now
    using that touches_ok_emplace [of s' root tree now] by (simp add: es_is_def es_ok_def pack_ok_def)
  show ?thesis
    unfolding touch_root_def Let_def wp_bindE
  proof (rule wp_meta_get [OF es_isD(1,2) [OF s]])
    fix n
    have s1: "es_is E sm m mt (s\<lparr>tick := n\<rparr>)" using s by simp
    show "wp (case reader_table E s Meta ?key of None \<Rightarrow> ret ()
       | Some v \<Rightarrow> if \<not> is_timestamp v then ret ()
           else bindE (now_ns E) (\<lambda>now. bindE (readS touch_interval_ns) (\<lambda>interval.
             if now - rbe64 v < interval then ret ()
             else modS (\<lambda>s. s\<lparr>pending_touch := try_emplace ?key now (pending_touch s)\<rparr>)))) Q R (s\<lparr>tick := n\<rparr>)"
    proof (cases "reader_table E s Meta ?key")
      case (Some v)
      have "wp (now_ns E) (\<lambda>now. wp (bindE (readS touch_interval_ns) (\<lambda>interval. if now - rbe64 v < interval then ret ()
             else modS (\<lambda>s. s\<lparr>pending_touch := try_emplace ?key now (pending_touch s)\<rparr>))) Q R) R (s\<lparr>tick := n\<rparr>)"
      proof (rule wp_now_ns [OF q])
        fix now n'
        have s2: "es_is E sm m mt (s\<lparr>tick := n, tick := n'\<rparr>)" using s by simp
        show "wp (bindE (readS touch_interval_ns) (\<lambda>interval. if now - rbe64 v < interval then ret ()
             else modS (\<lambda>s. s\<lparr>pending_touch := try_emplace ?key now (pending_touch s)\<rparr>))) Q R (s\<lparr>tick := n, tick := n'\<rparr>)"
          using Q [OF s2] Q [OF touch [OF s2]] by (simp add: wp_simps wp_if)
      qed
      with Some Q [OF s1] show ?thesis by (simp add: wp_bindE wp_ret)
    qed (use Q [OF s1] in \<open>simp add: wp_ret\<close>)
  qed (rule R)
qed

lemma wp_es_register:
  assumes s: "es_is E sm m mt s" and Q: "\<And>s'. es_is E sm m mt s' \<Longrightarrow> Q () s'" and R: "\<And>e s'. io_exn e \<Longrightarrow> R e s'"
  shows "wp (register_root E root tree) Q R s"
  unfolding register_root_def wp_bindE
proof (rule wp_now_ns [OF platform_okD(3) [OF es_isD(1) [OF s]]])
  fix now n
  have s1: "es_is E sm m mt (s\<lparr>tick := n\<rparr>)" using s by simp
  show "wp (meta_put E (root_key root tree) (be64 now)) Q R (s\<lparr>tick := n\<rparr>)"
    by (rule wp_es_put [OF s1]) (simp_all add: Q [OF es_is_root] R)
qed

section \<open>Committing\<close>

lemma wp_es_flush:
  fixes s :: "('e, 't, 'z) tree_store_scheme"
  assumes s: "es_is E sm m mt s" and Q: "\<And>s'. es_is E sm m mt s' \<Longrightarrow> Q () s'" and R: "\<And>e s'. io_exn e \<Longrightarrow> R e s'"
  shows "wp (flush_touches E) Q R s"
proof -
  have roots: "\<forall>x\<in>set (pending_touch s). \<exists>root tree. fst x = root_key root tree"
    using s by (simp add: es_is_def es_ok_def touches_ok_def)
  have s1: "es_is E sm m mt (s\<lparr>pending_touch := []\<rparr>)"
    using s by (simp add: es_is_def es_ok_def pack_ok_def touches_ok_def)
  have "wp (forE (pending_touch s) (\<lambda>x. meta_put E (fst x) (be64 (snd x)))) (\<lambda>_. es_is E sm m mt) R (s\<lparr>pending_touch := []\<rparr>)"
  proof (rule wp_forE_inv [where I = "es_is E sm m mt", OF _ s1])
    fix x and s' :: "('e, 't, 'z) tree_store_scheme"
    assume x: "x \<in> set (pending_touch s)" and s': "es_is E sm m mt s'"
    from roots x obtain root tree where k: "fst x = root_key root tree" by blast
    show "wp (meta_put E (fst x) (be64 (snd x))) (\<lambda>_. es_is E sm m mt) R s'"
      unfolding k by (rule wp_es_put [OF s']) (simp_all add: es_is_root R)
  qed
  then have "wp (forE (pending_touch s) (\<lambda>x. meta_put E (fst x) (be64 (snd x)))) Q R (s\<lparr>pending_touch := []\<rparr>)"
    by (rule wp_mono) (auto intro: Q)
  then show ?thesis by (simp add: flush_touches_def wp_simps)
qed

lemma wp_es_sync:
  fixes s :: "('e, 't, 'z) tree_store_scheme"
  assumes s: "es_is E sm m mt s" and Q: "\<And>s'. es_is E sm m mt s' \<Longrightarrow> wtxn s' = None \<Longrightarrow> Q () s'" and R: "\<And>e s'. io_exn e \<Longrightarrow> R e s'"
  shows "wp (sync_store E) Q R s"
  unfolding sync_store_def wp_thenE
proof (rule wp_es_flush [OF s _ R])
  fix s1 :: "('e, 't, 'z) tree_store_scheme"
  assume s1: "es_is E sm m mt s1"
  show "wp (sync E) Q R s1"
  proof (rule wp_mono [OF wp_conj [OF _ sync_files [OF platform_okD(3) [OF es_isD(1) [OF s1]]]]])
    show "wp (sync E) (\<lambda>_. synced E s1) (\<lambda>e s'. io_exn e) s1"
      by (rule wp_sync_own [OF es_isD(1-3) [OF s1]]) simp_all
    fix a s'
    assume "synced E s1 s' \<and> same_files s1 s'"
    then have y: "synced E s1 s'" and f: "same_files s1 s'" by simp_all
    from y have "pending_touch s' = pending_touch s1" by (intro more_members) (simp add: synced_def)
    with s1 y packs_small_files [OF _ f] have "es_is E sm m mt s'"
      by (simp add: es_is_def es_ok_def pack_ok_def touches_ok_def synced_def own_batch_def store_view_none
        reader_table_def [of E s'] batch_txn_def committed_tables_def)
    with y show "Q a s'" by (simp add: Q synced_def)
  qed (simp add: R)
qed

section \<open>What is relied on of Nix and the JSON library\<close>

text \<open>A JSON value as the library has it: the keys of an object are in order.\<close>

fun json_ok :: "json \<Rightarrow> bool" where
  "json_ok (JArray js) \<longleftrightarrow> (\<forall>j\<in>set js. json_ok j)"
| "json_ok (JObject kvs) \<longleftrightarrow> sorted_wrt (<) (map fst kvs) \<and> (\<forall>x\<in>set kvs. json_ok (snd x))"
| "json_ok _ \<longleftrightarrow> True"

text \<open>What is dumped parses back; a hash and a content address print and parse back, the absent one as
  the empty string; a derivation's text parses back at its own path; a tree in memory is read as what it is.\<close>

definition nix_ok :: "('h, 'ca, 'drv) nix \<Rightarrow> bool" where
  "nix_ok N \<longleftrightarrow> (\<forall>j d. json_ok j \<and> json_dump N j = Inr d \<longrightarrow> json_parse N d = Inr j) \<and>
     (\<forall>h. parse_sri N (hash_sri N h) = Inr h) \<and> render_ca N None = [] \<and>
     (\<forall>ca. render_ca N (Some ca) \<noteq> [] \<and> parse_ca N (render_ca N (Some ca)) = Inr ca) \<and>
     (\<forall>drv. valid_base N (drv_path N drv) \<and> is_derivation N (drv_path N drv)) \<and> aterm_ok N (drv_path N) \<and>
     (\<forall>t q. mem_serve N t q = fs_answer t q)"

definition info_ok :: "('h, 'ca, 'drv) nix \<Rightarrow> ('h, 'ca) path_info \<Rightarrow> bool" where
  "info_ok N info \<longleftrightarrow> valid_base N (vi_path info) \<and> \<not> is_derivation N (vi_path info) \<and>
     sorted_wrt (<) (vi_refs info) \<and> (\<forall>r\<in>set (vi_refs info). valid_base N r)"

lemma record_json_ok: "json_ok (record_json r)"
  by (simp add: record_json_def)

lemma json_strings_map [simp]: "json_strings (map JString xs) = Inr xs"
  by (induction xs) (simp_all add: json_string_def)

lemma decode_json: "json_parse N d = Inr (record_json r) \<Longrightarrow> decode_record N d = ret r"
  by (simp add: fun_eq_iff decode_record_def json_field_def json_at_def record_json_def prog_defs json_string_def json_number_def
      json_array_def from_hex_to_hex)

lemma insert_refs_sorted:
  "sorted_wrt (<) (out @ rs) \<Longrightarrow> \<forall>r\<in>set rs. valid_base N r \<Longrightarrow> insert_refs N out rs = Inr (out @ rs)"
proof (induction rs arbitrary: out)
  case (Cons r rs)
  have less: "\<forall>x\<in>set out. x < r" using Cons.prems(1) by (auto simp: sorted_wrt_append)
  then have "insort_insert r out = out @ [r]"
    by (induction out) (auto simp: insort_insert_key_def)
  with Cons.IH [of "out @ [r]"] Cons.prems show ?case by (simp add: store_path_def)
qed simp

lemma info_of_record:
  assumes "nix_ok N" and "info_ok N info"
  shows "path_info_of N (vi_path info) (record_of N info t h) = ret info"
proof -
  have "insert_refs N [] (vi_refs info) = Inr (vi_refs info)"
    using insert_refs_sorted [of "[]" "vi_refs info" N] assms(2) by (simp add: info_ok_def)
  with assms(1) show ?thesis
    by (cases "vi_ca info") (simp_all add: fun_eq_iff path_info_of_def record_of_def prog_defs nix_ok_def)
qed

section \<open>Records\<close>

definition recorded :: "('h, 'ca, 'drv) nix \<Rightarrow> (bytes \<Rightarrow> bytes option) \<Rightarrow> bytes \<Rightarrow> path_rec \<Rightarrow> bool" where
  "recorded N mt path r \<longleftrightarrow> (\<exists>d. mt (meta_key kPathPrefix path) = Some d \<and> json_parse N d = Inr (record_json r))"

lemma wp_record_none:
  fixes s :: "('e, 't, 'z) tree_store_scheme"
  assumes s: "es_is E sm m mt s" and "mt (meta_key kPathPrefix path) = None"
    and Q: "\<And>s'. es_is E sm m mt s' \<Longrightarrow> Q None s'" and R: "\<And>e s'. io_exn e \<Longrightarrow> R e s'"
  shows "wp (path_record E N path) Q R s"
  unfolding path_record_def wp_bindE
  by (rule wp_es_lookup [OF s]) (use assms(2) in \<open>simp_all add: wp_ret Q R\<close>)

lemma wp_record:
  fixes s :: "('e, 't, 'z) tree_store_scheme"
  assumes s: "es_is E sm m mt s" and r: "recorded N mt path r" and len: "length (pr_root r) = kHashLen"
    and Q: "\<And>s'. m (pr_root r) \<noteq> None \<Longrightarrow> es_is E sm m mt s' \<Longrightarrow> Q (Some r) s'"
    and gone: "\<And>s'. m (pr_root r) = None \<Longrightarrow> es_is E sm m (mt(meta_key kPathPrefix path := None)) s' \<Longrightarrow> Q None s'"
    and R: "\<And>e s'. io_exn e \<Longrightarrow> R e s'"
  shows "wp (path_record E N path) Q R s"
proof -
  from r obtain d where d: "mt (meta_key kPathPrefix path) = Some d" "decode_record N d = (ret r :: (('e, 't, 'z) tree_store_scheme, path_rec) prog)"
    unfolding recorded_def using decode_json by blast
  show ?thesis
    unfolding path_record_def wp_bindE
  proof (rule wp_es_lookup [OF s])
    fix s1 :: "('e, 't, 'z) tree_store_scheme"
    assume s1: "es_is E sm m mt s1"
    have "wp (has E (pr_root r)) (\<lambda>present. wp (if \<not> present then thenE (meta_del E (meta_key kPathPrefix path)) (ret None)
        else thenE (touch_root E (pr_root r) (pr_type r = CHR ''d'')) (ret (Some r))) Q R) R s1"
    proof (rule wp_es_has [OF s1 len])
      fix s2 :: "('e, 't, 'z) tree_store_scheme"
      assume s2: "es_is E sm m mt s2"
      show "wp (if \<not> m (pr_root r) \<noteq> None then thenE (meta_del E (meta_key kPathPrefix path)) (ret None)
        else thenE (touch_root E (pr_root r) (pr_type r = CHR ''d'')) (ret (Some r))) Q R s2"
      proof (cases "m (pr_root r)")
        case None
        have "wp (meta_del E (meta_key kPathPrefix path)) (\<lambda>_. Q None) R s2"
          by (rule wp_es_del [OF s2]) (use gone None R in simp_all)
        with None show ?thesis by (simp add: wp_thenE wp_fun_eqs)
      next
        case (Some b)
        have "wp (touch_root E (pr_root r) (pr_type r = CHR ''d'')) (\<lambda>_. Q (Some r)) R s2"
          by (rule wp_es_touch [OF s2]) (use Q Some R in simp_all)
        with Some show ?thesis by (simp add: wp_thenE wp_fun_eqs)
      qed
    qed (rule R)
    then show "wp (case mt (meta_key kPathPrefix path) of None \<Rightarrow> ret None
       | Some d \<Rightarrow> bindE (decode_record N d) (\<lambda>rec. bindE (has E (pr_root rec)) (\<lambda>present.
         if \<not> present then thenE (meta_del E (meta_key kPathPrefix path)) (ret None)
         else thenE (touch_root E (pr_root rec) (pr_type rec = CHR ''d'')) (ret (Some rec))))) Q R s1"
      by (simp add: d wp_bindE wp_fun_eqs)
  qed (simp_all add: R)
qed

section \<open>Storing objects\<close>

lemma es_is_rest:
  fixes s s' :: "('e, 't, 'z) tree_store_scheme"
  assumes "es_is E sm m mt s" and "pack_ok E s'" and "store_view E s' = m'" and "pack_rest E s' = pack_rest E s"
  shows "es_is E False m' mt s'"
  using assms more_members(1) [of s' s] by (simp add: es_is_def es_ok_def pack_rest_def touches_ok_def)

lemma pack_digest: "pack_ok E s \<Longrightarrow> length (blake3 E d) = kHashLen"
  by (rule pack.digest_length)

definition object_fits :: "('e, 't) platform \<Rightarrow> (bytes \<Rightarrow> bytes option) \<Rightarrow> fs_tree \<Rightarrow> bool" where
  "object_fits E m t \<longleftrightarrow> object_ok t \<and> (\<forall>d\<in>set (object_blobs (blake3 E) t). length d \<le> max_off) \<and>
     no_collision (blake3 E) m (object_blobs (blake3 E) t)"

lemma stored_holds:
  assumes "pack_ok E s" and "object_fits E (store_view E s) t"
  shows "holds_object (blake3 E) (blobs (blake3 E) (object_blobs (blake3 E) t) ++ store_view E s) t"
  using assms(2) blobs_find [where dg = "blake3 E", OF _ pack.contents_digest [OF assms(1)]] by (simp add: holds_object_def object_fits_def)

lemma object_root: "\<exists>d\<in>set (object_blobs dg t). object_id dg t = dg d"
  by (cases t) (auto simp: object_id_dir simp del: object_id.simps(3))

lemma holds_root: "holds_object dg m t \<Longrightarrow> m (object_id dg t) \<noteq> None"
  using object_root [of dg t] by (auto simp: holds_object_def)

lemma recorded_put:
  assumes "nix_ok N" and "encode_record N r = Inr d"
  shows "recorded N (mt(meta_key kPathPrefix path \<mapsto> d)) path r"
  using assms record_json_ok by (auto simp: recorded_def nix_ok_def encode_record_def)

lemma wp_es_ingest:
  fixes s :: "('e, 't, 'z) tree_store_scheme"
  assumes s: "es_is E sm m mt s" and t: "object_fits E m t"
    and Q: "\<And>s' m'. es_is E False m' mt s' \<Longrightarrow> m \<subseteq>\<^sub>m m' \<Longrightarrow> holds_object (blake3 E) m' t \<Longrightarrow>
      Q (object_type t, object_id (blake3 E) t) s'"
    and R: "\<And>e s'. io_exn e \<Longrightarrow> R e s'"
  shows "wp (ingest_object (put E) t) Q R s"
proof -
  have m: "store_view E s = m" and ok: "pack_ok E s" using es_isD(4,5) [OF s] by simp_all
  show ?thesis
  proof (rule pack.wp_ingest_object [OF ok])
    show "object_ok t" "\<forall>d\<in>set (object_blobs (blake3 E) t). length d \<le> max_off" using t by (simp_all add: object_fits_def)
    fix s'
    assume a: "pack_ok E s'" "store_view E s' = blobs (blake3 E) (object_blobs (blake3 E) t) ++ store_view E s"
      "pack_rest E s' = pack_rest E s"
    show "Q (object_type t, object_id (blake3 E) t) s'"
    proof (rule Q)
      show "es_is E False (blobs (blake3 E) (object_blobs (blake3 E) t) ++ m) mt s'" using es_is_rest [OF s a] m by simp
      show "m \<subseteq>\<^sub>m blobs (blake3 E) (object_blobs (blake3 E) t) ++ m" by (simp add: map_le_map_add)
      show "holds_object (blake3 E) (blobs (blake3 E) (object_blobs (blake3 E) t) ++ m) t"
        using stored_holds [OF ok, of t] t m by simp
    qed
  qed (rule R)
qed

lemma wp_store_object:
  fixes s :: "('e, 't, 'z) tree_store_scheme"
  assumes s: "es_is E sm m mt s" and t: "object_fits E m t" and N: "nix_ok N"
    and Q: "\<And>s' m' mt'. es_is E False m' mt' s' \<Longrightarrow> wtxn s' = None \<Longrightarrow> m \<subseteq>\<^sub>m m' \<Longrightarrow> holds_object (blake3 E) m' t \<Longrightarrow>
      recorded N mt' (vi_path info) (record_of N info (object_type t) (object_id (blake3 E) t)) \<Longrightarrow>
      \<forall>k. k \<noteq> meta_key kPathPrefix (vi_path info) \<longrightarrow> mt' k = mt k \<Longrightarrow> Q () s'"
    and R: "\<And>e s'. io_exn e \<Longrightarrow> R e s'"
    and J: "\<And>e s'. encode_record N (record_of N info (object_type t) (object_id (blake3 E) t)) = Inl e \<Longrightarrow> R e s'"
  shows "wp (store_object E N info t) Q R s"
  unfolding store_object_def wp_bindE
proof (rule wp_es_ingest [OF s t])
  fix s1 :: "('e, 't, 'z) tree_store_scheme" and m'
  let ?r = "record_of N info (object_type t) (object_id (blake3 E) t)" and ?key = "meta_key kPathPrefix (vi_path info)"
  assume s1: "es_is E False m' mt s1" and sub: "m \<subseteq>\<^sub>m m'" and holds: "holds_object (blake3 E) m' t"
  have "wp (register_root E (object_id (blake3 E) t) (object_type t = CHR ''d''))
      (\<lambda>_. wp (bindE (liftE (encode_record N ?r)) (\<lambda>d. thenE (meta_put E ?key d) (sync_store E))) Q R) R s1"
  proof (rule wp_es_register [OF s1])
    fix s2 :: "('e, 't, 'z) tree_store_scheme"
    assume s2: "es_is E False m' mt s2"
    show "wp (bindE (liftE (encode_record N ?r)) (\<lambda>d. thenE (meta_put E ?key d) (sync_store E))) Q R s2"
    proof (cases "encode_record N ?r")
      case (Inl e)
      with J show ?thesis by (simp add: wp_simps)
    next
      case (Inr d)
      have "wp (meta_put E ?key d) (\<lambda>_. wp (sync_store E) Q R) R s2"
      proof (rule wp_es_put [OF s2])
        fix s3 :: "('e, 't, 'z) tree_store_scheme"
        assume s3: "es_is E False m' (mt(?key \<mapsto> d)) s3"
        show "wp (sync_store E) Q R s3"
          by (rule wp_es_sync [OF s3]) (auto intro!: Q R sub holds recorded_put [OF N Inr])
      qed (simp_all add: R)
      with Inr show ?thesis by (simp add: wp_simps)
    qed
  qed (rule R)
  then show "wp (case (object_type t, object_id (blake3 E) t) of (t, h) \<Rightarrow> thenE (register_root E h (t = CHR ''d''))
     (bindE (liftE (encode_record N (record_of N info t h))) (\<lambda>d.
      thenE (meta_put E (meta_key kPathPrefix (vi_path info)) d) (sync_store E)))) Q R s1"
    by (simp add: wp_thenE)
qed (rule R)

section \<open>Accessors of stored objects\<close>

lemma wp_accessor_for:
  fixes s :: "('e, 't, 'z) tree_store_scheme"
  assumes s: "es_is E sm m mt s" and drv: "\<not> is_derivation N path"
    and r: "recorded N mt path r" "pr_type r = object_type t" "pr_root r = object_id (blake3 E) t" and holds: "holds_object (blake3 E) m t"
    and Q: "\<And>s'. es_is E sm m mt s' \<Longrightarrow> Q (Some (object_accessor (blake3 E) t)) s'" and R: "\<And>e s'. io_exn e \<Longrightarrow> R e s'"
  shows "wp (accessor_for E N path) Q R s"
proof -
  have len: "length (pr_root r) = kHashLen"
    using object_id_dg [of "blake3 E" t] pack_digest [OF es_isD(4) [OF s]] r(3) by auto
  have "wp (path_record E N path) (\<lambda>rec. wp (ret (map_option (\<lambda>r. if pr_type r = CHR ''d''
        then PackAccessor (pr_root r) else BlobAccessor (pr_type r) (pr_root r)) rec)) Q R) R s"
  proof (rule wp_record [OF s r(1) len])
    show "wp (ret (map_option (\<lambda>r. if pr_type r = CHR ''d'' then PackAccessor (pr_root r) else BlobAccessor (pr_type r) (pr_root r))
        (Some r))) Q R s'" if "es_is E sm m mt s'" for s'
      using Q [OF that] r(2,3) by (cases t) (simp_all add: object_accessor_def wp_ret del: object_id.simps)
  qed (use holds_root [OF holds] r(3) R in simp_all)
  with drv show ?thesis by (simp add: accessor_for_def wp_bindE)
qed

text \<open>The pack as the source of an accessor without a hook; reading does not make the packs longer.\<close>

interpretation small_trees: tree_reader "\<lambda>s. pack_ok E s \<and> packs_small s" "store_view E" "pack_rest E" "get E" "get_view E" for E
proof (unfold_locales, goal_cases)
  case (1 s h)
  then obtain g i where s: "platform_ok E" "cas_inv E s" "live_pack E (world s) g i" by (blast elim: pack_okE)
  with 1 show ?case
    by (intro wp_get [OF s 1(2)]) (auto simp: mapped_pack_ok [OF _ s(3)] intro: packs_small_files mapped_same_files)
next
  case (3 s h)
  then obtain g i where s: "platform_ok E" "cas_inv E s" "live_pack E (world s) g i" by (blast elim: pack_okE)
  from 3(1) have "pack_fits E s" by (simp add: packs_small_fits)
  with 3 s(3) show ?case
    by (intro wp_get_view [OF s 3(2)]) (auto simp: mapped_pack_ok [OF _ s(3)] pack_fits_def intro: packs_small_files mapped_same_files)
next
  case (5 s h d)
  then show ?case using pack.contents_digest pack.digest_length by metis
qed (rule get_bad_length; assumption)+

interpretation pack_acc: accessor_source "\<lambda>s. pack_ok E s \<and> packs_small s" "store_view E" "pack_rest E" "get E" "get_view E"
    "blob_size E" "ret ()" "(=)" for E
proof (unfold_locales, goal_cases)
  case (1 s h)
  then have s: "platform_ok E" "cas_inv E s" by (simp_all add: pack_ok_def)
  obtain g i where live: "live_pack E (world s) g i" "handle_maps_inv s" "maps_below g s"
    using s(2) by (auto simp: cas_inv_idle idle_inv_def)
  have "pack_ok E (s\<lparr>tick := n\<rparr>) \<and> packs_small (s\<lparr>tick := n\<rparr>) \<and> store_view E (s\<lparr>tick := n\<rparr>) = store_view E s \<and>
      pack_rest E (s\<lparr>tick := n\<rparr>) = pack_rest E s" for n
    using 1(1) mapped_pack_ok [OF _ live(1) mapped_tick [OF live(2,3)], of n] by simp
  then show ?case
    by (intro wp_blob_size [OF s 1(2)]) (auto simp: blob_length_def)
next
  case (2 s)
  then show ?case by (simp add: wp_ret)
qed

lemma pack_calls_eq: "pack_calls E = \<lparr>call_get = get E, call_view = get_view E, call_size = blob_size E\<rparr>"
  by (simp add: pack_calls_def)

lemma wp_serve_object:
  assumes s: "pack_ok E s" "packs_small s" and holds: "holds_object (blake3 E) (store_view E s) t"
    and c: "cache_ok (store_view E s) c" and p: "is_canon (request_path q)"
    and A: "\<And>s' c'. small_trees.trees.kept E s s' \<Longrightarrow> cache_ok (store_view E s) c' \<Longrightarrow>
      (case fs_answer t q of Inl e \<Rightarrow> R e (s', c') | Inr r \<Rightarrow> Q r (s', c'))"
    and R: "\<And>e s' c'. io_exn e \<Longrightarrow> R e (s', c')"
  shows "wp (serve_accessor (pack_calls E) N (object_accessor (blake3 E) t) q) Q R (s, c)"
proof (cases "\<exists>es. t = Directory es")
  case True
  then obtain es where t: "t = Directory es" by blast
  show ?thesis
    unfolding t object_accessor_def fs_tree.case serve_accessor.simps pack_calls_eq
    by (rule pack_acc.serve_object [OF _ pack_digest [OF s(1)] holds [unfolded t] c p]) (use s A t R in auto)
next
  case False
  then have acc: "object_accessor (blake3 E) t = BlobAccessor (object_type t) (object_id (blake3 E) t)"
    by (cases t) (simp_all add: object_accessor_def)
  show ?thesis
    unfolding acc serve_accessor.simps pack_calls_eq wp_on_store fst_conv snd_conv
    by (rule pack_acc.blob_serve_object [OF _ pack_digest [OF s(1)] holds False]) (use s A c R in \<open>auto split: sum.split_asm\<close>)
qed

section \<open>Derivations\<close>

lemma wp_drv_none:
  fixes s :: "('e, 't, 'z) tree_store_scheme"
  assumes s: "es_is E sm m mt s" and "mt (meta_key kDrvPrefix path) = None"
    and Q: "\<And>s'. es_is E sm m mt s' \<Longrightarrow> Q None s'" and R: "\<And>e s'. io_exn e \<Longrightarrow> R e s'"
  shows "wp (drv_text E path) Q R s"
  unfolding drv_text_def wp_bindE
  by (rule wp_es_lookup [OF s]) (use assms(2) in \<open>simp_all add: wp_ret Q R\<close>)

lemma wp_drv_text:
  fixes s :: "('e, 't, 'z) tree_store_scheme"
  assumes s: "es_is E sm m mt s" and h: "mt (meta_key kDrvPrefix path) = Some h" and len: "length h = kHashLen"
    and Q: "\<And>s' d. m h = Some d \<Longrightarrow> es_is E sm m mt s' \<Longrightarrow> Q (Some d) s'"
    and gone: "\<And>s'. m h = None \<Longrightarrow> es_is E sm m (mt(meta_key kDrvPrefix path := None)) s' \<Longrightarrow> Q None s'"
    and R: "\<And>e s'. io_exn e \<Longrightarrow> R e s'"
  shows "wp (drv_text E path) Q R s"
  unfolding drv_text_def wp_bindE
proof (rule wp_es_lookup [OF s])
  fix s1 :: "('e, 't, 'z) tree_store_scheme"
  assume s1: "es_is E sm m mt s1"
  have "wp (get E h) (\<lambda>r. wp (case r of None \<Rightarrow> thenE (meta_del E (meta_key kDrvPrefix path)) (ret None)
      | Some text \<Rightarrow> thenE (touch_root E h False) (ret (Some text))) Q R) R s1"
  proof (rule wp_es_get [OF s1 len])
    fix s2 :: "('e, 't, 'z) tree_store_scheme"
    assume s2: "es_is E sm m mt s2"
    show "wp (case m h of None \<Rightarrow> thenE (meta_del E (meta_key kDrvPrefix path)) (ret None)
      | Some text \<Rightarrow> thenE (touch_root E h False) (ret (Some text))) Q R s2"
    proof (cases "m h")
      case None
      have "wp (meta_del E (meta_key kDrvPrefix path)) (\<lambda>_. Q None) R s2"
        by (rule wp_es_del [OF s2]) (use gone None R in simp_all)
      with None show ?thesis by (simp add: wp_thenE wp_fun_eqs)
    next
      case (Some d)
      have "wp (touch_root E h False) (\<lambda>_. Q (Some d)) R s2"
        by (rule wp_es_touch [OF s2]) (use Q Some R in simp_all)
      with Some show ?thesis by (simp add: wp_thenE wp_fun_eqs)
    qed
  qed (rule R)
  then show "wp (case mt (meta_key kDrvPrefix path) of None \<Rightarrow> ret None
     | Some h \<Rightarrow> bindE (get E h) (\<lambda>r. case r of None \<Rightarrow> thenE (meta_del E (meta_key kDrvPrefix path)) (ret None)
       | Some text \<Rightarrow> thenE (touch_root E h False) (ret (Some text)))) Q R s1"
    by (simp add: h wp_bindE)
qed (simp_all add: R)

text \<open>The derivation of a path, if it is stored already, is the one to be written.\<close>

definition drv_agrees :: "('h, 'ca, 'drv) nix \<Rightarrow> (bytes \<Rightarrow> bytes option) \<Rightarrow> (bytes \<Rightarrow> bytes option) \<Rightarrow> 'drv \<Rightarrow> bool" where
  "drv_agrees N m mt drv \<longleftrightarrow> (\<forall>h. mt (meta_key kDrvPrefix (drv_path N drv)) = Some h \<longrightarrow>
     length h = kHashLen \<and> (m h = None \<or> m h = Some (unparse_drv N drv)))"

lemma wp_write_derivation:
  fixes s :: "('e, 't, 'z) tree_store_scheme"
  assumes s: "es_is E False m mt s" and agrees: "drv_agrees N m mt drv"
    and fits: "length (unparse_drv N drv) \<le> max_off"
    and fresh: "\<forall>d. m (blake3 E (unparse_drv N drv)) = Some d \<longrightarrow> d = unparse_drv N drv"
    and Q: "\<And>s' m' mt' h. es_is E False m' mt' s' \<Longrightarrow> m \<subseteq>\<^sub>m m' \<Longrightarrow> mt' (meta_key kDrvPrefix (drv_path N drv)) = Some h \<Longrightarrow>
      length h = kHashLen \<Longrightarrow> m' h = Some (unparse_drv N drv) \<Longrightarrow>
      \<forall>k. k \<noteq> meta_key kDrvPrefix (drv_path N drv) \<longrightarrow> mt' k = mt k \<Longrightarrow> Q (drv_path N drv) s'"
    and R: "\<And>e s'. io_exn e \<Longrightarrow> R e s'"
  shows "wp (write_derivation E N drv) Q R s"
proof -
  let ?key = "meta_key kDrvPrefix (drv_path N drv)" and ?text = "unparse_drv N drv"
  define cont where "cont = (\<lambda>text :: bytes option. thenE
       (whenE (text = None) (bindE (put E ?text) (\<lambda>h.
          thenE (register_root E h False) (thenE (meta_put E ?key h) (sync_store E))))) (ret (drv_path N drv)) ::
       (('e, 't, 'z) tree_store_scheme, bytes) prog)"
  have writes: "wp (cont None) Q R s1" if s1: "es_is E False m mt1 s1" and mt1: "\<forall>k. k \<noteq> ?key \<longrightarrow> mt1 k = mt k" for mt1 s1
  proof -
    have "wp (put E ?text) (\<lambda>h. wp (thenE (register_root E h False) (thenE (meta_put E ?key h) (sync_store E)))
        (\<lambda>_. Q (drv_path N drv)) R) R s1"
    proof (rule pack.wp_store [OF es_isD(4) [OF s1] fits])
      fix s2
      let ?h = "blake3 E ?text" and ?m = "[blake3 E ?text \<mapsto> ?text] ++ m"
      assume a: "pack_ok E s2" "store_view E s2 = [?h \<mapsto> ?text] ++ store_view E s1" "pack_rest E s2 = pack_rest E s1"
      have s2: "es_is E False ?m mt1 s2" using es_is_rest [OF s1 a] es_isD(5) [OF s1] by simp
      have found: "?m ?h = Some ?text" using fresh by (cases "m ?h") (auto simp: map_add_def)
      have sub: "m \<subseteq>\<^sub>m ?m" by (simp add: map_le_map_add)
      have len: "length ?h = kHashLen" by (rule pack_digest [OF a(1)])
      have "wp (thenE (meta_put E ?key ?h) (sync_store E)) (\<lambda>_. Q (drv_path N drv)) R s3"
        if s3: "es_is E False ?m mt1 s3" for s3 :: "('e, 't, 'z) tree_store_scheme"
        unfolding wp_thenE
      proof (rule wp_es_put [OF s3])
        fix s4 :: "('e, 't, 'z) tree_store_scheme"
        assume s4: "es_is E False ?m (mt1(?key \<mapsto> ?h)) s4"
        show "wp (sync_store E) (\<lambda>_. Q (drv_path N drv)) R s4"
        proof (rule wp_es_sync [OF s4 _ R])
          fix s5 :: "('e, 't, 'z) tree_store_scheme"
          assume s5: "es_is E False ?m (mt1(?key \<mapsto> ?h)) s5"
          show "Q (drv_path N drv) s5"
            by (rule Q [OF s5 sub _ len found]) (simp_all add: mt1)
        qed
      qed (simp_all add: R)
      then show "wp (thenE (register_root E ?h False) (thenE (meta_put E ?key ?h) (sync_store E)))
          (\<lambda>_. Q (drv_path N drv)) R s2"
        unfolding wp_thenE [of "register_root E ?h False"] by (intro wp_es_register [OF s2]) (simp_all add: R)
    qed (rule R)
    then show ?thesis by (simp add: cont_def wp_simps wp_fun_eqs)
  qed
  have "wp (drv_text E (drv_path N drv)) (\<lambda>text. wp (cont text) Q R) R s"
  proof (cases "mt ?key")
    case None
    show ?thesis by (rule wp_drv_none [OF s None]) (simp_all add: writes R)
  next
    case (Some h)
    with agrees have h: "length h = kHashLen" "m h = None \<or> m h = Some ?text" by (simp_all add: drv_agrees_def)
    show ?thesis
    proof (rule wp_drv_text [OF s Some h(1)])
      show "wp (cont (Some d)) Q R s'" if "m h = Some d" "es_is E False m mt s'" for s' d
        using that h Some by (auto simp: cont_def wp_simps intro!: Q)
      show "wp (cont None) Q R s'" if "es_is E False m (mt(?key := None)) s'" for s'
        by (rule writes [OF that]) simp
    qed (rule R)
  qed
  then show ?thesis by (simp add: write_derivation_def Let_def wp_bindE cont_def)
qed

lemma wp_read_derivation:
  fixes s :: "('e, 't, 'z) tree_store_scheme"
  assumes s: "es_is E sm m mt s" and h: "mt (meta_key kDrvPrefix (drv_path N drv)) = Some h" "length h = kHashLen"
    and body: "m h = Some (unparse_drv N drv)" and N: "nix_ok N"
    and Q: "\<And>s'. es_is E sm m mt s' \<Longrightarrow> Q drv s'" and R: "\<And>e s'. io_exn e \<Longrightarrow> R e s'"
  shows "wp (read_derivation E N (drv_path N drv)) Q R s"
  unfolding read_derivation_def wp_bindE
  by (rule wp_drv_text [OF s h]) (use body N in \<open>auto simp: wp_simps nix_ok_def parse_unparse intro: Q R\<close>)

end
