(* ===== verification/Ctx.thy ===== *)
theory Ctx
  imports Open_Inv Eval_Inv
begin

text \<open>
  The context of a store in the plugin (\<open>src/plugin/ctx.hh\<close>): it opens the store of a directory once per process, wiping it
  first when an accessor has marked it as corrupt with the file \<open>poison\<close>, and starts a collection.
\<close>

section \<open>The code\<close>

definition kDefaultTtl :: u64 where "kDefaultTtl = 30 * 24 * 3600 * 1000000000"
definition kDefaultGcInterval :: u64 where "kDefaultGcInterval = 24 * 3600 * 1000000000"
definition kDefaultTouchInterval :: u64 where "kDefaultTouchInterval = 3600 * 1000000000"

text \<open>The constructor of \<open>TreeStore\<close>.\<close>

definition fresh_store :: "('e, 't, 'z) tree_store_scheme \<Rightarrow> ('e, 't, 'z) tree_store_scheme" where
  "fresh_store s = s\<lparr>pending_touch := [], ttl_ns := kDefaultTtl, gc_interval_ns := kDefaultGcInterval,
     touch_interval_ns := kDefaultTouchInterval\<rparr>"

text \<open>\<open>std::filesystem::exists\<close> with an error code.\<close>

definition sys_exists :: "('e, 't) platform \<Rightarrow> bytes \<Rightarrow> (('e, 'z) machine_scheme, bool) prog" where
  "sys_exists E name = bindE (sys E) (\<lambda>r. case r of
     Fail _ \<Rightarrow> ret False
   | _ \<Rightarrow> bindE (readS world) (\<lambda>w. ret (find_inode w name \<noteq> None)))"

definition open_healed :: "('e, 't) platform \<Rightarrow> bytes \<Rightarrow> (('e, 't, 'z) cas_scheme, unit) prog" where
  "open_healed E dir = bindE (sys_exists E ''poison'') (\<lambda>poisoned. thenE (whenE poisoned (remove_all E))
     (bindE (sys_mkdir E) (\<lambda>_. pack_open E dir)))"

definition ctx_init :: "('e, 't) platform \<Rightarrow> bytes \<Rightarrow> (('e, 't, 'z) tree_store_scheme, unit) prog" where
  "ctx_init E dir = thenE (open_healed E dir) (thenE (modS fresh_store) (tryE (maybe_gc E) (\<lambda>_. ret ())))"

text \<open>An \<open>std::ofstream\<close>: the file is created or emptied and written, errors only set the stream's state.\<close>

definition poison_text :: bytes where
  "poison_text = ''corrupt'' @ [CHR 0x0A]"

definition poison :: "('e, 't) platform \<Rightarrow> (('e, 'z) machine_scheme, unit) prog" where
  "poison E = bindE (sys_open E ''poison'' True True) (\<lambda>r. case r of
     Inl _ \<Rightarrow> ret ()
   | Inr fd \<Rightarrow> tryE (pwrite_all E fd poison_text 0) (\<lambda>_. ret ()))"

text \<open>\<open>Ctx::get\<close> for one directory; the local variable says whether \<open>instances\<close> has it. A constructor that throws
  leaves the null pointer there, and the next call tries again.\<close>

definition ctx_get :: "('e, 't) platform \<Rightarrow> bytes \<Rightarrow> (('e, 't, 'z) tree_store_scheme \<times> bool, unit) prog" where
  "ctx_get E dir = bindE get_local (\<lambda>made. whenE (\<not> made) (thenE (on_store (ctx_init E dir)) (mod_local (\<lambda>_. True))))"

section \<open>Poisoned stores\<close>

definition poisoned :: "'e world \<Rightarrow> bool" where
  "poisoned w \<longleftrightarrow> files_ok w \<and> find_inode w ''poison'' \<noteq> None"

definition opened_empty :: "('e, 't) platform \<Rightarrow> ('e, 't, 'z) cas_scheme \<Rightarrow> bool" where
  "opened_empty E s \<longleftrightarrow> opened E Map.empty [''format'' \<mapsto> kFormat] s"

lemma wp_open_poisoned:
  fixes s :: "('e, 't, 'z) cas_scheme"
  assumes ok: "platform_ok E" and p: "poisoned (world s)"
    and fine: "\<forall>err. outcome E (tick s) \<noteq> Fail err" "\<forall>err. outcome E (Suc (tick s)) \<noteq> Fail err"
    and Q: "\<And>s'. opened_empty E s' \<Longrightarrow> Q () s'" and R: "\<And>e s'. io_exn e \<Longrightarrow> R e s'"
  shows "wp (open_healed E dir) Q R s"
proof -
  note q = platform_okD(3) [OF ok]
  let ?w = "(world s)\<lparr>dirents := [], mdb_env := mdb_fresh E, flock_owner := None\<rparr>"
  have dir: "store_dir E Map.empty [''format'' \<mapsto> kFormat] 0 ?w"
    using store_dir_fresh [OF platform_okD(2) [OF ok]] p by (simp add: poisoned_def)
  have "wp (bindE (sys_mkdir E) (\<lambda>_. pack_open E dir)) Q R (s\<lparr>tick := n, world := ?w\<rparr>)" for n
    by (intro wp_bindE_I wp_sys_mkdir [OF q] wp_pack_open [OF ok]) (use dir Q R in \<open>simp_all add: opened_empty_def\<close>)
  moreover have "wp (remove_all E) A B (s\<lparr>tick := Suc (tick s)\<rparr>)" if "A () (s\<lparr>tick := Suc (Suc (tick s)), world := ?w\<rparr>)" for A B
    using that fine(2) by (auto simp: remove_all_def wp_simps wp_sys_eq [OF q] modW_def split: outcome.split)
  ultimately have "wp (thenE (remove_all E) (bindE (sys_mkdir E) (\<lambda>_. pack_open E dir))) Q R (s\<lparr>tick := Suc (tick s)\<rparr>)"
    by (simp add: wp_thenE)
  moreover have "find_inode (world s) ''poison'' \<noteq> None" using p by (simp add: poisoned_def)
  ultimately show ?thesis
    using fine(1) by (auto simp: open_healed_def sys_exists_def wp_simps wp_sys_eq [OF q] split: outcome.split)
qed

text \<open>The marker is written, or the call to open it failed.\<close>

lemma wp_poison:
  assumes q: "quiet E" and files: "files_ok (world s)" and fine: "faultless E"
    and Q: "\<And>s'. poisoned (world s') \<Longrightarrow> Q () s'"
  shows "wp (poison E) Q R s"
proof -
  have fill: "wp (tryE (pwrite_all E fd poison_text 0) (\<lambda>_. ret ())) Q R s'" if "poisoned (world s')" for fd s'
    unfolding wp_tryE
  proof (rule wp_pwrite_all [OF q])
    have "files_ok (world s')" using that by (simp add: poisoned_def)
    then show "length (inodes (world s') fd) \<le> max_off" by (rule files_ok_length)
  qed (use that in \<open>auto simp: poisoned_def wp_ret intro!: Q\<close>)
  have "outcome E n = Fine" for n using fine by (simp add: faultless_def)
  then show ?thesis
    using files fill files_ok_link_new [OF files, of "''poison''"]
    by (auto simp: poison_def sys_open_def wp_simps wp_sys_eq [OF q] modW_def poisoned_def find_link_new split: option.split intro!: fill)
qed

lemma wp_poison_total:
  assumes q: "quiet E" and files: "files_ok (world s)"
  shows "wp (poison E) (\<lambda>_ s'. faultless E \<longrightarrow> poisoned (world s')) (\<lambda>_ _. False) s"
proof (cases "faultless E")
  case True
  then show ?thesis using wp_poison [OF q files True] by simp
next
  case False
  have "wp (tryE (pwrite_all E fd poison_text 0) (\<lambda>_. ret ())) (\<lambda>_ _. True) (\<lambda>_ _. False) s'" for fd s'
    by (simp add: wp_tryE wp_ret) (simp add: wp_def ret_def split: prod.split sum.split)
  with False show ?thesis
    unfolding poison_def by (intro wp_bindE_I wp_sys_open [OF q]) (simp_all add: wp_ret)
qed

text \<open>The accessor of the fetcher marks the store.\<close>

interpretation poison_acc: accessor_source "\<lambda>s. pack_ok E s \<and> packs_small s" "store_view E" "pack_rest E" "get E" "get_view E"
    "blob_size E" "poison E" "\<lambda>_ s'. faultless E \<longrightarrow> poisoned (world s')" for E
proof (unfold_locales, goal_cases)
  case (1 s h)
  then show ?case by (rule pack_acc.size_of)
next
  case (2 s)
  then have "quiet E" "files_ok (world s)" using platform_okD(3) cas_inv_files by (auto simp: pack_ok_def)
  then show ?case by (rule wp_poison_total)
qed

section \<open>What a crash leaves\<close>

lemma pack_dir:
  assumes "pack_ok E s" and "mdb_committed E (mdb_env (world s)) Meta ''format'' = Some kFormat"
  obtains g where "store_dir E (committed_view E (world s)) (mdb_committed E (mdb_env (world s)) Meta) g (world s)"
proof -
  obtain g i where w: "live_pack E (world s) g i" "files_ok (world s)" "index_ok E (inodes (world s) i) (mdb_committed E (mdb_env (world s)) Blobs)"
    using assms(1) by (auto simp: pack_ok_def elim: cas_inv_live)
  have "live_bytes (world s) g = inodes (world s) i" using w(1) by (simp add: live_bytes_def live_pack_def)
  then have "store_dir E (committed_view E (world s)) (mdb_committed E (mdb_env (world s)) Meta) g (world s)"
    using w assms(2) committed_view_live [OF w(1)] by (simp add: store_dir_def index_at_def format_at_def live_pack_def fun_upd_idem)
  then show thesis by (rule that)
qed

end
