(* ===== verification/Source_Reader.thy ===== *)
theory Source_Reader
  imports Ingest
begin

text \<open>
  How libarchive gets at a response (\<open>SourceReader\<close> and \<open>open_archive\<close> of \<open>src/plugin/tarmac.cc\<close>): through a callback that hands it the
  bytes of a \<open>nix::Source\<close> in chunks and turns the source's exceptions into return codes. The source and libarchive are
  parameters.
\<close>

section \<open>The code\<close>

text \<open>\<open>nix::Source::read\<close> answers with at least one byte and at most as many as it was asked for, or throws.\<close>

datatype read_failure = EndOfFile | Broken exn

type_synonym 'r source_read = "'r \<Rightarrow> nat \<Rightarrow> (read_failure + bytes) \<times> 'r"

text \<open>libarchive asks its callback for bytes until it has made up its mind: it cannot open the archive, or there is one.\<close>

datatype la_reader = Made "bytes option + archive" | Asks "int \<times> bytes \<Rightarrow> la_reader"

definition kDownloadChunk :: nat where "kDownloadChunk = 2 ^ 16"

text \<open>The count and what is in the buffer; an exception does not leave the callback.\<close>

definition read_cb :: "'r source_read \<Rightarrow> 'r \<Rightarrow> (int \<times> bytes) \<times> 'r" where
  "read_cb rd r = (case rd r kDownloadChunk of
     (Inr bytes, r') \<Rightarrow> ((int (length bytes), bytes), r')
   | (Inl EndOfFile, r') \<Rightarrow> ((0, []), r')
   | (Inl (Broken _), r') \<Rightarrow> ((-1, []), r'))"

primrec read_archive :: "'r source_read \<Rightarrow> la_reader \<Rightarrow> 'r \<Rightarrow> (bytes option + archive) \<times> 'r" where
  "read_archive rd (Made res) = (\<lambda>r. (res, r))"
| "read_archive rd (Asks k) = (\<lambda>r. case read_cb rd r of (answer, r') \<Rightarrow> read_archive rd (k answer) r')"

definition open_archive :: "'r source_read \<Rightarrow> la_reader \<Rightarrow> bytes \<Rightarrow> 'r \<Rightarrow> (exn + archive) \<times> 'r" where
  "open_archive rd la url r = (case read_archive rd la r of
     (Inl msg, r') \<Rightarrow> (Inl (NixError (''failed to read tarball '' @ quoted url @ '': '' @ archive_err msg)), r')
   | (Inr arc, r') \<Rightarrow> (Inr arc, r'))"

section \<open>Broken transfers\<close>

text \<open>\<open>ARCHIVE_FATAL\<close>: a callback that fails makes the archive unusable. Either it cannot be opened or it ends with an error.\<close>

definition unusable :: "bytes option + archive \<Rightarrow> bool" where
  "unusable res \<longleftrightarrow> (case res of Inl _ \<Rightarrow> True | Inr (Archive hs ending) \<Rightarrow> ending \<noteq> Eof)"

primrec heeds_failure :: "la_reader \<Rightarrow> bool" where
  "heeds_failure (Made res) \<longleftrightarrow> True"
| "heeds_failure (Asks k) \<longleftrightarrow> (\<forall>a. heeds_failure (k a) \<and> (fst a < 0 \<longrightarrow> (\<exists>res. k a = Made res \<and> unusable res)))"

text \<open>The source breaks while libarchive still reads.\<close>

primrec interrupted :: "'r source_read \<Rightarrow> la_reader \<Rightarrow> 'r \<Rightarrow> bool" where
  "interrupted rd (Made res) = (\<lambda>r. False)"
| "interrupted rd (Asks k) = (\<lambda>r. (\<exists>e. fst (rd r kDownloadChunk) = Inl (Broken e)) \<or>
     (case read_cb rd r of (answer, r') \<Rightarrow> interrupted rd (k answer) r'))"

lemma interrupted_unusable: "heeds_failure la \<Longrightarrow> interrupted rd la r \<Longrightarrow> unusable (fst (read_archive rd la r))"
proof (induction la arbitrary: r)
  case (Asks k)
  show ?case
  proof (cases "\<exists>e. fst (rd r kDownloadChunk) = Inl (Broken e)")
    case True
    then obtain e r' where "rd r kDownloadChunk = (Inl (Broken e), r')" by (cases "rd r kDownloadChunk") auto
    then have cb: "read_cb rd r = ((-1, []), r')" by (simp add: read_cb_def)
    obtain res where "k (-1, []) = Made res" "unusable res" using Asks.prems(1) by force
    then show ?thesis by (simp add: cb)
  next
    case False
    obtain a r' where cb: "read_cb rd r = (a, r')" by fastforce
    with False Asks.prems(2) have "interrupted rd (k a) r'" by simp
    moreover have "heeds_failure (k a)" using Asks.prems(1) by (cases a) simp
    ultimately show ?thesis using Asks.IH [of "k a" r'] cb by simp
  qed
qed simp

lemma read_all_no_header: "ending \<noteq> Eof \<Longrightarrow> snd (read_all hs ending) \<noteq> None"
  by (induction hs) (auto simp: end_error_def split: archive_end.splits sum.splits prod.splits)

lemma interrupted_archive:
  assumes "heeds_failure la" and "interrupted rd la r" and "open_archive rd la url r = (Inr arc, r')"
  shows "snd (archive_items arc) \<noteq> None"
proof -
  have "fst (read_archive rd la r) = Inr arc"
    using assms(3) by (auto simp: open_archive_def split: prod.splits sum.splits)
  with interrupted_unusable [OF assms(1,2)] show ?thesis
    by (auto simp: unusable_def archive_items_def split: archive.splits dest: read_all_no_header)
qed

text \<open>An archive that ends with an error is never ingested.\<close>

lemma wp_any: "wp m (\<lambda>_ _. True) (\<lambda>_ _. True) s"
  by (simp add: wp_def split: prod.split sum.split)

lemma ingest_unusable:
  assumes "snd (archive_items arc) \<noteq> None"
  shows "wp (ingest_archive E arc) (\<lambda>_ _. False) (\<lambda>_ _. True) s"
proof -
  obtain items x where "archive_items arc = (items, Some x)" using assms by (cases "archive_items arc") auto
  then have "wp (consume (put E) arc) (\<lambda>_ _. False) (\<lambda>_ _. True) sc" for sc
    by (auto simp: consume_def wp_simps intro: wp_mono [OF wp_any])
  then have "wp (ingest_tree (put E) arc) (\<lambda>_ _. False) (\<lambda>_ _. True) s"
    unfolding ingest_tree_def wp_with_local wp_thenE by (rule wp_mono) simp_all
  then show ?thesis unfolding ingest_archive_def wp_bindE by (rule wp_mono) simp_all
qed

end
