(* ===== verification/Fetcher.thy ===== *)
theory Fetcher
  imports Ctx Source_Reader
begin

text \<open>
  The tarball fetcher of the plugin (\<open>src/plugin/tarmac.cc\<close>): which URLs and attributes it takes, and how it fetches a tree
  into the store. Attributes and query parameters are maps; what the code calls of Nix (URLs, hashes, the fetcher
  cache, the file transfer) is the record \<open>fetch_lib\<close>. A transfer is a source (\<open>Source_Reader\<close>), with the result it has when libarchive
  has read the archive.
\<close>

section \<open>What is Nix's\<close>

datatype attr = AString bytes | AInt u64 | ABool bool

type_synonym attrs = "bytes \<Rightarrow> attr option"

record url =
  url_scheme :: bytes
  url_authority :: "bytes option"
  url_path :: "bytes list"
  url_query :: "bytes \<Rightarrow> bytes option"
  url_fragment :: bytes

datatype cache_key = TarmacKey bytes | PathHashKey bytes

record transfer_result =
  tr_cached :: bool
  tr_etag :: bytes
  tr_immutable :: "bytes option"

record ('c, 'h, 'r) fetch_lib =
  parse_scheme :: "bytes \<Rightarrow> bytes option \<times> bytes"
  url_text :: "url \<Rightarrow> bytes"
  parse_url :: "bytes \<Rightarrow> exn + url"
  to_int :: "bytes \<Rightarrow> u64 option"
  parse_hash :: "bytes \<Rightarrow> exn + 'h"
  hash_text :: "'h \<Rightarrow> bytes"
  sha_text :: "bytes \<Rightarrow> exn + bytes"
  input_of_url :: "bytes \<Rightarrow> exn + attrs"
  cache_lookup :: "'c \<Rightarrow> cache_key \<Rightarrow> (attrs \<times> bool) option"
  cache_upsert :: "'c \<Rightarrow> cache_key \<Rightarrow> attrs \<Rightarrow> 'c"
  transfer :: "bytes \<Rightarrow> bytes option \<Rightarrow> 'r"
  source_read :: "'r source_read"
  source_result :: "'r \<Rightarrow> transfer_result"
  libarchive :: la_reader

definition attr_error :: "bytes \<Rightarrow> bytes \<Rightarrow> exn" where
  "attr_error k what = NixError (''input attribute '' @ quoted k @ what)"

definition maybe_str_attr :: "attrs \<Rightarrow> bytes \<Rightarrow> exn + bytes option" where
  "maybe_str_attr a k = (case a k of None \<Rightarrow> Inr None | Some (AString s) \<Rightarrow> Inr (Some s)
     | Some _ \<Rightarrow> Inl (attr_error k '' is not a string''))"

definition str_attr :: "attrs \<Rightarrow> bytes \<Rightarrow> exn + bytes" where
  "str_attr a k = (case maybe_str_attr a k of Inl e \<Rightarrow> Inl e | Inr None \<Rightarrow> Inl (attr_error k '' is missing'') | Inr (Some s) \<Rightarrow> Inr s)"

text \<open>\<open>Input::getNarHash\<close>.\<close>

definition nar_hash_of :: "('c, 'h, 'r) fetch_lib \<Rightarrow> attrs \<Rightarrow> exn + 'h option" where
  "nar_hash_of L a = (case maybe_str_attr a ''narHash'' of Inl e \<Rightarrow> Inl e | Inr None \<Rightarrow> Inr None
   | Inr (Some s) \<Rightarrow> (case parse_hash L s of Inl e \<Rightarrow> Inl e | Inr h \<Rightarrow> Inr (Some h)))"

section \<open>URLs and attributes\<close>

definition kSuffixes :: "bytes list" where
  "kSuffixes = [''.tar'', ''.tgz'', ''.tar.gz'', ''.tar.xz'', ''.tar.bz2'', ''.tar.zst'']"

definition kTransports :: "bytes list" where
  "kTransports = [''http'', ''https'', ''file'']"

definition has_tarball_extension :: "url \<Rightarrow> bool" where
  "has_tarball_extension u = (if url_path u = [] then False else list_ex (\<lambda>suf. suffix suf (last (url_path u))) kSuffixes)"

definition scheme_name :: bytes where
  "scheme_name = ''tarball''"

text \<open>The attributes of an input, and whether they are required.\<close>

definition kAttrs :: "(bytes \<times> bool) list" where
  "kAttrs = [(''url'', True), (''narHash'', False), (''name'', False), (''unpack'', False), (''rev'', False), (''revCount'', False),
     (''lastModified'', False)]"

text \<open>The scheme takes the place of the builtin one in Nix's registry, if there is one; the flag says whether it did.\<close>

definition register_scheme :: "'scheme \<Rightarrow> (bytes \<Rightarrow> 'scheme option) \<Rightarrow> (bytes \<Rightarrow> 'scheme option) \<times> bool" where
  "register_scheme fast schemes = (case schemes ''tarball'' of None \<Rightarrow> (schemes, False)
   | Some _ \<Rightarrow> ((schemes(''tarball'' := None))(scheme_name \<mapsto> fast), True))"

text \<open>The two loops over the parameters that become attributes: as strings, or as numbers if they are some.\<close>

fun take_strings :: "bytes list \<Rightarrow> url \<times> attrs \<Rightarrow> url \<times> attrs" where
  "take_strings [] (u, a) = (u, a)"
| "take_strings (k # ks) (u, a) = take_strings ks (case url_query u k of None \<Rightarrow> (u, a)
     | Some v \<Rightarrow> (u\<lparr>url_query := (url_query u)(k := None)\<rparr>, a(k \<mapsto> AString v)))"

fun take_numbers :: "('c, 'h, 'r) fetch_lib \<Rightarrow> bytes list \<Rightarrow> url \<times> attrs \<Rightarrow> url \<times> attrs" where
  "take_numbers L [] (u, a) = (u, a)"
| "take_numbers L (k # ks) (u, a) = take_numbers L ks (case url_query u k of None \<Rightarrow> (u, a)
     | Some v \<Rightarrow> (u\<lparr>url_query := (url_query u)(k := None)\<rparr>, (case to_int L v of None \<Rightarrow> a | Some n \<Rightarrow> a(k \<mapsto> AInt n))))"

definition input_from_url :: "('c, 'h, 'r) fetch_lib \<Rightarrow> url \<Rightarrow> bool \<Rightarrow> attrs option" where
  "input_from_url L orig require_tree = (case parse_scheme L (url_scheme orig) of (application, transport) \<Rightarrow>
     if transport \<notin> set kTransports then None
     else if \<not> (case application of Some app \<Rightarrow> app = ''tarball'' | None \<Rightarrow> require_tree \<or> has_tarball_extension orig) then None
     else case take_numbers L [''revCount'', ''lastModified''] (take_strings [''narHash'', ''rev''] (orig\<lparr>url_scheme := transport\<rparr>, Map.empty)) of
       (u, a) \<Rightarrow> Some (a(''type'' \<mapsto> AString scheme_name, ''url'' \<mapsto> AString (url_text L u))))"

definition input_from_attrs :: "attrs \<Rightarrow> attrs option" where
  "input_from_attrs a = Some a"

definition to_url :: "('c, 'h, 'r) fetch_lib \<Rightarrow> attrs \<Rightarrow> exn + url" where
  "to_url L input = (case str_attr input ''url'' of Inl e \<Rightarrow> Inl e
   | Inr s \<Rightarrow> (case parse_url L s of Inl e \<Rightarrow> Inl e
   | Inr u \<Rightarrow> (case nar_hash_of L input of Inl e \<Rightarrow> Inl e
   | Inr None \<Rightarrow> Inr u
   | Inr (Some h) \<Rightarrow> Inr (u\<lparr>url_query := (url_query u)(''narHash'' \<mapsto> hash_text L h)\<rparr>))))"

definition is_locked :: "('c, 'h, 'r) fetch_lib \<Rightarrow> attrs \<Rightarrow> exn + bool" where
  "is_locked L input = (case nar_hash_of L input of Inl e \<Rightarrow> Inl e | Inr h \<Rightarrow> Inr (h \<noteq> None))"

definition fingerprint_of :: "('c, 'h, 'r) fetch_lib \<Rightarrow> attrs \<Rightarrow> exn + bytes option" where
  "fingerprint_of L input = (case nar_hash_of L input of Inl e \<Rightarrow> Inl e | Inr h \<Rightarrow> Inr (map_option (hash_text L) h))"

section \<open>Fetching\<close>

text \<open>What a process keeps besides the store: whether it has a context for it, and the fetcher cache.\<close>

record 'c fetch_state =
  fs_made :: bool
  fs_cache :: 'c

definition ctx_here ::
  "('e, 't) platform \<Rightarrow> bytes \<Rightarrow> (('e, 't, 'z) tree_store_scheme \<times> 'c fetch_state, unit) prog" where
  "ctx_here E dir = (\<lambda>(s, f). case ctx_get E dir (s, fs_made f) of (r, (s', made)) \<Rightarrow> (r, (s', f\<lparr>fs_made := made\<rparr>)))"

definition upsert :: "('c, 'h, 'r) fetch_lib \<Rightarrow> cache_key \<Rightarrow> attrs \<Rightarrow> ('s \<times> 'c fetch_state, unit) prog" where
  "upsert L key info = mod_local (\<lambda>f. f\<lparr>fs_cache := cache_upsert L (fs_cache f) key info\<rparr>)"

text \<open>A single top-level directory is stripped.\<close>

definition strip_top :: "('e, 't) platform \<Rightarrow> bytes \<Rightarrow> (('e, 't, 'z) tree_store_scheme, bytes) prog" where
  "strip_top E root = bindE (read_tree (get E) root) (\<lambda>top. case top of
     [e] \<Rightarrow> if te_type e = CHR ''d'' then thenE (register_root E (te_id e) True) (ret (te_id e)) else ret root
   | _ \<Rightarrow> ret root)"

definition fetch_tree :: "('e, 't) platform \<Rightarrow> archive \<Rightarrow> (('e, 't, 'z) tree_store_scheme, bytes) prog" where
  "fetch_tree E arc = bindE (ingest_archive E arc) (\<lambda>r. strip_top E (ir_root r))"

definition download ::
  "('e, 't) platform \<Rightarrow> 'x evp \<Rightarrow> ('c, 'h, 'r) fetch_lib \<Rightarrow> bytes \<Rightarrow> bytes \<Rightarrow> (attrs \<times> bool) option \<Rightarrow>
     (('e, 't, 'z) tree_store_scheme \<times> 'c fetch_state, attrs) prog" where
  "download E X L dir url hit = thenE (ctx_here E dir)
     (bindE (case hit of None \<Rightarrow> ret None | Some (v, _) \<Rightarrow> bindE (liftE (str_attr v ''etag'')) (\<lambda>t. ret (Some t))) (\<lambda>etag.
      case open_archive (source_read L) (libarchive L) url (transfer L url etag) of (response, source) \<Rightarrow> bindE (liftE response) (\<lambda>arc.
        bindE (on_store (fetch_tree E arc)) (\<lambda>root. let result = source_result L source in
          if tr_cached result \<and> hit \<noteq> None then ret (fst (the hit))
          else bindE (on_store (nar_sha256 X (get E) (get_view E) root)) (\<lambda>(hash, _).
            bindE (liftE (sha_text L (to_hex hash))) (\<lambda>sri.
            thenE (upsert L (PathHashKey (''tarmac:'' @ to_hex root)) [''hash'' \<mapsto> AString sri])
            (ret (let info = [''etag'' \<mapsto> AString (tr_etag result), ''root'' \<mapsto> AString (to_hex root), ''narHash'' \<mapsto> AString sri]
                  in case tr_immutable result of None \<Rightarrow> info | Some u \<Rightarrow> info(''immutableUrl'' \<mapsto> AString u)))))))))"

text \<open>A cached answer counts only while the store still has its tree.\<close>

definition cached_tree :: "('e, 't) platform \<Rightarrow> attrs \<Rightarrow> (('e, 't, 'z) tree_store_scheme, bool) prog" where
  "cached_tree E v = bindE (liftE (str_attr v ''root'')) (\<lambda>hex. bindE (liftE (from_hex hex)) (has_tree E))"

definition checked_cache ::
  "('e, 't) platform \<Rightarrow> (attrs \<times> bool) option \<Rightarrow> (('e, 't, 'z) tree_store_scheme, (attrs \<times> bool) option) prog" where
  "checked_cache E hit = (case hit of None \<Rightarrow> ret None
   | Some (v, expired) \<Rightarrow> tryE (bindE (cached_tree E v) (\<lambda>present. ret (if present then hit else None)))
       (\<lambda>e. case e of CorruptError _ \<Rightarrow> thenE (poison E) (ret None) | _ \<Rightarrow> throw e))"

text \<open>The lockable tarball protocol: the immutable URL replaces the one the user wrote.\<close>

definition locked_input :: "('c, 'h, 'r) fetch_lib \<Rightarrow> attrs \<Rightarrow> attrs \<Rightarrow> exn + attrs" where
  "locked_input L input info = (case maybe_str_attr info ''immutableUrl'' of Inl e \<Rightarrow> Inl e | Inr None \<Rightarrow> Inr input
   | Inr (Some u) \<Rightarrow> (case input_of_url L u of Inl e \<Rightarrow> Inl e
     | Inr immutable \<Rightarrow> (case str_attr immutable ''type'' of Inl e \<Rightarrow> Inl e
       | Inr t \<Rightarrow> if t \<noteq> scheme_name
           then Inl (NixError (''tarball '' @ quoted ''Link'' @ '' headers that redirect to non-tarball URLs are not supported'')) else Inr immutable)))"

text \<open>The accessor is the \<open>PackAccessor\<close> of the answered root, with the hook \<open>poison\<close>.\<close>

definition get_accessor ::
  "('e, 't) platform \<Rightarrow> 'x evp \<Rightarrow> ('c, 'h, 'r) fetch_lib \<Rightarrow> bytes \<Rightarrow> attrs \<Rightarrow>
     (('e, 't, 'z) tree_store_scheme \<times> 'c fetch_state, bytes \<times> attrs) prog" where
  "get_accessor E X L dir input = bindE (liftE (str_attr input ''url'')) (\<lambda>url. thenE (ctx_here E dir)
     (bindE get_local (\<lambda>f. bindE (on_store (checked_cache E (cache_lookup L (fs_cache f) (TarmacKey url)))) (\<lambda>hit.
      bindE (case hit of Some (v, False) \<Rightarrow> ret v
        | _ \<Rightarrow> bindE (download E X L dir url hit) (\<lambda>info. thenE (upsert L (TarmacKey url) info) (ret info))) (\<lambda>info.
      bindE (liftE (locked_input L input info)) (\<lambda>locked.
      bindE (liftE (str_attr info ''narHash'')) (\<lambda>nar. bindE (liftE (str_attr info ''root'')) (\<lambda>hex. bindE (liftE (from_hex hex)) (\<lambda>root.
        thenE (on_store (touch_root E root True)) (ret (root, locked(''narHash'' \<mapsto> AString nar))))))))))))"

end
