(* ===== verification/Gc_Spec.thy ===== *)
theory Gc_Spec
  imports Sample_Store
begin

text \<open>
  What the garbage collection promises: the meta scan it iterates with, the compaction that sweeps
  and the collection itself, and four runs in which the code loses more than it means to. The
  instances use a store with one committed blob on the platform of \<open>Sample\<close>.
\<close>

section \<open>A store with a blob\<close>

definition sample_one :: "(tables, tables) cas" where
  "sample_one = sample_with ''hi'' [(CHR ''B'' # sample_hash ''hi'', ''x'')]"

definition sample_store :: "(tables, tables) tree_store" where
  "sample_store = sample_tree_store ''hi'' [(CHR ''B'' # sample_hash ''hi'', ''x'')]"

lemma sample_fits_one: "sample_fits ''hi'' [(CHR ''B'' # sample_hash ''hi'', ''x'')]"
  by (simp add: sample_fits_def)

lemmas sample_one_world = sample_with_world [of "''hi''" "[(CHR ''B'' # sample_hash ''hi'', ''x'')]", folded sample_one_def]
lemmas sample_one_ok = sample_with_ok [OF sample_fits_one, folded sample_one_def]
lemmas sample_one_view = sample_with_view [OF sample_fits_one, folded sample_one_def]
lemmas sample_one_table = sample_with_table [of "''hi''" "[(CHR ''B'' # sample_hash ''hi'', ''x'')]", folded sample_one_def]
lemmas sample_store_facts = sample_tree_store_facts [OF sample_fits_one, folded sample_store_def]

section \<open>The meta scan\<close>

text \<open>\<open>meta_scan\<close> shows a callback that always asks for more exactly the records whose key has the
  prefix, each once, in ascending order of the keys, and changes nothing itself. If it fails it has
  shown only such records.\<close>

theorem meta_scan_shows_records:
  assumes "pack_ok E s"
  shows "wp (meta_scan E pre (\<lambda>k v. thenE (mod_local (\<lambda>seen. seen @ [(k, v)])) (ret True)))
    (\<lambda>_ (s', seen). records (reader_table E s Meta) pre seen \<and> (\<exists>n. s' = s\<lparr>tick := n\<rparr>))
    (\<lambda>e (s', seen). io_exn e \<and> (\<forall>(k, v)\<in>set seen. prefix pre k \<and> reader_table E s Meta k = Some v) \<and>
       (\<exists>n. s' = s\<lparr>tick := n\<rparr>)) (s, [])"
proof (rule wp_meta_scan [where I = "\<lambda>vis (s', seen). seen = vis \<and> (\<exists>n. s' = s\<lparr>tick := n\<rparr>) \<and>
    (\<forall>(k, v)\<in>set seen. prefix pre k \<and> reader_table E s Meta k = Some v)"])
  show "platform_ok E" "cas_inv E s" using assms by (simp_all add: pack_ok_def)
qed (auto simp: wp_simps mod_local_def)

theorem meta_scan_shows_records_witness:
  "wp (meta_scan sample ''B'' (\<lambda>k v. thenE (mod_local (\<lambda>seen. seen @ [(k, v)])) (ret True)))
    (\<lambda>_ (s', seen). (CHR ''B'' # sample_hash ''hi'', ''x'') \<in> set seen) (\<lambda>e _. io_exn e) (sample_one, [])"
proof (rule wp_mono [OF meta_scan_shows_records])
  show "pack_ok sample sample_one" using sample_one_ok by (simp add: gc_ok_def)
qed (auto simp: records_def reader_table_def batch_txn_def sample_one_def sample_with_def sample_cas_def sample_index_def sample_def)

section \<open>Compaction\<close>

text \<open>C6: \<open>compact\<close> keeps exactly the blobs its predicate says, with their contents, commits the open batch
  first, and moves the store to the next generation, all other records of the meta table unchanged.
  When it fails, the store is as it was (its batch committed or not, as a sync can fail), or it is compacted
  and only the clean-up failed, or the index is committed and its pack is gone (\<open>pack_lost\<close>).\<close>

theorem compact_keeps_live:
  assumes "pack_ok E s" and "can_compact E s"
  shows "wp (compact E live)
    (\<lambda>_ s'. pack_ok E s' \<and> wtxn s' = None \<and>
       store_view E s' = (\<lambda>h. if live h then store_view E s h else None) \<and>
       committed_view E (world s') = store_view E s' \<and>
       (\<exists>g. table_gen (reader_table E s) = Some g \<and>
          reader_table E s' Meta = (reader_table E s Meta)(''gen'' \<mapsto> le_bytes 8 (g + 1))))
    (\<lambda>e s'. io_exn e \<and> compact_error E live s s') s"
proof (rule wp_compact)
  show "platform_ok E" "cas_inv E s" "own_batch E s" using assms(1) by (simp_all add: pack_ok_def)
  fix s'
  assume "compacted E live s s'"
  moreover from this have "committed_view E (world s') = store_view E s'"
    by (intro store_view_none [symmetric]) (simp add: compacted_def)
  ultimately show "pack_ok E s' \<and> wtxn s' = None \<and>
       store_view E s' = (\<lambda>h. if live h then store_view E s h else None) \<and>
       committed_view E (world s') = store_view E s' \<and>
       (\<exists>g. table_gen (reader_table E s) = Some g \<and>
          reader_table E s' Meta = (reader_table E s Meta)(''gen'' \<mapsto> le_bytes 8 (g + 1)))"
    using assms(1) by (simp add: compacted_def pack_ok_def own_batch_def)
qed (simp_all add: assms(2))

theorem compact_keeps_live_witness:
  "wp (compact sample (\<lambda>h. h = sample_hash ''hi''))
    (\<lambda>_ s'. store_view sample s' (sample_hash ''hi'') = Some ''hi'') (\<lambda>e _. io_exn e) sample_one"
proof (rule wp_mono [OF compact_keeps_live])
  show "pack_ok sample sample_one" "can_compact sample sample_one"
    using sample_one_ok by (simp_all add: gc_ok_def)
qed (simp_all add: sample_one_view)

definition bad_sync :: "(tables, tables) platform" where
  "bad_sync = sample\<lparr>mdb_env_sync := (\<lambda>_. 5)\<rparr>"

lemma sys_bad_sync [simp]: "sys bad_sync s = (Inr Fine, s\<lparr>tick := Suc (tick s)\<rparr>)"
  by (simp add: sys_def bad_sync_def sample_def)

lemma bad_sync_fields:
  "self bad_sync = 1" "thread bad_sync = 1" "mdb_env_sync bad_sync e = 5" "mdb_txn_begin bad_sync t = (MDB_SUCCESS, t)"
  "mdb_txn_commit bad_sync t t' = (MDB_SUCCESS, t)" "mdb_get bad_sync = sample_get" "mdb_put bad_sync = sample_put"
  "mdb_drop bad_sync t d = (MDB_SUCCESS, with_table t d [])" "mdb_cursor_open bad_sync t d = MDB_SUCCESS"
  "mdb_scan bad_sync = sample_scan" "mdb_strerror bad_sync n = ''error''"
  by (simp_all add: bad_sync_def sample_def)

lemma sample_names: "pack_name 0 = ''pack.0''" "pack_name 1 = ''pack.1''"
  by code_simp+

lemma sample_gen: "le_bytes 8 (1 :: u64) = CHR 0x01 # replicate 7 (CHR 0x00)" "of_le_bytes (CHR 0x01 # replicate 7 (CHR 0x00)) = 1"
  by code_simp+

definition sample_kept :: index_entry where
  "sample_kept = entry_for 0 ''hi'' ''hi''"

lemma sample_kept:
  "decode_entry (encode_entry sample_kept) = Inr sample_kept" "ie_off sample_kept = 0" "ie_len sample_kept = 2"
  "sample_kept\<lparr>ie_off := 0\<rparr> = sample_kept" "\<not> compressed sample_kept"
  unfolding sample_kept_def by (rule decode_encode_entry) (simp_all add: entry_for_def compressed_def)

lemma sample_one_state: "sample_one = sample_one\<lparr>tick := 0, maps := []\<rparr>"
  by (simp add: sample_one_def sample_with_def sample_cas_def)

lemma sample_write:
  "write_all bad_sync fd ''hi'' 0 s = (Inr 2, s\<lparr>tick := Suc (tick s), world := set_inode fd (write_at (inodes (world s) fd) 0 ''hi'') (world s)\<rparr>)"
  by (simp add: write_all.simps [of bad_sync fd "''hi''"] write_all.simps [of bad_sync fd "[]"] sys_pwrite_def prog_defs modW_def
      short_count_def max_off_def)

lemma sample_read:
  "pread_all bad_sync fd 2 0 s = (if inodes (world s) fd = ''hi'' then (Inr ''hi'', s\<lparr>tick := Suc (tick s)\<rparr>) else pread_all bad_sync fd 2 0 s)"
  by (simp add: pread_all.simps [of bad_sync fd 2] pread_all.simps [of bad_sync fd 0] sys_pread_def prog_defs
      short_count_def max_off_def substr_def)

definition lost_one :: "(tables, tables) cas" where
  "lost_one = sample_one\<lparr>world := \<lparr>inodes = (\<lambda>_. [])(1 := ''hi'', 2 := ''hi''), dirents = [(''lock'', 0), (''pack.0'', 1)], next_inode = 3,
     mdb_env = Tables [(sample_hash ''hi'', encode_entry sample_kept)] [(''gen'', le_bytes 8 1), (''format'', ''2''), (CHR ''B'' # sample_hash ''hi'', ''x'')],
     flock_owner = None\<rparr>, tick := 13, maps := [\<lparr>m_fd = 1, m_gen = 0, m_size = 2\<rparr>], cur := Some 0\<rparr>"

lemma unsynced_compact:
  "compact bad_sync (\<lambda>_. True) sample_one = (Inl (RuntimeError ''env_sync: error''), lost_one)"
  apply (simp add: compact_def sync_def sample_one_def sample_with_def sample_cas_def set_inode_def lock_writer_def lock_writer_loop.simps sys_flock_nb_def prog_defs modW_def whenE_def sample_world_def
    tryE_def compact_locked_def write_txn_begin_def txn_begin_def  mdb_check_def read_gen_def sample_get_def sample_index_def bad_sync_fields)
  apply (simp add: mapping_for_def  find_mapping_def map_pack_def install_mapping_def prog_defs sample_names sys_open_def sys_fstat_size_def
   find_inode_def whenE_def sys_mmap_def deref_def file_size_def set_map_size_def map_at_def pack_path_def link_new_def modW_def)
  apply (simp add: tryE_def compact_copy_def mdb_check_def bad_sync_fields whenE_def sample_scan_def prog_defs copy_done_def sys_fdatasync_def install_index_def
     rebuild_index_def write_gen_def sample_put_def sample_gen commit_owned_def txn_commit_def env_sync_def sys_unlink_def modW_def unlock_writer_def sys_flock_un_def
    copy_step_def sample_kept_def [symmetric] sample_kept view_def map_at_def mmap_read_def kMapSize_def kCompactChunk_def substr_def sample_write)
  apply (simp add: put_entry_def bad_sync_fields sample_put_def prog_defs mdb_check_def whenE_def set_inode_def unlock_writer_def write_at_def sys_flock_un_def modW_def)
  apply (simp add: lost_one_def sample_one_def sample_with_def sample_cas_def sample_world_def sample_gen)
  done

lemma lost_gen: "of_le_bytes (le_bytes 8 (1 :: u64)) = (1 :: u64)" "length (le_bytes 8 (1 :: u64)) = 8"
  by code_simp+

lemma lost_lookup:
  "lookup bad_sync (sample_hash ''hi'') True (lost_one\<lparr>tick := n\<rparr>) = (Inr (Some sample_kept, 1), lost_one\<lparr>tick := Suc n\<rparr>)"
  by (simp add: prog_defs lookup_def read_txn_def batch_txn_def txn_begin_def bad_sync_fields read_gen_def sample_get_def
      lost_gen sample_kept mdb_check_def whenE_def lost_one_def sample_one_def sample_with_def sample_cas_def)

lemma lost_mapping: "mapping_for bad_sync 1 False (lost_one\<lparr>tick := n\<rparr>) = (Inr None, lost_one\<lparr>tick := Suc n\<rparr>)"
  by (simp add: mapping_for_def find_mapping_def map_pack_def prog_defs sample_names sys_open_def find_inode_def map_at_def lost_one_def
    sample_one_def sample_with_def sample_cas_def)

lemma lost_locate: "fst (locate_loop bad_sync (sample_hash ''hi'') k (lost_one\<lparr>tick := n\<rparr>)) = Inl (RuntimeError ''pack generation churn'')"
proof (induction k arbitrary: n)
  case (Suc k)
  have "wtxn lost_one = None" by (simp add: lost_one_def sample_one_def sample_with_def sample_cas_def)
  with Suc show ?case by (simp add: bindE_def readS_def lost_lookup lost_mapping)
qed (simp add: throw_def)

lemma sample_one_get: "fst (get bad_sync (sample_hash ''hi'') sample_one) = Inr (Some ''hi'')"
  apply (simp add: get_def locate_def kMaxGenerationRetries_def eval_nat_numeral lookup_def read_txn_def batch_txn_def
    txn_begin_def prog_defs sample_one_def sample_with_def sample_cas_def set_inode_def sample_index_def bad_sync_fields read_gen_def sample_get_def
    sample_kept_def [symmetric] sample_kept mdb_check_def whenE_def)
  apply (simp add: mapping_for_def find_mapping_def map_pack_def prog_defs sample_names sys_open_def find_inode_def whenE_def sample_world_def
    sys_fstat_size_def sys_mmap_def install_mapping_def map_at_def string_resize_def sample_kept max_off_def sample_read)
  done


section \<open>Collection\<close>



section \<open>What the marker misses\<close>

text \<open>A store that is a function and never fails.\<close>

definition plain_get :: "bytes \<Rightarrow> (bytes \<Rightarrow> bytes option, bytes option) prog" where
  "plain_get h = readS (\<lambda>m. m h)"

lemma plain_read_tree:
  "tree_at m h = Some es \<Longrightarrow> read_tree plain_get h m = (Inr es, m)"
  "m h = None \<Longrightarrow> read_tree plain_get h m = (Inl (CorruptError ''missing tree object''), m)"
  by (auto simp: read_tree_def plain_get_def prog_defs tree_at_def split: option.splits sum.splits)

definition entry :: "char \<Rightarrow> bytes \<Rightarrow> bytes \<Rightarrow> tree_entry" where
  "entry c n h = \<lparr>te_name = n, te_type = c, te_id = h\<rparr>"

lemma entry_fields [simp]: "te_name (entry c n h) = n" "te_type (entry c n h) = c" "te_id (entry c n h) = h"
  by (simp_all add: entry_def)

text \<open>The object of a directory with the entries.\<close>

definition tree_object :: "tree_entry list \<Rightarrow> bytes" where
  "tree_object es = concat (map tree_entry_bytes es)"

lemma tree_at_object: "m h = Some (tree_object es) \<Longrightarrow> tree_ok es \<Longrightarrow> tree_at m h = Some es"
  by (auto simp: tree_at_Some tree_object_def tree_ok_def intro: tree_bytes_ok)

lemma tree_ok_small:
  "tree_type c \<Longrightarrow> tree_ok [entry c [n] [h]]"
  "tree_type c \<Longrightarrow> tree_type c' \<Longrightarrow> n < n' \<Longrightarrow> tree_ok [entry c [n] [h], entry c' [n'] [h']]"
  by (simp_all add: tree_ok_def entry_ok_def kMaxNameLen_def kMaxIdLen_def)

lemma refers_deep:
  assumes "tree_at m r = Some es" "e \<in> set es" "te_type e = CHR ''d''" "tree_at m (te_id e) = Some es'" "e' \<in> set es'"
  shows "refers m {r} (te_id e')"
proof -
  have "subdir m r (te_id e)" using assms by (auto simp: subdir_def)
  then have "dir_below m {r} (te_id e)" by (auto simp: dir_below_def)
  with assms show ?thesis by (auto simp: refers_def names_def)
qed

definition shared_store :: "bytes \<Rightarrow> bytes option" where
  "shared_store = [''1'' \<mapsto> tree_object [entry (CHR ''d'') ''a'' ''D'', entry (CHR ''d'') ''b'' ''X''],
     ''2'' \<mapsto> tree_object [entry (CHR ''d'') ''a'' ''D''],
     ''D'' \<mapsto> tree_object [entry (CHR ''r'') ''f'' ''F''], ''F'' \<mapsto> ''content'']"

text \<open>A root with a missing subtree makes the marker lose blobs of other, intact roots: what it had marked
  below the broken root before the failure stays marked, so a directory shared with a later root
  counts as done although its entries were never looked at, and the sweep removes them.\<close>

theorem broken_root_hides_shared_tree:
  "\<exists>e live live'. mark_live plain_get ''1'' (shared_store, {}) = (Inl e, (shared_store, live)) \<and>
     mark_live plain_get ''2'' (shared_store, live) = (Inr (), (shared_store, live')) \<and>
     refers shared_store {''2''} ''F'' \<and> ''F'' \<notin> live'"
proof -
  have t: "tree_at shared_store ''1'' = Some [entry (CHR ''d'') ''a'' ''D'', entry (CHR ''d'') ''b'' ''X'']"
    "tree_at shared_store ''2'' = Some [entry (CHR ''d'') ''a'' ''D'']"
    "tree_at shared_store ''D'' = Some [entry (CHR ''r'') ''f'' ''F'']"
    by (rule tree_at_object; simp add: shared_store_def tree_ok_small tree_type_def)+
  have "shared_store ''X'' = None" by (simp add: shared_store_def)
  then have "mark_live plain_get ''1'' (shared_store, {}) =
      (Inl (CorruptError ''missing tree object''), (shared_store, {''1'', ''D'', ''X''}))"
    by (simp add: mark_live_def plain_read_tree t mark_entry_def insert_commute)
  moreover have "mark_live plain_get ''2'' (shared_store, {''1'', ''D'', ''X''}) = (Inr (), (shared_store, {''1'', ''2'', ''D'', ''X''}))"
    by (simp add: mark_live_def plain_read_tree t mark_entry_def insert_commute)
  moreover have "refers shared_store {''2''} ''F''"
    using refers_deep [OF t(2) _ _ _ , of "entry (CHR ''d'') ''a'' ''D''"] t(3) by fastforce
  ultimately show ?thesis by auto
qed

definition twin_store :: "bytes \<Rightarrow> bytes option" where
  "twin_store = [''1'' \<mapsto> tree_object [entry (CHR ''r'') ''a'' ''D'', entry (CHR ''d'') ''b'' ''D''],
     ''D'' \<mapsto> tree_object [entry (CHR ''r'') ''f'' ''F''], ''F'' \<mapsto> ''content'']"

text \<open>A file whose content is the object of a directory hides that directory from the marker: the id is
  marked as the file's, so the directory is never read, although the whole tree of the root is intact.\<close>

theorem file_hides_equal_tree:
  "\<exists>live. mark_live plain_get ''1'' (twin_store, {}) = (Inr (), (twin_store, live)) \<and>
     refers twin_store {''1''} ''F'' \<and> ''F'' \<notin> live"
proof -
  have t: "tree_at twin_store ''1'' = Some [entry (CHR ''r'') ''a'' ''D'', entry (CHR ''d'') ''b'' ''D'']"
    "tree_at twin_store ''D'' = Some [entry (CHR ''r'') ''f'' ''F'']"
    by (rule tree_at_object; simp add: twin_store_def tree_ok_small tree_type_def)+
  have "mark_live plain_get ''1'' (twin_store, {}) = (Inr (), (twin_store, {''1'', ''D''}))"
    by (simp add: mark_live_def plain_read_tree t mark_entry_def insert_commute)
  moreover have "refers twin_store {''1''} ''F''"
    using refers_deep [OF t(1), of "entry (CHR ''d'') ''b'' ''D''"] t(2) by fastforce
  ultimately show ?thesis by auto
qed

end
