(* ===== verification/View_Inv.thy ===== *)
theory View_Inv
  imports Eval_Inv
begin

text \<open>
  Queries over the whole evaluation store: the look-up of a path by its hash part, and the view that
  dispatches requests to the accessors of the objects.
\<close>

section \<open>The first record with a prefix\<close>

definition has_record :: "(bytes \<Rightarrow> bytes option) \<Rightarrow> bytes \<Rightarrow> bytes \<Rightarrow> bool" where
  "has_record mt pre k \<longleftrightarrow> prefix pre k \<and> mt k \<noteq> None"

lemma wp_meta_scan_first:
  assumes ok: "platform_ok E" and inv: "cas_inv E s"
    and none: "\<And>n. \<forall>k. \<not> has_record (reader_table E s Meta) pre k \<Longrightarrow> Q () (s\<lparr>tick := n\<rparr>, c)"
    and first: "\<And>k v n. has_record (reader_table E s Meta) pre k \<Longrightarrow> \<forall>k'. has_record (reader_table E s Meta) pre k' \<longrightarrow> k \<le> k' \<Longrightarrow>
      wp (callback k v) (\<lambda>more sc. \<not> more \<and> Q () sc) R (s\<lparr>tick := n\<rparr>, c)"
    and R: "\<And>e n. io_exn e \<Longrightarrow> R e (s\<lparr>tick := n\<rparr>, c)"
  shows "wp (meta_scan E pre callback) Q R (s, c)"
  unfolding meta_scan_def wp_bindE [of "on_store _"] wp_on_store
proof (rule wp_read_txn [OF ok], simp_all only: fst_conv snd_conv)
  note lm = platform_okD(2) [OF ok]
  show "cas_inv E s" by (rule inv)
  fix t n
  assume t: "mdb_table E t = reader_table E s"
  obtain kvs rc where scan: "mdb_scan E t Meta pre = (kvs, rc)" by fastforce
  note sc = lmdb_scanD [OF lm scan]
  have "wp (scan_loop pre callback kvs rc) (\<lambda>res. wp (whenE (res \<noteq> MDB_SUCCESS \<and> res \<noteq> MDB_NOTFOUND)
      (on_store (mdb_check E res ''cursor_get''))) Q R) R (s\<lparr>tick := n\<rparr>, c)"
  proof (cases kvs)
    case Nil
    have "\<forall>k. \<not> has_record (reader_table E s Meta) pre k" if "rc = MDB_NOTFOUND"
      using sc(4) [OF that] Nil t prefix_le by (fastforce simp: has_record_def)
    with none Nil sc(1) R show ?thesis
      by (auto simp: wp_simps wp_on_store mdb_check_def)
  next
    case (Cons x kvs')
    obtain k v where x: "x = (k, v)" by fastforce
    have least: "k \<le> k'" if "has_record (reader_table E s Meta) pre k'" for k'
    proof (rule ccontr)
      assume "\<not> k \<le> k'"
      then have "k' < k" by (simp only: not_le)
      moreover from that obtain v' where "mdb_table E t Meta k' = Some v'" by (auto simp: has_record_def t)
      ultimately have "(k', v') \<in> set kvs"
        using sc(5) [of k v k' v'] that prefix_le [of pre k'] by (auto simp: Cons x has_record_def)
      with sc(2) \<open>k' < k\<close> show False by (auto simp: Cons x)
    qed
    have in_t: "pre \<le> k" "reader_table E s Meta k = Some v" using sc(3) [of k v] by (simp_all add: Cons x t)
    show ?thesis
    proof (cases "prefix pre k")
      case True
      have "wp (callback k v) (\<lambda>more sc. \<not> more \<and> Q () sc) R (s\<lparr>tick := n\<rparr>, c)"
        by (rule first) (use True in_t least in \<open>simp_all add: has_record_def\<close>)
      then have "wp (callback k v) (\<lambda>more. wp (if \<not> more then ret MDB_SUCCESS else scan_loop pre callback kvs' rc)
          (\<lambda>res. wp (whenE (res \<noteq> MDB_SUCCESS \<and> res \<noteq> MDB_NOTFOUND) (on_store (mdb_check E res ''cursor_get''))) Q R) R) R (s\<lparr>tick := n\<rparr>, c)"
        by (rule wp_mono) (auto simp: wp_simps)
      with True show ?thesis by (simp add: Cons x wp_bindE)
    next
      case False
      have "\<not> has_record (reader_table E s Meta) pre k'" for k'
        using least [of k'] prefix_between [of pre k k'] in_t(1) False unfolding has_record_def by blast
      with False none show ?thesis by (simp add: Cons x wp_simps)
    qed
  qed
  then show "wp (thenE (on_store (mdb_check E (mdb_cursor_open E t Meta) ''cursor_open''))
      (case mdb_scan E t Meta pre of (kvs, rc) \<Rightarrow> bindE (scan_loop pre callback kvs rc)
        (\<lambda>res. whenE (res \<noteq> MDB_SUCCESS \<and> res \<noteq> MDB_NOTFOUND) (on_store (mdb_check E res ''cursor_get''))))) Q R (s\<lparr>tick := n\<rparr>, c)"
    by (auto simp: wp_thenE wp_on_store scan wp_bindE intro!: wp_mdb_check R)
qed (simp_all add: R)

section \<open>Hash parts\<close>

text \<open>The path with the smallest base name among those recorded whose name starts with the hash part.\<close>

definition first_path :: "(bytes \<Rightarrow> bytes option) \<Rightarrow> bytes \<Rightarrow> bytes \<Rightarrow> bytes option \<Rightarrow> bool" where
  "first_path mt pre hash_part res \<longleftrightarrow> (case res of
     None \<Rightarrow> \<forall>p. prefix hash_part p \<longrightarrow> mt (meta_key pre p) = None
   | Some p \<Rightarrow> prefix hash_part p \<and> mt (meta_key pre p) \<noteq> None \<and>
       (\<forall>p'. prefix hash_part p' \<and> mt (meta_key pre p') \<noteq> None \<longrightarrow> p \<le> p'))"

lemma has_record_path:
  "has_record mt (pre @ hash_part) k \<longleftrightarrow> (\<exists>p. k = pre @ p \<and> prefix hash_part p \<and> mt (meta_key pre p) \<noteq> None)"
  by (auto simp: has_record_def meta_key_def prefix_def)

lemma append_le: "pre @ p \<le> pre @ q \<longleftrightarrow> p \<le> (q :: bytes)"
  by (induction pre) auto

lemma wp_scan_hash_part:
  fixes s :: "('e, 't, 'z) tree_store_scheme"
  assumes s: "es_is E sm m mt s" and valid: "\<And>p. mt (meta_key pre p) \<noteq> None \<Longrightarrow> valid_base N p"
    and keys: "\<And>p. \<not> is_root_key (meta_key pre p)"
    and Q: "\<And>res s'. first_path mt pre hash_part res \<Longrightarrow> es_is E sm m mt s' \<Longrightarrow> Q res s'" and R: "\<And>e s'. io_exn e \<Longrightarrow> R e s'"
  shows "wp (scan_hash_part E N pre hash_part) Q R s"
  unfolding scan_hash_part_def wp_with_local wp_thenE wp_get_local
proof (rule wp_meta_scan_first [OF es_isD(1,2) [OF s]])
  have rec: "has_record (reader_table E s Meta) (pre @ hash_part) k \<longleftrightarrow> (\<exists>p. k = pre @ p \<and> prefix hash_part p \<and> mt (meta_key pre p) \<noteq> None)" for k
    using es_isD(6) [OF s keys] by (simp add: has_record_path)
  show "Q (snd (s\<lparr>tick := n\<rparr>, None)) (fst (s\<lparr>tick := n\<rparr>, None))" if "\<forall>k. \<not> has_record (reader_table E s Meta) (pre @ hash_part) k" for n
    using that s by (auto simp: rec first_path_def intro!: Q)
  fix k v n
  assume k: "has_record (reader_table E s Meta) (pre @ hash_part) k"
    and least: "\<forall>k'. has_record (reader_table E s Meta) (pre @ hash_part) k' \<longrightarrow> k \<le> k'"
  from k obtain p where p: "k = pre @ p" "prefix hash_part p" "mt (meta_key pre p) \<noteq> None" by (auto simp: rec)
  have "p \<le> p'" if "prefix hash_part p'" "mt (meta_key pre p') \<noteq> None" for p'
    using least that p(1) append_le [of pre p p'] by (auto simp: rec)
  then have "first_path mt pre hash_part (Some p)" using p by (simp add: first_path_def)
  then show "wp (bindE (liftE (store_path N (drop (length pre) k))) (\<lambda>p. thenE (mod_local (\<lambda>_. Some p)) (ret False)))
      (\<lambda>more sc. \<not> more \<and> Q (snd sc) (fst sc)) (\<lambda>e sc. R e (fst sc)) (s\<lparr>tick := n\<rparr>, None)"
    using p valid s by (auto simp: wp_simps store_path_def intro!: Q)
qed (simp add: R)

text \<open>Store objects before derivations.\<close>

definition path_with_part :: "(bytes \<Rightarrow> bytes option) \<Rightarrow> bytes \<Rightarrow> bytes option \<Rightarrow> bool" where
  "path_with_part mt hash_part res \<longleftrightarrow> first_path mt kPathPrefix hash_part res \<and> res \<noteq> None \<or>
     first_path mt kPathPrefix hash_part None \<and> first_path mt kDrvPrefix hash_part res"

lemma wp_query_hash_part:
  fixes s :: "('e, 't, 'z) tree_store_scheme"
  assumes s: "es_is E sm m mt s"
    and valid: "\<And>p. mt (meta_key kPathPrefix p) \<noteq> None \<or> mt (meta_key kDrvPrefix p) \<noteq> None \<Longrightarrow> valid_base N p"
    and Q: "\<And>res s'. path_with_part mt hash_part res \<Longrightarrow> es_is E sm m mt s' \<Longrightarrow> Q res s'"
    and R: "\<And>e s'. io_exn e \<Longrightarrow> R e s'"
  shows "wp (query_hash_part E N hash_part) Q R s"
  unfolding query_hash_part_def wp_bindE
proof (rule wp_scan_hash_part [OF s])
  fix res and s1 :: "('e, 't, 'z) tree_store_scheme"
  assume r: "first_path mt kPathPrefix hash_part res" and s1: "es_is E sm m mt s1"
  show "wp (if res \<noteq> None then ret res else scan_hash_part E N kDrvPrefix hash_part) Q R s1"
  proof (cases res)
    case None
    have "wp (scan_hash_part E N kDrvPrefix hash_part) Q R s1"
      by (rule wp_scan_hash_part [OF s1]) (use valid Q R r None in \<open>auto simp: path_with_part_def\<close>)
    with None show ?thesis by simp
  next
    case (Some p)
    with Q r s1 show ?thesis by (auto simp: wp_ret path_with_part_def)
  qed
qed (use valid R in auto)

section \<open>The view\<close>

text \<open>The objects the store has: what is recorded is held, and a path without a record has no object.\<close>

definition object_at ::
  "('h, 'ca, 'drv) nix \<Rightarrow> (bytes \<Rightarrow> bytes) \<Rightarrow> (bytes \<Rightarrow> bytes option) \<Rightarrow> (bytes \<Rightarrow> bytes option) \<Rightarrow> bytes \<Rightarrow> fs_tree option \<Rightarrow> bool" where
  "object_at N dg m mt base obj \<longleftrightarrow>
     (if \<not> valid_base N base then obj = None
      else if is_derivation N base then (case mt (meta_key kDrvPrefix base) of None \<Rightarrow> obj = None
        | Some h \<Rightarrow> length h = kHashLen \<and> (\<exists>d. m h = Some d \<and> obj = Some (drv_object d)))
      else (case mt (meta_key kPathPrefix base) of None \<Rightarrow> obj = None
        | Some _ \<Rightarrow> (\<exists>r t. recorded N mt base r \<and> pr_type r = object_type t \<and> pr_root r = object_id dg t \<and>
            holds_object dg m t \<and> obj = Some t)))"

definition accessor_of :: "('h, 'ca, 'drv) nix \<Rightarrow> (bytes \<Rightarrow> bytes) \<Rightarrow> bytes \<Rightarrow> fs_tree \<Rightarrow> accessor" where
  "accessor_of N dg base t = (if is_derivation N base then DrvAccessor t else object_accessor dg t)"

definition view_ok ::
  "('h, 'ca, 'drv) nix \<Rightarrow> (bytes \<Rightarrow> bytes) \<Rightarrow> (bytes \<Rightarrow> bytes option) \<Rightarrow> (bytes \<Rightarrow> fs_tree option) \<Rightarrow> view_cache \<Rightarrow> bool" where
  "view_ok N dg m objs vc \<longleftrightarrow> (\<forall>base a c. vc base = Some (a, c) \<longrightarrow>
     (\<exists>t. objs base = Some t \<and> a = accessor_of N dg base t \<and> cache_ok m c))"

lemma view_ok_empty [simp]: "view_ok N dg m objs Map.empty"
  by (simp add: view_ok_def)

lemma view_ok_upd:
  "view_ok N dg m objs vc \<Longrightarrow> objs base = Some t \<Longrightarrow> cache_ok m c \<Longrightarrow> view_ok N dg m objs (vc(base \<mapsto> (accessor_of N dg base t, c)))"
  by (simp add: view_ok_def)

text \<open>The answers of a directory that holds the objects under their base names.\<close>

definition view_miss :: "request \<Rightarrow> exn + answer" where
  "view_miss q = (case q of PathExists _ \<Rightarrow> Inr (Exists False) | MaybeLstat _ \<Rightarrow> Inr (Stat None)
   | _ \<Rightarrow> Inl (path_error (request_path q) '' does not exist in the tarmac store''))"

definition view_answer :: "(bytes \<Rightarrow> fs_tree option) \<Rightarrow> request \<Rightarrow> exn + answer" where
  "view_answer objs q = (case request_path q of
     [] \<Rightarrow> (case q of PathExists _ \<Rightarrow> Inr (Exists True) | MaybeLstat _ \<Rightarrow> Inr (Stat (Some root_stat)) | _ \<Rightarrow> view_miss q)
   | base # rest \<Rightarrow> (case objs base of None \<Rightarrow> view_miss q | Some t \<Rightarrow> fs_answer t (request_at rest q)))"

lemma request_path_at [simp]: "request_path (request_at p q) = p"
  by (cases q) simp_all

lemma wp_cached:
  fixes s :: "('e, 't, 'z) tree_store_scheme"
  assumes s: "es_is E sm m mt s" and N: "nix_ok N" and obj: "object_at N (blake3 E) m mt base (objs base)"
    and vc: "view_ok N (blake3 E) m objs vc"
    and none: "\<And>s'. objs base = None \<Longrightarrow> es_is E sm m mt s' \<Longrightarrow> Q None (s', vc)"
    and some: "\<And>s' t c vc'. objs base = Some t \<Longrightarrow> es_is E sm m mt s' \<Longrightarrow> cache_ok m c \<Longrightarrow> view_ok N (blake3 E) m objs vc' \<Longrightarrow>
      Q (Some (accessor_of N (blake3 E) base t, c)) (s', vc')"
    and R: "\<And>e s'. io_exn e \<Longrightarrow> R e (s', vc)"
  shows "wp (cached E N base) Q R (s, vc)"
proof (cases "vc base")
  case (Some ac)
  obtain a c where ac: "ac = (a, c)" by fastforce
  from vc Some ac obtain t where "objs base = Some t" "a = accessor_of N (blake3 E) base t" "cache_ok m c"
    unfolding view_ok_def by blast
  with some [OF _ s _ vc] Some ac show ?thesis by (simp add: cached_def wp_simps)
next
  case None
  define make where "make = (bindE (liftE (store_path N base)) (accessor_for E N) :: (('e, 't, 'z) tree_store_scheme, accessor option) prog)"
  define after where "after = (\<lambda>r :: accessor option. (case r of None \<Rightarrow> ret None
     | Some a \<Rightarrow> thenE (mod_local (\<lambda>vc :: view_cache. vc(base \<mapsto> (a, Map.empty)))) (ret (Some (a, Map.empty)))) ::
     (('e, 't, 'z) tree_store_scheme \<times> view_cache, (accessor \<times> cache) option) prog)"
  have miss: "wp (after None) Q R (s', vc)" if "objs base = None" "es_is E sm m mt s'" for s'
    using none [OF that] by (simp add: after_def wp_ret)
  have hit: "wp (after (Some (accessor_of N (blake3 E) base t))) Q R (s', vc)" if "objs base = Some t" "es_is E sm m mt s'" for s' t
    using some [OF that cache_ok_empty view_ok_upd [OF vc that(1) cache_ok_empty]] by (simp add: after_def wp_simps)
  have "wp make (\<lambda>r s'. wp (after r) Q R (s', vc)) (\<lambda>e s'. io_exn e \<or> (\<exists>b. e = BadStorePath b) \<and> wp (after None) Q R (s', vc)) s"
  proof (cases "valid_base N base")
    case False
    with obj have "objs base = None" by (simp add: object_at_def)
    with miss s False show ?thesis by (simp add: make_def store_path_def wp_simps)
  next
    case valid: True
    have "wp (accessor_for E N base) (\<lambda>r s'. wp (after r) Q R (s', vc)) (\<lambda>e s'. io_exn e \<or> (\<exists>b. e = BadStorePath b) \<and> wp (after None) Q R (s', vc)) s"
    proof (cases "is_derivation N base")
      case True
      have "wp (drv_text E base) (\<lambda>r s'. wp (after (map_option (\<lambda>d. DrvAccessor (drv_object d)) r)) Q R (s', vc))
          (\<lambda>e s'. io_exn e \<or> (\<exists>b. e = BadStorePath b) \<and> wp (after None) Q R (s', vc)) s"
      proof (cases "mt (meta_key kDrvPrefix base)")
        case n: None
        with obj valid True have "objs base = None" by (simp add: object_at_def)
        then show ?thesis by (intro wp_drv_none [OF s n]) (simp_all add: miss)
      next
        case (Some h)
        with obj valid True obtain d where d: "length h = kHashLen" "m h = Some d" "objs base = Some (drv_object d)"
          by (auto simp: object_at_def)
        show ?thesis
          by (rule wp_drv_text [OF s Some d(1)]) (use d hit True in \<open>auto simp: accessor_of_def\<close>)
      qed
      with True show ?thesis by (simp add: accessor_for_def wp_bindE wp_fun_eqs)
    next
      case False
      show ?thesis
      proof (cases "mt (meta_key kPathPrefix base)")
        case n: None
        with obj valid False have "objs base = None" by (simp add: object_at_def)
        then have "wp (path_record E N base) (\<lambda>r s'. wp (after (map_option (\<lambda>r. if pr_type r = CHR ''d'' then PackAccessor (pr_root r)
            else BlobAccessor (pr_type r) (pr_root r)) r)) Q R (s', vc)) (\<lambda>e s'. io_exn e \<or> (\<exists>b. e = BadStorePath b) \<and> wp (after None) Q R (s', vc)) s"
          by (intro wp_record_none [OF s n]) (simp_all add: miss)
        with False show ?thesis by (simp add: accessor_for_def wp_bindE wp_fun_eqs)
      next
        case (Some d)
        with obj valid False obtain r t where r: "recorded N mt base r" "pr_type r = object_type t" "pr_root r = object_id (blake3 E) t"
          "holds_object (blake3 E) m t" "objs base = Some t"
          by (auto simp: object_at_def)
        show ?thesis
          by (rule wp_accessor_for [OF s False r(1-4)]) (use hit [OF r(5)] False in \<open>auto simp: accessor_of_def\<close>)
      qed
    qed
    with valid show ?thesis by (simp add: make_def store_path_def wp_simps)
  qed
  then have "wp (tryE (on_store make) (\<lambda>e. case e of BadStorePath _ \<Rightarrow> ret None | _ \<Rightarrow> throw e)) (\<lambda>r. wp (after r) Q R) R (s, vc)"
    unfolding wp_tryE wp_on_store fst_conv snd_conv
  proof (rule wp_mono)
    fix e s'
    assume "io_exn e \<or> (\<exists>b. e = BadStorePath b) \<and> wp (after None) Q R (s', vc)"
    then show "wp (case e of BadStorePath _ \<Rightarrow> ret None | _ \<Rightarrow> throw e) (\<lambda>r. wp (after r) Q R) R (s', vc)"
      using R [of e s'] by (cases e) (auto simp: wp_simps)
  qed
  with None show ?thesis by (simp add: cached_def make_def after_def wp_bindE wp_get_local)
qed

lemma es_is_kept:
  fixes s s' :: "('e, 't, 'z) tree_store_scheme"
  assumes "es_is E True m mt s" and "small_trees.trees.kept E s s'"
  shows "es_is E True m mt s'"
  using assms more_members(1) [of s' s]
  by (simp add: es_is_def es_ok_def small_trees.trees.kept_def pack_rest_def touches_ok_def)

lemma is_canon_tl: "is_canon (base # rest) \<Longrightarrow> is_canon rest"
  by (simp add: is_canon_def)

lemma wp_use_accessor:
  fixes s :: "('e, 't, 'z) tree_store_scheme"
  assumes s: "es_is E True m mt s" and N: "nix_ok N" and t: "objs base = Some t" and holds: "\<not> is_derivation N base \<Longrightarrow> holds_object (blake3 E) m t"
    and c: "cache_ok m c" and vc: "view_ok N (blake3 E) m objs vc" and p: "is_canon (request_path q)"
    and A: "\<And>s' vc'. es_is E True m mt s' \<Longrightarrow> view_ok N (blake3 E) m objs vc' \<Longrightarrow>
      (case fs_answer t q of Inl e \<Rightarrow> R e (s', vc') | Inr r \<Rightarrow> Q r (s', vc'))"
    and R: "\<And>e s' vc'. io_exn e \<Longrightarrow> R e (s', vc')"
  shows "wp (use_accessor E N base (accessor_of N (blake3 E) base t, c) q) Q R (s, vc)"
proof -
  let ?a = "accessor_of N (blake3 E) base t"
  have m: "store_view E s = m" by (rule es_isD(5) [OF s])
  have ans: "case fs_answer t q of Inl e \<Rightarrow> R e (s', vc(base \<mapsto> (?a, c'))) | Inr r \<Rightarrow> Q r (s', vc(base \<mapsto> (?a, c')))"
    if "es_is E True m mt s'" "cache_ok m c'" for s' c'
    using A that view_ok_upd [OF vc t] by blast
  have "wp (serve_accessor (pack_calls E) N ?a q) (\<lambda>r (s', c'). Q r (s', vc(base \<mapsto> (?a, c'))))
      (\<lambda>e (s', c'). R e (s', vc(base \<mapsto> (?a, c')))) (s, c)"
  proof (cases "is_derivation N base")
    case True
    with N ans [OF s c] show ?thesis by (cases "fs_answer t q") (simp_all add: accessor_of_def nix_ok_def wp_simps)
  next
    case False
    then have a: "?a = object_accessor (blake3 E) t" by (simp add: accessor_of_def)
    have "packs_small s" using s by (simp add: es_is_def)
    then show ?thesis
      unfolding a
    proof (rule wp_serve_object [OF es_isD(4) [OF s]])
      show "holds_object (blake3 E) (store_view E s) t" "cache_ok (store_view E s) c" using holds False c m by simp_all
      fix s' c'
      assume "small_trees.trees.kept E s s'" "cache_ok (store_view E s) c'"
      with ans [OF es_is_kept [OF s], of s' c'] m a show "case fs_answer t q of
          Inl e \<Rightarrow> case (s', c') of (s', c') \<Rightarrow> R e (s', vc(base \<mapsto> (object_accessor (blake3 E) t, c')))
        | Inr r \<Rightarrow> case (s', c') of (s', c') \<Rightarrow> Q r (s', vc(base \<mapsto> (object_accessor (blake3 E) t, c')))"
        by (cases "fs_answer t q") simp_all
    qed (simp_all add: p R)
  qed
  then show ?thesis by (simp add: wp_def use_accessor_def split: prod.splits sum.splits)
qed

lemma wp_try_with_accessor:
  fixes s :: "('e, 't, 'z) tree_store_scheme"
  assumes s: "es_is E True m mt s" and N: "nix_ok N" and obj: "\<And>base. object_at N (blake3 E) m mt base (objs base)"
    and vc: "view_ok N (blake3 E) m objs vc" and p: "is_canon (request_path q)"
    and none: "\<And>s' vc'. es_is E True m mt s' \<Longrightarrow> view_ok N (blake3 E) m objs vc' \<Longrightarrow>
      request_path q = [] \<or> objs (hd (request_path q)) = None \<Longrightarrow> Q None (s', vc')"
    and some: "\<And>s' vc' base rest t. es_is E True m mt s' \<Longrightarrow> view_ok N (blake3 E) m objs vc' \<Longrightarrow>
      request_path q = base # rest \<Longrightarrow> objs base = Some t \<Longrightarrow>
      (case fs_answer t (request_at rest q) of Inl e \<Rightarrow> R e (s', vc') | Inr r \<Rightarrow> Q (Some r) (s', vc'))"
    and R: "\<And>e s' vc'. io_exn e \<Longrightarrow> R e (s', vc')"
  shows "wp (try_with_accessor E N q) Q R (s, vc)"
proof (cases "request_path q")
  case Nil
  with none [OF s vc] show ?thesis by (simp add: try_with_accessor_def wp_ret)
next
  case (Cons base rest)
  have "wp (cached E N base) (\<lambda>a. wp (case a of None \<Rightarrow> ret None
     | Some ac \<Rightarrow> bindE (use_accessor E N base ac (request_at rest q)) (\<lambda>r. ret (Some r))) Q R) R (s, vc)"
  proof (rule wp_cached [OF s N obj vc])
    fix s' :: "('e, 't, 'z) tree_store_scheme" and t c vc'
    assume a: "objs base = Some t" "es_is E True m mt s'" "cache_ok m c" "view_ok N (blake3 E) m objs vc'"
    have "holds_object (blake3 E) m t" if "\<not> is_derivation N base"
      using obj [of base] that a(1) by (auto simp: object_at_def split: if_splits option.splits)
    then have "wp (use_accessor E N base (accessor_of N (blake3 E) base t, c) (request_at rest q)) (\<lambda>r. Q (Some r)) R (s', vc')"
      by (rule wp_use_accessor [OF a(2) N a(1) _ a(3,4)]) (use p Cons some a(1) R in \<open>auto dest: is_canon_tl\<close>)
    then show "wp (case Some (accessor_of N (blake3 E) base t, c) of None \<Rightarrow> ret None
       | Some ac \<Rightarrow> bindE (use_accessor E N base ac (request_at rest q)) (\<lambda>r. ret (Some r))) Q R (s', vc')"
      by (simp add: wp_bindE wp_fun_eqs)
  qed (use none [OF _ vc] Cons R in \<open>simp_all add: wp_ret\<close>)
  with Cons show ?thesis by (simp add: try_with_accessor_def wp_bindE)
qed

lemma wp_view_serve:
  fixes s :: "('e, 't, 'z) tree_store_scheme"
  assumes s: "es_is E True m mt s" and N: "nix_ok N" and obj: "\<And>base. object_at N (blake3 E) m mt base (objs base)"
    and vc: "view_ok N (blake3 E) m objs vc" and p: "is_canon (request_path q)"
    and A: "\<And>s' vc'. es_is E True m mt s' \<Longrightarrow> view_ok N (blake3 E) m objs vc' \<Longrightarrow>
      (case view_answer objs q of Inl e \<Rightarrow> R e (s', vc') | Inr r \<Rightarrow> Q r (s', vc'))"
    and R: "\<And>e s' vc'. io_exn e \<Longrightarrow> R e (s', vc')"
  shows "wp (view_serve E N q) Q R (s, vc)"
proof -
  have main: "wp (try_with_accessor E N q) (\<lambda>r (s', vc'). case r of None \<Rightarrow> (case view_miss q of Inl e \<Rightarrow> R e (s', vc') | Inr a \<Rightarrow> Q a (s', vc'))
      | Some a \<Rightarrow> Q a (s', vc')) R (s, vc)"
    if "request_path q = [] \<longrightarrow> view_answer objs q = view_miss q"
  proof (rule wp_try_with_accessor [OF s N obj vc p])
    fix s' :: "('e, 't, 'z) tree_store_scheme" and vc'
    assume e: "es_is E True m mt s'" "view_ok N (blake3 E) m objs vc'"
    note a = A [OF e]
    show "case (s', vc') of (s', vc') \<Rightarrow> case None of None \<Rightarrow> (case view_miss q of Inl e \<Rightarrow> R e (s', vc') | Inr a \<Rightarrow> Q a (s', vc'))
        | Some a \<Rightarrow> Q a (s', vc')" if "request_path q = [] \<or> objs (hd (request_path q)) = None"
      using a that \<open>request_path q = [] \<longrightarrow> _\<close> by (cases "request_path q") (simp_all add: view_answer_def)
    show "case fs_answer t (request_at rest q) of Inl e \<Rightarrow> R e (s', vc') | Inr r \<Rightarrow>
        (case (s', vc') of (s', vc') \<Rightarrow> case Some r of None \<Rightarrow> (case view_miss q of Inl e \<Rightarrow> R e (s', vc') | Inr a \<Rightarrow> Q a (s', vc'))
        | Some a \<Rightarrow> Q a (s', vc'))" if "request_path q = base # rest" "objs base = Some t" for base rest t
      using a that by (cases "fs_answer t (request_at rest q)") (simp_all add: view_answer_def)
  qed (rule R)
  have withA: "wp (with_accessor E N q) Q R (s, vc)" if "view_miss q = Inl (path_error (request_path q) '' does not exist in the tarmac store'')"
    "request_path q = [] \<longrightarrow> view_answer objs q = view_miss q"
    unfolding with_accessor_def wp_bindE
    by (rule wp_mono [OF main [OF that(2)]]) (auto simp: that(1) wp_simps split: option.splits)
  show ?thesis
  proof (cases q)
    case (PathExists path)
    show ?thesis
    proof (cases path)
      case Nil
      with PathExists A [OF s vc] show ?thesis by (simp add: view_answer_def wp_ret)
    next
      case (Cons base rest)
      have "wp (try_with_accessor E N q) (\<lambda>r. wp (ret (case r of None \<Rightarrow> Exists False | Some a \<Rightarrow> a)) Q R) R (s, vc)"
        by (rule wp_mono [OF main]) (auto simp: PathExists Cons view_miss_def wp_simps split: option.splits)
      with PathExists Cons show ?thesis by (simp add: wp_bindE)
    qed
  next
    case (MaybeLstat path)
    show ?thesis
    proof (cases path)
      case Nil
      with MaybeLstat A [OF s vc] show ?thesis by (simp add: view_answer_def wp_ret)
    next
      case (Cons base rest)
      have "wp (try_with_accessor E N q) (\<lambda>r. wp (ret (case r of None \<Rightarrow> Stat None | Some a \<Rightarrow> a)) Q R) R (s, vc)"
        by (rule wp_mono [OF main]) (auto simp: MaybeLstat Cons view_miss_def wp_simps split: option.splits)
      with MaybeLstat Cons show ?thesis by (simp add: wp_bindE)
    qed
  qed (use withA in \<open>simp_all add: view_miss_def view_answer_def\<close>)
qed

end
