(* ===== verification/Eval_Spec.thy ===== *)
theory Eval_Spec
  imports Gc_Spec View_Inv
begin

text \<open>
  What the source accessors and the evaluation store of the plugin do, each statement with an instance on
  the concrete platform.
\<close>

section \<open>The objects of a store\<close>

definition objects_are ::
  "('h, 'ca, 'drv) nix \<Rightarrow> (bytes \<Rightarrow> bytes) \<Rightarrow> (bytes \<Rightarrow> bytes option) \<Rightarrow> (bytes \<Rightarrow> bytes option) \<Rightarrow> (bytes \<Rightarrow> fs_tree option) \<Rightarrow> bool" where
  "objects_are N dg m mt objs \<longleftrightarrow> (\<forall>base. object_at N dg m mt base (objs base))"

text \<open>The evaluation store \<open>s\<close> works and has the objects \<open>objs\<close>, all of them complete.\<close>

definition eval_store ::
  "('e, 't) platform \<Rightarrow> ('h, 'ca, 'drv) nix \<Rightarrow> (bytes \<Rightarrow> fs_tree option) \<Rightarrow> ('e, 't, 'z) tree_store_scheme \<Rightarrow> bool" where
  "eval_store E N objs s \<longleftrightarrow> es_ok E s \<and> objects_are N (blake3 E) (store_view E s) (reader_table E s Meta) objs"

definition new_object :: "bytes \<Rightarrow> fs_tree \<Rightarrow> (bytes \<Rightarrow> fs_tree option) \<Rightarrow> bytes \<Rightarrow> fs_tree option" where
  "new_object path t objs = (if objs path = None then objs(path \<mapsto> t) else objs)"

lemma map_le_some: "m \<subseteq>\<^sub>m m' \<Longrightarrow> m h = Some d \<Longrightarrow> m' h = Some d"
  by (auto simp: map_le_def dom_def)

lemma holds_object_mono: "holds_object dg m t \<Longrightarrow> m \<subseteq>\<^sub>m m' \<Longrightarrow> holds_object dg m' t"
  by (auto simp: holds_object_def dest: map_le_some)

lemma object_at_mono:
  assumes "object_at N dg m mt base obj" and "m \<subseteq>\<^sub>m m'"
    and "mt' (meta_key kPathPrefix base) = mt (meta_key kPathPrefix base)" "mt' (meta_key kDrvPrefix base) = mt (meta_key kDrvPrefix base)"
  shows "object_at N dg m' mt' base obj"
  using assms holds_object_mono [OF _ assms(2)] map_le_some [OF assms(2)]
  by (fastforce simp: object_at_def recorded_def split: if_splits option.splits)

lemma meta_key_inj [simp]:
  "meta_key kPathPrefix p = meta_key kPathPrefix q \<longleftrightarrow> p = q" "meta_key kDrvPrefix p = meta_key kDrvPrefix q \<longleftrightarrow> p = q"
  "meta_key kPathPrefix p \<noteq> meta_key kDrvPrefix q" "meta_key kDrvPrefix p \<noteq> meta_key kPathPrefix q"
  by (auto simp: meta_key_def kPathPrefix_def kDrvPrefix_def)

lemma objects_are_same: "objects_are N dg m mt objs \<Longrightarrow> same_records mt mt' \<Longrightarrow> objects_are N dg m mt' objs"
  unfolding objects_are_def using object_at_mono [OF _ map_le_refl, of N dg m mt _ _ mt'] by (simp add: same_recordsD)

lemma eval_storeI: "es_is E sm m mt s \<Longrightarrow> objects_are N (blake3 E) m mt objs \<Longrightarrow> eval_store E N objs s"
  using objects_are_same [of N "blake3 E" m mt objs] by (auto simp: es_is_def eval_store_def)

lemma eval_storeE:
  assumes "eval_store E N objs s"
  obtains m mt where "es_is E False m mt s" "objects_are N (blake3 E) m mt objs" "m = store_view E s" "mt = reader_table E s Meta"
  using assms es_isI by (auto simp: eval_store_def)

lemma wp_record_at:
  fixes s :: "('e, 't, 'z) tree_store_scheme"
  assumes s: "es_is E sm m mt s" and p: "valid_base N path" "\<not> is_derivation N path" and obj: "object_at N (blake3 E) m mt path obj"
    and none: "\<And>s'. obj = None \<Longrightarrow> es_is E sm m mt s' \<Longrightarrow> Q None s'"
    and some: "\<And>r t s'. obj = Some t \<Longrightarrow> recorded N mt path r \<Longrightarrow> pr_type r = object_type t \<Longrightarrow> pr_root r = object_id (blake3 E) t \<Longrightarrow>
      holds_object (blake3 E) m t \<Longrightarrow> es_is E sm m mt s' \<Longrightarrow> Q (Some r) s'"
    and R: "\<And>e s'. io_exn e \<Longrightarrow> R e s'"
  shows "wp (path_record E N path) Q R s"
proof (cases "mt (meta_key kPathPrefix path)")
  case None
  then show ?thesis using obj p by (intro wp_record_none [OF s]) (auto simp: object_at_def intro: none R)
next
  case (Some d)
  with obj p obtain r t where r: "recorded N mt path r" "pr_type r = object_type t" "pr_root r = object_id (blake3 E) t"
    "holds_object (blake3 E) m t" "obj = Some t"
    by (auto simp: object_at_def)
  have "length (pr_root r) = kHashLen" using object_id_dg [of "blake3 E" t] pack_digest [OF es_isD(4) [OF s]] r(3) by auto
  then show ?thesis
    by (rule wp_record [OF s r(1)]) (use holds_root [OF r(4)] r some R in auto)
qed

lemma objects_are_new:
  assumes objs: "objects_are N (blake3 E) m mt objs" and p: "valid_base N path" "\<not> is_derivation N path" and sub: "m \<subseteq>\<^sub>m m'"
    and r: "recorded N mt' path r" "pr_type r = object_type t" "pr_root r = object_id (blake3 E) t" and holds: "holds_object (blake3 E) m' t"
    and other: "\<forall>k. k \<noteq> meta_key kPathPrefix path \<longrightarrow> mt' k = mt k" and none: "objs path = None"
  shows "objects_are N (blake3 E) m' mt' (new_object path t objs)"
  unfolding objects_are_def
proof
  fix base
  show "object_at N (blake3 E) m' mt' base (new_object path t objs base)"
  proof (cases "base = path")
    case True
    with r p holds none show ?thesis by (auto simp: object_at_def new_object_def recorded_def)
  next
    case False
    then show ?thesis
      using objs other none by (auto simp: objects_are_def new_object_def intro!: object_at_mono [OF _ sub])
  qed
qed

lemma wp_add_object:
  fixes s :: "('e, 't, 'z) tree_store_scheme"
  assumes s: "es_is E False m mt s" and objs: "objects_are N (blake3 E) m mt objs" and N: "nix_ok N" and i: "info_ok N info"
    and t: "object_fits E m t" and dump: "parse_dump N source = Inr t"
    and Q: "\<And>s' m' mt'. es_is E False m' mt' s' \<Longrightarrow> m \<subseteq>\<^sub>m m' \<Longrightarrow> objects_are N (blake3 E) m' mt' (new_object (vi_path info) t objs) \<Longrightarrow>
      objs (vi_path info) = None \<longrightarrow> recorded N mt' (vi_path info) (record_of N info (object_type t) (object_id (blake3 E) t)) \<and>
        m' (object_id (blake3 E) t) \<noteq> None \<Longrightarrow> Q () s'"
    and R: "\<And>e s'. io_exn e \<Longrightarrow> R e s'"
    and J: "\<And>e s'. encode_record N (record_of N info (object_type t) (object_id (blake3 E) t)) = Inl e \<Longrightarrow> R e s'"
  shows "wp (add_to_store E N info source False) Q R s"
proof -
  have p: "valid_base N (vi_path info)" "\<not> is_derivation N (vi_path info)" using i by (simp_all add: info_ok_def)
  have "wp (path_record E N (vi_path info)) (\<lambda>rec. wp (whenE (rec = None) (store_object E N info t)) Q R) R s"
  proof (rule wp_record_at [OF s p])
    show "object_at N (blake3 E) m mt (vi_path info) (objs (vi_path info))" using objs by (simp add: objects_are_def)
    fix s1 :: "('e, 't, 'z) tree_store_scheme"
    show "wp (whenE (None = None) (store_object E N info t)) Q R s1" if n: "objs (vi_path info) = None" and s1: "es_is E False m mt s1"
    proof -
      have "wp (store_object E N info t) Q R s1"
      proof (rule wp_store_object [OF s1 t N])
        fix s' :: "('e, 't, 'z) tree_store_scheme" and m' mt'
        let ?r = "record_of N info (object_type t) (object_id (blake3 E) t)"
        assume a: "es_is E False m' mt' s'" "m \<subseteq>\<^sub>m m'" "holds_object (blake3 E) m' t" "recorded N mt' (vi_path info) ?r"
          "\<forall>k. k \<noteq> meta_key kPathPrefix (vi_path info) \<longrightarrow> mt' k = mt k"
        have "objects_are N (blake3 E) m' mt' (new_object (vi_path info) t objs)"
          by (rule objects_are_new [OF objs p a(2,4) _ _ a(3,5) n]) (simp_all add: record_of_def)
        then show "Q () s'" using Q [OF a(1,2)] a(4) holds_root [OF a(3)] by simp
      qed (simp_all add: R J)
      then show ?thesis by (simp add: wp_simps)
    qed
    show "wp (whenE (Some r = None) (store_object E N info t)) Q R s1" if "objs (vi_path info) = Some t'" "es_is E False m mt s1" for r t'
      using that objs Q [OF that(2) map_le_refl] by (simp add: wp_simps new_object_def)
  qed (rule R)
  with p dump show ?thesis by (simp add: add_to_store_def reject_repair_def parse_to_memory_def wp_simps)
qed

lemma wp_add_stored:
  fixes s :: "('e, 't, 'z) tree_store_scheme"
  assumes s: "eval_store E N objs s" and N: "nix_ok N" and i: "info_ok N info" and t: "object_fits E (store_view E s) t"
    and dump: "parse_dump N source = Inr t"
  shows "wp (add_to_store E N info source False) (\<lambda>_ s'. eval_store E N (new_object (vi_path info) t objs) s')
    (\<lambda>e _. io_exn e \<or> encode_record N (record_of N info (object_type t) (object_id (blake3 E) t)) = Inl e) s"
proof -
  obtain m mt where m: "es_is E False m mt s" "objects_are N (blake3 E) m mt objs" "m = store_view E s" by (rule eval_storeE [OF s])
  show ?thesis by (rule wp_add_object [OF m(1,2) N i _ dump]) (use t m(3) eval_storeI in auto)
qed

lemma wp_view_stored:
  fixes s :: "('e, 't, 'z) tree_store_scheme"
  assumes s: "eval_store E N objs s" "packs_small s" and N: "nix_ok N" and vc: "view_ok N (blake3 E) (store_view E s) objs vc"
    and p: "is_canon (request_path q)"
  shows "wp (view_serve E N q)
    (\<lambda>r (s', vc'). view_answer objs q = Inr r \<and> eval_store E N objs s' \<and> packs_small s' \<and>
       store_view E s' = store_view E s \<and> view_ok N (blake3 E) (store_view E s') objs vc')
    (\<lambda>e (s', vc'). io_exn e \<or> view_answer objs q = Inl e \<and> eval_store E N objs s' \<and> packs_small s' \<and>
       store_view E s' = store_view E s \<and> view_ok N (blake3 E) (store_view E s') objs vc') (s, vc)"
proof -
  obtain m mt where m: "es_is E False m mt s" "objects_are N (blake3 E) m mt objs" "m = store_view E s" by (rule eval_storeE [OF s(1)])
  have t: "es_is E True m mt s" using m(1) s(2) by (simp add: es_is_def)
  show ?thesis
  proof (rule wp_view_serve [OF t N])
    show "object_at N (blake3 E) m mt base (objs base)" for base using m(2) by (simp add: objects_are_def)
    show "view_ok N (blake3 E) m objs vc" using vc m(3) by simp
    fix s' :: "('e, 't, 'z) tree_store_scheme" and vc'
    assume a: "es_is E True m mt s'" "view_ok N (blake3 E) m objs vc'"
    have "eval_store E N objs s'" "packs_small s'" "store_view E s' = m"
      using eval_storeI [OF a(1) m(2)] a(1) by (simp_all add: es_is_def)
    with a(2) m(3) show "case view_answer objs q of
        Inl e \<Rightarrow> case (s', vc') of (s', vc') \<Rightarrow> io_exn e \<or> view_answer objs q = Inl e \<and> eval_store E N objs s' \<and> packs_small s' \<and>
          store_view E s' = store_view E s \<and> view_ok N (blake3 E) (store_view E s') objs vc'
      | Inr r \<Rightarrow> case (s', vc') of (s', vc') \<Rightarrow> view_answer objs q = Inr r \<and> eval_store E N objs s' \<and> packs_small s' \<and>
          store_view E s' = store_view E s \<and> view_ok N (blake3 E) (store_view E s') objs vc'"
      by (simp split: sum.split)
  qed (simp_all add: p)
qed

section \<open>An instance of Nix\<close>

text \<open>A library that knows one JSON value, the record it is given, prints hashes, content addresses and derivations as
  they are, and takes every object out of a dump for the one it is given.\<close>

definition sample_nix :: "path_rec \<Rightarrow> fs_tree \<Rightarrow> (bytes, bytes, bytes) nix" where
  "sample_nix r t = \<lparr>nix_version = (2, 36), drv_inputs = (\<lambda>_. []), input_srcs = (\<lambda>_. []), input_drvs = (\<lambda>_. []), aterm_parse = (\<lambda>d _. Inr d),
     parse_derivation = (\<lambda>d _. Inr d), aterm_unparse = (\<lambda>d. d), derivation_unparse = (\<lambda>d. d), json_dump = (\<lambda>j. if j = record_json r then Inr ''{}'' else Inl (JsonError ''dump'')),
     json_parse = (\<lambda>_. Inr (record_json r)), valid_base = (\<lambda>p. p \<noteq> []), is_derivation = (\<lambda>p. p = ''x.drv''),
     hash_sri = (\<lambda>h. h), parse_sri = Inr, render_ca = (\<lambda>ca. case ca of None \<Rightarrow> [] | Some c \<Rightarrow> CHR ''c'' # c),
     parse_ca = (\<lambda>d. Inr (tl d)), nar_hash = (\<lambda>_. (''sha'', 0)), text_ca = (\<lambda>d. d), parse_dump = (\<lambda>_. Inr t),
     mem_serve = fs_answer,
     drv_path = (\<lambda>_. ''x.drv''), ca_path = (\<lambda>name _ _. (name, ''ca''))\<rparr>"

definition sample_object :: fs_tree where
  "sample_object = Directory [(''f'', Regular True ''yo'')]"

definition sample_info :: "(bytes, bytes) path_info" where
  "sample_info = \<lparr>vi_path = ''p'', vi_nar_hash = ''sha'', vi_nar_size = 0, vi_ca = None, vi_refs = [''q'']\<rparr>"

definition sample_record :: path_rec where
  "sample_record = \<lparr>pr_type = CHR ''d'', pr_root = object_id sample_hash sample_object, pr_nar_hash = ''sha'',
     pr_nar_size = 0, pr_ca = [], pr_refs = [''q'']\<rparr>"

lemma sample_with_small: "sample_fits d recs \<Longrightarrow> packs_small (sample_with d recs)"
  by (auto simp: packs_small_def sample_fits_def sample_with_def set_inode_def sample_world_def kMapSize_def)

lemma packs_small_extend: "packs_small (cas.extend s z) = packs_small (cas.truncate s)"
  by (simp add: packs_small_def cas.defs)

lemma sample_tree_store_small: "sample_fits d recs \<Longrightarrow> packs_small (sample_tree_store d recs)"
  unfolding sample_tree_store_def packs_small_extend truncate_cas by (rule sample_with_small)

lemma sample_nix_ok: "nix_ok (sample_nix r t)"
  by (auto simp: nix_ok_def aterm_ok_def sample_nix_def split: if_splits option.splits)

lemma sample_info_ok: "info_ok (sample_nix r t) sample_info"
  by (simp add: info_ok_def sample_nix_def sample_info_def)

lemma sample_record_of: "record_of (sample_nix r t) sample_info (object_type sample_object) (object_id sample_hash sample_object) = sample_record"
  by (simp add: record_of_def sample_record_def sample_info_def sample_nix_def sample_object_def)

lemma sample_hash_is: "blake3 sample = sample_hash"
  by (simp add: sample_def)

lemma meta_key_format [simp]: "meta_key kPathPrefix p \<noteq> ''format''" "meta_key kDrvPrefix p \<noteq> ''format''"
  by (simp_all add: meta_key_def kPathPrefix_def kDrvPrefix_def)

lemma sample_object_blobs: "object_blobs sample_hash sample_object =
    [''yo'', CHR ''x'' # char_of (Suc 0) # char_of (0 :: nat) # CHR ''f'' # char_of (32 :: nat) # (''yo'' @ CHR ''.'' # replicate 29 (CHR 0x00))]"
  by (simp add: sample_object_def entries_bytes_def object_entries_def tree_entry_bytes_def len_byte_def sample_hash_def)

lemma sample_object_fits: "object_fits sample [sample_hash ''hi'' \<mapsto> ''hi''] sample_object"
  unfolding object_fits_def sample_hash_is sample_object_blobs
  by (simp add: no_collision_def sample_object_def kMaxNameLen_def max_off_def sample_hash_def)

lemma sample_view_answer:
  "view_answer (new_object (vi_path sample_info) sample_object Map.empty) (ReadFile [''p'', ''f'']) = Inr (Contents 2 ''yo'')"
  by (simp add: view_answer_def new_object_def sample_info_def sample_object_def fs_at_def path_ok_def comp_ok_def kMaxNameLen_def kMaxTreeDepth_def)

lemma sample_encodes: "encode_record (sample_nix sample_record t) sample_record = Inr ''{}''"
  by (simp add: encode_record_def sample_nix_def)

lemma sample_eval_store:
  assumes "sample_fits d recs" and "\<forall>p. map_of recs (meta_key kPathPrefix p) = None \<and> map_of recs (meta_key kDrvPrefix p) = None"
  shows "eval_store sample (sample_nix r t) Map.empty (sample_tree_store d recs)"
  using sample_tree_store_facts [OF assms(1)] assms(2)
  by (auto simp: eval_store_def es_ok_def gc_ok_def objects_are_def object_at_def)

section \<open>Reading stored trees\<close>

text \<open>C15: A \<open>PackAccessor\<close> answers every request for a canonical path as the stored tree below its root says
  (\<open>tree_answer\<close> of the entry the path leads to), from any state of its walker's cache, and changes nothing. Besides
  that answer it can fail because a system call does, or because an object below its root is missing or broken: only
  then does it report a corrupt cache.\<close>

theorem accessor_answers_tree:
  fixes s :: "('e, 't, 'z) cas_scheme"
  assumes "pack_ok E s" "packs_small s" and "cache_ok (store_view E s) c" and "ids_ok (store_view E s) root"
    and "is_canon (request_path q)"
  shows "wp (serve (pack_calls E) (ret ()) root q)
    (\<lambda>r (s', c'). tree_answer (store_view E s) (entry_at (store_view E s) root (request_path q)) q = Inr r \<and>
       pack_ok E s' \<and> store_view E s' = store_view E s \<and> pack_rest E s' = pack_rest E s \<and> cache_ok (store_view E s) c')
    (\<lambda>e (s', _). (io_exn e \<or> tree_answer (store_view E s) (entry_at (store_view E s) root (request_path q)) q = Inl e \<or>
         cache_corrupt e \<and> damaged (store_view E s) root) \<and>
       pack_ok E s' \<and> store_view E s' = store_view E s \<and> pack_rest E s' = pack_rest E s) (s, c)"
  unfolding pack_calls_eq
proof (rule pack_acc.wp_serve [OF _ assms(3,4,5)])
  show "pack_ok E s \<and> packs_small s" using assms by simp
  fix s' c'
  assume "small_trees.trees.kept E s s'" "cache_ok (store_view E s) c'"
  then show "case tree_answer (store_view E s) (entry_at (store_view E s) root (request_path q)) q of
      Inl e \<Rightarrow> case (s', c') of (s', _) \<Rightarrow> (io_exn e \<or> tree_answer (store_view E s) (entry_at (store_view E s) root (request_path q)) q = Inl e \<or>
         cache_corrupt e \<and> damaged (store_view E s) root) \<and>
       pack_ok E s' \<and> store_view E s' = store_view E s \<and> pack_rest E s' = pack_rest E s
    | Inr r \<Rightarrow> case (s', c') of (s', c') \<Rightarrow> tree_answer (store_view E s) (entry_at (store_view E s) root (request_path q)) q = Inr r \<and>
       pack_ok E s' \<and> store_view E s' = store_view E s \<and> pack_rest E s' = pack_rest E s \<and> cache_ok (store_view E s) c'"
    by (simp add: small_trees.trees.kept_def split: sum.split)
next
  fix e s' c'
  assume "pack_acc.fails E s root e s'"
  then show "case (s', c') of (s', _) \<Rightarrow> (io_exn e \<or> tree_answer (store_view E s) (entry_at (store_view E s) root (request_path q)) q = Inl e \<or>
         cache_corrupt e \<and> damaged (store_view E s) root) \<and>
       pack_ok E s' \<and> store_view E s' = store_view E s \<and> pack_rest E s' = pack_rest E s"
    by (auto simp: pack_acc.fails_def small_trees.trees.kept_def)
qed

text \<open>A tree with a file whose blob is not in the store.\<close>

definition hollow_tree :: bytes where
  "hollow_tree = tree_object [\<lparr>te_name = ''f'', te_type = CHR ''r'', te_id = sample_hash ''no''\<rparr>]"

lemma hollow_tree:
  defines "m \<equiv> [sample_hash hollow_tree \<mapsto> hollow_tree]"
  shows "sample_fits hollow_tree []" "ids_ok m (sample_hash hollow_tree)"
    "entry_at m (sample_hash hollow_tree) [''f''] = Some \<lparr>te_name = ''f'', te_type = CHR ''r'', te_id = sample_hash ''no''\<rparr>"
proof -
  let ?e = "\<lparr>te_name = ''f'', te_type = CHR ''r'', te_id = sample_hash ''no''\<rparr>"
  have at: "tree_at m (sample_hash hollow_tree) = Some [?e]"
    by (rule tree_at_object) (simp_all add: m_def hollow_tree_def tree_ok_def entry_ok_def tree_type_def kMaxNameLen_def kMaxIdLen_def kHashLen_def)
  show "sample_fits hollow_tree []" by (simp add: sample_fits_def hollow_tree_def tree_object_def tree_entry_bytes_def sample_hash_def)
  show "entry_at m (sample_hash hollow_tree) [''f''] = Some ?e"
    by (simp add: entry_at_def path_ok_def comp_ok_def root_entry_def at entry_named_def kMaxNameLen_def kMaxTreeDepth_def)
  have len: "length (sample_hash d) = kHashLen" for d by (simp add: sample_hash_def kHashLen_def)
  show "ids_ok m (sample_hash hollow_tree)"
    unfolding ids_ok_def
  proof (intro allI impI)
    fix cs e
    assume "walk m (root_entry (sample_hash hollow_tree)) cs = Some e"
    then show "length (te_id e) = kHashLen"
      by (cases cs; cases "tl cs") (auto simp: root_entry_def at entry_named_def len split: option.splits if_splits)
  qed
qed

theorem accessor_answers_tree_witness:
  "wp (serve (pack_calls sample) (ret ()) (sample_hash hollow_tree) (PathExists [''f'']))
    (\<lambda>r _. r = Exists True) (\<lambda>e _. io_exn e \<or> cache_corrupt e) (sample_with hollow_tree [], Map.empty)"
proof -
  have s: "pack_ok sample (sample_with hollow_tree [])" "store_view sample (sample_with hollow_tree []) = [sample_hash hollow_tree \<mapsto> hollow_tree]"
    using sample_with_ok [OF hollow_tree(1)] sample_with_view [OF hollow_tree(1)] by (simp_all add: gc_ok_def)
  show ?thesis
    by (rule wp_mono [OF accessor_answers_tree [where q = "PathExists [''f'']", OF s(1) sample_with_small [OF hollow_tree(1)]]])
      (auto simp: s(2) hollow_tree(2,3) is_canon_def)
qed

section \<open>Adding and reading objects\<close>



text \<open>C22: A NAR added under a path that has no object yet is reported by \<open>queryPathInfo\<close> with exactly the hash, size,
  content address and references it was added with. As before, printing the record may fail.\<close>

theorem added_object_reads_back:
  fixes s :: "('e, 't, 'z) tree_store_scheme"
  assumes "eval_store E N objs s" and "nix_ok N" and "info_ok N info" and "object_fits E (store_view E s) t"
    and "parse_dump N source = Inr t" and "objs (vi_path info) = None"
  shows "wp (thenE (add_to_store E N info source False) (query_path_info E N (vi_path info)))
    (\<lambda>r s'. r = Some info \<and> eval_store E N (objs(vi_path info \<mapsto> t)) s')
    (\<lambda>e _. io_exn e \<or> encode_record N (record_of N info (object_type t) (object_id (blake3 E) t)) = Inl e) s"
proof -
  obtain m mt where m: "es_is E False m mt s" "objects_are N (blake3 E) m mt objs" "m = store_view E s" by (rule eval_storeE [OF assms(1)])
  have drv: "\<not> is_derivation N (vi_path info)" using assms(3) by (simp add: info_ok_def)
  show ?thesis
    unfolding wp_thenE
  proof (rule wp_add_object [OF m(1,2) assms(2,3) _ assms(5)])
    show "object_fits E m t" using assms(4) m(3) by simp
    fix s1 :: "('e, 't, 'z) tree_store_scheme" and m' mt'
    let ?r = "record_of N info (object_type t) (object_id (blake3 E) t)"
    let ?Q = "\<lambda>r s'. r = Some info \<and> eval_store E N (objs(vi_path info \<mapsto> t)) s'"
    let ?R = "\<lambda>e (_ :: ('e, 't, 'z) tree_store_scheme). io_exn e \<or> encode_record N ?r = Inl e"
    assume s1: "es_is E False m' mt' s1" and objs: "objects_are N (blake3 E) m' mt' (new_object (vi_path info) t objs)"
      and r: "objs (vi_path info) = None \<longrightarrow> recorded N mt' (vi_path info) ?r \<and> m' (object_id (blake3 E) t) \<noteq> None"
    have len: "length (pr_root ?r) = kHashLen"
      using object_id_dg [of "blake3 E" t] pack_digest [OF es_isD(4) [OF s1]] by (auto simp: record_of_def)
    have "wp (path_record E N (vi_path info)) (\<lambda>rec. wp (case rec of None \<Rightarrow> ret None
        | Some r \<Rightarrow> bindE (path_info_of N (vi_path info) r) (\<lambda>i. ret (Some i))) ?Q ?R) ?R s1"
    proof (rule wp_record [OF s1 _ len])
      show "recorded N mt' (vi_path info) ?r" using r assms(6) by simp
      show "wp (case Some ?r of None \<Rightarrow> ret None | Some r \<Rightarrow> bindE (path_info_of N (vi_path info) r) (\<lambda>i. ret (Some i))) ?Q ?R s2"
        if "es_is E False m' mt' s2" for s2
        using eval_storeI [OF that objs] assms(6) by (simp add: info_of_record [OF assms(2,3)] wp_simps new_object_def)
    qed (use r assms(6) in \<open>simp_all add: record_of_def\<close>)
    with drv show "wp (query_path_info E N (vi_path info)) ?Q ?R s1" by (simp add: query_path_info_def wp_bindE)
  qed simp_all
qed

theorem added_object_reads_back_witness:
  "wp (thenE (add_to_store sample (sample_nix sample_record sample_object) sample_info ''nar'' False)
      (query_path_info sample (sample_nix sample_record sample_object) ''p''))
    (\<lambda>r _. r = Some sample_info) (\<lambda>e _. io_exn e) (sample_tree_store ''hi'' [])"
proof -
  let ?N = "sample_nix sample_record sample_object"
  have s: "eval_store sample ?N Map.empty (sample_tree_store ''hi'' [])" by (rule sample_eval_store) (simp_all add: sample_fits_def)
  have "object_fits sample (store_view sample (sample_tree_store ''hi'' [])) sample_object"
    using sample_object_fits sample_tree_store_facts(3) [of "''hi''" "[]"] by (simp add: sample_fits_def)
  then have "wp (thenE (add_to_store sample ?N sample_info ''nar'' False) (query_path_info sample ?N (vi_path sample_info)))
      (\<lambda>r s'. r = Some sample_info \<and> eval_store sample ?N (Map.empty(vi_path sample_info \<mapsto> sample_object)) s')
      (\<lambda>e _. io_exn e \<or> encode_record ?N (record_of ?N sample_info (object_type sample_object) (object_id (blake3 sample) sample_object)) = Inl e)
      (sample_tree_store ''hi'' [])"
    by (intro added_object_reads_back [OF s] sample_nix_ok sample_info_ok) (simp_all add: sample_nix_def)
  moreover have "vi_path sample_info = ''p''" by (simp add: sample_info_def)
  ultimately show ?thesis
    by (auto simp: sample_hash_is sample_record_of sample_encodes elim!: wp_mono)
qed

section \<open>The view\<close>


text \<open>A store with one object, a file.\<close>

definition file_record :: path_rec where
  "file_record = \<lparr>pr_type = CHR ''x'', pr_root = sample_hash ''hi'', pr_nar_hash = ''sha'', pr_nar_size = 0, pr_ca = [], pr_refs = []\<rparr>"

definition file_store :: "(tables, tables) tree_store" where
  "file_store = sample_tree_store ''hi'' [(''sp:p'', ''{}''), (''sp:pq'', ''{}'')]"

lemma file_store_facts:
  "es_ok sample file_store" "store_view sample file_store = [sample_hash ''hi'' \<mapsto> ''hi'']" "packs_small file_store"
  "reader_table sample file_store Meta (meta_key kPathPrefix base) = (if base = ''p'' \<or> base = ''pq'' then Some ''{}'' else None)"
  "reader_table sample file_store Meta (meta_key kDrvPrefix base) = None"
proof -
  have fits: "sample_fits ''hi'' [(''sp:p'', ''{}''), (''sp:pq'', ''{}'')]" by (simp add: sample_fits_def)
  note facts = sample_tree_store_facts [OF fits, folded file_store_def]
  show "es_ok sample file_store" using facts(1,2) by (simp add: es_ok_def gc_ok_def)
  show "store_view sample file_store = [sample_hash ''hi'' \<mapsto> ''hi'']" by (rule facts(3))
  show "packs_small file_store" unfolding file_store_def by (rule sample_tree_store_small [OF fits])
  show "reader_table sample file_store Meta (meta_key kPathPrefix base) = (if base = ''p'' \<or> base = ''pq'' then Some ''{}'' else None)"
    "reader_table sample file_store Meta (meta_key kDrvPrefix base) = None"
    by (simp_all add: facts(4)) (simp_all add: meta_key_def kPathPrefix_def kDrvPrefix_def)
qed

lemma file_store_is:
  "eval_store sample (sample_nix file_record t) [''p'' \<mapsto> Regular True ''hi'', ''pq'' \<mapsto> Regular True ''hi''] file_store"
  unfolding eval_store_def objects_are_def
proof (intro conjI allI)
  fix base
  let ?mt = "reader_table sample file_store Meta" and ?N = "sample_nix file_record t"
  have "recorded ?N ?mt base file_record" if "base = ''p'' \<or> base = ''pq''"
    using that by (auto simp: recorded_def file_store_facts sample_nix_def)
  moreover have "holds_object sample_hash (store_view sample file_store) (Regular True ''hi'')" "pr_type file_record = object_type (Regular True ''hi'')"
    "pr_root file_record = object_id sample_hash (Regular True ''hi'')"
    by (simp_all add: holds_object_def file_store_facts file_record_def)
  moreover have "\<not> is_derivation ?N ''p''" "\<not> is_derivation ?N ''pq''" "valid_base ?N base = (base \<noteq> [])" by (simp_all add: sample_nix_def)
  ultimately show "object_at ?N (blake3 sample) (store_view sample file_store) ?mt base
      ([''p'' \<mapsto> Regular True ''hi'', ''pq'' \<mapsto> Regular True ''hi''] base)"
    unfolding object_at_def sample_hash_is file_store_facts(4,5) by auto
qed (rule file_store_facts)


section \<open>Queries\<close>

text \<open>\<open>queryPathFromHashPart\<close> finds the recorded store path with the given hash part, the one with the smallest base name
  if several start with it, store objects before derivations; it finds none exactly when none is recorded, and it leaves blobs and
  records as they are.\<close>

theorem hash_part_finds_path:
  fixes s :: "('e, 't, 'z) tree_store_scheme"
  assumes "es_ok E s" and "\<And>p. reader_table E s Meta (meta_key kPathPrefix p) \<noteq> None \<or>
    reader_table E s Meta (meta_key kDrvPrefix p) \<noteq> None \<Longrightarrow> valid_base N p"
  shows "wp (query_hash_part E N hash_part)
    (\<lambda>res s'. path_with_part (reader_table E s Meta) hash_part res \<and> es_ok E s' \<and> store_view E s' = store_view E s \<and>
       same_records (reader_table E s Meta) (reader_table E s' Meta))
    (\<lambda>e _. io_exn e) s"
  by (rule wp_query_hash_part [OF es_isI [OF assms(1)] assms(2)]) (simp_all add: es_is_def)

theorem hash_part_finds_path_witness:
  "wp (query_hash_part sample (sample_nix file_record sample_object) ''p'') (\<lambda>res _. res = Some ''p'') (\<lambda>e _. io_exn e) file_store"
proof (rule wp_mono [OF hash_part_finds_path [OF file_store_facts(1)]])
  fix p
  assume "reader_table sample file_store Meta (meta_key kPathPrefix p) \<noteq> None \<or> reader_table sample file_store Meta (meta_key kDrvPrefix p) \<noteq> None"
  then show "valid_base (sample_nix file_record sample_object) p" by (auto simp: file_store_facts sample_nix_def split: if_splits)
next
  fix res s'
  assume "path_with_part (reader_table sample file_store Meta) ''p'' res \<and> es_ok sample s' \<and> store_view sample s' = store_view sample file_store \<and>
    same_records (reader_table sample file_store Meta) (reader_table sample s' Meta)"
  then have res: "first_path (reader_table sample file_store Meta) kPathPrefix ''p'' res" by (auto simp: path_with_part_def first_path_def file_store_facts)
  then obtain p where p: "res = Some p" "p = ''p'' \<or> p = ''pq''" "p \<le> ''p''"
    by (auto simp: first_path_def file_store_facts split: option.splits if_splits)
  then show "res = Some ''p''" by auto
qed simp

text \<open>C25: When a collection has removed the root blob of a recorded path, the next query finds the path invalid and
  removes its record, and no other; the path can then be added again.\<close>

theorem collected_object_is_forgotten:
  fixes s :: "('e, 't, 'z) tree_store_scheme"
  assumes "es_ok E s" and "\<not> is_derivation N path" and "recorded N (reader_table E s Meta) path r"
    and "length (pr_root r) = kHashLen" and "store_view E s (pr_root r) = None"
  shows "wp (is_valid_path E N path)
    (\<lambda>b s'. \<not> b \<and> es_ok E s' \<and> store_view E s' = store_view E s \<and>
       same_records ((reader_table E s Meta)(meta_key kPathPrefix path := None)) (reader_table E s' Meta))
    (\<lambda>e _. io_exn e) s"
proof -
  have "wp (path_record E N path) (\<lambda>rec s'. \<not> rec \<noteq> None \<and> es_ok E s' \<and> store_view E s' = store_view E s \<and>
       same_records ((reader_table E s Meta)(meta_key kPathPrefix path := None)) (reader_table E s' Meta)) (\<lambda>e _. io_exn e) s"
    by (rule wp_record [OF es_isI [OF assms(1)] assms(3,4)]) (use assms(5) in \<open>simp_all add: es_is_def\<close>)
  with assms(2) show ?thesis by (simp add: is_valid_path_def wp_bindE wp_fun_eqs)
qed

theorem collected_object_is_forgotten_witness:
  "wp (is_valid_path sample (sample_nix file_record sample_object) ''p'') (\<lambda>b _. \<not> b) (\<lambda>e _. io_exn e)
    (sample_tree_store ''ho'' [(''sp:p'', ''{}'')])"
proof -
  have "sample_fits ''ho'' [(''sp:p'', ''{}'')]" by (simp add: sample_fits_def)
  note facts = sample_tree_store_facts [OF this]
  show ?thesis
    by (rule wp_mono [OF collected_object_is_forgotten [where r = file_record]])
      (use facts in \<open>auto simp: es_ok_def gc_ok_def recorded_def sample_nix_def file_record_def meta_key_def kPathPrefix_def sample_hash_def kHashLen_def\<close>)
qed

section \<open>Derivations\<close>

text \<open>C23: A derivation that is written reads back as the same derivation at the path its text hashes to, whether it was
  stored before, has been collected since, or is new; the blobs and all other records stay.\<close>

theorem derivation_round_trip:
  fixes s :: "('e, 't, 'z) tree_store_scheme"
  assumes "es_ok E s" and "nix_ok N" and "drv_agrees N (store_view E s) (reader_table E s Meta) drv"
    and "length (unparse_drv N drv) \<le> max_off"
    and "store_view E s (blake3 E (unparse_drv N drv)) \<in> {None, Some (unparse_drv N drv)}"
  shows "wp (bindE (write_derivation E N drv) (read_derivation E N))
    (\<lambda>drv' s'. drv' = drv \<and> es_ok E s' \<and> store_view E s \<subseteq>\<^sub>m store_view E s' \<and>
       (\<forall>k. k \<noteq> meta_key kDrvPrefix (drv_path N drv) \<and> \<not> is_root_key k \<longrightarrow> reader_table E s' Meta k = reader_table E s Meta k))
    (\<lambda>e _. io_exn e) s"
  unfolding wp_bindE
proof (rule wp_write_derivation [OF es_isI [OF assms(1)] assms(3,4)])
  fix s' :: "('e, 't, 'z) tree_store_scheme" and m' mt' h
  assume a: "es_is E False m' mt' s'" "store_view E s \<subseteq>\<^sub>m m'" "mt' (meta_key kDrvPrefix (drv_path N drv)) = Some h" "length h = kHashLen"
    "m' h = Some (unparse_drv N drv)" "\<forall>k. k \<noteq> meta_key kDrvPrefix (drv_path N drv) \<longrightarrow> mt' k = reader_table E s Meta k"
  show "wp (read_derivation E N (drv_path N drv)) (\<lambda>drv' s'. drv' = drv \<and> es_ok E s' \<and> store_view E s \<subseteq>\<^sub>m store_view E s' \<and>
       (\<forall>k. k \<noteq> meta_key kDrvPrefix (drv_path N drv) \<and> \<not> is_root_key k \<longrightarrow> reader_table E s' Meta k = reader_table E s Meta k))
      (\<lambda>e _. io_exn e) s'"
    by (rule wp_read_derivation [OF a(1,3,4,5) assms(2)]) (use a(2,6) in \<open>auto simp: es_is_def same_records_def\<close>)
qed (use assms(5) in auto)

theorem derivation_round_trip_witness:
  "wp (bindE (write_derivation sample (sample_nix file_record sample_object) ''drv'') (read_derivation sample (sample_nix file_record sample_object)))
    (\<lambda>drv' _. drv' = ''drv'') (\<lambda>e _. io_exn e) file_store"
proof -
  let ?N = "sample_nix file_record sample_object"
  have "drv_agrees ?N (store_view sample file_store) (reader_table sample file_store Meta) ''drv''"
    by (simp add: drv_agrees_def file_store_facts)
  moreover have "unparse_drv ?N ''drv'' = ''drv''" by (simp add: sample_nix_def unparse_drv_def)
  moreover have "store_view sample file_store (sample_hash ''drv'') = None" by (simp add: file_store_facts sample_hash_def)
  ultimately show ?thesis
    by (intro wp_mono [OF derivation_round_trip [OF file_store_facts(1) sample_nix_ok]]) (simp_all add: sample_hash_is max_off_def)
qed

end
