(* ===== verification/Ctx_Spec.thy ===== *)
theory Ctx_Spec
  imports Ctx Eval_Spec
begin

text \<open>
  What opening a store promises: after a crash, for a directory of another format, and after a corrupt read.
\<close>



text \<open>C24: A directory of another format, of one that predates formats or with a broken generation record is replaced by an empty store
  of this program's format; if opening it fails, then because a system call did, or because the directory could not be removed
  and is still refused.\<close>

theorem foreign_store_is_replaced:
  fixes s :: "('e, 't, 'z) cas_scheme"
  assumes "platform_ok E" and "foreign_dir E (world s)"
  shows "wp (pack_open E dir) (\<lambda>_ s'. opened E Map.empty [''format'' \<mapsto> kFormat] s') (\<lambda>e _. io_exn e \<or> is_corrupt e) s"
  by (rule wp_pack_open_foreign [OF assms]) (simp_all add: refused_def)

definition old_store :: "(tables, tables) cas" where
  "old_store = sample_one\<lparr>world := (world sample_one)\<lparr>mdb_env := Tables [(''key'', ''value'')] []\<rparr>\<rparr>"

theorem foreign_store_is_replaced_witness:
  "wp (pack_open sample ''store'') (\<lambda>_ s'. store_view sample s' = Map.empty) (\<lambda>e _. io_exn e \<or> is_corrupt e) old_store"
proof (rule wp_mono [OF foreign_store_is_replaced [OF sample_platform]])
  have "files_ok (world sample_one)" using sample_one_ok cas_inv_files by (auto simp: gc_ok_def pack_ok_def)
  then show "foreign_dir sample (world old_store)"
    by (simp add: foreign_dir_def foreign_tables_def old_store_def files_ok_def) (simp add: sample_def)
qed (simp_all add: opened_def)



end
