(* ===== verification/Pack_Growth.thy ===== *)
theory Pack_Growth
  imports Meta_Scan Ingest_Tree
begin

text \<open>
  How long the files get: \<open>put\<close> makes no file longer than the longest one and the new blob together, so a
  store whose blobs fit the mapped range can always be read through views.
\<close>

section \<open>One blob\<close>

text \<open>No file is longer, and the batch appends no further out.\<close>

definition below :: "nat \<Rightarrow> ('e, 't, 'z) cas_scheme \<Rightarrow> bool" where
  "below b s \<longleftrightarrow> (\<forall>i. length (inodes (world s) i) \<le> b) \<and> (wtxn s \<noteq> None \<longrightarrow> unat (pack_end s) \<le> b)"

lemma below_mono: "below b s \<Longrightarrow> b \<le> c \<Longrightarrow> below c s"
  by (auto simp: below_def intro: order_trans)

lemma below_same: "below b s \<Longrightarrow> inodes (world s') = inodes (world s) \<Longrightarrow> wtxn s' = None \<or> wtxn s' = wtxn s \<and> pack_end s' = pack_end s \<Longrightarrow> below b s'"
  by (auto simp: below_def)

lemma below_inode: "below b s \<Longrightarrow> below b (s\<lparr>world := set_inode i c (world s)\<rparr>) \<longleftrightarrow> length c \<le> b"
  by (auto simp: below_def)

lemma below_tick [simp]: "below b (s\<lparr>tick := n\<rparr>) = below b s"
  by (simp add: below_def)

lemma write_at_length: "length (write_at f off d) = max (length f) (off + length d)"
  by (simp add: write_at_def)

lemma wp_pwrite_below:
  assumes "quiet E" and "below b s" and "unat off + length data \<le> b"
    and "\<And>s'. below b s' \<Longrightarrow> wtxn s' = wtxn s \<Longrightarrow> pack_end s' = pack_end s \<Longrightarrow> Q () s'"
    and "\<And>e s'. below b s' \<Longrightarrow> R e s'"
  shows "wp (pwrite_all E fd data off) Q R s"
  using assms(2-)
proof (induction "length data" arbitrary: data off s rule: less_induct)
  case less
  show ?case
  proof (cases "data = []")
    case True
    then show ?thesis unfolding wp_pwrite_all_step [of E fd data] using less.prems(1,3) by simp
  next
    case False
    show ?thesis
      unfolding wp_pwrite_all_step [of E fd data] if_not_P [OF False]
    proof (rule wp_sys_pwrite [OF assms(1) False], unfold sum.case)
      show "wp (sys_err ''pwrite pack'' err) Q R (s\<lparr>tick := n\<rparr>)" for err n
        unfolding sys_err_def by (intro wp_rules less.prems(4)) (use less.prems(1) in simp)
      fix k n
      assume k: "0 < k" "k \<le> length data" "unat off + k \<le> max_off"
      let ?s1 = "s\<lparr>tick := n, world := set_inode fd (write_at (inodes (world s) fd) (unat off) (take k data)) (world s)\<rparr>"
      have off1: "unat (off + of_nat k) = unat off + k" by (rule unat_add_max_off [OF k(3)])
      have s1: "below b ?s1"
        using less.prems(1,2) k(2) by (auto simp: below_def write_at_length)
      show "wp (pwrite_all E fd (drop k data) (off + of_nat k)) Q R ?s1"
      proof (rule less.hyps [OF _ s1])
        show "length (drop k data) < length data" using k False by simp
        show "unat (off + of_nat k) + length (drop k data) \<le> b" unfolding off1 using less.prems(2) k(2) by simp
        show "Q () s'" if "below b s'" "wtxn s' = wtxn ?s1" "pack_end s' = pack_end ?s1" for s'
          using less.prems(3) [OF that(1)] that(2,3) by simp
      qed (rule less.prems(4))
    qed
  qed
qed

lemma wp_sync_below:
  assumes "quiet E" and "below b s"
  shows "wp (sync E) (\<lambda>_. below b) (\<lambda>_. below b) s"
  unfolding sync_def commit_batch_def current_def use_batch_def batch_done_def set_map_size_def sys_err_def mdb_check_def
  by (intro wp_rules wp_env_sync wp_deref_any wp_txn_commit_files assms(1)) (use assms(2) in \<open>simp_all add: below_def\<close>)

lemma size_below: "length c \<le> b \<Longrightarrow> unat (of_nat (length c) :: u64) \<le> b"
  by (simp add: unat_of_nat)

lemma below_link: "below b s \<Longrightarrow> below b (s\<lparr>world := link_new n (world s)\<rparr>)"
  by (auto simp: below_def link_new_def)

lemma wp_map_pack_below:
  assumes "quiet E" and s: "\<forall>i. length (inodes (world s) i) \<le> b" 
    and Q: "\<And>r s'. \<forall>i. length (inodes (world s') i) \<le> b \<Longrightarrow> wtxn s' = wtxn s \<Longrightarrow> Q r s'"
    and R: "\<And>e s'. \<forall>i. length (inodes (world s') i) \<le> b \<Longrightarrow> R e s'"
  shows "wp (mapping_for E gen creat) Q R s"
  unfolding mapping_for_def map_pack_def sys_err_def
  by (intro wp_rules assms(1)) (auto intro!: Q R simp: s link_new_def install_mapping_def split: option.split)

lemma wp_begin_below:
  assumes "quiet E" and "below b s"
  shows "wp (begin_batch E) (\<lambda>_ s'. below b s' \<and> wtxn s' \<noteq> None) (\<lambda>_. below b) s"
  unfolding begin_batch_def txn_begin_def batch_ends_def drop_batch_def set_map_size_def mdb_check_def
  apply (intro wp_rules wp_map_pack_below wp_deref_any assms(1)) 
  apply (use assms(2) in \<open>simp_all add: below_def size_below\<close>)
  done

lemma wp_lookup_below:
  assumes "quiet E" and s: "below b s"
    and "\<And>r n. Q r (s\<lparr>tick := n\<rparr>)" and "\<And>e n. R e (s\<lparr>tick := n\<rparr>)" and "\<And>r. Q r s" and "\<And>e. R e s"
  shows "wp (lookup E hash want_gen) Q R s"
  unfolding lookup_def read_txn_def txn_begin_def use_batch_def mdb_check_def
  by (intro wp_rules wp_deref_any assms(1)) (simp_all add: assms(3-))

lemma wp_append_below:
  fixes s :: "('e, 't, 'z) cas_scheme"
  assumes E: "quiet E" "lz4_ok E" and s: "below b s" "wtxn s \<noteq> None"
  shows "wp (append_blob E hash data) (\<lambda>_. below (b + length data)) (\<lambda>_. below (b + length data)) s"
proof -
  let ?n = "length (stored_form E data)" and ?b = "b + length data"
  have n: "?n \<le> length data" by (rule stored_form_length [OF E(2)])
  have s': "below ?b s" by (rule below_mono [OF s(1)]) simp
  have "wp (pwrite_all E fd (stored_form E data) (pack_end s)) (\<lambda>_. wp (index_blob E hash e (of_nat ?n)) (\<lambda>_. below ?b) (\<lambda>_. below ?b)) (\<lambda>_. below ?b) s" for fd e
  proof (rule wp_pwrite_below [OF E(1) s'])
    show "unat (pack_end s) + ?n \<le> ?b" using s n by (simp add: below_def)
    fix s1 :: "('e, 't, 'z) cas_scheme"
    assume s1: "below ?b s1" "wtxn s1 = wtxn s" "pack_end s1 = pack_end s"
    have "unat (pack_end s + of_nat ?n) \<le> ?b"
    proof -
      have "unat (pack_end s + of_nat ?n) \<le> unat (pack_end s) + unat (of_nat ?n :: u64)" by (simp add: unat_word_ariths)
      also have "unat (of_nat ?n :: u64) \<le> length data" by (rule size_below [OF n])
      finally show ?thesis using s by (simp add: below_def)
    qed
    then show "wp (index_blob E hash e (of_nat ?n)) (\<lambda>_. below ?b) (\<lambda>_. below ?b) s1"
      unfolding index_blob_def use_batch_def auto_sync_def mdb_check_def
      by (intro wp_rules wp_deref_any wp_sync_below E(1)) (use s1 s in \<open>simp_all add: below_def\<close>)
  qed
  then show ?thesis
    unfolding append_blob_def Let_def current_def
    by (intro wp_rules wp_deref_any) (use s' in \<open>simp_all\<close>)
qed

lemma wp_put_below:
  fixes s :: "('e, 't, 'z) cas_scheme"
  assumes E: "quiet E" "lz4_ok E" and s: "below b s"
  shows "wp (put E data) (\<lambda>_. below (b + length data)) (\<lambda>_. below (b + length data)) s"
proof -
  let ?b = "b + length data"
  have s': "below ?b s'" if "below b s'" for s' :: "('e, 't, 'z) cas_scheme" by (rule below_mono [OF that]) simp
  have find: "wp (bindE (lookup E (blake3 E data) False) (\<lambda>(found, _).
      if found \<noteq> None then ret (blake3 E data) else thenE (append_blob E (blake3 E data) data) (ret (blake3 E data)))) (\<lambda>_. below ?b) (\<lambda>_. below ?b) s1"
    if s1: "below b s1" "wtxn s1 \<noteq> None" for s1 :: "('e, 't, 'z) cas_scheme"
    by (intro wp_rules wp_lookup_below wp_mono [OF wp_append_below] E) (use s1 s' in simp_all)
  show ?thesis
    unfolding put_def Let_def wp_thenE
  proof (rule wp_mono [of "need_batch E" "\<lambda>_ s'. below b s' \<and> wtxn s' \<noteq> None" "\<lambda>_. below b"])
    show "wp (need_batch E) (\<lambda>_ s'. below b s' \<and> wtxn s' \<noteq> None) (\<lambda>_. below b) s"
      unfolding need_batch_def by (intro wp_rules wp_begin_below E) (use s in simp_all)
  qed (use find s' in simp_all)
qed

text \<open>A blob that is there already is not written again.\<close>

lemma wp_put_again_below:
  fixes s :: "('e, 't, 'z) cas_scheme"
  assumes ok: "platform_ok E" and inv: "cas_inv E s" and mine: "own_batch E s" and s: "below b s"
    and there: "store_view E s (blake3 E data) \<noteq> None"
  shows "wp (put E data) (\<lambda>_. below b) (\<lambda>_ _. True) s"
  unfolding put_def Let_def wp_thenE
proof (rule wp_mono [OF wp_conj [of "need_batch E"]])
  show "wp (need_batch E) (\<lambda>_ s'. cas_inv E s' \<and> same_store E s s') (\<lambda>_ _. True) s"
    by (rule wp_need_batch [OF ok inv mine]) simp_all
  show "wp (need_batch E) (\<lambda>_. below b) (\<lambda>_ _. True) s"
    unfolding need_batch_def by (intro wp_rules wp_mono [OF wp_begin_below] platform_okD [OF ok]) (use s in auto)
  fix u s1
  assume a: "(cas_inv E s1 \<and> same_store E s s1) \<and> below b s1"
  then obtain g i where live: "live_pack E (world s1) g i" by (auto simp: cas_inv_idle idle_inv_def)
  have inv1: "cas_inv E s1" and view: "store_view E s1 = store_view E s" using a by (simp_all add: same_store_def)
  show "wp (bindE (lookup E (blake3 E data) False) (\<lambda>(found, _).
      if found \<noteq> None then ret (blake3 E data) else thenE (append_blob E (blake3 E data) data) (ret (blake3 E data)))) (\<lambda>_. below b) (\<lambda>_ _. True) s1"
    unfolding wp_bindE
    by (rule wp_lookup [OF ok inv1 live]) (use a there in \<open>auto simp: found_ok_def view wp_ret kHashLen_def platform_okD(4) [OF ok] split: option.splits\<close>)
qed simp

section \<open>Many blobs\<close>

text \<open>Since the store held \<open>m\<close> and no file was longer than \<open>b\<close>, the files have grown by no more than the new blobs.\<close>

definition grown :: "('e, 't) platform \<Rightarrow> (bytes \<Rightarrow> bytes option) \<Rightarrow> nat \<Rightarrow> ('e, 't, 'z) cas_scheme \<Rightarrow> bool" where
  "grown E m b s \<longleftrightarrow> m \<subseteq>\<^sub>m store_view E s \<and> (\<exists>new. finite new \<and> new \<subseteq> dom (store_view E s) - dom m \<and>
     below (b + (\<Sum>h\<in>new. length (the (store_view E s h)))) s)"

lemma grown_start: "below b s \<Longrightarrow> grown E (store_view E s) b s"
  by (auto simp: grown_def intro: exI [of _ "{}"])

lemma grown_same: "grown E m b s \<Longrightarrow> store_view E s' = store_view E s \<Longrightarrow> (\<And>c. below c s \<Longrightarrow> below c s') \<Longrightarrow> grown E m b s'"
  unfolding grown_def by metis

lemma grown_put:
  assumes g: "grown E m b s" and m': "store_view E s' = [h \<mapsto> d] ++ store_view E s" and s': "\<And>c. below c s \<Longrightarrow> below (c + length d) s'"
    and same: "store_view E s h \<noteq> None \<Longrightarrow> (\<And>c. below c s \<Longrightarrow> below c s')"
  shows "grown E m b s'"
proof -
  obtain new where new: "m \<subseteq>\<^sub>m store_view E s" "finite new" "new \<subseteq> dom (store_view E s) - dom m"
    "below (b + (\<Sum>h\<in>new. length (the (store_view E s h)))) s"
    using g by (auto simp: grown_def)
  show ?thesis
  proof (cases "store_view E s h")
    case (Some x)
    then have "store_view E s' = store_view E s" using m' by (auto simp: map_add_def fun_eq_iff split: option.split)
    then show ?thesis by (rule grown_same [OF g]) (use same Some in simp)
  next
    case None
    then have view: "store_view E s' = (store_view E s)(h \<mapsto> d)" using m' by (auto simp: map_add_def fun_eq_iff split: option.split)
    have h: "h \<notin> new" "h \<notin> dom m" using None new(1,3) unfolding map_le_def by (blast, force)
    then have "(\<Sum>k\<in>insert h new. length (the (store_view E s' k))) = length d + (\<Sum>k\<in>new. length (the (store_view E s k)))"
      using new(2) by (simp add: view) (rule sum.cong, auto)
    with s' [OF new(4)] new h show ?thesis
      unfolding grown_def by (intro conjI exI [of _ "insert h new"]) (auto simp: view map_le_def add_ac)
  qed
qed

lemma wp_forall: "(\<And>x. wp m (Q x) (R x) s) \<Longrightarrow> wp m (\<lambda>a s'. \<forall>x. Q x a s') (\<lambda>e s'. \<forall>x. R x e s') s"
  by (cases "m s"; cases "fst (m s)") (simp_all add: wp_def)

lemma grown_mapped:
  assumes ok: "pack_ok E s" and g: "grown E m b s" and live: "live_pack E (world s) g i" and mp: "mapped g s s'"
  shows "grown E m b s'"
  by (rule grown_same [OF g mapped_pack_ok(2) [OF ok live mp]]) (simp add: below_def mapped_fields [OF mp])

lemma wp_put_grown:
  fixes s :: "('e, 't, 'z) cas_scheme"
  assumes ok: "pack_ok E s" and g: "grown E m b s" and len: "length d \<le> max_off"
  shows "wp (put E d) (\<lambda>h s'. h = blake3 E d \<and> (pack_ok E s' \<and> grown E m b s') \<and>
      store_view E s' = [blake3 E d \<mapsto> d] ++ store_view E s \<and> pack_rest E s' = pack_rest E s) (\<lambda>e s'. io_exn e) s"
proof -
  have p: "platform_ok E" "cas_inv E s" "own_batch E s" using ok by (simp_all add: pack_ok_def)
  have "wp (put E d) (\<lambda>_ s'. below c s \<longrightarrow> below (c + length d) s' \<and> (store_view E s (blake3 E d) \<noteq> None \<longrightarrow> below c s')) (\<lambda>_ _. True) s" for c
  proof (cases "below c s")
    case True
    note a = wp_put_below [OF platform_okD(3,1) [OF p(1)] True, of d]
    show ?thesis
    proof (cases "store_view E s (blake3 E d)")
      case None
      with a show ?thesis by (auto elim: wp_mono)
    next
      case (Some x)
      then have "wp (put E d) (\<lambda>_. below c) (\<lambda>_ _. True) s" by (intro wp_put_again_below [OF p True]) simp
      from wp_conj [OF a this] show ?thesis by (rule wp_mono) simp_all
    qed
  qed (simp add: wp_def split: prod.split sum.split)
  from wp_conj [OF pack.store [OF ok len] wp_forall [OF this]] show ?thesis
    by (rule wp_mono) (auto intro: grown_put [OF g])
qed

interpretation grown: blob_store "\<lambda>s. pack_ok E s \<and> grown E m b s" "store_view E" "pack_rest E" "get E" "blake3 E" "put E" for E m b
proof (unfold_locales, goal_cases)
  case (1 s h)
  then obtain g i where s: "platform_ok E" "cas_inv E s" "live_pack E (world s) g i" by (blast elim: pack_okE)
  with 1 show ?case
    by (intro wp_get [OF s 1(2)]) (auto simp: mapped_pack_ok [OF _ s(3)] intro: grown_mapped [OF _ _ s(3)])
next
  case (5 s d)
  then show ?case by (intro wp_put_grown) simp_all
qed (use get_bad_length pack.digest_length pack.contents_digest in blast)+

text \<open>What the new blobs come to.\<close>

lemma grown_below:
  fixes ds :: "bytes list"
  assumes ok: "pack_ok E s" and g: "grown E m b s" and m: "store_view E s = blobs (blake3 E) ds ++ m"
  shows "below (b + sum_list (map length ds)) s"
proof -
  let ?v = "\<lambda>h. the (store_view E s h)"
  obtain new where new: "finite new" "new \<subseteq> dom (store_view E s) - dom m" "below (b + (\<Sum>h\<in>new. length (?v h))) s"
    using g by (auto simp: grown_def)
  have hash: "blake3 E (?v h) = h" "?v h \<in> set ds" if "h \<in> new" for h
  proof -
    obtain d where d: "store_view E s h = Some d" "m h = None" using new(2) \<open>h \<in> new\<close> by fastforce
    then show "blake3 E (?v h) = h" using pack.contents_digest [OF ok] by simp
    have "blobs (blake3 E) ds h = Some d" using d by (simp add: m map_add_def split: option.splits)
    then show "?v h \<in> set ds" using d(1) by (auto simp: blobs_def dest!: map_of_SomeD)
  qed
  have inj: "inj_on ?v new" by (rule inj_on_inverseI [where g = "blake3 E"]) (rule hash(1))
  have "(\<Sum>h\<in>new. length (?v h)) = (\<Sum>d\<in>?v ` new. length d)" by (simp add: sum.reindex [OF inj])
  also have "\<dots> \<le> (\<Sum>d\<in>set ds. length d)" by (rule sum_mono2) (use hash(2) in auto)
  also have "\<dots> \<le> sum_list (map length ds)" by (induction ds) (auto simp: sum.insert_if)
  finally show ?thesis using below_mono [OF new(3)] by simp
qed

end
