(* ===== verification/Ingest_Store.thy ===== *)
theory Ingest_Store
  imports Pack_Growth Eval_Inv Ingest_Tree
begin

text \<open>
  \<open>ingest_archive\<close> on the pack: the tree of the archive is in the store, registered and committed, and the packs are
  no longer than the blobs account for. The collection it ends with is not due.
\<close>

section \<open>Steps that leave the collection's interval\<close>

definition es_at ::
  "('e, 't) platform \<Rightarrow> bool \<Rightarrow> u64 \<Rightarrow> (bytes \<Rightarrow> bytes option) \<Rightarrow> (bytes \<Rightarrow> bytes option) \<Rightarrow> ('e, 't, 'z) tree_store_scheme \<Rightarrow> bool" where
  "es_at E sm I m mt s \<longleftrightarrow> es_is E sm m mt s \<and> gc_interval_ns s = I"

lemma es_atD:
  assumes "es_at E sm I m mt s"
  shows "es_is E sm m mt s" "platform_ok E" "quiet E" "pack_ok E s" "store_view E s = m" "gc_interval_ns s = I"
  using assms es_isD [of E sm m mt s] platform_okD(3) by (auto simp: es_at_def)

lemma es_at_tick [simp]: "es_at E sm I m mt (s\<lparr>tick := n\<rparr>) = es_at E sm I m mt s"
  by (simp add: es_at_def)

lemma wp_at_put:
  fixes s :: "('e, 't, 'z) tree_store_scheme"
  assumes s: "es_at E sm I m mt s" and Q: "\<And>s'. es_at E sm I m mt s' \<Longrightarrow> Q () s'" and R: "\<And>e s'. io_exn e \<Longrightarrow> R e s'"
  shows "wp (meta_put E (root_key root tree) val) Q R s"
proof -
  note es = es_atD(1) [OF s]
  have "wp (meta_put E (root_key root tree) val) (\<lambda>_ s'. gc_interval_ns s' = I) (\<lambda>e s'. io_exn e) s"
    by (rule wp_meta_put [OF es_isD(1-3) [OF es]]) (use more_members(3) s in \<open>auto simp: meta_done_def es_at_def\<close>)
  moreover have "wp (meta_put E (root_key root tree) val) (\<lambda>_ s'. es_is E sm m mt s') (\<lambda>e s'. io_exn e) s"
    by (rule wp_es_put [OF es]) (simp_all add: es_is_root)
  ultimately have "wp (meta_put E (root_key root tree) val) (\<lambda>a s'. gc_interval_ns s' = I \<and> es_is E sm m mt s')
      (\<lambda>e s'. io_exn e \<and> io_exn e) s"
    by (rule wp_conj)
  then show ?thesis by (rule wp_mono) (auto simp: es_at_def intro: Q R)
qed

lemma wp_at_register:
  fixes s :: "('e, 't, 'z) tree_store_scheme"
  assumes s: "es_at E sm I m mt s" and Q: "\<And>s'. es_at E sm I m mt s' \<Longrightarrow> Q () s'" and R: "\<And>e s'. io_exn e \<Longrightarrow> R e s'"
  shows "wp (register_root E root tree) Q R s"
  unfolding register_root_def wp_bindE
  by (rule wp_now_ns [OF es_atD(3) [OF s]]) (rule wp_at_put, use s Q R in simp_all)

lemma wp_at_flush:
  fixes s :: "('e, 't, 'z) tree_store_scheme"
  assumes s: "es_at E sm I m mt s" and Q: "\<And>s'. es_at E sm I m mt s' \<Longrightarrow> Q () s'" and R: "\<And>e s'. io_exn e \<Longrightarrow> R e s'"
  shows "wp (flush_touches E) Q R s"
proof -
  have roots: "\<forall>x\<in>set (pending_touch s). \<exists>root tree. fst x = root_key root tree"
    using s by (simp add: es_at_def es_is_def es_ok_def touches_ok_def)
  have s1: "es_at E sm I m mt (s\<lparr>pending_touch := []\<rparr>)"
    using s by (simp add: es_at_def es_is_def es_ok_def pack_ok_def touches_ok_def)
  have "wp (forE (pending_touch s) (\<lambda>x. meta_put E (fst x) (be64 (snd x)))) (\<lambda>_. es_at E sm I m mt) R (s\<lparr>pending_touch := []\<rparr>)"
  proof (rule wp_forE_inv [where I = "es_at E sm I m mt", OF _ s1])
    fix x and s' :: "('e, 't, 'z) tree_store_scheme"
    assume x: "x \<in> set (pending_touch s)" and s': "es_at E sm I m mt s'"
    from roots x obtain root tree where k: "fst x = root_key root tree" by blast
    show "wp (meta_put E (fst x) (be64 (snd x))) (\<lambda>_. es_at E sm I m mt) R s'"
      unfolding k by (rule wp_at_put [OF s']) (simp_all add: R)
  qed
  then have "wp (forE (pending_touch s) (\<lambda>x. meta_put E (fst x) (be64 (snd x)))) Q R (s\<lparr>pending_touch := []\<rparr>)"
    by (rule wp_mono) (auto intro: Q)
  then show ?thesis by (simp add: flush_touches_def wp_simps)
qed

lemma wp_at_sync:
  fixes s :: "('e, 't, 'z) tree_store_scheme"
  assumes s: "es_at E sm I m mt s" and Q: "\<And>s'. es_at E sm I m mt s' \<Longrightarrow> Q () s'" and R: "\<And>e s'. io_exn e \<Longrightarrow> R e s'"
  shows "wp (sync_store E) Q R s"
  unfolding sync_store_def wp_thenE
proof (rule wp_at_flush [OF s _ R])
  fix s1 :: "('e, 't, 'z) tree_store_scheme"
  assume s1: "es_at E sm I m mt s1"
  note es = es_atD(1) [OF s1]
  have "wp (sync E) (\<lambda>_. synced E s1) (\<lambda>e s'. io_exn e) s1"
    by (rule wp_sync_own [OF es_isD(1-3) [OF es]]) simp_all
  from wp_conj [OF this sync_files [OF es_atD(3) [OF s1]]] show "wp (sync E) Q R s1"
  proof (rule wp_mono)
    fix u s'
    assume a: "synced E s1 s' \<and> same_files s1 s'"
    then have y: "synced E s1 s'" by simp
    then have "pending_touch s' = pending_touch s1" "gc_interval_ns s' = gc_interval_ns s1" by (intro more_members; simp add: synced_def)+
    with s1 y a packs_small_files [of s1 s'] have "es_at E sm I m mt s'"
      by (simp add: es_at_def es_is_def es_ok_def pack_ok_def touches_ok_def synced_def own_batch_def store_view_none
        reader_table_def [of E s'] batch_txn_def committed_tables_def)
    then show "Q u s'" using Q by simp
  qed (simp add: R)
qed

text \<open>A collection that ran less than an interval ago, whatever the clock says during the run.\<close>

definition gc_rests :: "('e, 't) platform \<Rightarrow> u64 \<Rightarrow> (bytes \<Rightarrow> bytes option) \<Rightarrow> bool" where
  "gc_rests E I mt \<longleftrightarrow> (\<exists>v. mt ''lastgc'' = Some v \<and> is_timestamp v \<and> (\<forall>n. clock E n - rbe64 v < I))"

lemma lastgc_not_root [simp]: "\<not> is_root_key ''lastgc''"
  by (auto simp: is_root_key_def root_key_def)

lemma wp_at_maybe_gc:
  fixes s :: "('e, 't, 'z) tree_store_scheme"
  assumes s: "es_at E sm I m mt s" and rests: "gc_rests E I mt"
    and Q: "\<And>s'. es_at E sm I m mt s' \<Longrightarrow> Q () s'" and R: "\<And>e s'. io_exn e \<Longrightarrow> R e s'"
  shows "wp (maybe_gc E) Q R s"
  unfolding maybe_gc_def wp_thenE [of "flush_touches E"]
proof (rule wp_at_flush [OF s _ R])
  fix s1 :: "('e, 't, 'z) tree_store_scheme"
  assume s1: "es_at E sm I m mt s1"
  obtain v where v: "mt ''lastgc'' = Some v" "is_timestamp v" "clock E n - rbe64 v < I" for n using rests by (auto simp: gc_rests_def)
  have "wp (meta_get E ''lastgc'') (\<lambda>stamp. wp (bindE (readS gc_interval_ns) (\<lambda>interval.
     if (case stamp of None \<Rightarrow> False | Some v \<Rightarrow> is_timestamp v \<and> clock E (tick s1) - rbe64 v < interval) then ret ()
     else thenE (meta_put E ''lastgc'' (be64 (clock E (tick s1))))
       (bindE (expire_roots E ''R'' (clock E (tick s1))) (\<lambda>m. bindE (expire_roots E ''B'' (clock E (tick s1))) (\<lambda>n.
        whenE (m + n \<noteq> 0) (collect E)))))) Q R) R (s1\<lparr>tick := n\<rparr>)" for n
  proof (rule wp_meta_get)
    have es: "es_is E sm m mt (s1\<lparr>tick := n\<rparr>)" using es_atD(1) [OF s1] by simp
    show "platform_ok E" "cas_inv E (s1\<lparr>tick := n\<rparr>)" using es_isD(1,2) [OF es] .
    show "wp (bindE (readS gc_interval_ns) (\<lambda>interval.
     if (case reader_table E (s1\<lparr>tick := n\<rparr>) Meta ''lastgc'' of None \<Rightarrow> False | Some v \<Rightarrow> is_timestamp v \<and> clock E (tick s1) - rbe64 v < interval) then ret ()
     else thenE (meta_put E ''lastgc'' (be64 (clock E (tick s1))))
       (bindE (expire_roots E ''R'' (clock E (tick s1))) (\<lambda>m. bindE (expire_roots E ''B'' (clock E (tick s1))) (\<lambda>n.
        whenE (m + n \<noteq> 0) (collect E)))))) Q R (s1\<lparr>tick := n, tick := n'\<rparr>)" for n'
      using es_isD(6) [OF es lastgc_not_root] v s1 Q by (simp add: wp_simps es_at_def)
  qed (rule R)
  then show "wp (bindE (now_ns E) (\<lambda>now. bindE (meta_get E ''lastgc'') (\<lambda>stamp.
     bindE (readS gc_interval_ns) (\<lambda>interval.
     if (case stamp of None \<Rightarrow> False | Some v \<Rightarrow> is_timestamp v \<and> now - rbe64 v < interval) then ret ()
     else thenE (meta_put E ''lastgc'' (be64 now))
       (bindE (expire_roots E ''R'' now) (\<lambda>m. bindE (expire_roots E ''B'' now) (\<lambda>n.
        whenE (m + n \<noteq> 0) (collect E)))))))) Q R s1"
    by (simp add: now_ns_def wp_bindE wp_thenE wp_readS wp_sys_eq [OF es_atD(3) [OF s1]] wp_ret)
qed

section \<open>Ingesting\<close>

lemma tree_ok_distinct: "tree_ok es \<Longrightarrow> e \<in> set es \<Longrightarrow> entry_named es (te_name e) = Some e"
  by (auto simp: tree_ok_def in_set_conv_nth intro: entry_named_nth)

lemma wp_ingest_archive:
  fixes s :: "('e, 't, 'z) tree_store_scheme"
  assumes s: "es_ok E s" and rests: "gc_rests E (gc_interval_ns s) (reader_table E s Meta)"
    and size: "\<forall>d\<in>set (ingest_blobs (blake3 E) arc). length d \<le> max_off" "\<forall>item\<in>set (fst (archive_items arc)). length (ti_data item) \<le> max_off"
    and free: "no_collision (blake3 E) (store_view E s) (ingest_blobs (blake3 E) arc)"
    and small: "sm \<longrightarrow> below b s \<and> b + sum_list (map length (ingest_blobs (blake3 E) arc)) \<le> kMapSize"
    and Q: "\<And>root files fs s'. tar_tree arc = Some fs \<Longrightarrow> holds_tree (store_view E s') root fs \<Longrightarrow>
      es_at E sm (gc_interval_ns s) (blobs (blake3 E) (ingest_blobs (blake3 E) arc) ++ store_view E s) (reader_table E s Meta) s' \<Longrightarrow>
      Q \<lparr>ir_root = root, ir_files = files\<rparr> s'"
    and R: "\<And>e s'. io_exn e \<Longrightarrow> R e s'"
  shows "wp (ingest_archive E arc) Q R s"
proof -
  let ?I = "gc_interval_ns s" and ?mt = "reader_table E s Meta" and ?ds = "ingest_blobs (blake3 E) arc"
  let ?m = "blobs (blake3 E) ?ds ++ store_view E s"
  let ?h = "merkle (blake3 E) (fst (ingest_local (blake3 E) arc))"
  have ok: "pack_ok E s" using s by (simp add: es_ok_def)
  obtain c where c: "below c s" "sm \<Longrightarrow> c + sum_list (map length ?ds) \<le> kMapSize"
  proof (cases sm)
    case False
    have "\<forall>i. length (inodes (world s) i) \<le> max_off"
      using cas_inv_files [of E s] ok by (auto simp: pack_ok_def intro: files_ok_length)
    then have "below (max max_off (unat (pack_end s))) s" by (simp add: below_def le_max_iff_disj)
    with False that show ?thesis by blast
  qed (use small that in blast)
  show ?thesis
    unfolding ingest_archive_def wp_bindE
  proof (rule grown.wp_ingest_tree [OF conjI [OF ok grown_start [OF c(1)]] size free])
    fix fs and s1 :: "('e, 't, 'z) tree_store_scheme"
    assume a: "tar_tree arc = Some fs" "pack_ok E s1 \<and> grown E (store_view E s) c s1" "holds_tree (store_view E s1) ?h fs" "store_view E s1 = ?m" "pack_rest E s1 = pack_rest E s"
    have "pending_touch s1 = pending_touch s" "gc_interval_ns s1 = ?I"
      using a(5) by (intro more_members; simp add: pack_rest_def)+
    moreover have "packs_small s1" if sm
      using grown_below [OF _ _ a(4)] a(2) c(2) [OF that] by (auto simp: packs_small_def below_def intro: order_trans)
    ultimately have s1: "es_at E sm ?I ?m ?mt s1"
      using a s by (simp add: es_at_def es_is_def es_ok_def touches_ok_def pack_rest_def)
    have fin: "Q \<lparr>ir_root = ?h, ir_files = files\<rparr> s'" if "es_at E sm ?I ?m ?mt s'" for files s'
      by (rule Q [OF a(1) _ that]) (use a(3) in \<open>simp add: es_atD(5) [OF that] a(4)\<close>)
    have "wp (register_root E ?h True) (\<lambda>_. wp (sync_store E) (\<lambda>_. wp (maybe_gc E) (\<lambda>_. Q \<lparr>ir_root = ?h, ir_files = files\<rparr>) R) R) R s1" for files
      by (rule wp_at_register [OF s1] wp_at_sync wp_at_maybe_gc fin R rests | assumption)+
    then show "wp (case (?h, snd (ingest_local (blake3 E) arc)) of (h, files) \<Rightarrow> thenE (register_root E h True)
        (thenE (sync_store E) (thenE (maybe_gc E) (ret \<lparr>ir_root = h, ir_files = files\<rparr>)))) Q R s1"
      by (simp add: wp_simps wp_fun_eqs)
  qed (rule R)
qed

end
