(* ===== verification/Fetch_Inv.thy ===== *)
theory Fetch_Inv
  imports Fetcher Ctx_Spec Ingest_Store
begin

text \<open>
  What fetching leaves in the store: the tree of the archive, its single top-level directory stripped. The collection
  that an ingest ends with is not due, so the store keeps all it has.
\<close>

section \<open>The stripped directory\<close>

text \<open>What stripping does to the tree of an archive: the only entry of its root, if it is a directory, takes its place.\<close>

definition only_dir :: "fs_map \<Rightarrow> bytes \<Rightarrow> bool" where
  "only_dir fs n \<longleftrightarrow> fs [n] = Some Dir \<and> (\<forall>k. fs [k] \<noteq> None \<longrightarrow> k = n)"

definition stripped :: "fs_map \<Rightarrow> fs_map \<Rightarrow> bool" where
  "stripped fs fs' \<longleftrightarrow> (\<exists>n. only_dir fs n \<and> fs' = (\<lambda>p. fs (n # p))) \<or> (\<forall>n. \<not> only_dir fs n) \<and> fs' = fs"

lemma holds_tree_root:
  assumes "holds_tree m root fs"
  obtains es where "tree_at m root = Some es"
  using assms [unfolded holds_tree_def, THEN spec [of _ "[]"]] by (auto simp: root_entry_def)

lemma holds_tree_named:
  assumes "holds_tree m root fs" and "tree_at m root = Some es"
  shows "fs [n] \<noteq> None \<longleftrightarrow> entry_named es n \<noteq> None"
    "fs [n] = Some Dir \<longleftrightarrow> (\<exists>e. entry_named es n = Some e \<and> te_type e = CHR ''d'')"
  using assms(1) [unfolded holds_tree_def, THEN spec [of _ "[n]"]] assms(2)
  by (auto simp: root_entry_def split: option.splits if_splits)

lemma walk_same: "te_type e = te_type e' \<Longrightarrow> te_id e = te_id e' \<Longrightarrow> p \<noteq> [] \<Longrightarrow> walk m e p = walk m e' p"
  by (cases p) simp_all

lemma holds_tree_sub:
  assumes h: "holds_tree m root fs" and es: "tree_at m root = Some es" and e: "entry_named es n = Some e" "te_type e = CHR ''d''"
  shows "holds_tree m (te_id e) (\<lambda>p. fs (n # p))"
  unfolding holds_tree_def
proof
  fix p
  have at: "walk m (root_entry root) (n # p) = walk m e p" using es e by (simp add: root_entry_def)
  note here = h [unfolded holds_tree_def, THEN spec [of _ "n # p"], unfolded at]
  show "case walk m (root_entry (te_id e)) p of None \<Rightarrow> fs (n # p) = None
     | Some e \<Rightarrow> if te_type e = CHR ''d'' then fs (n # p) = Some Dir \<and> tree_at m (te_id e) \<noteq> None
         else \<exists>d. m (te_id e) = Some d \<and> fs (n # p) = Some (File (te_type e) d)"
  proof (cases "p = []")
    case True
    with here e(2) show ?thesis by (simp add: root_entry_def)
  next
    case False
    with here walk_same [of "root_entry (te_id e)" e p m] e(2) show ?thesis by (simp add: root_entry_def)
  qed
qed

text \<open>The code's test for a single directory.\<close>

lemma stripped_entry:
  assumes h: "holds_tree m root fs" and es: "tree_at m root = Some [e]" and e: "te_type e = CHR ''d''"
  shows "holds_tree m (te_id e) (\<lambda>p. fs (te_name e # p)) \<and> stripped fs (\<lambda>p. fs (te_name e # p))"
proof -
  have named: "entry_named [e] n = (if n = te_name e then Some e else None)" for n by (simp add: entry_named_def)
  have "only_dir fs (te_name e)"
    using holds_tree_named [OF h es] e by (simp add: only_dir_def named)
  moreover have "holds_tree m (te_id e) (\<lambda>p. fs (te_name e # p))"
    by (rule holds_tree_sub [OF h es _ e]) (simp add: named)
  ultimately show ?thesis by (auto simp: stripped_def)
qed

lemma stripped_none:
  assumes h: "holds_tree m root fs" and es: "tree_at m root = Some es" and e: "\<And>e. es = [e] \<Longrightarrow> te_type e \<noteq> CHR ''d''"
  shows "stripped fs fs"
proof -
  have ok: "tree_ok es" by (rule tree_at_ok [OF es])
  have "\<not> only_dir fs n" for n
  proof
    assume n: "only_dir fs n"
    then obtain d where d: "entry_named es n = Some d" "te_type d = CHR ''d''"
      using holds_tree_named(2) [OF h es] by (auto simp: only_dir_def)
    then have mem: "d \<in> set es" "te_name d = n" by (auto simp: entry_named_def dest!: map_of_SomeD)
    have all: "x = d" if x: "x \<in> set es" for x
    proof -
      have "entry_named es (te_name x) = Some x" by (rule tree_ok_distinct [OF ok x])
      then have "te_name x = n" using n holds_tree_named(1) [OF h es, of "te_name x"] by (auto simp: only_dir_def)
      with \<open>entry_named es (te_name x) = Some x\<close> d(1) show ?thesis by simp
    qed
    have "sorted_wrt (<) (map te_name es)" using ok by (simp add: tree_ok_def)
    then have "distinct es" by (auto simp: strict_sorted_iff distinct_map)
    have "es = [d]"
    proof (cases es)
      case (Cons x xs)
      then have "x = d" using all by simp
      moreover have "xs = []"
      proof (rule ccontr)
        assume "xs \<noteq> []"
        then have "hd xs \<in> set xs" by simp
        with Cons all [of "hd xs"] \<open>x = d\<close> \<open>distinct es\<close> show False by simp
      qed
      ultimately show ?thesis using Cons by simp
    qed (use mem(1) in simp)
    with e d(2) show False by blast
  qed
  then show ?thesis by (simp add: stripped_def)
qed

lemma wp_at_read:
  fixes s :: "('e, 't, 'z) tree_store_scheme"
  assumes s: "es_at E False I m mt s" and h: "tree_at m h = Some es"
    and Q: "\<And>s'. es_at E False I m mt s' \<Longrightarrow> Q es s'" and R: "\<And>e s'. io_exn e \<Longrightarrow> R e s'"
  shows "wp (read_tree (get E) h) Q R s"
proof -
  note ok = es_atD(4) [OF s]
  obtain d where d: "m h = Some d" using h by (auto simp: tree_at_Some)
  then have "length h = kHashLen"
    using pack.digest_length [OF ok] pack.contents_digest [OF ok, of h d] es_atD(5) [OF s] by auto
  then show ?thesis
  proof (rule pack.wp_read_tree [OF ok])
    fix es' and s' :: "('e, 't, 'z) tree_store_scheme"
    assume t: "tree_at (store_view E s) h = Some es'" and k: "pack.kept E s s'"
    then have "pending_touch s' = pending_touch s" "gc_interval_ns s' = gc_interval_ns s"
      by (intro more_members; simp add: pack.kept_def pack_rest_def)+
    with s k have "es_at E False I m mt s'"
      by (simp add: es_at_def es_is_def es_ok_def pack.kept_def pack_rest_def touches_ok_def)
    with Q t h es_atD(5) [OF s] show "Q es' s'" by simp
  qed (use R h es_atD(5) [OF s] in auto)
qed

lemma wp_strip_top:
  fixes s :: "('e, 't, 'z) tree_store_scheme"
  assumes s: "es_at E False I m mt s" and h: "holds_tree m root fs"
    and Q: "\<And>root' fs' s'. es_at E False I m mt s' \<Longrightarrow> stripped fs fs' \<Longrightarrow> holds_tree m root' fs' \<Longrightarrow> Q root' s'"
    and R: "\<And>e s'. io_exn e \<Longrightarrow> R e s'"
  shows "wp (strip_top E root) Q R s"
proof -
  obtain es where es: "tree_at m root = Some es" by (rule holds_tree_root [OF h])
  show ?thesis
    unfolding strip_top_def wp_bindE [of "read_tree (get E) root"]
  proof (rule wp_at_read [OF s es _ R])
    fix s1 :: "('e, 't, 'z) tree_store_scheme"
    assume s1: "es_at E False I m mt s1"
    show "wp (case es of [e] \<Rightarrow> if te_type e = CHR ''d'' then thenE (register_root E (te_id e) True) (ret (te_id e)) else ret root
        | _ \<Rightarrow> ret root) Q R s1"
    proof (cases "\<exists>e. es = [e] \<and> te_type e = CHR ''d''")
      case True
      then obtain e where e: "es = [e]" "te_type e = CHR ''d''" by blast
      note sub = stripped_entry [OF h es [unfolded e(1)] e(2)]
      have "wp (register_root E (te_id e) True) (\<lambda>_. Q (te_id e)) R s1"
        by (rule wp_at_register [OF s1]) (use sub Q R in auto)
      with e show ?thesis by (simp add: wp_simps wp_fun_eqs)
    next
      case False
      have "stripped fs fs" by (rule stripped_none [OF h es]) (use False in blast)
      with False Q [OF s1 _ h] show ?thesis by (auto simp: wp_simps split: list.split)
    qed
  qed
qed

lemma wp_fetch_tree:
  fixes s :: "('e, 't, 'z) tree_store_scheme"
  assumes s: "es_ok E s" and rests: "gc_rests E (gc_interval_ns s) (reader_table E s Meta)"
    and size: "\<forall>d\<in>set (ingest_blobs (blake3 E) arc). length d \<le> max_off" "\<forall>item\<in>set (fst (archive_items arc)). length (ti_data item) \<le> max_off"
    and free: "no_collision (blake3 E) (store_view E s) (ingest_blobs (blake3 E) arc)"
    and Q: "\<And>root fs fs' s'. tar_tree arc = Some fs \<Longrightarrow> stripped fs fs' \<Longrightarrow> holds_tree (store_view E s') root fs' \<Longrightarrow> es_ok E s' \<Longrightarrow>
      store_view E s' = blobs (blake3 E) (ingest_blobs (blake3 E) arc) ++ store_view E s \<Longrightarrow> same_records (reader_table E s Meta) (reader_table E s' Meta) \<Longrightarrow> Q root s'"
    and R: "\<And>e s'. io_exn e \<Longrightarrow> R e s'"
  shows "wp (fetch_tree E arc) Q R s"
proof -
  let ?I = "gc_interval_ns s" and ?mt = "reader_table E s Meta"
  let ?m = "blobs (blake3 E) (ingest_blobs (blake3 E) arc) ++ store_view E s"
  have ok: "pack_ok E s" using s by (simp add: es_ok_def)
  have strip: "wp (strip_top E h) Q R s1"
    if "tar_tree arc = Some fs" "holds_tree ?m h fs" "es_at E False ?I ?m ?mt s1" for h fs s1
    by (rule wp_strip_top [OF that(3,2)]) (use that(1) Q R in \<open>auto simp: es_at_def es_is_def\<close>)
  show ?thesis
    unfolding fetch_tree_def wp_bindE
    by (rule wp_ingest_archive [where sm = False, OF s rests size free _ _ R]) (auto intro: strip simp: es_atD(5))
qed

section \<open>Broken transfers\<close>

abbreviation cache_is :: "'c \<Rightarrow> 's \<times> 'c fetch_state \<Rightarrow> bool" where
  "cache_is c sf \<equiv> fs_cache (snd sf) = c"

lemma wp_ctx_here_cache: "cache_is c sf \<Longrightarrow> (\<And>sf'. cache_is c sf' \<Longrightarrow> Q () sf') \<Longrightarrow> (\<And>e sf'. cache_is c sf' \<Longrightarrow> R e sf') \<Longrightarrow> wp (ctx_here E dir) Q R sf"
  by (auto simp: ctx_here_def wp_def split: prod.split sum.split)

lemma wp_broken_fetch:
  assumes la: "heeds_failure la" "interrupted rd la r" and opened: "open_archive rd la url r = (response, r')" and sf: "cache_is c sf"
  shows "wp (bindE (liftE response) (\<lambda>arc. bindE (on_store (fetch_tree E arc)) (g arc))) (\<lambda>_ _. False) (\<lambda>_. cache_is c) sf"
proof (cases response)
  case (Inr arc)
  have "wp (fetch_tree E arc) (\<lambda>_ _. False) (\<lambda>_ _. True) (fst sf)"
    unfolding fetch_tree_def wp_bindE
    by (rule wp_mono [OF ingest_unusable [OF interrupted_archive [OF la opened [unfolded Inr]]]]) simp_all
  then have "wp (on_store (fetch_tree E arc)) (\<lambda>_ _. False) (\<lambda>_. cache_is c) sf"
    unfolding wp_on_store by (rule wp_mono) (simp_all add: sf)
  then have "wp (on_store (fetch_tree E arc)) (\<lambda>a. wp (g arc a) (\<lambda>_ _. False) (\<lambda>_. cache_is c)) (\<lambda>_. cache_is c) sf"
    by (rule wp_mono) simp_all
  then show ?thesis by (simp add: Inr wp_simps)
qed (simp add: wp_simps sf)

lemma wp_seq_cache:
  assumes "wp m Q (\<lambda>_. cache_is c) sf" and "\<And>a sf'. Q a sf' \<Longrightarrow> wp (f a) (\<lambda>_ _. False) (\<lambda>_. cache_is c) sf'"
  shows "wp (bindE m f) (\<lambda>_ _. False) (\<lambda>_. cache_is c) sf"
  unfolding wp_bindE by (rule wp_mono [OF assms(1)]) (use assms(2) in auto)

lemma wp_broken_download:
  assumes la: "heeds_failure (libarchive L)" "\<And>etag. interrupted (source_read L) (libarchive L) (transfer L url etag)" and sf: "cache_is c sf"
  shows "wp (download E X L dir url hit) (\<lambda>_ _. False) (\<lambda>_. cache_is c) sf"
proof -
  have tag: "wp (case hit of None \<Rightarrow> ret None | Some (v, _) \<Rightarrow> bindE (liftE (str_attr v ''etag'')) (\<lambda>t. ret (Some t))) (\<lambda>_. cache_is c) (\<lambda>_. cache_is c) sf1"
    if "cache_is c sf1" for sf1
    using that by (cases hit) (auto simp: wp_simps wp_ret split: prod.split sum.split)
  show ?thesis
    unfolding download_def thenE_def [of "ctx_here _ _"]
  proof (rule wp_seq_cache)
    show "wp (ctx_here E dir) (\<lambda>_. cache_is c) (\<lambda>_. cache_is c) sf" by (rule wp_ctx_here_cache [OF sf]) simp_all
  qed (erule wp_seq_cache [OF tag], auto split: prod.split intro: wp_broken_fetch [OF la])
qed

lemma checked_cache_hit: "wp (checked_cache E hit) (\<lambda>r _. r = None \<or> r = hit) (\<lambda>_ _. True) s"
proof -
  have caught: "wp (case e of CorruptError _ \<Rightarrow> thenE (poison E) (ret None) | _ \<Rightarrow> throw e) (\<lambda>r _. r = None \<or> r = hit) (\<lambda>_ _. True) s'" for e s'
    by (cases e) (auto simp: wp_simps intro: wp_mono [OF wp_any])
  show ?thesis
  proof (cases hit)
    case (Some x)
    then obtain v b where x: "hit = Some (v, b)" by (cases x) auto
    have "wp (bindE (cached_tree E v) (\<lambda>present. ret (if present then hit else None))) (\<lambda>r _. r = None \<or> r = hit) (\<lambda>_ _. True) s"
      unfolding wp_bindE by (rule wp_mono [OF wp_any]) (auto simp: wp_ret)
    then show ?thesis
      unfolding checked_cache_def x option.case prod.case wp_tryE by (rule wp_mono) (use caught in \<open>simp_all add: x\<close>)
  qed (simp add: checked_cache_def wp_ret)
qed

lemma wp_broken_answer:
  assumes la: "heeds_failure (libarchive L)" "\<And>etag. interrupted (source_read L) (libarchive L) (transfer L url etag)"
    and old: "\<And>v. cache_lookup L c key \<noteq> Some (v, False)" and sf: "cache_is c sf"
  shows "wp (bindE get_local (\<lambda>f. bindE (on_store (checked_cache E (cache_lookup L (fs_cache f) key))) (\<lambda>hit.
      bindE (case hit of Some (v, False) \<Rightarrow> ret v | _ \<Rightarrow> bindE (download E X L dir url hit) (g hit)) (k hit)))) (\<lambda>_ _. False) (\<lambda>_. cache_is c) sf"
proof -
  have fetch: "wp (case hit of Some (v, False) \<Rightarrow> ret v | _ \<Rightarrow> bindE (download E X L dir url hit) (g hit)) (\<lambda>_ _. False) (\<lambda>_. cache_is c) sf1"
    if "\<forall>v. hit \<noteq> Some (v, False)" "cache_is c sf1" for hit sf1
  proof -
    have "wp (bindE (download E X L dir url hit) (g hit)) (\<lambda>_ _. False) (\<lambda>_. cache_is c) sf1"
      by (rule wp_seq_cache [OF wp_broken_download [OF la]]) (use that in auto)
    with that(1) show ?thesis by (auto split: option.split prod.split bool.split)
  qed
  have "wp (on_store (checked_cache E (cache_lookup L c key))) (\<lambda>hit sf'. (\<forall>v. hit \<noteq> Some (v, False)) \<and> cache_is c sf') (\<lambda>_. cache_is c) sf"
    unfolding wp_on_store by (rule wp_mono [OF checked_cache_hit]) (use old sf in \<open>auto simp: eq_commute [of "Some _"]\<close>)
  then have "wp (bindE (on_store (checked_cache E (cache_lookup L c key))) (\<lambda>hit.
      bindE (case hit of Some (v, False) \<Rightarrow> ret v | _ \<Rightarrow> bindE (download E X L dir url hit) (g hit)) (k hit))) (\<lambda>_ _. False) (\<lambda>_. cache_is c) sf"
  proof (rule wp_seq_cache)
    show "wp (bindE (case hit of Some (v, False) \<Rightarrow> ret v | _ \<Rightarrow> bindE (download E X L dir url hit) (g hit)) (k hit)) (\<lambda>_ _. False) (\<lambda>_. cache_is c) sf1"
      if "(\<forall>v. hit \<noteq> Some (v, False)) \<and> cache_is c sf1" for hit sf1
      by (rule wp_seq_cache [OF fetch]) (use that in auto)
  qed
  with sf show ?thesis by (simp add: wp_bindE [of get_local] wp_get_local)
qed

end
