(* ===== verification/Fetch_Spec.thy ===== *)
theory Fetch_Spec
  imports Fetch_Inv
begin

text \<open>
  What the tarball fetcher promises: the tree of an archive, an answer from the cache, and URLs that lock.
\<close>

section \<open>Fetching an archive\<close>

text \<open>C18: What a fetch answers is the tree of the archive: when the archive can be read and stored, the store holds below the answered
  root the tree that the archive says, and if that tree is nothing but one directory, then what is in this directory. All that was in
  the store stays, nothing but the archive's blobs is added, and of the records only the stamps of roots change. The collection that
  ends an ingest is not due; system calls may fail at any point.\<close>

theorem fetched_tree_is_archive:
  fixes s :: "('e, 't, 'z) tree_store_scheme"
  assumes "es_ok E s" and "gc_rests E (gc_interval_ns s) (reader_table E s Meta)"
    and "\<forall>d\<in>set (ingest_blobs (blake3 E) arc). length d \<le> max_off"
    and "\<forall>item\<in>set (fst (archive_items arc)). length (ti_data item) \<le> max_off"
    and "no_collision (blake3 E) (store_view E s) (ingest_blobs (blake3 E) arc)"
  shows "wp (fetch_tree E arc)
    (\<lambda>root s'. (\<exists>fs fs'. tar_tree arc = Some fs \<and> stripped fs fs' \<and> holds_tree (store_view E s') root fs') \<and> es_ok E s' \<and>
       store_view E s' = blobs (blake3 E) (ingest_blobs (blake3 E) arc) ++ store_view E s \<and>
       same_records (reader_table E s Meta) (reader_table E s' Meta))
    (\<lambda>e _. io_exn e) s"
  by (rule wp_fetch_tree [OF assms]) auto

text \<open>A store whose last collection is as old as the clock, and that waits as long as it can for the next.\<close>

definition resting_store :: "(tables, tables) tree_store" where
  "resting_store = (sample_tree_store ''.'' [(''lastgc'', be64 0)])\<lparr>gc_interval_ns := -1\<rparr>"

lemma resting_facts:
  "es_ok sample resting_store" "gc_rests sample (gc_interval_ns resting_store) (reader_table sample resting_store Meta)"
  "store_view sample resting_store = [sample_hash ''.'' \<mapsto> ''.'']"
proof -
  have fits: "sample_fits ''.'' [(''lastgc'', be64 0)]" by (simp add: sample_fits_def)
  note f = sample_tree_store_facts [OF fits]
  have same: "cas_inv E (s\<lparr>gc_interval_ns := i\<rparr>) = cas_inv E s" "own_batch E (s\<lparr>gc_interval_ns := i\<rparr>) = own_batch E s"
    "reader_table E (s\<lparr>gc_interval_ns := i\<rparr>) = reader_table E s" "store_view E (s\<lparr>gc_interval_ns := i\<rparr>) = store_view E s"
    for E :: "('e, 't) platform" and s :: "('e, 't, 'z) tree_store_scheme" and i
    by (simp_all add: cas_inv_def handle_maps_inv_def maps_below_def batch_inv_def batch_at_def map_at_def own_batch_def
        reader_table_def batch_txn_def store_view_def batch_view_def cong: option.case_cong)
  show "es_ok sample resting_store" "store_view sample resting_store = [sample_hash ''.'' \<mapsto> ''.'']"
    using f by (simp_all add: resting_store_def same es_ok_def gc_ok_def pack_ok_def touches_ok_def)
  have "n * 1000 < (-1 :: u64)" for n
  proof -
    have "even (n * 1000)" "odd (-1 :: u64)" by simp_all
    then have "n * 1000 \<noteq> -1" by metis
    then show ?thesis by (simp add: word_order.not_eq_extremum)
  qed
  moreover have "rbe64 (be64 0) = 0" "is_timestamp (be64 0)" by code_simp+
  ultimately show "gc_rests sample (gc_interval_ns resting_store) (reader_table sample resting_store Meta)"
    using f(4) by (auto simp: resting_store_def same gc_rests_def) (simp add: sample_def)
qed

text \<open>The sample archive has the single directory \<open>d\<close>.\<close>

lemma sample_stripped:
  assumes "tar_tree sample_archive = Some fs" and "stripped fs fs'"
  shows "fs' [''f''] = Some (File (CHR ''r'') ''hi'')"
proof -
  have fs: "fs = inserted [[] \<mapsto> Dir] [''d'', ''f''] (File (CHR ''r'') ''hi'')"
    using assms(1) by (simp add: tar_tree_def sample_archive_items tar_apply_def tar_entry_def split_path_def split_loop.simps
      kMaxNameLen_def kMaxTreeDepth_def split: if_splits)
  have "only_dir fs n \<longleftrightarrow> n = ''d''" for n by (auto simp: only_dir_def fs inserted_def strict_prefix_def)
  moreover have "fs [''d'', ''f''] = Some (File (CHR ''r'') ''hi'')" by (simp add: fs inserted_def)
  ultimately show ?thesis using assms(2) by (auto simp: stripped_def)
qed

theorem fetched_tree_is_archive_witness:
  "wp (fetch_tree sample sample_archive)
    (\<lambda>root s'. \<exists>e. walk (store_view sample s') (root_entry root) [''f''] = Some e \<and> store_view sample s' (te_id e) = Some ''hi'')
    (\<lambda>e _. io_exn e) resting_store"
proof (rule wp_mono [OF fetched_tree_is_archive [OF resting_facts(1,2)]])
  show "\<forall>d\<in>set (ingest_blobs (blake3 sample) sample_archive). length d \<le> max_off"
    "\<forall>item\<in>set (fst (archive_items sample_archive)). length (ti_data item) \<le> max_off"
    using sample_ingest_ok by simp_all
  show "no_collision (blake3 sample) (store_view sample resting_store) (ingest_blobs (blake3 sample) sample_archive)"
    unfolding no_collision_def resting_facts(3) by (simp add: sample_ingest) (simp add: tree_entry_bytes_def sample_hash_def)
  fix root and s' :: "(tables, tables) tree_store"
  assume "(\<exists>fs fs'. tar_tree sample_archive = Some fs \<and> stripped fs fs' \<and> holds_tree (store_view sample s') root fs') \<and> es_ok sample s' \<and>
     store_view sample s' = blobs (blake3 sample) (ingest_blobs (blake3 sample) sample_archive) ++ store_view sample resting_store \<and>
     same_records (reader_table sample resting_store Meta) (reader_table sample s' Meta)"
  then obtain fs fs' where fs: "tar_tree sample_archive = Some fs" "stripped fs fs'" "holds_tree (store_view sample s') root fs'" by blast
  from fs(3) [unfolded holds_tree_def, THEN spec [of _ "[''f'']"]] sample_stripped [OF fs(1,2)]
  show "\<exists>e. walk (store_view sample s') (root_entry root) [''f''] = Some e \<and> store_view sample s' (te_id e) = Some ''hi''"
    by (auto simp del: walk.simps split: option.splits if_splits)
qed

section \<open>The fetcher cache\<close>

lemma wp_here: "m s = (Inr a, s) \<Longrightarrow> wp m Q R s = Q a s"
  by (simp add: wp_def)

lemma wp_checked_cache:
  fixes s :: "('e, 't, 'z) tree_store_scheme"
  assumes s: "es_is E sm m mt s" and root: "str_attr info ''root'' = Inr (to_hex root)" "m root \<noteq> None"
    and Q: "\<And>s'. es_is E sm m mt s' \<Longrightarrow> Q (Some (info, expired)) s'" and R: "\<And>e s'. io_exn e \<Longrightarrow> R e s'"
  shows "wp (checked_cache E (Some (info, expired))) Q R s"
proof -
  note ok = es_isD(4) [OF s]
  have len: "length root = kHashLen"
    using root(2) pack.digest_length [OF ok] pack.contents_digest [OF ok, of root] es_isD(5) [OF s] by auto
  have "wp (has E root) (\<lambda>present. wp (ret (if present then Some (info, expired) else None)) Q R) (\<lambda>e s'. io_exn e) s"
    by (rule wp_es_has [OF s len]) (use root(2) Q in \<open>simp_all add: wp_ret\<close>)
  then show ?thesis
    unfolding checked_cache_def
    by (auto simp: wp_tryE wp_simps cached_tree_def root from_hex_to_hex has_tree_def wp_fun_eqs R elim!: wp_mono elim: io_exn.elims)
qed

text \<open>C20: A cached answer that has not expired and whose tree is in the store is given without a transfer: the accessor has the cached
  root, the input is locked with the cached NAR hash (and is the immutable one if the answer has an immutable URL), and neither the
  blobs nor the fetcher cache change.\<close>

theorem cached_tree_is_not_fetched:
  fixes s :: "('e, 't, 'z) tree_store_scheme"
  assumes "es_ok E s" and "fs_made f" and "str_attr input ''url'' = Inr url"
    and "cache_lookup L (fs_cache f) (TarmacKey url) = Some (info, False)"
    and "str_attr info ''root'' = Inr (to_hex root)" and "store_view E s root \<noteq> None"
    and "str_attr info ''narHash'' = Inr sri" and "locked_input L input info = Inr locked"
  shows "wp (get_accessor E X L dir input)
    (\<lambda>(r, input') (s', f'). r = root \<and> input' = locked(''narHash'' \<mapsto> AString sri) \<and> f' = f \<and> es_ok E s' \<and>
       store_view E s' = store_view E s \<and> same_records (reader_table E s Meta) (reader_table E s' Meta))
    (\<lambda>e (s', f'). io_exn e \<and> f' = f) (s, f)"
proof -
  let ?m = "store_view E s" and ?mt = "reader_table E s Meta"
  let ?Q = "\<lambda>(r, input') (s', f'). r = root \<and> input' = locked(''narHash'' \<mapsto> AString sri) \<and> f' = f \<and> es_ok E s' \<and>
       store_view E s' = ?m \<and> same_records ?mt (reader_table E s' Meta)"
  let ?R = "\<lambda>e (s', f'). io_exn e \<and> f' = f"
  have here: "ctx_here E dir (s, f) = (Inr (), (s, f))"
    using assms(2) by (simp add: ctx_here_def ctx_get_def prog_defs whenE_def)
  have "wp (touch_root E root True) (\<lambda>_ s2. ?Q (root, locked(''narHash'' \<mapsto> AString sri)) (s2, f)) (\<lambda>e s2. io_exn e) s1"
    if "es_is E False ?m ?mt s1" for s1 :: "('e, 't, 'z) tree_store_scheme"
    by (rule wp_es_touch [OF that]) (auto simp: es_is_def)
  then have "wp (checked_cache E (Some (info, False))) (\<lambda>hit s1. hit = Some (info, False) \<and>
      wp (touch_root E root True) (\<lambda>_ s2. ?Q (root, locked(''narHash'' \<mapsto> AString sri)) (s2, f)) (\<lambda>e s2. io_exn e) s1) (\<lambda>e _. io_exn e) s"
    by (intro wp_checked_cache [OF es_isI [OF assms(1)] assms(5,6)]) auto
  then have "wp (checked_cache E (Some (info, False))) (\<lambda>hit s1. wp (case hit of Some (v, False) \<Rightarrow> ret v
        | _ \<Rightarrow> bindE (download E X L dir url hit) (\<lambda>info. thenE (upsert L (TarmacKey url) info) (ret info)))
        (\<lambda>info. wp (bindE (liftE (locked_input L input info)) (\<lambda>locked.
      bindE (liftE (str_attr info ''narHash'')) (\<lambda>sri. bindE (liftE (str_attr info ''root'')) (\<lambda>hex. bindE (liftE (from_hex hex)) (\<lambda>root.
        thenE (on_store (touch_root E root True)) (ret (root, locked(''narHash'' \<mapsto> AString sri)))))))) ?Q ?R) ?R (s1, f)) (\<lambda>e s1. ?R e (s1, f)) s"
    by (rule wp_mono) (use assms in \<open>auto simp: wp_simps wp_on_store from_hex_to_hex wp_fun_eqs\<close>)
  then show ?thesis
    using assms by (simp add: get_accessor_def wp_bindE wp_thenE wp_liftE wp_ret wp_get_local wp_on_store wp_here [where m = "ctx_here E dir" and s = "(s, f)" and a = "()", OF here])
qed

section \<open>URLs\<close>

text \<open>C21: The URL an input is written to in a lock file gives the same input back: for an input with a type, a URL and maybe a NAR hash,
  \<open>toURL\<close> and then \<open>inputFromURL\<close> yield the input's attributes. The URL has a plain transport and the extension of a tarball
  (or a tree is required), and none of the parameters that become attributes; Nix parses and prints its text and the hash alike.\<close>

theorem input_url_round_trip:
  assumes "dom a \<subseteq> {''type'', ''url'', ''narHash''}" and "a ''type'' = Some (AString scheme_name)"
    and "a ''url'' = Some (AString (url_text L u))" and "parse_url L (url_text L u) = Inr u"
    and "parse_scheme L (url_scheme u) = (None, url_scheme u)" and "url_scheme u \<in> set kTransports"
    and "require_tree \<or> has_tarball_extension u"
    and "\<forall>k\<in>{''narHash'', ''rev'', ''revCount'', ''lastModified''}. url_query u k = None"
    and "\<forall>x. a ''narHash'' = Some x \<longrightarrow> (\<exists>h. x = AString (hash_text L h) \<and> parse_hash L (hash_text L h) = Inr h)"
  shows "\<exists>u'. to_url L a = Inr u' \<and> input_from_url L u' require_tree = Some a"
proof (cases "a ''narHash''")
  case None
  then have "a = [''type'' \<mapsto> AString scheme_name, ''url'' \<mapsto> AString (url_text L u)]"
    using assms(1-3) by (intro ext) (auto simp: domIff)
  moreover have "u\<lparr>url_scheme := url_scheme u\<rparr> = u" by simp
  ultimately show ?thesis
    using None assms(3-8) by (simp add: to_url_def str_attr_def maybe_str_attr_def nar_hash_of_def input_from_url_def kTransports_def)
next
  case (Some x)
  then obtain h where h: "x = AString (hash_text L h)" "parse_hash L (hash_text L h) = Inr h" using assms(9) by blast
  let ?u = "u\<lparr>url_query := (url_query u)(''narHash'' \<mapsto> hash_text L h)\<rparr>"
  have a: "a = [''narHash'' \<mapsto> x, ''type'' \<mapsto> AString scheme_name, ''url'' \<mapsto> AString (url_text L u)]"
    using assms(1-3) Some by (intro ext) (auto simp: domIff)
  have erased: "?u\<lparr>url_scheme := url_scheme u, url_query := (url_query ?u)(''narHash'' := None)\<rparr> = u"
    using assms(8) by (simp add: fun_upd_idem)
  have "to_url L a = Inr ?u"
    using Some h assms(3,4) by (simp add: to_url_def str_attr_def maybe_str_attr_def nar_hash_of_def)
  moreover have "has_tarball_extension ?u = has_tarball_extension u" by (simp add: has_tarball_extension_def)
  ultimately show ?thesis
    using erased assms(5-8) by (simp add: input_from_url_def kTransports_def a h(1))
qed

text \<open>A toy Nix that knows one URL and takes any text for a hash.\<close>

definition sample_url :: url where
  "sample_url = \<lparr>url_scheme = ''https'', url_authority = Some ''host'', url_path = [[], ''x.tar.gz''], url_query = Map.empty, url_fragment = []\<rparr>"

text \<open>A libarchive that reads twice: a head and an entry.\<close>

definition sample_reader :: la_reader where
  "sample_reader = Asks (\<lambda>a. if fst a < 0 then Made (Inl None)
     else Asks (\<lambda>b. Made (Inr (if fst b < 0 then Archive [] (NoHeader None) else Archive [] Eof))))"

definition sample_lib :: "(bytes \<Rightarrow> attrs option, bytes, (read_failure + bytes) list) fetch_lib" where
  "sample_lib = \<lparr>parse_scheme = (\<lambda>s. (None, s)), url_text = (\<lambda>_. ''https://host/x.tar.gz''), parse_url = (\<lambda>_. Inr sample_url),
     to_int = (\<lambda>_. None), parse_hash = Inr, hash_text = (\<lambda>h. h), sha_text = Inr, input_of_url = (\<lambda>_. Inl (NixError ''bad'')),
     cache_lookup = (\<lambda>c k. case k of TarmacKey url \<Rightarrow> map_option (\<lambda>v. (v, False)) (c url) | PathHashKey _ \<Rightarrow> None),
     cache_upsert = (\<lambda>c k v. case k of TarmacKey url \<Rightarrow> c(url \<mapsto> v) | PathHashKey _ \<Rightarrow> c),
     transfer = (\<lambda>_ _. [Inr ''head'', Inl (Broken (NixError ''reset''))]),
     source_read = (\<lambda>r n. case r of [] \<Rightarrow> (Inl EndOfFile, []) | x # xs \<Rightarrow> (x, xs)),
     source_result = (\<lambda>_. \<lparr>tr_cached = False, tr_etag = [], tr_immutable = None\<rparr>), libarchive = sample_reader\<rparr>"

theorem input_url_round_trip_witness:
  "\<exists>u'. to_url sample_lib [''type'' \<mapsto> AString ''tarball'', ''url'' \<mapsto> AString ''https://host/x.tar.gz'', ''narHash'' \<mapsto> AString ''sha''] = Inr u' \<and>
     input_from_url sample_lib u' False = Some [''type'' \<mapsto> AString ''tarball'', ''url'' \<mapsto> AString ''https://host/x.tar.gz'', ''narHash'' \<mapsto> AString ''sha'']"
  by (rule input_url_round_trip [where u = sample_url])
    (auto simp: sample_lib_def sample_url_def scheme_name_def kTransports_def has_tarball_extension_def kSuffixes_def suffix_def split: if_splits)

definition sample_info :: attrs where
  "sample_info = [''root'' \<mapsto> AString (to_hex (sample_hash ''hi'')), ''narHash'' \<mapsto> AString ''sha'']"

theorem cached_tree_is_not_fetched_witness:
  "wp (get_accessor sample sample_evp sample_lib ''store'' [''url'' \<mapsto> AString ''https://host/x.tar.gz''])
    (\<lambda>(r, _) (s', _). store_view sample s' r = Some ''hi'') (\<lambda>e _. io_exn e)
    (sample_store, \<lparr>fs_made = True, fs_cache = [''https://host/x.tar.gz'' \<mapsto> sample_info]\<rparr>)"
proof (rule wp_mono [OF cached_tree_is_not_fetched [where root = "sample_hash ''hi''" and sri = "''sha''"]])
  show "es_ok sample sample_store" using sample_store_facts by (simp add: es_ok_def gc_ok_def)
qed (auto simp: sample_store_facts str_attr_def maybe_str_attr_def sample_lib_def sample_info_def locked_input_def)

section \<open>Broken transfers\<close>

text \<open>C19: A transfer that breaks is never taken for an archive that has ended: if the source fails while libarchive still asks for bytes, the
  fetch throws, whatever had been read by then, and puts nothing into the fetcher cache. An archive whose callback has failed is
  unusable for libarchive; no unexpired answer is cached.\<close>

theorem broken_transfer_is_no_answer:
  assumes "heeds_failure (libarchive L)" and "\<And>etag. interrupted (source_read L) (libarchive L) (transfer L url etag)"
    and "str_attr input ''url'' = Inr url" and "\<And>v. cache_lookup L c (TarmacKey url) \<noteq> Some (v, False)"
  shows "wp (get_accessor E X L dir input) (\<lambda>_ _. False) (\<lambda>_ (s', f'). fs_cache f' = c) (s, \<lparr>fs_made = made, fs_cache = c\<rparr>)"
proof -
  have "wp (get_accessor E X L dir input) (\<lambda>_ _. False) (\<lambda>_. cache_is c) (s, \<lparr>fs_made = made, fs_cache = c\<rparr>)"
    unfolding get_accessor_def assms(3) wp_bindE [of "liftE (Inr _)"] wp_liftE sum.case thenE_def [of "ctx_here _ _"]
  proof (rule wp_seq_cache)
    show "wp (ctx_here E dir) (\<lambda>_. cache_is c) (\<lambda>_. cache_is c) (s, \<lparr>fs_made = made, fs_cache = c\<rparr>)"
      by (rule wp_ctx_here_cache) simp_all
  qed (rule wp_broken_answer [OF assms(1,2,4)])
  then show ?thesis by (rule wp_mono) auto
qed

theorem broken_transfer_is_no_answer_witness:
  "wp (get_accessor sample sample_evp sample_lib ''store'' [''url'' \<mapsto> AString ''https://host/x.tar.gz'']) (\<lambda>_ _. False)
    (\<lambda>_ (s', f'). fs_cache f' = Map.empty) (sample_store, \<lparr>fs_made = True, fs_cache = Map.empty\<rparr>)"
proof (rule broken_transfer_is_no_answer)
  show "heeds_failure (libarchive sample_lib)"
    by (simp add: sample_lib_def sample_reader_def unusable_def)
  show "interrupted (source_read sample_lib) (libarchive sample_lib) (transfer sample_lib url etag)" for url etag
    by (simp add: sample_lib_def sample_reader_def read_cb_def)
qed (simp_all add: sample_lib_def str_attr_def maybe_str_attr_def)

end
