(* ===== verification/Peers.thy ===== *)
theory Peers
  imports Compact_Inv
begin

text \<open>
  A directory that other processes work on. \<open>peer_step\<close> is one visible step of a writer that runs this program:
  a write to the pack or to another file, a commit, a new or a removed name, the lock. The lemmas show what is
  stable under such steps: the directory's invariant, what a mapping is of, and the bytes of an index entry that was
  committed once (\<open>pinned\<close>), also when a compaction has moved the store to the next generation since.
\<close>

section \<open>The steps of a writer\<close>

text \<open>All committed entries lie below the offset.\<close>

definition sealed :: "nat \<Rightarrow> (bytes \<Rightarrow> bytes option) \<Rightarrow> bool" where
  "sealed n tbl \<longleftrightarrow> (\<forall>h val e. tbl h = Some val \<longrightarrow> decode_entry val = Inr e \<longrightarrow> unat (ie_off e) + unat (ie_len e) \<le> n)"

text \<open>The name of the lock file, of the marker, of a pack that is being made: no pack of this generation or an older one.\<close>

definition unused_name :: "u64 \<Rightarrow> bytes \<Rightarrow> bool" where
  "unused_name g name \<longleftrightarrow> (\<forall>h\<le>g. name \<noteq> pack_name h)"

inductive peer_step :: "('e, 't) platform \<Rightarrow> 'e world \<Rightarrow> 'e world \<Rightarrow> bool" for E where
  append: "live_pack E w g i \<Longrightarrow> sealed n (mdb_committed E (mdb_env w) Blobs) \<Longrightarrow> take n c = take n (inodes w i) \<Longrightarrow>
    length c \<le> max_off \<Longrightarrow> peer_step E w (set_inode i c w)"
| commit: "live_pack E w g i \<Longrightarrow> table_gen (mdb_committed E e') = Some g \<Longrightarrow>
    mdb_committed E (mdb_env w) Blobs \<subseteq>\<^sub>m mdb_committed E e' Blobs \<Longrightarrow> index_ok E (inodes w i) (mdb_committed E e' Blobs) \<Longrightarrow>
    peer_step E w (w\<lparr>mdb_env := e'\<rparr>)"
| create: "live_pack E w g i \<Longrightarrow> find_inode w name = None \<Longrightarrow> unused_name g name \<Longrightarrow> peer_step E w (link_new name w)"
| fill: "live_pack E w g i \<Longrightarrow> find_inode w name = Some j \<Longrightarrow> unused_name g name \<Longrightarrow> length c \<le> max_off \<Longrightarrow>
    peer_step E w (set_inode j c w)"
| install: "live_pack E w g i \<Longrightarrow> g < g + 1 \<Longrightarrow> find_inode w (pack_name (g + 1)) = Some j \<Longrightarrow>
    table_gen (mdb_committed E e') = Some (g + 1) \<Longrightarrow> index_ok E (inodes w j) (mdb_committed E e' Blobs) \<Longrightarrow>
    peer_step E w (w\<lparr>mdb_env := e'\<rparr>)"
| remove: "live_pack E w g i \<Longrightarrow> name \<noteq> pack_name g \<Longrightarrow> peer_step E w (w\<lparr>dirents := filter (\<lambda>x. fst x \<noteq> name) (dirents w)\<rparr>)"
| lock: "peer_step E w (w\<lparr>flock_owner := x\<rparr>)"

abbreviation peers_run :: "('e, 't) platform \<Rightarrow> 'e world \<Rightarrow> 'e world \<Rightarrow> bool" where
  "peers_run E \<equiv> (peer_step E)\<^sup>*\<^sup>*"

text \<open>What the code relies on when other processes write: before each call they may have made any number of steps.\<close>

definition peers_ok :: "('e, 't) platform \<Rightarrow> bool" where
  "peers_ok E \<longleftrightarrow> lz4_ok E \<and> blake3_ok E \<and> lmdb_ok E \<and> (\<forall>n w. world_inv E w \<longrightarrow> peers_run E w (others E n w))"

section \<open>What is stable\<close>

lemma find_inode_filter: "find_inode (w\<lparr>dirents := filter (\<lambda>x. fst x \<noteq> name) (dirents w)\<rparr>) n = (if n = name then None else find_inode w n)"
proof -
  have "map_of (filter (\<lambda>x. fst x \<noteq> name) xs) n = (if n = name then None else map_of xs n)" for xs :: "(bytes \<times> nat) list"
    by (induction xs) auto
  then show ?thesis by (simp add: find_inode_def)
qed

lemma link_fields:
  "next_inode (link_new name w) = Suc (next_inode w)" "inodes (link_new name w) = (inodes w)(next_inode w := [])"
  "mdb_env (link_new name w) = mdb_env w"
  by (simp_all add: link_new_def)

lemma agree_entry:
  assumes "in_pack c e" and "unat (ie_off e) + unat (ie_len e) \<le> n" and "take n c' = take n c"
  shows "in_pack c' e" "entry_bytes c' e = entry_bytes c e"
proof -
  let ?k = "unat (ie_off e) + unat (ie_len e)"
  have k: "take ?k c' = take ?k c" by (rule take_shorter [OF assms(3,2)])
  have "length (take ?k c) = ?k" using assms(1) by (simp add: in_pack_def)
  then show "in_pack c' e" unfolding k [symmetric] in_pack_def by simp
  have cut: "substr c (unat (ie_off e)) (unat (ie_len e)) = drop (unat (ie_off e)) (take ?k c)" for c :: bytes
    by (simp add: substr_def drop_take)
  show "entry_bytes c' e = entry_bytes c e" unfolding entry_bytes_def cut k ..
qed

lemma index_ok_agree:
  assumes ok: "index_ok E c tbl" and sealed: "sealed n tbl" and c': "take n c' = take n c"
  shows "index_ok E c' tbl"
  unfolding index_ok_def
proof (intro allI impI)
  fix h val
  assume "tbl h = Some val"
  with ok obtain d where d: "length h = kHashLen" "entry_blob E c val = Some d" "blake3 E d = h" by (auto simp: index_ok_def)
  then obtain e where e: "decode_entry val = Inr e" "in_pack c e" "unpack E e (entry_bytes c e) = Inr d" by (auto elim: entry_blobE)
  have n: "unat (ie_off e) + unat (ie_len e) \<le> n" using sealed \<open>tbl h = Some val\<close> e(1) by (simp add: sealed_def)
  note same = agree_entry [OF e(2) n c']
  have "entry_blob E c' val = Some d" by (rule entry_blobI [OF e(1) same(1)]) (simp add: same(2) e(3))
  with d show "length h = kHashLen \<and> (\<exists>d. entry_blob E c' val = Some d \<and> blake3 E d = h)" by blast
qed

lemma files_ok_filter: "files_ok w \<Longrightarrow> files_ok (w\<lparr>dirents := filter P (dirents w)\<rparr>)"
  by (auto simp: files_ok_def distinct_map_filter)

lemma unused_live: "unused_name g name \<Longrightarrow> name \<noteq> pack_name g"
  by (simp add: unused_name_def)

lemma world_invI: "files_ok w \<Longrightarrow> live_pack E w g i \<Longrightarrow> index_ok E (inodes w i) (mdb_committed E (mdb_env w) Blobs) \<Longrightarrow> world_inv E w"
  by (auto simp: world_inv_def)

lemma world_invE:
  assumes "world_inv E w" and "live_pack E w g i"
  shows "files_ok w" "index_ok E (inodes w i) (mdb_committed E (mdb_env w) Blobs)"
proof -
  from assms(1) obtain g' i' where w: "files_ok w" "live_pack E w g' i'" "index_ok E (inodes w i') (mdb_committed E (mdb_env w) Blobs)"
    by (auto simp: world_inv_def)
  have "i' = i" using live_pack_unique [OF assms(2) w(2)] by simp
  with w show "files_ok w" "index_ok E (inodes w i) (mdb_committed E (mdb_env w) Blobs)" by simp_all
qed

lemma peer_step_inv:
  assumes step: "peer_step E w w'" and inv: "world_inv E w"
  shows "world_inv E w'"
  using step
proof cases
  case (append g i n c)
  with world_invE [OF inv append(2)] show ?thesis
    by (intro world_invI [of _ E g i]) (auto simp: live_pack_def intro: index_ok_agree)
next
  case (commit g i e')
  with world_invE [OF inv commit(2)] show ?thesis
    by (intro world_invI [of _ E g i]) (auto simp: live_pack_def files_ok_def find_inode_def)
next
  case (create g i name)
  note w = world_invE [OF inv create(2)]
  have "i < next_inode w" by (rule files_ok_less [OF w(1), of "pack_name g"]) (use create(2) in \<open>simp add: live_pack_def\<close>)
  with create w files_ok_link_new [OF w(1)] show ?thesis
    by (intro world_invI [of _ E g i]) (auto simp: live_pack_def find_link_new link_fields)
next
  case (fill g i name j c)
  note w = world_invE [OF inv fill(2)]
  have "j \<noteq> i" using files_ok_inj [OF w(1) fill(3)] fill(2) unused_live [OF fill(4)] by (auto simp: live_pack_def)
  with fill w show ?thesis by (intro world_invI [of _ E g i]) (auto simp: live_pack_def)
next
  case (install g i j e')
  with world_invE [OF inv install(2)] show ?thesis
    by (intro world_invI [of _ E "g + 1" j]) (auto simp: live_pack_def files_ok_def find_inode_def)
next
  case (remove g i name)
  with world_invE [OF inv remove(2)] show ?thesis
    by (intro world_invI [of _ E g i]) (auto simp: live_pack_def find_inode_filter files_ok_filter)
next
  case (lock x)
  from inv obtain g i where "live_pack E w g i" "files_ok w" "index_ok E (inodes w i) (mdb_committed E (mdb_env w) Blobs)"
    by (auto simp: world_inv_def)
  with lock show ?thesis by (intro world_invI [of _ E g i]) (auto simp: live_pack_def files_ok_def find_inode_def)
qed

text \<open>The descriptor \<open>i\<close> is of the pack of generation \<open>g\<close>, which is the live one or an older one.\<close>

definition file_of :: "('e, 't) platform \<Rightarrow> u64 \<Rightarrow> nat \<Rightarrow> 'e world \<Rightarrow> bool" where
  "file_of E g i w \<longleftrightarrow> i < next_inode w \<and> (\<exists>g'. table_gen (mdb_committed E (mdb_env w)) = Some g' \<and> g \<le> g') \<and>
     (\<forall>name j. find_inode w name = Some j \<longrightarrow> (j = i \<longleftrightarrow> name = pack_name g))"

lemma file_of_live: "world_inv E w \<Longrightarrow> live_pack E w g i \<Longrightarrow> file_of E g i w"
  using world_invE(1) [of E w g i] files_ok_less [of w "pack_name g" i] files_ok_inj [of w "pack_name g" i]
  by (auto simp: file_of_def live_pack_def)

lemma file_of_le: "file_of E g i w \<Longrightarrow> live_pack E w g' i' \<Longrightarrow> g \<le> g'"
  by (auto simp: file_of_def live_pack_def)

lemma file_of_unused: "file_of E g i w \<Longrightarrow> live_pack E w g' i' \<Longrightarrow> unused_name g' name \<Longrightarrow> name \<noteq> pack_name g"
  using file_of_le [of E g i w g' i'] by (auto simp: unused_name_def)

lemma peer_step_file:
  assumes step: "peer_step E w w'" and f: "file_of E g i w"
  shows "file_of E g i w'"
  using step
proof cases
  case (create g0 i0 name)
  with f file_of_unused [OF f create(2,4)] show ?thesis
    by (auto simp: file_of_def find_link_new link_fields split: option.splits if_splits)
next
  case (install g0 i0 j e')
  have "g \<le> g0 + 1" using file_of_le [OF f install(2)] install(3) by simp
  with install f show ?thesis by (auto simp: file_of_def find_inode_def)
next
  case (commit g0 i0 e')
  with f file_of_le [OF f commit(2)] show ?thesis by (auto simp: file_of_def find_inode_def)
next
  case (lock x)
  with f show ?thesis by (auto simp: file_of_def find_inode_def)
qed (use f in \<open>auto simp: file_of_def find_inode_filter\<close>)

text \<open>A committed entry of that generation, and its bytes in the descriptor's file.\<close>

definition pinned :: "('e, 't) platform \<Rightarrow> u64 \<Rightarrow> nat \<Rightarrow> index_entry \<Rightarrow> bytes \<Rightarrow> 'e world \<Rightarrow> bool" where
  "pinned E g i e b w \<longleftrightarrow> file_of E g i w \<and> in_pack (inodes w i) e \<and> entry_bytes (inodes w i) e = b \<and>
     (table_gen (mdb_committed E (mdb_env w)) = Some g \<longrightarrow> find_inode w (pack_name g) = Some i \<and>
       (\<exists>h val. mdb_committed E (mdb_env w) Blobs h = Some val \<and> decode_entry val = Inr e))"

lemma peer_step_pinned:
  assumes step: "peer_step E w w'" and p: "pinned E g i e b w"
  shows "pinned E g i e b w'"
proof -
  have f: "file_of E g i w" using p by (simp add: pinned_def)
  have f': "file_of E g i w'" by (rule peer_step_file [OF step f])
  show ?thesis
    using step
  proof cases
    case (append g0 i0 n c)
    show ?thesis
    proof (cases "i = i0")
      case True
      then have "pack_name g0 = pack_name g" using f append(2) by (auto simp: file_of_def live_pack_def)
      then have "g0 = g" by (simp add: pack_name_inj)
      with p append(2) obtain h val where "mdb_committed E (mdb_env w) Blobs h = Some val" "decode_entry val = Inr e"
        by (auto simp: pinned_def live_pack_def)
      with append(3) have n: "unat (ie_off e) + unat (ie_len e) \<le> n" by (auto simp: sealed_def)
      have "in_pack (inodes w i) e" using p by (simp add: pinned_def)
      from agree_entry [OF this n, of c] append True p f' show ?thesis by (simp add: pinned_def)
    qed (use append p f' in \<open>simp add: pinned_def\<close>)
  next
    case (commit g0 i0 e')
    have "\<exists>h val. mdb_committed E e' Blobs h = Some val \<and> decode_entry val = Inr e"
      if "mdb_committed E (mdb_env w) Blobs h = Some val" "decode_entry val = Inr e" for h val
    proof -
      have "mdb_committed E e' Blobs h = Some val" using commit(4) that(1) unfolding map_le_def dom_def by force
      with that(2) show ?thesis by blast
    qed
    with commit p f' show ?thesis by (auto simp: pinned_def live_pack_def find_inode_def)
  next
    case (create g0 i0 name)
    have "i \<noteq> next_inode w" using f by (simp add: file_of_def)
    with create p f' show ?thesis by (auto simp: pinned_def find_link_new link_fields)
  next
    case (fill g0 i0 name j c)
    have "j \<noteq> i" using f fill(3) file_of_unused [OF f fill(2,4)] by (auto simp: file_of_def)
    with fill p f' show ?thesis by (auto simp: pinned_def)
  next
    case (install g0 i0 j e')
    have "g0 + 1 \<noteq> g" using file_of_le [OF f install(2)] install(3) by auto
    with install p f' show ?thesis by (simp add: pinned_def)
  next
    case (remove g0 i0 name)
    with p f' show ?thesis by (auto simp: pinned_def find_inode_filter live_pack_def)
  next
    case (lock x)
    with p f' show ?thesis by (simp add: pinned_def find_inode_def)
  qed
qed

lemma pinned_live:
  assumes "world_inv E w" and "live_pack E w g i" and "mdb_committed E (mdb_env w) Blobs h = Some val" and "decode_entry val = Inr e"
    and "in_pack (inodes w i) e"
  shows "pinned E g i e (entry_bytes (inodes w i) e) w"
  using assms file_of_live [OF assms(1,2)] by (auto simp: pinned_def live_pack_def)

lemma peers_run_inv: "peers_run E w w' \<Longrightarrow> world_inv E w \<Longrightarrow> world_inv E w'"
  by (induction rule: rtranclp_induct) (auto intro: peer_step_inv)

lemma peers_run_file: "peers_run E w w' \<Longrightarrow> file_of E g i w \<Longrightarrow> file_of E g i w'"
  by (induction rule: rtranclp_induct) (auto intro: peer_step_file)

lemma peers_run_pinned: "peers_run E w w' \<Longrightarrow> pinned E g i e b w \<Longrightarrow> pinned E g i e b w'"
  by (induction rule: rtranclp_induct) (auto intro: peer_step_pinned)

end
