(* ===== verification/Writer.thy ===== *)
theory Writer
  imports Peers
begin

text \<open>
  What one handle does to the directory, seen by others: \<open>put\<close>, the meta table, \<open>sync\<close>, an abort and the destructor leave the
  world at the end of a number of writer's steps (\<open>peers_run\<close>), whatever fails. So a reader's assumption about other
  processes (\<open>peers_ok\<close>) is kept by this program's own writers.
\<close>

section \<open>Steps\<close>

text \<open>The batch adds to the committed index.\<close>

definition batch_adds :: "('e, 't) platform \<Rightarrow> ('e, 't, 'z) cas_scheme \<Rightarrow> bool" where
  "batch_adds E s \<longleftrightarrow> (\<forall>t. wtxn s = Some t \<longrightarrow> mdb_committed E (mdb_env (world s)) Blobs \<subseteq>\<^sub>m mdb_table E t Blobs)"

definition wrote :: "('e, 't) platform \<Rightarrow> 'e world \<Rightarrow> ('e, 't, 'z) cas_scheme \<Rightarrow> bool" where
  "wrote E w s \<longleftrightarrow> peers_run E w (world s) \<and> (wtxn_freed s \<or> batch_adds E s)"

text \<open>Worlds that differ in the lock.\<close>

definition relocked :: "'e world \<Rightarrow> ('e, 't, 'z) cas_scheme \<Rightarrow> bool" where
  "relocked w s \<longleftrightarrow> (world s)\<lparr>flock_owner := None\<rparr> = w\<lparr>flock_owner := None\<rparr>"

lemma relocked_peers:
  assumes "relocked w s"
  shows "peers_run E w (world s)"
proof -
  have "world s = w\<lparr>flock_owner := flock_owner (world s)\<rparr>" using assms by (cases w; cases "world s") (simp add: relocked_def)
  with peer_step.lock [of E w "flock_owner (world s)"] show ?thesis by auto
qed

lemma index_ok_sealed: "index_ok E (take n c) tbl \<Longrightarrow> sealed n tbl"
  unfolding sealed_def
proof (intro allI impI)
  fix h val e
  assume "index_ok E (take n c) tbl" "tbl h = Some val" "decode_entry val = Inr e"
  then obtain d where "entry_blob E (take n c) val = Some d" by (auto simp: index_ok_def)
  with \<open>decode_entry val = Inr e\<close> have "in_pack (take n c) e" by (auto elim: entry_blobE)
  then show "unat (ie_off e) + unat (ie_len e) \<le> n" by (simp add: in_pack_def)
qed

lemma batch_append:
  assumes "idle_inv E g i s" and "batch_at E s t g i p" and "length c \<le> max_off"
    and "take (unat (committed_end s)) c = take (unat (committed_end s)) (inodes (world s) i)"
  shows "peers_run E (world s) (set_inode i c (world s))"
  by (rule r_into_rtranclp, rule peer_step.append [of E _ g i "unat (committed_end s)"])
    (use assms index_ok_sealed in \<open>auto simp: idle_inv_def batch_at_def\<close>)

lemma env_step:
  assumes "idle_inv E g i s" and "table_gen (mdb_committed E e') = Some g"
    and "mdb_committed E (mdb_env (world s)) Blobs \<subseteq>\<^sub>m mdb_committed E e' Blobs"
    and "index_ok E (inodes (world s) i) (mdb_committed E e' Blobs)"
  shows "peers_run E (world s) ((world s)\<lparr>mdb_env := e'\<rparr>)"
  by (rule r_into_rtranclp, rule peer_step.commit [of E _ g i]) (use assms in \<open>simp_all add: idle_inv_def\<close>)

text \<open>A commit of the batch, done or failed.\<close>

lemma batch_commit:
  assumes idle: "idle_inv E g i s" and at: "batch_at E s t g i p" and t: "wtxn s = Some t" and adds: "batch_adds E s"
    and e': "mdb_committed E e' = (if ok then mdb_table E t else mdb_committed E (mdb_env (world s)))"
  shows "peers_run E (world s) ((world s)\<lparr>mdb_env := e'\<rparr>)"
proof (rule env_step [OF idle])
  have "index_ok E (inodes (world s) i) (mdb_table E t Blobs)"
    using at by (auto simp: batch_at_def intro: index_ok_prefix [OF _ prefix_take])
  then show "index_ok E (inodes (world s) i) (mdb_committed E e' Blobs)" using idle e' by (simp add: idle_inv_def)
  show "table_gen (mdb_committed E e') = Some g" using idle at e' by (simp add: idle_inv_def batch_at_def live_pack_def)
  show "mdb_committed E (mdb_env (world s)) Blobs \<subseteq>\<^sub>m mdb_committed E e' Blobs" using e' adds t by (simp add: batch_adds_def)
qed

section \<open>Opening a batch\<close>

lemma relocked_simps [simp]:
  "relocked w (s\<lparr>tick := n\<rparr>) = relocked w s" "relocked w (s\<lparr>wtxn := x\<rparr>) = relocked w s"
  "relocked w (s\<lparr>maps := ms\<rparr>) = relocked w s" "relocked w (s\<lparr>batch_bytes := u\<rparr>) = relocked w s"
  "relocked w (s\<lparr>world := v\<lparr>flock_owner := y\<rparr>\<rparr>) = relocked w (s\<lparr>world := v\<rparr>)"
  by (simp_all add: relocked_def)

lemma relocked_world: "relocked w (s\<lparr>world := world s\<rparr>) = relocked w s"
  by simp

lemma drop_batch_relocked:
  assumes "platform_ok E" and "relocked w s"
  shows "wp (drop_batch E e) Q (\<lambda>_ s'. relocked w s') s"
  unfolding drop_batch_def
  by (intro wp_rules platform_okD(3) [OF assms(1)]) (use assms(2) in \<open>simp_all add: relocked_def\<close>)

lemma begin_batch_relocked:
  assumes ok: "platform_ok E" and inv: "cas_inv E s"
  shows "wp (begin_batch E) (\<lambda>_. relocked (world s)) (\<lambda>_. relocked (world s)) s"
proof -
  note q = platform_okD(3) [OF ok]
  let ?G = "relocked (world s)"
  let ?C = "\<lambda>e. wp (drop_batch E e) (\<lambda>_. ?G) (\<lambda>_. ?G)"
  obtain g i where idle: "idle_inv E g i s" using inv by (auto simp: cas_inv_idle)
  have drop: "?C e s'" if "?G s'" for e s' by (rule drop_batch_relocked [OF ok that])
  let ?s1 = "\<lambda>n n' t. s\<lparr>tick := n, world := (world s)\<lparr>flock_owner := Some (self E)\<rparr>, tick := n', wtxn := Some t, wtxn_freed := False, writer_thread := thread E\<rparr>"
  have idle1: "idle_inv E g i (?s1 n n' t)" for n n' t by (rule idle_same [OF idle]) simp_all
  have ends: "wp (batch_ends E p) (\<lambda>_. ?G) ?C s'" if "?G s'" for p s'
    unfolding batch_ends_def using that by (intro wp_rules q drop) (simp_all add: relocked_def)
  have mapping: "wp (bindE (mapping_for E g True) (\<lambda>r. bindE (deref r) (batch_ends E))) (\<lambda>_. ?G) ?C (?s1 n n' t)" for n n' t
  proof (unfold wp_bindE, rule wp_mapping_for_idle [OF q idle1])
    fix p s'
    assume "mapped g (?s1 n n' t) s'"
    from mapped_fields [OF this] have "?G s'" by (simp add: relocked_def)
    then show "wp (deref (Some p)) (\<lambda>p. wp (batch_ends E p) (\<lambda>_. ?G) ?C) ?C s'" by (simp add: deref_def wp_ret ends)
  qed (intro drop, simp add: relocked_def)
  have gen: "table_gen (committed_tables E s) = Some g"
    using idle_live [OF idle] by (simp add: committed_tables_def live_pack_def)
  have start: "wp (thenE (modS (\<lambda>s. s\<lparr>wtxn := Some t, wtxn_freed := False, writer_thread := thread E\<rparr>))
      (bindE (liftE (read_gen E t)) (\<lambda>gen. bindE (mapping_for E gen True) (\<lambda>r. bindE (deref r) (batch_ends E)))))
      (\<lambda>_. ?G) ?C (s\<lparr>tick := n, world := (world s)\<lparr>flock_owner := Some (self E)\<rparr>, tick := n'\<rparr>)"
    if t: "mdb_table E t = committed_tables E s" for n n' t
  proof (intro wp_thenE_I wp_modS_I wp_bindE_I [of "liftE _"] wp_read_gen [OF platform_okD(2) [OF ok]])
    show "table_gen (mdb_table E t) = Some g" using gen t by simp
  qed (rule mapping, rule drop, simp add: relocked_def)
  show ?thesis
    unfolding begin_batch_def wp_thenE wp_tryE wp_bindE [of "txn_begin E"]
  proof (rule wp_lock_writer [OF q], rule wp_txn_begin [OF ok])
  qed (use start in \<open>simp_all add: drop relocked_def committed_tables_def wp_thenE\<close>)
qed

lemma batch_adds_none: "wtxn s = None \<Longrightarrow> batch_adds E s"
  by (simp add: batch_adds_def)

lemma wp_need_batch_wrote:
  fixes s :: "('e, 't, 'z) cas_scheme"
  assumes ok: "platform_ok E" and inv: "cas_inv E s" and mine: "own_batch E s" and adds: "batch_adds E s"
    and Q: "\<And>s'. cas_inv E s' \<Longrightarrow> batch_txn E s' \<noteq> None \<Longrightarrow> wrote E (world s) s' \<Longrightarrow> batch_adds E s' \<Longrightarrow> Q () s'"
    and R: "\<And>e s'. wrote E (world s) s' \<Longrightarrow> R e s'"
  shows "wp (need_batch E) Q R s"
proof (cases "wtxn s")
  case None
  have "wp (begin_batch E) (\<lambda>_ s'. (cas_inv E s' \<and> batch_txn E s' \<noteq> None \<and> same_store E s s') \<and> relocked (world s) s')
      (\<lambda>_ s'. wtxn s' = None \<and> relocked (world s) s') s"
    using wp_begin_batch [OF ok inv None, of "\<lambda>_ s'. cas_inv E s' \<and> batch_txn E s' \<noteq> None \<and> same_store E s s'"
        "\<lambda>_ s'. wtxn s' = None"] begin_batch_relocked [OF ok inv]
    by (auto simp: wp_def split: prod.splits sum.splits)
  then have "wp (begin_batch E) Q R s"
  proof (rule wp_mono)
    fix a :: unit and s' :: "('e, 't, 'z) cas_scheme" assume s': "(cas_inv E s' \<and> batch_txn E s' \<noteq> None \<and> same_store E s s') \<and> relocked (world s) s'"
    then obtain t where t: "batch_txn E s' = Some t" by blast
    have "reader_table E s' = committed_tables E s'"
      using s' None by (simp add: same_store_def reader_table_idle batch_txn_None)
    then have "mdb_table E t = committed_tables E s'" by (simp add: reader_table_batch [OF t])
    then have "batch_adds E s'" using t by (simp add: batch_adds_def batch_txn_Some committed_tables_def)
    with s' t show "Q a s'" by (cases a) (simp_all add: Q wrote_def relocked_peers)
  next
    fix e and s' :: "('e, 't, 'z) cas_scheme" assume "wtxn s' = None \<and> relocked (world s) s'"
    then show "R e s'" by (intro R) (simp add: wrote_def batch_adds_none relocked_peers)
  qed
  with None show ?thesis by (simp add: need_batch_def wp_simps)
next
  case (Some t)
  then have "batch_txn E s = Some t" using mine by (simp add: batch_txn_Some own_batch_def)
  with Some Q [OF inv] adds show ?thesis by (simp add: need_batch_def wp_simps wrote_def)
qed

section \<open>Ending it\<close>

lemma peers_relock: "peers_run E w w' \<Longrightarrow> peers_run E w (w'\<lparr>flock_owner := x\<rparr>)"
  by (erule rtranclp.rtrancl_into_rtrancl) (rule peer_step.lock)

lemma wrote_simps [simp]:
  "wrote E w (s\<lparr>tick := n\<rparr>) = wrote E w s"
  "batch_adds E (s\<lparr>tick := n\<rparr>) = batch_adds E s"
  by (simp_all add: wrote_def batch_adds_def)

lemma wrote_refl: "batch_adds E s \<Longrightarrow> wrote E (world s) s"
  by (simp add: wrote_def)

lemma wrote_none: "wtxn s = None \<Longrightarrow> peers_run E w (world s) \<Longrightarrow> wrote E w s"
  by (simp add: wrote_def batch_adds_none)

lemma wrote_trans: "peers_run E w (world s) \<Longrightarrow> wrote E (world s) s' \<Longrightarrow> wrote E w s'"
  by (auto simp: wrote_def)

lemma wp_commit_batch_wrote:
  assumes ok: "platform_ok E" and inv: "cas_inv E s" and t: "wtxn s = Some t" and adds: "batch_adds E s"
  shows "wp (commit_batch E) (\<lambda>_. wrote E (world s)) (\<lambda>_. wrote E (world s)) s"
proof -
  note q = platform_okD(3) [OF ok]
  obtain g i p where idle: "idle_inv E g i s" and at: "batch_at E s t g i p"
    using inv t by (auto simp: cas_inv_idle batch_inv_def)
  have p: "cur s = Some p" using at by (simp add: batch_at_def)
  have env: "peers_run E (world s) ((world s)\<lparr>mdb_env := e'\<rparr>)"
    if "mdb_committed E e' = (if r then mdb_table E t else mdb_committed E (mdb_env (world s)))" for e' r
    by (rule batch_commit [OF idle at t adds that])
  show ?thesis
    unfolding commit_batch_def
  proof (intro wp_rules q wp_current [OF p])
    fix n
    show "wp use_batch (\<lambda>t. wp (bindE (txn_commit E t) (\<lambda>res.
        thenE (modS (\<lambda>s. s\<lparr>wtxn_freed := True\<rparr>)) (thenE (mdb_check E res ''txn_commit'')
        (thenE (modS (\<lambda>s. s\<lparr>wtxn := None, wtxn_freed := False\<rparr>))
        (thenE (env_sync E) (batch_done E p)))))) (\<lambda>_. wrote E (world s)) (\<lambda>_. wrote E (world s)))
        (\<lambda>_. wrote E (world s)) (s\<lparr>tick := n\<rparr>)"
    proof (rule wp_use_batch [where t = t and E = E]; (intro wp_rules wp_txn_commit [OF ok] wp_env_sync [OF q])?)
    qed (auto simp: inv t wrote_def batch_adds_none batch_done_def intro!: env peers_relock wp_rules q split: if_splits)
  qed (simp_all add: wrote_refl adds)
qed

lemma wp_sync_wrote:
  assumes "platform_ok E" and "cas_inv E s" and "batch_adds E s"
  shows "wp (sync E) (\<lambda>_. wrote E (world s)) (\<lambda>_. wrote E (world s)) s"
  unfolding sync_def wp_bindE wp_readS wp_whenE
  using wp_commit_batch_wrote [OF assms(1,2) _ assms(3)] assms(3) by (cases "wtxn s") (auto simp: wrote_refl)

lemma wp_cut_pack_wrote:
  assumes ok: "platform_ok E" and idle: "idle_inv E g i s" and at: "batch_at E s t g i p"
  shows "wp (cut_pack E p) (\<lambda>_. wrote E (world s)) (\<lambda>_. wrote E (world s)) (s\<lparr>wtxn := None\<rparr>)"
proof -
  let ?c = "take (unat (committed_end s)) (inodes (world s) i)"
  have p: "m_fd (map_at s p) = i" "unat (committed_end s) \<le> length (inodes (world s) i)"
    using at by (simp_all add: batch_at_def)
  have "length (inodes (world s) i) \<le> max_off" using idle by (simp add: idle_inv_def files_ok_length)
  then have cut: "peers_run E (world s) (set_inode i ?c (world s))"
    by (intro batch_append [OF idle at]) (simp_all add: min.coboundedI1)
  show ?thesis
    unfolding cut_pack_def wp_bindE wp_readS
    by (rule wp_sys_ftruncate [OF platform_okD(3) [OF ok]]; simp add: p wp_simps)
      (intro wp_rules platform_okD(3) [OF ok]; simp add: wrote_none peers_relock cut wp_simps)+
qed

lemma wp_abort_batch_wrote:
  assumes ok: "platform_ok E" and inv: "cas_inv E s" and t: "wtxn s = Some t"
  shows "wp (abort_batch E) (\<lambda>_. wrote E (world s)) (\<lambda>_. wrote E (world s)) s"
proof -
  obtain g i p where idle: "idle_inv E g i s" and at: "batch_at E s t g i p"
    using inv t by (auto simp: cas_inv_idle batch_inv_def)
  then have p: "cur s = Some p" by (simp add: batch_at_def)
  from wp_cut_pack_wrote [OF ok idle at] show ?thesis
    unfolding abort_batch_def
    by (intro wp_thenE_I wp_use_batch [OF inv t] wp_modS_I wp_bindE_I wp_current) (simp_all add: p)
qed

lemma wp_destroy_wrote:
  assumes ok: "platform_ok E" and inv: "cas_inv E s"
  shows "wp (destroy E) (\<lambda>_ s'. peers_run E (world s) (world s')) (\<lambda>_ s'. peers_run E (world s) (world s')) s"
proof (cases "wtxn s")
  case None
  then show ?thesis by (simp add: destroy_def wp_simps peers_relock)
next
  case (Some t)
  have "wp (abort_batch E) (\<lambda>_. wp (modS (\<lambda>s. s\<lparr>retired := [], cur := None,
      world := (if flock_owner (world s) = Some (self E) then (world s)\<lparr>flock_owner := None\<rparr> else world s)\<rparr>))
      (\<lambda>_ s'. peers_run E (world s) (world s')) (\<lambda>_ s'. peers_run E (world s) (world s')))
      (\<lambda>_ s'. peers_run E (world s) (world s')) s"
    by (rule wp_mono [OF wp_abort_batch_wrote [OF ok inv Some]]) (simp_all add: wp_modS wrote_def peers_relock)
  with Some show ?thesis by (simp add: destroy_def wp_thenE wp_bindE wp_readS wp_whenE)
qed

section \<open>Appending\<close>

text \<open>The blob is written and recorded.\<close>

lemma indexed:
  assumes ok: "platform_ok E" and len: "length d \<le> max_off"
    and idle: "idle_inv E g i s" and at: "batch_at E s t g i p"
    and c: "take (unat (pack_end s) + length (stored_form E d)) c =
        take (unat (pack_end s)) (inodes (world s) i) @ stored_form E d"
      "unat (pack_end s) + length (stored_form E d) \<le> length c" "length c \<le> max_off"
      "length (inodes (world s) i) \<le> length c"
    and tbl: "mdb_table E t' = (mdb_table E t)(Blobs := (mdb_table E t Blobs)(blake3 E d \<mapsto>
        encode_entry (entry_for (pack_end s) (stored_form E d) d)))"
  shows "cas_inv E (s\<lparr>tick := n, world := set_inode i c (world s), wtxn := Some t',
    pack_end := pack_end s + of_nat (length (stored_form E d)), batch_bytes := b\<rparr>)" (is "cas_inv E ?s2")
proof -
  have "take (unat (pack_end s)) c = take (unat (pack_end s)) (inodes (world s) i)"
    using arg_cong [OF c(1), of "take (unat (pack_end s))"] at by (simp add: batch_at_def)
  note w = written_behind [OF idle at this c(4,3) refl, where n = n]
  have files: "files_ok (world s)" using idle by (simp add: idle_inv_def)
  have at2: "batch_at E ?s2 t' g i p"
    by (rule batch_extended(1) [OF ok at files tbl c(1-3) len]) simp_all
  show ?thesis by (rule idle_batch_cas_inv [OF _ at2]) (use w(1) in simp_all)
qed

lemma wp_index_blob_wrote:
  assumes ok: "platform_ok E" and len: "length d \<le> max_off"
    and idle: "idle_inv E g i s" and at: "batch_at E s t g i p" and t: "wtxn s = Some t" and adds: "batch_adds E s"
    and c: "take (unat (pack_end s) + length (stored_form E d)) c =
        take (unat (pack_end s)) (inodes (world s) i) @ stored_form E d"
      "unat (pack_end s) + length (stored_form E d) \<le> length c" "length c \<le> max_off"
      "length (inodes (world s) i) \<le> length c"
    and w: "peers_run E (world s) (set_inode i c (world s))"
  shows "wp (index_blob E (blake3 E d) (entry_for (pack_end s) (stored_form E d) d) (of_nat (length (stored_form E d))))
    (\<lambda>_. wrote E (world s)) (\<lambda>_. wrote E (world s)) (s\<lparr>tick := n, world := set_inode i c (world s)\<rparr>)" (is "wp _ ?Q ?R ?s1")
proof -
  have "take (unat (pack_end s)) c = take (unat (pack_end s)) (inodes (world s) i)"
    using arg_cong [OF c(1), of "take (unat (pack_end s))"] at by (simp add: batch_at_def)
  note b = written_behind [OF idle at this c(4,3) refl, where n = n]
  let ?val = "encode_entry (entry_for (pack_end s) (stored_form E d) d)"
  obtain res t' where put: "mdb_put E t Blobs (blake3 E d) ?val True = (res, t')" by fastforce
  note tbl = lmdb_writesD(1) [OF platform_okD(2) [OF ok] put]
  have new: "res = MDB_SUCCESS \<Longrightarrow> mdb_table E t Blobs (blake3 E d) = None"
    using lmdb_put_newD [OF platform_okD(2) [OF ok]] put by blast
  have adds': "mdb_committed E (mdb_env (world s)) Blobs \<subseteq>\<^sub>m mdb_table E t' Blobs"
    using adds new by (auto simp: batch_adds_def t tbl map_le_def dom_def)
  let ?s2 = "?s1\<lparr>wtxn := Some t', pack_end := pack_end s + of_nat (length (stored_form E d)),
    batch_bytes := batch_bytes s + of_nat (length (stored_form E d))\<rparr>"
  have "wp (auto_sync E) ?Q ?R ?s2" if "res = MDB_SUCCESS"
  proof -
    have inv: "cas_inv E ?s2" by (rule indexed [OF ok len idle at c]) (use tbl that in simp)
    have adds2: "batch_adds E ?s2" using adds' by (simp add: batch_adds_def)
    have "wp (sync E) ?Q ?R ?s2"
      by (rule wp_mono [OF wp_sync_wrote [OF ok inv adds2]]) (use w in \<open>auto simp: wrote_def\<close>)
    then show ?thesis using w adds2 by (simp add: auto_sync_def wp_simps wrote_def)
  qed
  moreover have "wrote E (world s) (?s1\<lparr>wtxn := Some t'\<rparr>)" using w adds' by (simp add: wrote_def batch_adds_def)
  moreover have "wtxn ?s1 = Some t" using t by simp
  ultimately show ?thesis
    unfolding index_blob_def
    by (intro wp_bindE_I wp_use_batch [OF idle_batch_cas_inv [OF b(1,2)], of t])
      (simp_all add: put wp_thenE wp_modS mdb_check_def wp_whenE wp_throw)
qed

lemma wp_append_blob_wrote:
  assumes ok: "platform_ok E" and len: "length d \<le> max_off" and inv: "cas_inv E s"
    and t: "wtxn s = Some t" and adds: "batch_adds E s"
  shows "wp (append_blob E (blake3 E d) d) (\<lambda>_. wrote E (world s)) (\<lambda>_. wrote E (world s)) s"
proof -
  obtain g i p where idle: "idle_inv E g i s" and at: "batch_at E s t g i p"
    using inv t by (auto simp: cas_inv_idle batch_inv_def)
  then have p: "cur s = Some p" "m_fd (map_at s p) = i" "unat (pack_end s) \<le> length (inodes (world s) i)"
    "unat (committed_end s) \<le> unat (pack_end s)"
    by (simp_all add: batch_at_def)
  have files: "length (inodes (world s) i) \<le> max_off"
    using idle by (simp add: idle_inv_def files_ok_length)
  have append: "peers_run E (world s) (set_inode i c (world s))"
    if "take (unat (pack_end s)) c = take (unat (pack_end s)) (inodes (world s) i)" "length c \<le> max_off" for c
    by (rule batch_append [OF idle at that(2) take_shorter [OF that(1) p(4)]])
  have "wp (pwrite_all E i (stored_form E d) (pack_end s)) (\<lambda>_. wp (index_blob E (blake3 E d)
      (entry_for (pack_end s) (stored_form E d) d) (of_nat (length (stored_form E d))))
      (\<lambda>_. wrote E (world s)) (\<lambda>_. wrote E (world s))) (\<lambda>_. wrote E (world s)) s"
  proof (rule wp_pwrite_all [OF platform_okD(3) [OF ok] p(3) files])
    fix c n
    assume c: "take (unat (pack_end s) + length (stored_form E d)) c =
        take (unat (pack_end s)) (inodes (world s) i) @ stored_form E d"
      "length (inodes (world s) i) \<le> length c" "unat (pack_end s) + length (stored_form E d) \<le> length c"
      "length c \<le> max_off"
    have "take (unat (pack_end s)) c = take (unat (pack_end s)) (inodes (world s) i)"
      using arg_cong [OF c(1), of "take (unat (pack_end s))"] p(3) by simp
    from append [OF this c(4)] show "wp (index_blob E (blake3 E d) (entry_for (pack_end s) (stored_form E d) d)
      (of_nat (length (stored_form E d)))) (\<lambda>_. wrote E (world s)) (\<lambda>_. wrote E (world s))
      (s\<lparr>tick := n, world := set_inode i c (world s)\<rparr>)"
      by (rule wp_index_blob_wrote [OF ok len idle at t adds c(1,3,4,2)])
  next
    fix c n e
    assume "take (unat (pack_end s)) c = take (unat (pack_end s)) (inodes (world s) i)" "length c \<le> max_off"
    with append show "wrote E (world s) (s\<lparr>tick := n, world := set_inode i c (world s)\<rparr>)"
      using adds by (simp add: wrote_def batch_adds_def)
  qed
  then show ?thesis
    unfolding append_blob_def Let_def
    by (intro wp_bindE_I wp_current [OF p(1)] wp_readS_I) (simp add: wp_thenE p(2))
qed

lemma wp_put_wrote:
  assumes ok: "platform_ok E" and len: "length d \<le> max_off" and inv: "cas_inv E s"
    and mine: "own_batch E s" and adds: "batch_adds E s"
  shows "wp (put E d) (\<lambda>_. wrote E (world s)) (\<lambda>_. wrote E (world s)) s"
  unfolding put_def Let_def wp_thenE
proof (rule wp_need_batch_wrote [OF ok inv mine adds])
  fix s1
  assume s1: "cas_inv E s1" "batch_txn E s1 \<noteq> None" "wrote E (world s) s1" "batch_adds E s1"
  then obtain g i where live: "live_pack E (world s1) g i" by (auto simp: cas_inv_idle idle_inv_def)
  show "wp (bindE (lookup E (blake3 E d) False) (\<lambda>(found, _).
      if found \<noteq> None then ret (blake3 E d)
      else thenE (append_blob E (blake3 E d) d) (ret (blake3 E d)))) (\<lambda>_. wrote E (world s)) (\<lambda>_. wrote E (world s)) s1"
    unfolding wp_bindE
  proof (rule wp_lookup [OF ok s1(1) live])
    fix found gen n
    obtain t where t: "wtxn s1 = Some t" using s1(2) by (auto simp: batch_txn_Some)
    have "wp (append_blob E (blake3 E d) d) (\<lambda>_. wrote E (world s1)) (\<lambda>_. wrote E (world s1)) (s1\<lparr>tick := n\<rparr>)"
      using wp_append_blob_wrote [OF ok len, of "s1\<lparr>tick := n\<rparr>" t] s1 t by simp
    then have "wp (append_blob E (blake3 E d) d) (\<lambda>_. wrote E (world s)) (\<lambda>_. wrote E (world s)) (s1\<lparr>tick := n\<rparr>)"
      by (rule wp_mono) (use s1(3) in \<open>auto simp: wrote_def\<close>)
    then show "wp (case (found, gen) of (found, _) \<Rightarrow> if found \<noteq> None then ret (blake3 E d)
        else thenE (append_blob E (blake3 E d) d) (ret (blake3 E d))) (\<lambda>_. wrote E (world s)) (\<lambda>_. wrote E (world s))
        (s1\<lparr>tick := n\<rparr>)"
      using s1(3) by (simp add: wp_simps wp_fun_eqs)
  qed (use s1(3) in \<open>simp_all add: kHashLen_def platform_okD(4) [OF ok]\<close>)
qed

section \<open>The meta table\<close>

lemma wp_meta_update_wrote:
  assumes ok: "platform_ok E" and inv: "cas_inv E s" and mine: "own_batch E s" and adds: "batch_adds E s"
    and f: "\<And>t res t'. f t = (res, t') \<Longrightarrow> mdb_table E t' Blobs = mdb_table E t Blobs \<and>
      table_gen (mdb_table E t') = table_gen (mdb_table E t)"
    and check: "\<And>res s' Q' R'. Q' () s' \<Longrightarrow> (\<And>e. R' e s') \<Longrightarrow> wp (check res) Q' R' s'"
  shows "wp (meta_update E f check) (\<lambda>_. wrote E (world s)) (\<lambda>_. wrote E (world s)) s" (is "wp _ ?Q ?R s")
proof (cases "batch_txn E s")
  case (Some t)
  then have t: "wtxn s = Some t" by (simp add: batch_txn_Some)
  obtain res t' where r: "f t = (res, t')" by fastforce
  have "wrote E (world s) (s\<lparr>wtxn := Some t'\<rparr>)" using adds t f [OF r] by (simp add: wrote_def batch_adds_def)
  then have "wp use_batch (\<lambda>t. wp (case f t of (res, t') \<Rightarrow>
      thenE (modS (\<lambda>s. s\<lparr>wtxn := Some t'\<rparr>)) (check res)) ?Q ?R) ?R s"
    by (intro wp_use_batch [OF inv t]) (simp add: r wp_thenE wp_modS check)
  with Some show ?thesis by (simp add: meta_update_def wp_bindE wp_readS)
next
  case None
  then have none: "wtxn s = None" using mine by (auto simp: batch_txn_def own_batch_def split: if_splits)
  obtain g i where idle: "idle_inv E g i s" using inv by (auto simp: cas_inv_idle)
  have commit: "wp (commit_owned E t') ?Q ?R (s\<lparr>tick := n\<rparr>)"
    if t': "mdb_table E t' Blobs = committed_tables E s Blobs" "table_gen (mdb_table E t') = Some g" for n t'
    unfolding commit_owned_def
  proof (intro wp_bindE_I wp_txn_commit [OF ok])
    fix res e' m
    assume e': "mdb_committed E e' = (if res = MDB_SUCCESS then mdb_table E t'
        else mdb_committed E (mdb_env (world (s\<lparr>tick := n\<rparr>))))"
    have "peers_run E (world s) ((world s)\<lparr>mdb_env := e'\<rparr>)"
      by (rule env_step [OF idle]) (use idle t' e' in \<open>auto simp: idle_inv_def live_pack_def committed_tables_def\<close>)
    then show "wp (mdb_check E res ''txn_commit'') ?Q ?R
        (s\<lparr>tick := n, tick := m, world := (world (s\<lparr>tick := n\<rparr>))\<lparr>mdb_env := e'\<rparr>\<rparr>)"
      by (intro wp_mdb_check) (simp_all add: wrote_none none)
  qed
  have "wp (write_txn_begin E) (\<lambda>t. wp (case f t of (res, t') \<Rightarrow> thenE (check res) (commit_owned E t')) ?Q ?R) ?R s"
  proof (rule wp_write_txn_begin [OF ok none])
    fix t n
    assume t: "mdb_table E t = committed_tables E s"
    obtain res t' where r: "f t = (res, t')" by fastforce
    have "wp (check res) (\<lambda>_. wp (commit_owned E t') ?Q ?R) ?R (s\<lparr>tick := n\<rparr>)"
      by (rule check, rule commit)
        (use f [OF r] t idle in \<open>simp_all add: wrote_none none idle_inv_def live_pack_def committed_tables_def\<close>)
    then show "wp (case f t of (res, t') \<Rightarrow> thenE (check res) (commit_owned E t')) ?Q ?R (s\<lparr>tick := n\<rparr>)"
      by (simp add: r wp_thenE)
  qed (simp add: wrote_none none)
  with None show ?thesis by (simp add: meta_update_def wp_bindE wp_readS)
qed

lemma wp_meta_put_wrote:
  assumes ok: "platform_ok E" and inv: "cas_inv E s" and mine: "own_batch E s" and adds: "batch_adds E s"
    and key: "key \<noteq> ''gen''"
  shows "wp (meta_put E key val) (\<lambda>_. wrote E (world s)) (\<lambda>_. wrote E (world s)) s"
  unfolding meta_put_update
proof (rule wp_meta_update_wrote [OF ok inv mine adds])
  fix t res t'
  assume "mdb_put E t Meta key val False = (res, t')"
  from lmdb_writesD(1) [OF platform_okD(2) [OF ok] this] key
  show "mdb_table E t' Blobs = mdb_table E t Blobs \<and> table_gen (mdb_table E t') = table_gen (mdb_table E t)"
    by (simp add: table_gen_upd)
qed (intro wp_mdb_check)

lemma wp_meta_del_wrote:
  assumes ok: "platform_ok E" and inv: "cas_inv E s" and mine: "own_batch E s" and adds: "batch_adds E s"
    and key: "key \<noteq> ''gen''"
  shows "wp (meta_del E key) (\<lambda>_. wrote E (world s)) (\<lambda>_. wrote E (world s)) s"
  unfolding meta_del_update
proof (rule wp_meta_update_wrote [OF ok inv mine adds])
  fix t res t'
  assume "mdb_del E t Meta key = (res, t')"
  from lmdb_writesD(2) [OF platform_okD(2) [OF ok] this] key
  show "mdb_table E t' Blobs = mdb_table E t Blobs \<and> table_gen (mdb_table E t') = table_gen (mdb_table E t)"
    by (simp add: table_gen_upd)
qed (intro wp_whenE_I wp_mdb_check)

end
