(* ===== verification/Writer_Compact.thy ===== *)
theory Writer_Compact
  imports Writer
begin

text \<open>
  A compaction in the steps of a writer: what it may have done to the directory when it ends (\<open>reworked\<close>), and that this is a
  run of \<open>peer_step\<close>s, unless the pack has been lost. \<open>keeps\<close> is what an operation keeps of the world, whatever the rest of
  the state.
\<close>

section \<open>What an operation keeps of the directory\<close>

definition keeps :: "('e world \<Rightarrow> bool) \<Rightarrow> (('e, 'z) machine_scheme, 'a) prog \<Rightarrow> bool" where
  "keeps P m \<longleftrightarrow> (\<forall>s. P (world s) \<longrightarrow> wp m (\<lambda>_ s'. P (world s')) (\<lambda>_ s'. P (world s')) s)"

named_theorems keeps_rules "introduction rules for keeps"

lemma keepsI: "(\<And>s. P (world s) \<Longrightarrow> wp m (\<lambda>_ s'. P (world s')) (\<lambda>_ s'. P (world s')) s) \<Longrightarrow> keeps P m"
  by (simp add: keeps_def)

lemma keepsD: "keeps P m \<Longrightarrow> P (world s) \<Longrightarrow> wp m (\<lambda>_ s'. P (world s')) (\<lambda>_ s'. P (world s')) s"
  by (simp add: keeps_def)

lemma keeps_bindE [keeps_rules]: "keeps P m \<Longrightarrow> (\<And>a. keeps P (f a)) \<Longrightarrow> keeps P (bindE m f)"
  by (rule keepsI, unfold wp_bindE, rule wp_mono [OF keepsD]) (auto dest: keepsD)

lemma keeps_thenE [keeps_rules]: "keeps P m \<Longrightarrow> keeps P n \<Longrightarrow> keeps P (thenE m n)"
  unfolding thenE_def by (intro keeps_bindE)

lemma keeps_pure [keeps_rules]:
  "keeps P (ret a)" "keeps P (throw e)" "keeps P (readS h)" "keeps P (liftE r)"
  by (auto simp: keeps_def wp_simps split: sum.split)

lemma keeps_modS [keeps_rules]: "(\<And>s. world (f s) = world s) \<Longrightarrow> keeps P (modS f)"
  by (simp add: keeps_def wp_modS)

lemma keeps_whenE [keeps_rules]: "keeps P m \<Longrightarrow> keeps P (whenE b m)"
  by (simp add: whenE_def keeps_pure)

lemma keeps_cases [keeps_rules]:
  "keeps P m \<Longrightarrow> keeps P n \<Longrightarrow> keeps P (if b then m else n)"
  "(\<And>a. keeps P (f1 a)) \<Longrightarrow> (\<And>b. keeps P (f2 b)) \<Longrightarrow> keeps P (case x of Inl a \<Rightarrow> f1 a | Inr b \<Rightarrow> f2 b)"
  "(\<And>a b. keeps P (f3 a b)) \<Longrightarrow> keeps P (case y of (a, b) \<Rightarrow> f3 a b)"
  by (simp_all split: sum.split prod.split)

lemma keeps_foldE [keeps_rules]: "(\<And>x b. keeps P (f x b)) \<Longrightarrow> keeps P (foldE f xs b)"
  by (induction xs arbitrary: b) (simp_all add: keeps_rules)

lemma keeps_calls [keeps_rules]:
  assumes "quiet E"
  shows "keeps P (sys E)" "keeps P (sys_fdatasync E fd)" "keeps P (sys_fstat_size E fd)" "keeps P (sys_mmap E fd)"
  using assms by (auto intro!: keepsI wp_rules)

lemma keeps_errors [keeps_rules]: "keeps P (sys_err what err)" "keeps P (mdb_check E res what)"
  unfolding sys_err_def mdb_check_def by (intro keeps_rules)+

lemma keeps_mmap_read [keeps_rules]: "keeps P (mmap_read fd off len)"
  unfolding mmap_read_def by (intro keeps_rules)

lemma keeps_view [keeps_rules]: "quiet E \<Longrightarrow> keeps P (view E p off len)"
  unfolding view_def set_map_size_def by (intro keeps_rules) simp_all

text \<open>A mapping of a pack that has a name.\<close>

lemma keeps_mapping_for:
  assumes q: "quiet E" and name: "\<And>w. P w \<Longrightarrow> find_inode w (pack_name g) \<noteq> None"
  shows "keeps P (mapping_for E g True)"
proof -
  have "keeps P (sys_open E (pack_name g) True False)"
    by (rule keepsI, rule wp_sys_open [OF q]) (use name in fastforce)+
  then show ?thesis
    unfolding mapping_for_def map_pack_def
    by (auto intro!: keeps_rules q simp: install_mapping_def split: option.split)
qed

section \<open>Filling the new pack\<close>

definition filled :: "nat \<Rightarrow> 'e world \<Rightarrow> 'e world \<Rightarrow> bool" where
  "filled j w v \<longleftrightarrow> length (inodes v j) \<le> max_off \<and> (\<forall>k. k \<noteq> j \<longrightarrow> inodes v k = inodes w k) \<and>
     dirents v = dirents w \<and> next_inode v = next_inode w \<and> flock_owner v = flock_owner w"

lemma filled_eq:
  assumes "filled j w v"
  shows "v = (set_inode j (inodes v j) w)\<lparr>mdb_env := mdb_env v\<rparr>"
proof -
  have "inodes v = (inodes w)(j := inodes v j)" using assms by (auto simp: filled_def fun_eq_iff)
  with assms show ?thesis by (cases v; cases w) (simp add: filled_def set_inode_def)
qed

lemma filled_set_inode: "filled j w v \<Longrightarrow> length c \<le> max_off \<Longrightarrow> filled j w (set_inode j c v)"
  by (simp add: filled_def)

lemma filled_env: "filled j w v \<Longrightarrow> filled j w (v\<lparr>mdb_env := e'\<rparr>)"
  by (simp add: filled_def)

lemma write_at_bound: "length f \<le> max_off \<Longrightarrow> off + length d \<le> max_off \<Longrightarrow> length (write_at f off d) \<le> max_off"
  by (simp add: write_at_def)

lemma keeps_write_all [keeps_rules]:
  fixes w :: "'e world"
  assumes "quiet E"
  shows "keeps (filled j w) (write_all E j data pos :: (('e, 'z) machine_scheme, u64) prog)"
proof (rule keepsI)
  fix s :: "('e, 'z) machine_scheme"
  assume "filled j w (world s)"
  then show "wp (write_all E j data pos) (\<lambda>_ s'. filled j w (world s')) (\<lambda>_ s'. filled j w (world s')) s"
  proof (induction "length data" arbitrary: data pos s rule: less_induct)
    case less
    show ?case
    proof (cases "data = []")
      case False
      show ?thesis
        unfolding wp_write_all_step [of E j data] if_not_P [OF False]
      proof (rule wp_sys_pwrite [OF assms False], unfold sum.case)
        fix k n
        assume k: "0 < k" "k \<le> length data" "unat pos + k \<le> max_off"
        have "length (inodes (world s) j) \<le> max_off" using less.prems by (auto simp: filled_def)
        then have "filled j w (set_inode j (write_at (inodes (world s) j) (unat pos) (take k data)) (world s))"
          using k by (intro filled_set_inode less.prems write_at_bound) simp_all
        then show "wp (write_all E j (drop k data) (pos + of_nat k)) (\<lambda>_ s'. filled j w (world s')) (\<lambda>_ s'. filled j w (world s'))
            (s\<lparr>tick := n, world := set_inode j (write_at (inodes (world s) j) (unat pos) (take k data)) (world s)\<rparr>)"
          using k False by (intro less.hyps) simp_all
      qed (use less.prems in \<open>simp add: sys_err_def wp_throw\<close>)
    qed (use less.prems in \<open>simp add: wp_write_all_step [of E j "[]"]\<close>)
  qed
qed

lemma keeps_txn_commit:
  assumes "quiet E" and "\<And>w e'. P w \<Longrightarrow> P (w\<lparr>mdb_env := e'\<rparr>)"
  shows "keeps P (txn_commit E t)"
  using assms by (auto intro!: keepsI wp_txn_commit_files)

lemma keeps_compact_copy:
  assumes q: "quiet E"
  shows "keeps (filled j w) (compact_copy E live t g p j)"
  unfolding compact_copy_def copy_step_def copy_done_def install_index_def rebuild_index_def put_entry_def write_gen_def
    commit_owned_def env_sync_def Let_def
  by (intro keeps_rules q keeps_txn_commit filled_env)

section \<open>The directory after a compaction\<close>

text \<open>The new pack is there, under the name of the next generation.\<close>

definition built :: "u64 \<Rightarrow> 'e world \<Rightarrow> 'e world \<Rightarrow> bool" where
  "built g w v \<longleftrightarrow> (\<exists>j w1. filled j w1 v \<and> (find_inode w (pack_name (g + 1)) = Some j \<and> w1 = w \<or>
     find_inode w (pack_name (g + 1)) = None \<and> j = next_inode w \<and> w1 = link_new (pack_name (g + 1)) w))"

definition reworked :: "u64 \<Rightarrow> 'e world \<Rightarrow> 'e world \<Rightarrow> bool" where
  "reworked g w v \<longleftrightarrow> (\<exists>v0 x. (v0 = w \<or> built g w v0) \<and>
     (v = v0\<lparr>flock_owner := x\<rparr> \<or> v = (unlinked (pack_name g) v0)\<lparr>flock_owner := x\<rparr> \<or> v = unlinked (pack_name (g + 1)) v0))"

lemma filled_find: "filled j w v \<Longrightarrow> find_inode v = find_inode w"
  by (simp add: filled_def find_inode_def)

lemma built_name: "built g w v \<Longrightarrow> find_inode v (pack_name (g + 1)) \<noteq> None"
  by (auto simp: built_def find_link_new dest: filled_find)

lemma reworkedI:
  "v0 = w \<or> built g w v0 \<Longrightarrow> reworked g w v0" "v0 = w \<or> built g w v0 \<Longrightarrow> reworked g w (v0\<lparr>flock_owner := x\<rparr>)"
  "v0 = w \<or> built g w v0 \<Longrightarrow> reworked g w (unlinked (pack_name (g + 1)) v0)"
  "v0 = w \<or> built g w v0 \<Longrightarrow> reworked g w (unlinked (pack_name g) v0)"
  "v0 = w \<or> built g w v0 \<Longrightarrow> reworked g w ((unlinked (pack_name g) v0)\<lparr>flock_owner := x\<rparr>)"
  unfolding reworked_def using flock_self by metis+

lemma compact_finish_reworked:
  fixes s :: "('e, 't, 'z) cas_scheme"
  assumes q: "quiet E" and gt: "g < g + 1" and b: "built g w (world s)"
  shows "wp (compact_finish E g off) (\<lambda>_ s'. reworked g w (world s')) (\<lambda>_ s'. reworked g w (world s')) s"
proof -
  have ne: "pack_name (g + 1) \<noteq> pack_name g" using gt by (auto simp: pack_name_inj)
  have rest: "wp (mapping_for E (g + 1) True) (\<lambda>_. wp (thenE (modS (\<lambda>s. s\<lparr>committed_end := off, pack_end := off\<rparr>))
      (unlock_writer E)) (\<lambda>_ s'. reworked g w (world s')) (\<lambda>_ s'. reworked g w (world s')))
      (\<lambda>_ s'. reworked g w (world s')) s1"
    if s1: "world s1 = v" and v: "v = world s \<or> v = unlinked (pack_name g) (world s)" for s1 :: "('e, 't, 'z) cas_scheme" and v
  proof -
    have name: "find_inode v (pack_name (g + 1)) \<noteq> None" using v built_name [OF b] ne by auto
    have keep: "wp (mapping_for E (g + 1) True) (\<lambda>_ s'. world s' = v) (\<lambda>_ s'. world s' = v) s1"
      by (rule keepsD [OF keeps_mapping_for [OF q]]) (use name s1 in auto)
    show ?thesis
      by (rule wp_mono [OF keep]; (intro wp_rules q)?) (use v b in \<open>auto intro: reworkedI\<close>)
  qed
  show ?thesis
    unfolding compact_finish_def wp_thenE [of "sys_unlink _ _"] wp_bindE
    by (rule wp_sys_unlink_name [OF q]) (use rest in auto)
qed

lemma compact_locked_reworked:
  fixes s :: "('e, 't, 'z) cas_scheme"
  assumes ok: "platform_ok E" and idle: "idle_inv E g i s" and none: "wtxn s = None" and gt: "g < g + 1"
  shows "wp (compact_locked E live) (\<lambda>_ s'. reworked g (world s) (world s')) (\<lambda>_ s'. reworked g (world s) (world s')) s"
    (is "wp _ ?Q ?R s")
proof -
  note q = platform_okD(3) [OF ok]
  have same: "reworked g (world s) (world s')" if "world s' = world s" for s' :: "('e, 't, 'z) cas_scheme"
    using that by (simp add: reworkedI(1))
  have copy: "wp (bindE (tryE (compact_copy E live t g p j) (\<lambda>e. thenE (sys_unlink E (pack_name (g + 1))) (throw e)))
      (compact_finish E g)) ?Q ?R s2" if b: "filled j w1 (world s2)" and w1: "find_inode (world s) (pack_name (g + 1)) = Some j \<and> w1 = world s \<or>
     find_inode (world s) (pack_name (g + 1)) = None \<and> j = next_inode (world s) \<and> w1 = link_new (pack_name (g + 1)) (world s)"
     for t p j w1 and s2 :: "('e, 't, 'z) cas_scheme"
  proof -
    have built: "built g (world s) (world s')" if "filled j w1 (world s')" for s' :: "('e, 't, 'z) cas_scheme"
      using that w1 by (auto simp: built_def)
    have "wp (compact_copy E live t g p j) (\<lambda>_ s'. filled j w1 (world s')) (\<lambda>_ s'. filled j w1 (world s')) s2"
      by (rule keepsD [OF keeps_compact_copy [OF q] b])
    then have "wp (compact_copy E live t g p j) (\<lambda>off. wp (compact_finish E g off) ?Q ?R)
        (\<lambda>e. wp (thenE (sys_unlink E (pack_name (g + 1))) (throw e)) (\<lambda>off. wp (compact_finish E g off) ?Q ?R) ?R) s2"
    proof (rule wp_mono)
      show "wp (compact_finish E g off) ?Q ?R s'" if "filled j w1 (world s')" for off s'
        by (rule compact_finish_reworked [OF q gt built [OF that]])
      show "wp (thenE (sys_unlink E (pack_name (g + 1))) (throw e)) (\<lambda>off. wp (compact_finish E g off) ?Q ?R) ?R s'"
        if "filled j w1 (world s')" for e s'
        unfolding wp_thenE wp_throw
        by (rule wp_sys_unlink_name [OF q]) (use built [OF that] in \<open>simp_all add: reworkedI\<close>)
    qed
    then show ?thesis by (simp add: wp_bindE wp_tryE)
  qed
  have opened: "wp (bindE (readS (\<lambda>s. pack_path s (g + 1))) (\<lambda>new_path.
      bindE (sys_open E (pack_name (g + 1)) True True) (\<lambda>r. case r of
        Inl err \<Rightarrow> sys_err (''open '' @ new_path) err
      | Inr new_fd \<Rightarrow> bindE (tryE (compact_copy E live t g p new_fd)
            (\<lambda>e. thenE (sys_unlink E (pack_name (g + 1))) (throw e))) (compact_finish E g)))) ?Q ?R s1"
    if w: "world s1 = world s" for t p and s1 :: "('e, 't, 'z) cas_scheme"
    unfolding wp_bindE [of "readS _"] wp_readS wp_bindE [of "sys_open _ _ _ _"]
  proof (rule wp_sys_open [OF q], unfold sum.case)
    show "wp (sys_err a b) ?Q ?R (s1\<lparr>tick := n\<rparr>)" for a b n by (simp add: sys_err_def wp_throw same w)
  qed (use w in \<open>auto intro!: copy simp: filled_def link_fields\<close>)
  show ?thesis
    unfolding compact_locked_def wp_bindE [of "write_txn_begin E"]
  proof (rule wp_write_txn_begin [OF ok none])
    fix t n
    assume t: "mdb_table E t = committed_tables E s"
    have gen: "table_gen (mdb_table E t) = Some g"
      using idle_live [OF idle] by (simp add: t committed_tables_def live_pack_def)
    show "wp (bindE (liftE (read_gen E t)) (\<lambda>gen. bindE (mapping_for E gen True) (\<lambda>r. bindE (deref r) (\<lambda>p.
     bindE (file_size E p) (\<lambda>n. thenE (set_map_size p n) (bindE (readS (\<lambda>s. pack_path s (gen + 1))) (\<lambda>new_path.
      bindE (sys_open E (pack_name (gen + 1)) True True) (\<lambda>r. case r of
        Inl err \<Rightarrow> sys_err (''open '' @ new_path) err
      | Inr new_fd \<Rightarrow> bindE (tryE (compact_copy E live t gen p new_fd)
            (\<lambda>e. thenE (sys_unlink E (pack_name (gen + 1))) (throw e))) (compact_finish E gen))))))))) ?Q ?R (s\<lparr>tick := n\<rparr>)"
      unfolding wp_bindE [of "liftE _"] wp_bindE [of "mapping_for _ _ _"]
    proof (rule wp_read_gen [OF platform_okD(2) [OF ok] gen], rule wp_mapping_for_idle [OF q])
      show "idle_inv E g i (s\<lparr>tick := n\<rparr>)" using idle by simp
      fix p s1
      assume "mapped g (s\<lparr>tick := n\<rparr>) s1"
      from mapped_fields [OF this] have w: "world s1 = world s" by simp
      show "wp (bindE (deref (Some p)) (\<lambda>p. bindE (file_size E p) (\<lambda>n. thenE (set_map_size p n) (bindE (readS (\<lambda>s. pack_path s (g + 1))) (\<lambda>new_path.
      bindE (sys_open E (pack_name (g + 1)) True True) (\<lambda>r. case r of
        Inl err \<Rightarrow> sys_err (''open '' @ new_path) err
      | Inr new_fd \<Rightarrow> bindE (tryE (compact_copy E live t g p new_fd)
            (\<lambda>e. thenE (sys_unlink E (pack_name (g + 1))) (throw e))) (compact_finish E g))))))) ?Q ?R s1"
        unfolding deref_def option.case wp_bindE [of "ret _"] wp_ret wp_bindE [of "file_size _ _"] wp_thenE [of "set_map_size _ _"]
        by (intro wp_file_size [OF q] wp_set_map_size opened same) (simp_all add: w)
    qed (simp_all add: same)
  qed (simp add: same)
qed

section \<open>A compaction in a writer's steps\<close>

lemma unused_next: "g < g + 1 \<Longrightarrow> unused_name g (pack_name (g + 1))"
  by (auto simp: unused_name_def pack_name_inj)

text \<open>Making the new pack, and committing it or nothing.\<close>

lemma built_peers:
  assumes idle: "idle_inv E g i s" and gt: "g < g + 1" and b: "built g (world s) v"
    and env: "mdb_committed E (mdb_env v) = mdb_committed E (mdb_env (world s)) \<or>
      live_pack E v (g + 1) k \<and> index_ok E (inodes v k) (mdb_committed E (mdb_env v) Blobs)"
  shows "peers_run E (world s) v"
proof -
  let ?w = "world s" and ?new = "pack_name (g + 1)"
  have w: "files_ok ?w" "live_pack E ?w g i" "index_ok E (inodes ?w i) (mdb_committed E (mdb_env ?w) Blobs)"
    using idle by (simp_all add: idle_inv_def)
  have i: "find_inode ?w (pack_name g) = Some i" using w(2) by (simp add: live_pack_def)
  have ne: "pack_name (g + 1) \<noteq> pack_name g" using gt by (auto simp: pack_name_inj)
  from b obtain j w1 where f: "filled j w1 v" and w1: "find_inode ?w ?new = Some j \<and> w1 = ?w \<or>
      find_inode ?w ?new = None \<and> j = next_inode ?w \<and> w1 = link_new ?new ?w"
    by (auto simp: built_def)
  have open1: "peers_run E ?w w1 \<and> live_pack E w1 g i \<and> find_inode w1 ?new = Some j \<and> j \<noteq> i \<and>
      inodes w1 i = inodes ?w i \<and> mdb_env w1 = mdb_env ?w"
    using w1
  proof
    assume "find_inode ?w ?new = Some j \<and> w1 = ?w"
    then show ?thesis using w(2) files_ok_inj [OF w(1), of ?new j "pack_name g"] i ne by auto
  next
    assume "find_inode ?w ?new = None \<and> j = next_inode ?w \<and> w1 = link_new ?new ?w"
    then show ?thesis
      using w(2) i files_ok_less [OF w(1) i] peer_step.create [OF w(2) _ unused_next [OF gt]]
      by (auto simp: find_link_new link_fields live_pack_def)
  qed
  let ?w2 = "set_inode j (inodes v j) w1"
  have "peer_step E w1 ?w2"
    by (rule peer_step.fill [of E w1 g i ?new]) (use open1 f unused_next [OF gt] in \<open>simp_all add: filled_def\<close>)
  then have run: "peers_run E ?w ?w2" using open1 by auto
  have w2: "live_pack E ?w2 g i" "find_inode ?w2 ?new = Some j" "inodes ?w2 i = inodes ?w i" "mdb_env ?w2 = mdb_env ?w"
    using open1 w(2) by (auto simp: live_pack_def)
  note v = filled_eq [OF f]
  from env have "peer_step E ?w2 (?w2\<lparr>mdb_env := mdb_env v\<rparr>)"
  proof
    assume e: "mdb_committed E (mdb_env v) = mdb_committed E (mdb_env ?w)"
    show ?thesis
      by (rule peer_step.commit [OF w2(1)]) (use e w w2 in \<open>auto simp: live_pack_def\<close>)
  next
    assume e: "live_pack E v (g + 1) k \<and> index_ok E (inodes v k) (mdb_committed E (mdb_env v) Blobs)"
    then have "k = j" using filled_find [OF f] open1 by (simp add: live_pack_def)
    then show ?thesis
      by (intro peer_step.install [OF w2(1) gt w2(2)]) (use e in \<open>simp_all add: live_pack_def\<close>)
  qed
  with run v show ?thesis by (metis rtranclp.rtrancl_into_rtrancl)
qed

lemma unlink_step: "live_pack E w g i \<Longrightarrow> name \<noteq> pack_name g \<Longrightarrow> peer_step E w (unlinked name w)"
  unfolding unlinked_def by (rule peer_step.remove)

lemma live_pack_unlinked: "live_pack E (unlinked name w) g i \<longleftrightarrow> live_pack E w g i \<and> name \<noteq> pack_name g"
  by (auto simp: live_pack_def)

lemma reworked_stays:
  assumes idle: "idle_inv E g i s" and gt: "g < g + 1" and r: "reworked g (world s) v"
    and live: "live_pack E v g i'" and env: "mdb_committed E (mdb_env v) = mdb_committed E (mdb_env (world s))"
  shows "peers_run E (world s) v"
proof -
  from r obtain v0 x where v0: "v0 = world s \<or> built g (world s) v0"
    and v: "v = v0\<lparr>flock_owner := x\<rparr> \<or> v = (unlinked (pack_name g) v0)\<lparr>flock_owner := x\<rparr> \<or> v = unlinked (pack_name (g + 1)) v0"
    by (auto simp: reworked_def)
  have "mdb_env v = mdb_env v0" using v by auto
  then have "peers_run E (world s) v0" using v0 built_peers [OF idle gt] env by auto
  moreover from v consider "v = v0\<lparr>flock_owner := x\<rparr>" | "v = unlinked (pack_name (g + 1)) v0" "live_pack E v0 g i'"
    using live by (auto simp: live_pack_unlinked)
  then have "peer_step E v0 v"
  proof cases
    case 1
    show ?thesis unfolding 1 by (rule peer_step.lock)
  next
    case 2
    then show ?thesis using gt by (simp add: unlink_step pack_name_inj)
  qed
  ultimately show ?thesis by auto
qed

lemma reworked_moved:
  assumes idle: "idle_inv E g i s" and gt: "g < g + 1" and r: "reworked g (world s) v"
    and live: "live_pack E v (g + 1) k" and idx: "index_ok E (inodes v k) (mdb_committed E (mdb_env v) Blobs)"
  shows "peers_run E (world s) v"
proof -
  from r obtain v0 x where v0: "v0 = world s \<or> built g (world s) v0"
    and v: "v = v0\<lparr>flock_owner := x\<rparr> \<or> v = (unlinked (pack_name g) v0)\<lparr>flock_owner := x\<rparr> \<or> v = unlinked (pack_name (g + 1)) v0"
    by (auto simp: reworked_def)
  have v': "mdb_env v = mdb_env v0" "inodes v = inodes v0" using v by auto
  have live0: "live_pack E v0 (g + 1) k" using live v by (auto simp: live_pack_unlinked)
  with v0 have "peers_run E (world s) v0" using built_peers [OF idle gt] idx v' by auto
  moreover from v consider "v = v0\<lparr>flock_owner := x\<rparr>" | "v = (unlinked (pack_name g) v0)\<lparr>flock_owner := x\<rparr>"
    using live by (auto simp: live_pack_unlinked)
  then have "peers_run E v0 v"
  proof cases
    case 1
    show ?thesis unfolding 1 by (rule peers_relock) simp
  next
    case 2
    have "peer_step E v0 (unlinked (pack_name g) v0)"
      by (rule unlink_step [OF live0]) (use gt in \<open>auto simp: pack_name_inj\<close>)
    then show ?thesis unfolding 2 by (intro peers_relock r_into_rtranclp)
  qed
  ultimately show ?thesis by (rule rtranclp_trans)
qed

text \<open>The directory is at the end of a writer's steps, or has lost its pack.\<close>

lemma compact_failed_wrote:
  assumes idle: "idle_inv E g i s" and gt: "g < g + 1" and none: "wtxn s = None"
    and r: "reworked g (world s) (world s')" and f: "compact_failed E live g i s s'"
  shows "wrote E (world s) s' \<or> pack_lost E s'"
  using f unfolding compact_failed_def
proof (elim disjE)
  assume a: "stays E g i s s'"
  have "peers_run E (world s) (world s')"
    by (rule reworked_stays [OF idle gt r]) (use a in \<open>auto simp: stays_def idle_inv_def committed_tables_def\<close>)
  then show ?thesis using a none by (simp add: stays_def wrote_none)
next
  assume a: "moved E live g s s'"
  then obtain k where "idle_inv E (g + 1) k s'" by (auto simp: moved_def)
  then have "peers_run E (world s) (world s')" by (intro reworked_moved [OF idle gt r, of k]) (simp_all add: idle_inv_def)
  then show ?thesis using a none by (simp add: moved_def wrote_none)
qed (auto dest: lost_pack_lost)

lemma moved_wrote:
  assumes "idle_inv E g i s" and "g < g + 1" and "wtxn s = None"
    and "reworked g (world s) (world s')" and "moved E live g s s'"
  shows "wrote E (world s) s'"
proof -
  obtain k where k: "idle_inv E (g + 1) k s'" using assms(5) by (auto simp: moved_def)
  then have "peers_run E (world s) (world s')" by (intro reworked_moved [OF assms(1,2,4), of k]) (simp_all add: idle_inv_def)
  then show ?thesis using assms by (simp add: moved_def wrote_none)
qed

lemma wp_compact_locked_wrote:
  assumes ok: "platform_ok E" and idle: "idle_inv E g i s" and none: "wtxn s = None" and gt: "g < g + 1"
    and fits: "length (inodes (world s) i) \<le> kMapSize"
    and Q: "\<And>s'. wrote E (world s) s' \<Longrightarrow> Q () s'"
    and R: "\<And>e s'. wrote E (world s) s' \<or> pack_lost E s' \<Longrightarrow> R e s'"
  shows "wp (compact_locked E live) Q R s"
proof -
  have "wp (compact_locked E live) (\<lambda>_ s'. moved E live g s s') (\<lambda>e s'. compact_failed E live g i s s') s"
    by (rule wp_compact_locked [OF ok idle none gt fits])
  from wp_conj [OF this compact_locked_reworked [OF ok idle none gt]] show ?thesis
    by (rule wp_mono) (auto intro: Q R moved_wrote [OF idle gt none] dest: compact_failed_wrote [OF idle gt none])
qed

lemma pack_lost_flock: "pack_lost E s \<Longrightarrow> world s' = (world s)\<lparr>flock_owner := x\<rparr> \<Longrightarrow> pack_lost E s'"
  by (auto simp: pack_lost_def committed_tables_def find_inode_def)

lemma wrote_flock: "wrote E w s \<Longrightarrow> world s' = (world s)\<lparr>flock_owner := x\<rparr> \<Longrightarrow> wtxn s' = wtxn s \<Longrightarrow>
    wtxn_freed s' = wtxn_freed s \<Longrightarrow> wrote E w s'"
  by (auto simp: wrote_def batch_adds_def peers_relock)

lemma wrote_run: "wrote E w s \<Longrightarrow> peers_run E w (world s)"
  by (simp add: wrote_def)

lemma wrote_or_lost_flock:
  assumes "wrote E w s \<or> pack_lost E s" and "world s' = (world s)\<lparr>flock_owner := x\<rparr>" and "wtxn s' = wtxn s"
    and "wtxn_freed s' = wtxn_freed s"
  shows "wrote E w s' \<or> pack_lost E s'"
  using assms(1) wrote_flock [OF _ assms(2-4)] pack_lost_flock [OF _ assms(2)] by blast

lemma wp_compact_wrote:
  fixes s :: "('e, 't, 'z) cas_scheme"
  assumes ok: "platform_ok E" and inv: "cas_inv E s" and own: "own_batch E s" and can: "can_compact E s" and adds: "batch_adds E s"
  shows "wp (compact E live) (\<lambda>_. wrote E (world s)) (\<lambda>_ s'. wrote E (world s) s' \<or> pack_lost E s') s"
    (is "wp _ ?Q ?R s")
proof -
  note q = platform_okD(3) [OF ok]
  obtain g i where live: "live_pack E (world s) g i" using inv by (auto simp: cas_inv_idle idle_inv_def)
  then have gt: "g < g + 1" and fits: "length (inodes (world s) i) \<le> kMapSize"
    using can reader_ok(1) [OF inv live] by (simp_all add: can_compact_def live_pack_def)
  have main: "wp (thenE (lock_writer E) (tryE (compact_locked E live) (\<lambda>e. thenE (unlock_writer E) (throw e)))) ?Q ?R s1"
    if sy: "synced E s s1" and files: "same_files s s1" and w1: "peers_run E (world s) (world s1)" for s1 :: "('e, 't, 'z) cas_scheme"
  proof -
    have "table_gen (committed_tables E s1) = Some g"
      using sy reader_ok(1) [OF inv live] by (simp add: synced_def)
    then have live1: "live_pack E (world s1) g i" by (rule live_same_files [OF files _ live])
    have none: "wtxn s1 = None" using sy by (simp add: synced_def)
    have idle1: "idle_inv E g i s1" using sy live1 by (auto simp: synced_def intro: cas_inv_idleD)
    show ?thesis
      unfolding wp_thenE
    proof (rule wp_lock_writer [OF q])
      fix n
      let ?s = "s1\<lparr>tick := n, world := (world s1)\<lparr>flock_owner := Some (self E)\<rparr>\<rparr>"
      have run: "peers_run E (world s) (world ?s)" using w1 by (simp add: peers_relock)
      have idle: "idle_inv E g i ?s" by (rule idle_same [OF idle1]) simp_all
      show "wp (tryE (compact_locked E live) (\<lambda>e. thenE (unlock_writer E) (throw e))) ?Q ?R ?s"
        unfolding wp_tryE
      proof (rule wp_compact_locked_wrote [OF ok idle _ gt])
        fix s' :: "('e, 't, 'z) cas_scheme" assume "wrote E (world ?s) s'"
        then show "wrote E (world s) s'" by (rule wrote_trans [OF run])
      next
        fix e and s' :: "('e, 't, 'z) cas_scheme" assume s': "wrote E (world ?s) s' \<or> pack_lost E s'"
        then have "wrote E (world s) s' \<or> pack_lost E s'" using wrote_trans [OF run] by blast
        note fl = wrote_or_lost_flock [OF this]
        show "wp (thenE (unlock_writer E) (throw e)) ?Q ?R s'"
          by (intro wp_rules q fl [where x = "flock_owner (world s')"] fl [where x = None]) simp_all
      qed (use none fits files in \<open>simp_all add: same_files_def\<close>)
    qed (simp add: wrote_none none w1)
  qed
  have "wp (sync E) (\<lambda>_ s1. (synced E s s1 \<and> wrote E (world s) s1) \<and> same_files s s1) (\<lambda>_ s1. (True \<and> wrote E (world s) s1) \<and> True) s"
    by (intro wp_conj wp_sync_wrote [OF ok inv adds] sync_files [OF q] wp_sync_own [OF ok inv own]) simp_all
  then have "wp (sync E) (\<lambda>_. wp (thenE (lock_writer E) (tryE (compact_locked E live) (\<lambda>e. thenE (unlock_writer E) (throw e)))) ?Q ?R) ?R s"
    by (rule wp_mono) (auto intro: main dest: wrote_run)
  then show ?thesis unfolding compact_def wp_thenE [of "sync E"] .
qed

end
