(* ===== verification/Reader.thy ===== *)
theory Reader
  imports Peers
begin

text \<open>
  A process that reads while others write. The rules are those of \<open>Pack_Lookup\<close> without the assumption that nobody else
  acts: before every call of the reader the others may have made any number of steps (\<open>peers_ok\<close>).
\<close>

section \<open>The reader's handle\<close>

text \<open>It has no batch of its own; its mappings are of packs that are or were live.\<close>

definition reader_ok :: "('e, 't) platform \<Rightarrow> ('e, 't, 'z) cas_scheme \<Rightarrow> bool" where
  "reader_ok E s \<longleftrightarrow> wtxn s = None \<and> world_inv E (world s) \<and> (\<forall>m\<in>set (maps s). file_of E (m_gen m) (m_fd m) (world s)) \<and>
     (\<forall>p. cur s = Some p \<longrightarrow> p < length (maps s)) \<and> (\<forall>p\<in>set (retired s). p < length (maps s))"

text \<open>The directory after each of the next calls, as long as only others change it.\<close>

fun passing :: "('e, 't) platform \<Rightarrow> nat \<Rightarrow> 'e world \<Rightarrow> nat \<Rightarrow> 'e world" where
  "passing E n w 0 = w"
| "passing E n w (Suc k) = others E (n + k) (passing E n w k)"

lemma passing_add: "passing E n w (k + j) = passing E (n + k) (passing E n w k) j"
  by (induction j) (simp_all add: add.assoc)

lemma passing_run:
  assumes "peers_ok E" and "world_inv E w"
  shows "peers_run E w (passing E n w k)"
proof (induction k)
  case (Suc k)
  have "world_inv E (passing E n w k)" by (rule peers_run_inv [OF Suc assms(2)])
  with assms(1) have "peers_run E (passing E n w k) (others E (n + k) (passing E n w k))" by (simp add: peers_ok_def)
  with Suc show ?case by (simp add: rtranclp_trans [of "peer_step E"])
qed simp

text \<open>A reader's step: some calls later, and the handle is in order.\<close>

definition reads_on :: "('e, 't) platform \<Rightarrow> ('e, 't, 'z) cas_scheme \<Rightarrow> ('e, 't, 'z) cas_scheme \<Rightarrow> bool" where
  "reads_on E s s' \<longleftrightarrow> reader_ok E s' \<and> peers_run E (world s) (world s') \<and> cas.more s' = cas.more s \<and>
     (\<exists>k. tick s' = tick s + k \<and> world s' = passing E (tick s) (world s) k)"

lemma reads_on_refl: "reader_ok E s \<Longrightarrow> reads_on E s s"
  by (auto simp: reads_on_def intro!: exI [of _ 0])

lemma reads_on_trans:
  assumes "reads_on E s s'" and "reads_on E s' s''"
  shows "reads_on E s s''"
proof -
  from assms obtain k j where "tick s' = tick s + k" "world s' = passing E (tick s) (world s) k"
    "tick s'' = tick s' + j" "world s'' = passing E (tick s') (world s') j" by (auto simp: reads_on_def)
  then have "tick s'' = tick s + (k + j)" "world s'' = passing E (tick s) (world s) (k + j)" by (simp_all add: passing_add)
  then have "\<exists>k. tick s'' = tick s + k \<and> world s'' = passing E (tick s) (world s) k" by blast
  with assms show ?thesis by (auto simp: reads_on_def)
qed

lemma peers_okD:
  assumes "peers_ok E"
  shows "lmdb_ok E" "world_inv E w \<Longrightarrow> peers_run E w (others E n w)"
  using assms by (simp_all add: peers_ok_def)

lemma wp_sys_peers:
  assumes "peers_ok E" and "reader_ok E s" and "\<And>r n w. reads_on E s (s\<lparr>tick := n, world := w\<rparr>) \<Longrightarrow> Q r (s\<lparr>tick := n, world := w\<rparr>)"
  shows "wp (sys E) Q R s"
proof -
  let ?w = "others E (tick s) (world s)"
  have run: "peers_run E (world s) ?w" by (rule peers_okD(2) [OF assms(1)]) (use assms(2) in \<open>simp add: reader_ok_def\<close>)
  have "reader_ok E (s\<lparr>tick := Suc (tick s), world := ?w\<rparr>)"
    using assms(2) peers_run_inv [OF run] peers_run_file [OF run] by (auto simp: reader_ok_def)
  with run have "reads_on E s (s\<lparr>tick := Suc (tick s), world := ?w\<rparr>)"
    by (auto simp: reads_on_def intro!: exI [of _ 1])
  moreover have "s\<lparr>world := w, tick := n\<rparr> = s\<lparr>tick := n, world := w\<rparr>" for w n by simp
  ultimately show ?thesis using assms(3) by (simp only: wp_def sys_def prod.case sum.case)
qed

lemma wp_txn_begin_peers:
  fixes s :: "('e, 't, 'z) cas_scheme"
  assumes p: "peers_ok E" and s: "reader_ok E s"
    and Q: "\<And>t s'. reads_on E s s' \<Longrightarrow> mdb_table E t = mdb_committed E (mdb_env (world s')) \<Longrightarrow> Q t s'"
    and R: "\<And>e s'. reads_on E s s' \<Longrightarrow> io_exn e \<Longrightarrow> R e s'"
  shows "wp (txn_begin E) Q R s"
  unfolding txn_begin_def wp_thenE
proof (rule wp_sys_peers [OF p s])
  fix n w
  assume on: "reads_on E s (s\<lparr>tick := n, world := w\<rparr>)"
  obtain res t where t: "mdb_txn_begin E (mdb_env w) = (res, t)" by fastforce
  then show "wp (bindE (readS (\<lambda>s. mdb_txn_begin E (mdb_env (world s)))) (\<lambda>(res, t). thenE (mdb_check E res ''txn_begin'') (ret t))) Q R
      (s\<lparr>tick := n, world := w\<rparr>)"
    using Q [OF on] R [OF on] lmdb_readsD(1) [OF peers_okD(1) [OF p], of "mdb_env w" t] by (simp add: wp_simps mdb_check_def)
qed

section \<open>Looking up\<close>

text \<open>What a look-up finds is what was committed at some moment.\<close>

definition finds ::
  "('e, 't) platform \<Rightarrow> bytes \<Rightarrow> 'e world \<Rightarrow> index_entry option \<Rightarrow> u64 \<Rightarrow> bool" where
  "finds E hash w found g \<longleftrightarrow> (case found of None \<Rightarrow> committed_view E w hash = None
   | Some e \<Rightarrow> \<exists>i b d. live_pack E w g i \<and> pinned E g i e b w \<and> unpack E e b = Inr d \<and> committed_view E w hash = Some d)"

lemma wp_lookup_peers:
  fixes s :: "('e, 't, 'z) cas_scheme"
  assumes p: "peers_ok E" and s: "reader_ok E s" and hash: "length hash = kHashLen"
    and Q: "\<And>found g s'. reads_on E s s' \<Longrightarrow> finds E hash (world s') found g \<Longrightarrow> Q (found, g) s'"
    and R: "\<And>e s'. reads_on E s s' \<Longrightarrow> io_exn e \<Longrightarrow> R e s'"
  shows "wp (lookup E hash True) Q R s"
proof -
  note lmdb = peers_okD(1) [OF p]
  have idle: "batch_txn E s = None" using s by (simp add: reader_ok_def batch_txn_def)
  let ?rest = "\<lambda>t gen. case mdb_get E t Blobs hash of (res, val) \<Rightarrow>
      if res = MDB_NOTFOUND then ret (None, gen)
      else thenE (mdb_check E res ''mdb_get'') (bindE (liftE (decode_entry val)) (\<lambda>entry. ret (Some entry, gen)))"
  have rest: "wp (?rest t g) Q R s'"
    if on: "reads_on E s s'" and t: "mdb_table E t = mdb_committed E (mdb_env (world s'))" and live: "live_pack E (world s') g i" for t g i s'
  proof -
    have inv: "world_inv E (world s')" using on by (simp add: reads_on_def reader_ok_def)
    note idx = world_invE(2) [OF inv live]
    have view: "committed_view E (world s') = index_view E (inodes (world s') i) (mdb_table E t Blobs)"
      using committed_view_live [OF live] t by simp
    obtain res val where got: "mdb_get E t Blobs hash = (res, val)" by fastforce
    consider "res = MDB_NOTFOUND" | "res = MDB_SUCCESS" | "res \<noteq> MDB_NOTFOUND" "res \<noteq> MDB_SUCCESS" by blast
    then show ?thesis
    proof cases
      case 1
      then have "mdb_table E t Blobs hash = None" using got lmdb_readsD(3) [OF lmdb] by metis
      then have "finds E hash (world s') None g" by (simp add: finds_def view index_view_def)
      with 1 got Q [OF on] show ?thesis by (simp add: wp_simps)
    next
      case 2
      then have some: "mdb_table E t Blobs hash = Some val" using got lmdb_readsD(2) [OF lmdb] by metis
      obtain e d where e: "decode_entry val = Inr e" "in_pack (inodes (world s') i) e"
        "unpack E e (entry_bytes (inodes (world s') i) e) = Inr d" "index_view E (inodes (world s') i) (mdb_table E t Blobs) hash = Some d"
        using index_ok_entry [OF idx [folded t] some] by metis
      have "pinned E g i e (entry_bytes (inodes (world s') i) e) (world s')"
        by (rule pinned_live [OF inv live _ e(1,2)]) (use some t in simp)
      with e live view have "finds E hash (world s') (Some e) g" by (auto simp: finds_def)
      with 2 got e(1) Q [OF on] show ?thesis by (simp add: wp_simps mdb_check_def)
    next
      case 3
      with got R [OF on] show ?thesis by (simp add: wp_simps mdb_check_def)
    qed
  qed
  have "wp (bindE (liftE (read_gen E t)) (?rest t)) Q R s'"
    if on: "reads_on E s s'" and t: "mdb_table E t = mdb_committed E (mdb_env (world s'))" for t s'
  proof -
    from on obtain g i where live: "live_pack E (world s') g i" by (auto simp: reads_on_def reader_ok_def world_inv_def)
    have "wp (liftE (read_gen E t)) (\<lambda>g'. wp (?rest t g') Q R) R s'"
      by (rule wp_read_gen [OF lmdb, of t g]) (use t live rest [OF on t live] R [OF on] in \<open>simp_all add: live_pack_def\<close>)
    then show ?thesis by (simp add: wp_bindE)
  qed
  then have "wp (txn_begin E) (\<lambda>t. wp (bindE (liftE (read_gen E t)) (?rest t)) Q R) R s"
    by (rule wp_txn_begin_peers [OF p s _ R])
  then have "wp (read_txn E) (\<lambda>t. wp (bindE (liftE (read_gen E t)) (?rest t)) Q R) R s"
    using idle by (simp add: read_txn_def wp_simps)
  then show ?thesis using hash by (simp add: lookup_def wp_bindE)
qed

section \<open>Mapping\<close>

lemma find_mapping_Some:
  assumes "reader_ok E s" and "find_mapping s g = Some p"
  shows "p < length (maps s)" "m_gen (map_at s p) = g"
  using assms by (auto simp: reader_ok_def find_mapping_def find_Some_iff split: option.splits if_splits)

lemma reads_on_install:
  assumes on: "reads_on E s s'" and f: "file_of E g i (world s')"
  shows "reads_on E s (install_mapping g (length (maps s')) (s'\<lparr>maps := maps s' @ [\<lparr>m_fd = i, m_gen = g, m_size = n\<rparr>]\<rparr>))"
proof -
  have "p < length (maps s') \<Longrightarrow> p < Suc (length (maps s'))" for p by simp
  with assms show ?thesis by (auto simp: reads_on_def reader_ok_def install_mapping_def split: option.splits)
qed

lemma install_mapping_at:
  "map_at (install_mapping g (length (maps s)) (s\<lparr>maps := maps s @ [m]\<rparr>)) (length (maps s)) = m"
  "length (maps (install_mapping g (length (maps s)) (s\<lparr>maps := maps s @ [m]\<rparr>))) = Suc (length (maps s))"
  by (simp_all add: install_mapping_def map_at_def split: option.split)

lemma wp_mapping_peers:
  fixes s :: "('e, 't, 'z) cas_scheme"
  assumes p: "peers_ok E" and s: "reader_ok E s" and live: "live_pack E (world s) g i"
    and Q: "\<And>p s'. reads_on E s s' \<Longrightarrow> p < length (maps s') \<Longrightarrow> m_fd (map_at s' p) = i \<Longrightarrow> Q (Some p) s'"
    and none: "\<And>s'. reads_on E s s' \<Longrightarrow> Q None s'"
    and R: "\<And>e s'. reads_on E s s' \<Longrightarrow> io_exn e \<Longrightarrow> R e s'"
  shows "wp (mapping_for E g False) Q R s"
proof (cases "find_mapping s g")
  case (Some q)
  note q = find_mapping_Some [OF s Some]
  have "file_of E g (m_fd (map_at s q)) (world s)" using s q by (auto simp: reader_ok_def map_at_def)
  then have "m_fd (map_at s q) = i" using live by (auto simp: file_of_def live_pack_def)
  with Some q(1) Q [OF reads_on_refl [OF s]] show ?thesis by (simp add: mapping_for_def wp_simps)
next
  case None
  have inv: "world_inv E (world s)" using s by (simp add: reader_ok_def)
  let ?install = "\<lambda>r. wp (case r of None \<Rightarrow> ret None | Some p \<Rightarrow> thenE (modS (install_mapping g p)) (ret (Some p))) Q R"
  have pack: "file_of E g i (world s')" if "reads_on E s s'" for s' :: "('e, 't, 'z) cas_scheme"
    using that by (auto simp: reads_on_def intro: peers_run_file file_of_live [OF inv live])
  have map: "wp (bindE (sys_mmap E i) (\<lambda>r. case r of Inl err \<Rightarrow> sys_err ''mmap pack'' err
       | Inr _ \<Rightarrow> bindE (readS (\<lambda>s. length (maps s))) (\<lambda>p.
           thenE (modS (\<lambda>s. s\<lparr>maps := maps s @ [\<lparr>m_fd = i, m_gen = g, m_size = n\<rparr>]\<rparr>)) (ret (Some p))))) ?install R s1"
    if on: "reads_on E s s1" for n s1
    unfolding sys_mmap_def wp_bindE
  proof (rule wp_sys_peers [OF p])
    show "reader_ok E s1" using on by (simp add: reads_on_def)
    fix r k w
    let ?s = "s1\<lparr>tick := k, world := w\<rparr>"
    assume "reads_on E s1 ?s"
    with on have on': "reads_on E s ?s" by (rule reads_on_trans)
    have "?install (Some (length (maps ?s))) (?s\<lparr>maps := maps ?s @ [\<lparr>m_fd = i, m_gen = g, m_size = n\<rparr>]\<rparr>)"
      using Q [OF reads_on_install [OF on' pack [OF on'], of n]] install_mapping_at [of g ?s] by (simp add: wp_simps)
    with R [OF on'] show "wp (case r of Fail err \<Rightarrow> ret (Inl err) | _ \<Rightarrow> ret (Inr ())) (\<lambda>r. wp (case r of Inl err \<Rightarrow> sys_err ''mmap pack'' err
       | Inr _ \<Rightarrow> bindE (readS (\<lambda>s. length (maps s))) (\<lambda>p.
           thenE (modS (\<lambda>s. s\<lparr>maps := maps s @ [\<lparr>m_fd = i, m_gen = g, m_size = n\<rparr>]\<rparr>)) (ret (Some p)))) ?install R) R ?s"
      by (auto simp: wp_simps sys_err_def split: outcome.split)
  qed
  have size: "wp (bindE (sys_fstat_size E i) (\<lambda>r. case r of Inl err \<Rightarrow> sys_err ''fstat pack'' err
     | Inr n \<Rightarrow> bindE (sys_mmap E i) (\<lambda>r. case r of Inl err \<Rightarrow> sys_err ''mmap pack'' err
       | Inr _ \<Rightarrow> bindE (readS (\<lambda>s. length (maps s))) (\<lambda>p.
           thenE (modS (\<lambda>s. s\<lparr>maps := maps s @ [\<lparr>m_fd = i, m_gen = g, m_size = n\<rparr>]\<rparr>)) (ret (Some p)))))) ?install R s1"
    if on: "reads_on E s s1" for s1
    unfolding sys_fstat_size_def wp_bindE
  proof (rule wp_sys_peers [OF p])
    show "reader_ok E s1" using on by (simp add: reads_on_def)
    fix r k w
    let ?s = "s1\<lparr>tick := k, world := w\<rparr>"
    assume "reads_on E s1 ?s"
    with on have on': "reads_on E s ?s" by (rule reads_on_trans)
    show "wp (case r of Fail err \<Rightarrow> ret (Inl err) | _ \<Rightarrow> bindE (readS world) (\<lambda>w. ret (Inr (of_nat (length (inodes w i))))))
        (\<lambda>r. wp (case r of Inl err \<Rightarrow> sys_err ''fstat pack'' err
     | Inr n \<Rightarrow> bindE (sys_mmap E i) (\<lambda>r. case r of Inl err \<Rightarrow> sys_err ''mmap pack'' err
       | Inr _ \<Rightarrow> bindE (readS (\<lambda>s. length (maps s))) (\<lambda>p.
           thenE (modS (\<lambda>s. s\<lparr>maps := maps s @ [\<lparr>m_fd = i, m_gen = g, m_size = n\<rparr>]\<rparr>)) (ret (Some p))))) ?install R) R ?s"
      using R [OF on'] map [OF on'] by (cases r) (simp_all add: wp_bindE wp_ret wp_readS wp_throw sys_err_def)
  qed
  have "wp (map_pack E g False) ?install R s"
    unfolding map_pack_def sys_open_def wp_bindE wp_readS
  proof (rule wp_sys_peers [OF p s])
    fix r k w
    let ?s = "s\<lparr>tick := k, world := w\<rparr>"
    assume on: "reads_on E s ?s"
    have i: "j = i" if "find_inode w (pack_name g) = Some j" for j
      using pack [OF on] that by (auto simp: file_of_def)
    show "wp (case r of Fail err \<Rightarrow> ret (Inl err) | _ \<Rightarrow> bindE (readS world) (\<lambda>w. case find_inode w (pack_name g) of
        Some i \<Rightarrow> thenE (whenE False (modW (set_inode i []))) (ret (Inr i))
      | None \<Rightarrow> if False then thenE (modW (link_new (pack_name g))) (ret (Inr (next_inode w))) else ret (Inl ''ENOENT'')))
      (\<lambda>a. wp (case a of Inl err \<Rightarrow> if \<not> False \<and> err = ''ENOENT'' then ret None else sys_err (''open '' @ pack_path s g) err
       | Inr fd \<Rightarrow> bindE (sys_fstat_size E fd) (\<lambda>r. case r of Inl err \<Rightarrow> sys_err ''fstat pack'' err
         | Inr n \<Rightarrow> bindE (sys_mmap E fd) (\<lambda>r. case r of Inl err \<Rightarrow> sys_err ''mmap pack'' err
           | Inr _ \<Rightarrow> bindE (readS (\<lambda>s. length (maps s))) (\<lambda>p.
               thenE (modS (\<lambda>s. s\<lparr>maps := maps s @ [\<lparr>m_fd = fd, m_gen = g, m_size = n\<rparr>]\<rparr>)) (ret (Some p)))))) ?install R) R ?s"
      using R [OF on] none [OF on] size [OF on] i
      by (auto simp: wp_bindE wp_thenE wp_whenE wp_ret wp_readS wp_throw sys_err_def split: outcome.split option.split)
  qed
  with None show ?thesis by (simp add: mapping_for_def wp_bindE wp_readS)
qed

section \<open>Reading\<close>

text \<open>The answer was the committed store's at some moment of the call.\<close>

definition saw :: "('e, 't) platform \<Rightarrow> ('e, 't, 'z) cas_scheme \<Rightarrow> ('e, 't, 'z) cas_scheme \<Rightarrow> bytes \<Rightarrow> bytes option \<Rightarrow> bool" where
  "saw E s s' h r \<longleftrightarrow> (\<exists>k. tick s + k \<le> tick s' \<and> committed_view E (passing E (tick s) (world s) k) h = r)"

lemma saw_later: "saw E s s1 h r \<Longrightarrow> reads_on E s1 s' \<Longrightarrow> saw E s s' h r"
proof -
  assume "saw E s s1 h r" and on: "reads_on E s1 s'"
  then obtain k where "tick s + k \<le> tick s1" "committed_view E (passing E (tick s) (world s) k) h = r" by (auto simp: saw_def)
  moreover have "tick s1 \<le> tick s'" using on by (auto simp: reads_on_def)
  ultimately have "tick s + k \<le> tick s' \<and> committed_view E (passing E (tick s) (world s) k) h = r" by simp
  then show ?thesis unfolding saw_def by (rule exI)
qed

lemma saw_now:
  assumes "reads_on E s s1" and "reads_on E s1 s'" and "committed_view E (world s1) h = r"
  shows "saw E s s' h r"
proof -
  have "saw E s s1 h r" using assms(1,3) by (auto simp: saw_def reads_on_def)
  then show ?thesis by (rule saw_later [OF _ assms(2)])
qed

lemma reads_on_pinned: "reads_on E s s' \<Longrightarrow> pinned E g i e b (world s) \<Longrightarrow> pinned E g i e b (world s')"
  by (auto simp: reads_on_def intro: peers_run_pinned)

lemma wp_locate_peers:
  fixes s :: "('e, 't, 'z) cas_scheme"
  assumes p: "peers_ok E" and s: "reader_ok E s" and hash: "length hash = kHashLen"
    and none: "\<And>s'. reads_on E s s' \<Longrightarrow> saw E s s' hash None \<Longrightarrow> Q None s'"
    and some: "\<And>e q g b d s'. reads_on E s s' \<Longrightarrow> q < length (maps s') \<Longrightarrow> pinned E g (m_fd (map_at s' q)) e b (world s') \<Longrightarrow>
      unpack E e b = Inr d \<Longrightarrow> saw E s s' hash (Some d) \<Longrightarrow> Q (Some (e, q)) s'"
    and R: "\<And>e s'. reads_on E s s' \<Longrightarrow> io_exn e \<Longrightarrow> R e s'"
  shows "reads_on E s s1 \<Longrightarrow> wp (locate_loop E hash n) Q R s1"
proof (induction n arbitrary: s1)
  case 0
  then show ?case by (simp add: wp_simps R)
next
  case (Suc n)
  have ok: "reader_ok E s1" using Suc.prems by (simp add: reads_on_def)
  let ?cont = "\<lambda>(found, gen). case found of None \<Rightarrow> ret None
     | Some entry \<Rightarrow> bindE (readS (\<lambda>s. wtxn s \<noteq> None)) (\<lambda>creat.
       bindE (mapping_for E gen creat) (\<lambda>r. case r of
         Some p \<Rightarrow> ret (Some (entry, p)) | None \<Rightarrow> locate_loop E hash n))"
  have "wp (lookup E hash True) (\<lambda>r. wp (?cont r) Q R) R s1"
  proof (rule wp_lookup_peers [OF p ok hash])
    fix found g and s2 :: "('e, 't, 'z) cas_scheme"
    assume s2: "reads_on E s1 s2" and f: "finds E hash (world s2) found g"
    have on: "reads_on E s s2" by (rule reads_on_trans [OF Suc.prems s2])
    then have ok2: "reader_ok E s2" by (simp add: reads_on_def)
    show "wp (?cont (found, g)) Q R s2"
    proof (cases found)
      case None
      with f none [OF on] saw_now [OF on reads_on_refl [OF ok2]] show ?thesis by (simp add: wp_simps finds_def)
    next
      case (Some e)
      with f obtain i b d where e: "live_pack E (world s2) g i" "pinned E g i e b (world s2)" "unpack E e b = Inr d"
        "committed_view E (world s2) hash = Some d" by (auto simp: finds_def)
      have "wp (mapping_for E g False) (\<lambda>r. wp (case r of Some p \<Rightarrow> ret (Some (e, p)) | None \<Rightarrow> locate_loop E hash n) Q R) R s2"
      proof (rule wp_mapping_peers [OF p ok2 e(1)])
        fix q and s3 :: "('e, 't, 'z) cas_scheme"
        assume s3: "reads_on E s2 s3" "q < length (maps s3)" "m_fd (map_at s3 q) = i"
        have "Q (Some (e, q)) s3"
          by (rule some [OF reads_on_trans [OF on s3(1)] s3(2) _ e(3) saw_now [OF on s3(1) e(4)]])
            (use reads_on_pinned [OF s3(1) e(2)] s3(3) in simp)
        then show "wp (case Some q of Some p \<Rightarrow> ret (Some (e, p)) | None \<Rightarrow> locate_loop E hash n) Q R s3" by (simp add: wp_ret)
      next
        fix s3 :: "('e, 't, 'z) cas_scheme"
        assume "reads_on E s2 s3"
        from Suc.IH [OF reads_on_trans [OF on this]]
        show "wp (case None of Some p \<Rightarrow> ret (Some (e, p)) | None \<Rightarrow> locate_loop E hash n) Q R s3" by simp
      qed (rule R [OF reads_on_trans [OF on]])
      moreover have "wtxn s2 = None" using ok2 by (simp add: reader_ok_def)
      ultimately show ?thesis using Some by (simp add: wp_bindE wp_readS)
    qed
  qed (rule R [OF reads_on_trans [OF Suc.prems]])
  then show ?case by (simp only: locate_loop.simps wp_bindE)
qed

text \<open>The bytes of a pinned entry, in however many reads.\<close>

lemma wp_pread_peers:
  fixes s :: "('e, 't, 'z) cas_scheme"
  assumes p: "peers_ok E"
  shows "reader_ok E s \<Longrightarrow> pinned E g i e b (world s) \<Longrightarrow> k + n = unat (ie_len e) \<Longrightarrow> off = ie_off e + of_nat k \<Longrightarrow>
    (\<And>s'. reads_on E s s' \<Longrightarrow> Q (drop k b) s') \<Longrightarrow> (\<And>e s'. reads_on E s s' \<Longrightarrow> io_exn e \<Longrightarrow> R e s') \<Longrightarrow>
    wp (pread_all E i n off) Q R s"
proof (induction n arbitrary: k off Q s rule: less_induct)
  case (less n)
  have len: "length b = unat (ie_len e)" using less.prems(2) by (auto simp: pinned_def in_pack_def entry_bytes_def)
  show ?case
  proof (cases "n = 0")
    case True
    with less.prems(3) len less.prems(5) [OF reads_on_refl [OF less.prems(1)]] show ?thesis
      unfolding wp_pread_all_step [of E i n] by simp
  next
    case False
    have step: "got \<noteq> [] \<and> wp (pread_all E i (n - length got) (off + of_nat (length got))) (\<lambda>rest. Q (got @ rest)) R s1"
      if on: "reads_on E s s1" and got: "got = substr (inodes (world s1) i) (unat off) m" and m: "0 < m" "m \<le> n" for got m s1
    proof -
      have pin: "pinned E g i e b (world s1)" by (rule reads_on_pinned [OF on less.prems(2)])
      have ok: "reader_ok E s1" using on by (simp add: reads_on_def)
      have fits: "unat (ie_off e) + unat (ie_len e) \<le> length (inodes (world s1) i)" using pin by (simp add: pinned_def in_pack_def)
      moreover have "length (inodes (world s1) i) \<le> max_off"
        using ok by (auto simp: reader_ok_def world_inv_def intro: files_ok_length)
      ultimately have off: "unat off = unat (ie_off e) + k"
        unfolding less.prems(4) using less.prems(3) by (intro unat_add_max_off) simp
      have b: "b = substr (inodes (world s1) i) (unat (ie_off e)) (unat (ie_len e))" using pin by (simp add: pinned_def entry_bytes_def)
      have part: "got = take m (drop k b)"
        using less.prems(3) m unfolding got b off by (simp add: substr_def min_def add.commute drop_take)
      have lgot: "length got = m" using part len less.prems(3) m by simp
      have "wp (pread_all E i (n - m) (off + of_nat m)) (\<lambda>rest. Q (got @ rest)) R s1"
      proof (rule less.IH [OF _ ok pin, where k = "k + m"])
        fix s' :: "('e, 't, 'z) cas_scheme"
        assume "reads_on E s1 s'"
        from less.prems(5) [OF reads_on_trans [OF on this]]
        moreover have "got @ drop (k + m) b = drop k b" unfolding part by (simp add: add.commute [of k] flip: drop_drop)
        ultimately show "Q (got @ drop (k + m) b) s'" by simp
      next
        fix e' and s' :: "('e, 't, 'z) cas_scheme"
        assume "reads_on E s1 s'" "io_exn e'"
        then show "R e' s'" using less.prems(6) [OF reads_on_trans [OF on]] by blast
      qed (use m less.prems(3,4) in simp_all)
      with lgot m show ?thesis by auto
    qed
    show ?thesis
      unfolding wp_pread_all_step [of E i n] if_not_P [OF False] sys_pread_def wp_bindE
    proof (rule wp_sys_peers [OF p less.prems(1)])
      fix r t w
      let ?s = "s\<lparr>tick := t, world := w\<rparr>"
      assume on: "reads_on E s ?s"
      have "0 < short_count r n" "short_count r n \<le> n" using False by (auto simp: short_count_def split: outcome.split)
      from step [OF on refl this] less.prems(6) [OF on]
      show "wp (case r of Fail err \<Rightarrow> ret (Inl err) | _ \<Rightarrow> if max_off < unat off then ret (Inl ''EINVAL'')
         else bindE (readS world) (\<lambda>w. ret (Inr (substr (inodes w i) (unat off) (short_count r n)))))
         (\<lambda>r. case r of Inl err \<Rightarrow> wp (sys_err ''pread pack'' err) Q R
        | Inr got \<Rightarrow> if got = [] then R (CorruptError ''pack truncated'')
            else wp (pread_all E i (n - length got) (off + of_nat (length got))) (\<lambda>rest. Q (got @ rest)) R) R ?s"
        by (cases r) (simp_all add: wp_bindE wp_ret wp_readS wp_throw sys_err_def)
    qed
  qed
qed

lemma wp_get_peers:
  fixes s :: "('e, 't, 'z) cas_scheme"
  assumes p: "peers_ok E" and s: "reader_ok E s" and hash: "length hash = kHashLen"
    and Q: "\<And>r s'. reads_on E s s' \<Longrightarrow> saw E s s' hash r \<Longrightarrow> Q r s'"
    and R: "\<And>e s'. reads_on E s s' \<Longrightarrow> io_exn e \<Longrightarrow> R e s'"
  shows "wp (get E hash) Q R s"
proof -
  let ?cont = "\<lambda>r. case r of
     None \<Rightarrow> ret None
   | Some (entry, p) \<Rightarrow> bindE (readS (\<lambda>s. m_fd (map_at s p))) (\<lambda>fd.
       thenE (string_resize (ie_len entry))
       (bindE (pread_all E fd (unat (ie_len entry)) (ie_off entry)) (\<lambda>stored.
        if \<not> compressed entry then ret (Some stored)
        else bindE (liftE (decompress E stored (ie_raw_len entry))) (\<lambda>out. ret (Some out)))))"
  have "wp (locate_loop E hash kMaxGenerationRetries) (\<lambda>r. wp (?cont r) Q R) R s"
  proof (rule wp_locate_peers [OF p s hash])
    fix e q g b d and s1 :: "('e, 't, 'z) cas_scheme"
    assume on: "reads_on E s s1" and pin: "pinned E g (m_fd (map_at s1 q)) e b (world s1)" and d: "unpack E e b = Inr d"
      and seen: "saw E s s1 hash (Some d)"
    let ?i = "m_fd (map_at s1 q)"
    have ok: "reader_ok E s1" using on by (simp add: reads_on_def)
    have "wp (pread_all E ?i (unat (ie_len e)) (ie_off e)) (\<lambda>stored.
        wp (if \<not> compressed e then ret (Some stored)
          else bindE (liftE (decompress E stored (ie_raw_len e))) (\<lambda>out. ret (Some out))) Q R) R s1"
    proof (rule wp_pread_peers [OF p ok pin, where k = 0])
      fix s' :: "('e, 't, 'z) cas_scheme"
      assume on': "reads_on E s1 s'"
      have "Q (Some d) s'" by (rule Q [OF reads_on_trans [OF on on'] saw_later [OF seen on']])
      with d show "wp (if \<not> compressed e then ret (Some (drop 0 b))
          else bindE (liftE (decompress E (drop 0 b) (ie_raw_len e))) (\<lambda>out. ret (Some out))) Q R s'"
        by (auto simp: wp_simps unpack_def split: if_splits)
    qed (use R [OF reads_on_trans [OF on]] in simp_all)
    moreover have "\<not> max_off < unat (ie_len e)"
    proof -
      have "length (inodes (world s1) ?i) \<le> max_off" using ok by (auto simp: reader_ok_def world_inv_def intro: files_ok_length)
      with pin show ?thesis by (simp add: pinned_def in_pack_def)
    qed
    ultimately show "wp (?cont (Some (e, q))) Q R s1"
      by (simp add: wp_bindE wp_thenE wp_readS wp_whenE string_resize_def)
  qed (use Q R reads_on_refl [OF s] in \<open>auto simp: wp_ret\<close>)
  then show ?thesis by (simp only: get_def locate_def wp_bindE)
qed

end
