(* ===== verification/Reader_Spec.thy ===== *)
theory Reader_Spec
  imports Reader Gc_Spec
begin

text \<open>
  What a process reads while others write to the same directory, with an instance in which another process
  compacts the store between two calls of the reader.
\<close>

section \<open>An example\<close>

text \<open>The directory of \<open>sample_one\<close> after another process's compaction that kept the blob.\<close>

definition moved :: "tables world" where
  "moved = \<lparr>inodes = (\<lambda>_. [])(1 := ''hi'', 2 := ''hi''), dirents = [(''lock'', 0), (''pack.1'', 2)], next_inode = 3,
     mdb_env = Tables [(sample_hash ''hi'', encode_entry sample_kept)] [(''gen'', le_bytes 8 1), (''format'', ''2'')],
     flock_owner = None\<rparr>"

definition peers_sample :: "(tables, tables) platform" where
  "peers_sample = sample\<lparr>others := (\<lambda>n w. if n = 1 \<and> w = world sample_one then moved else w)\<rparr>"

lemma peers_sample_calls:
  "blake3 peers_sample = blake3 sample" "mdb_committed peers_sample = mdb_committed sample" "unpack peers_sample = unpack sample"
  by (simp_all add: peers_sample_def unpack_def decompress_def fun_eq_iff)

lemma peers_sample_blob: "entry_blob peers_sample = entry_blob sample"
  unfolding fun_eq_iff entry_blob_def peers_sample_calls by simp

lemma peers_sample_fields:
  "mdb_committed peers_sample = mdb_committed sample" "live_pack peers_sample = live_pack sample"
  "index_ok peers_sample = index_ok sample" "committed_view peers_sample = committed_view sample"
  unfolding fun_eq_iff live_pack_def index_ok_def committed_view_def index_view_def peers_sample_calls peers_sample_blob by simp_all

lemma sample_calls: "blake3 sample = sample_hash" "mdb_committed sample e d = map_of (table_of e d)"
  by (simp_all add: sample_def)

lemma sample_kept_index:
  "index_ok sample ''hi'' [sample_hash ''hi'' \<mapsto> encode_entry sample_kept]"
  "entry_blob sample ''hi'' (encode_entry sample_kept) = Some ''hi''"
proof -
  show *: "entry_blob sample ''hi'' (encode_entry sample_kept) = Some ''hi''"
    using sample_entry_blob [OF sample_fits_one] by (simp add: sample_kept_def)
  show "index_ok sample ''hi'' [sample_hash ''hi'' \<mapsto> encode_entry sample_kept]"
    using * by (simp add: index_ok_def sample_calls)
qed

lemma moved_live: "live_pack sample moved 1 2"
  by (simp add: live_pack_def table_gen_def moved_def sample_names find_inode_def) (simp add: sample_def lost_gen)

lemma moved_view: "committed_view sample moved (sample_hash ''hi'') = Some ''hi''"
  using committed_view_live [OF moved_live] sample_kept_index(2) by (simp add: index_view_def moved_def) (simp add: sample_def)

lemma one_to_moved: "peers_run peers_sample (world sample_one) moved"
proof -
  let ?w0 = "world sample_one"
  let ?w1 = "link_new ''pack.1'' ?w0"
  let ?w2 = "set_inode 2 ''hi'' ?w1"
  let ?w3 = "?w2\<lparr>mdb_env := mdb_env moved\<rparr>"
  let ?w4 = "?w3\<lparr>dirents := filter (\<lambda>x. fst x \<noteq> ''pack.0'') (dirents ?w3)\<rparr>"
  have w0: "dirents ?w0 = [(''lock'', 0), (''pack.0'', 1)]" "next_inode ?w0 = 2" "flock_owner ?w0 = None"
    "inodes ?w0 = (\<lambda>_. [])(1 := ''hi'')"
    by (simp_all add: sample_one_def sample_with_def sample_cas_def sample_world_def set_inode_def)
  have found: "find_inode ?w0 ''pack.1'' = None" "find_inode ?w1 ''pack.1'' = Some 2" "find_inode ?w2 ''pack.1'' = Some 2"
    by (simp_all add: find_inode_def w0 link_new_def set_inode_def)
  have live0: "live_pack sample ?w0 0 1" using sample_with_live [OF sample_fits_one] by (simp add: sample_one_def)
  then have live: "live_pack sample ?w1 0 1" "live_pack sample ?w2 0 1" "live_pack sample ?w3 1 2"
    using moved_live by (simp_all add: live_pack_def sample_names find_inode_def w0 link_new_def set_inode_def)
  have unused: "unused_name 0 ''pack.1''" by (auto simp: unused_name_def sample_names)
  note step = peer_step.intros [where E = peers_sample, unfolded peers_sample_fields]
  have s1: "peer_step peers_sample ?w0 ?w1" by (rule step(3) [OF live0 found(1) unused])
  have s2: "peer_step peers_sample ?w1 ?w2"
    by (rule step(4) [OF live(1) found(2) unused]) (simp add: max_off_def)
  have s3: "peer_step peers_sample ?w2 ?w3"
  proof (rule step(5) [OF live(2), where j = 2])
    show "find_inode ?w2 (pack_name (0 + 1)) = Some 2" using found(3) by (simp add: sample_names)
    show "table_gen (mdb_committed sample (mdb_env moved)) = Some (0 + 1)" using moved_live by (simp add: live_pack_def)
    show "index_ok sample (inodes ?w2 2) (mdb_committed sample (mdb_env moved) Blobs)"
      using sample_kept_index(1) by (simp add: moved_def) (simp add: sample_def)
  qed simp
  have s4: "peer_step peers_sample ?w3 ?w4" by (rule step(6) [OF live(3)]) (simp add: sample_names)
  have w4: "?w4 = moved" by (simp add: moved_def link_new_def set_inode_def w0 world.equality)
  note run = rtranclp.intros(1) [where r = "peer_step peers_sample"] and go = rtranclp.intros(2) [where r = "peer_step peers_sample"]
  show ?thesis by (rule go [OF go [OF go [OF go [OF run s1] s2] s3] s4 [unfolded w4]])
qed

lemma other_peers:
  "lz4_ok (E\<lparr>others := x\<rparr>) = lz4_ok E" "blake3_ok (E\<lparr>others := x\<rparr>) = blake3_ok E" "lmdb_ok (E\<lparr>others := x\<rparr>) = lmdb_ok E"
  by (simp_all add: lz4_ok_def blake3_ok_def lmdb_ok_def mdb_reads_ok_def mdb_scan_ok_def mdb_writes_ok_def mdb_env_ok_def)

lemma peers_sample_ok: "peers_ok peers_sample"
proof -
  have "lz4_ok peers_sample" "blake3_ok peers_sample" "lmdb_ok peers_sample"
    using sample_platform by (simp_all only: peers_sample_def other_peers platform_ok_def)
  moreover have "peers_run peers_sample w (others peers_sample n w)" for n w
    using one_to_moved by (cases "n = 1 \<and> w = world sample_one") (simp_all add: peers_sample_def)
  ultimately show ?thesis by (simp add: peers_ok_def)
qed

section \<open>Reading beside writers\<close>

text \<open>C8: While other processes append, commit and compact between any two calls of a reader, \<open>get\<close> returns what the store
  held under the hash at one moment of the call: never bytes of another blob, never a missing blob that was there all
  along. It fails only with an error of the system or of the store, and the handle stays usable.\<close>

theorem reads_beside_writers:
  assumes "peers_ok E" and "reader_ok E s" and "length hash = kHashLen"
  shows "wp (get E hash)
    (\<lambda>r s'. reader_ok E s' \<and> (\<exists>k. tick s + k \<le> tick s' \<and> r = committed_view E (passing E (tick s) (world s) k) hash))
    (\<lambda>e s'. reader_ok E s' \<and> io_exn e) s"
  by (rule wp_get_peers [OF assms]) (auto simp: reads_on_def saw_def)

lemma sample_one_tick: "tick sample_one = 0"
  by (simp add: sample_one_def sample_with_def sample_cas_def)

lemma sample_one_reads: "reader_ok peers_sample sample_one"
proof -
  have "world_inv sample (world sample_one)" using sample_one_ok by (auto simp: gc_ok_def pack_ok_def cas_inv_def)
  then have "world_inv peers_sample (world sample_one)" by (simp add: world_inv_def peers_sample_fields)
  then show ?thesis by (simp add: reader_ok_def) (simp add: sample_one_def sample_with_def sample_cas_def)
qed

theorem reads_beside_writers_witness:
  "wp (get peers_sample (sample_hash ''hi'')) (\<lambda>r s'. r = Some ''hi'' \<and> reader_ok peers_sample s')
    (\<lambda>e s'. reader_ok peers_sample s' \<and> io_exn e) sample_one"
proof (rule wp_mono [OF reads_beside_writers])
  fix r and s' :: "(tables, tables) cas"
  have one: "committed_view sample (world sample_one) = [sample_hash ''hi'' \<mapsto> ''hi'']"
    using sample_one_view store_view_none [of sample_one sample] by (simp add: sample_one_def sample_with_def sample_cas_def)
  have held: "committed_view sample (passing peers_sample 0 (world sample_one) k) (sample_hash ''hi'') = Some ''hi''" for k
  proof (induction k)
    case (Suc k)
    with moved_view show ?case by (simp add: peers_sample_def)
  qed (simp add: one)
  assume "reader_ok peers_sample s' \<and> (\<exists>k. tick sample_one + k \<le> tick s' \<and>
    r = committed_view peers_sample (passing peers_sample (tick sample_one) (world sample_one) k) (sample_hash ''hi''))"
  then show "r = Some ''hi'' \<and> reader_ok peers_sample s'"
    using held by (auto simp: peers_sample_fields sample_one_tick)
qed (use peers_sample_ok sample_one_reads in simp_all)

end
