(* ===== verification/Writer_Spec.thy ===== *)
theory Writer_Spec
  imports Writer_Compact Reader_Spec
begin

text \<open>
  What a handle does to the directory, seen by other processes: whatever it is asked to do, it stays within the steps
  that readers allow for (\<open>peers_run\<close>), so readers and writers of this program can share a directory.
\<close>

section \<open>The calls of a writer\<close>

datatype act = Call cmd | Compact "bytes \<Rightarrow> bool" | Close

fun perform :: "('e, 't) platform \<Rightarrow> act \<Rightarrow> (('e, 't, 'z) cas_scheme, unit) prog" where
  "perform E (Call c) = thenE (exec E c) (ret ())"
| "perform E (Compact live) = compact E live"
| "perform E Close = destroy E"

definition writer_ok :: "('e, 't) platform \<Rightarrow> ('e, 't, 'z) cas_scheme \<Rightarrow> bool" where
  "writer_ok E s \<longleftrightarrow> pack_ok E s \<and> batch_adds E s"

fun act_ok :: "('e, 't) platform \<Rightarrow> ('e, 't, 'z) cas_scheme \<Rightarrow> act \<Rightarrow> bool" where
  "act_ok E s (Call c) \<longleftrightarrow> cmd_ok c"
| "act_ok E s (Compact live) \<longleftrightarrow> can_compact E s"
| "act_ok E s Close \<longleftrightarrow> True"

lemma wrote_adds: "cas_inv E s \<Longrightarrow> wrote E w s \<Longrightarrow> batch_adds E s"
proof (cases "wtxn s")
  case (Some t)
  assume inv: "cas_inv E s" and "wrote E w s"
  moreover have "\<not> wtxn_freed s" using cas_inv_batch [OF inv Some] by (metis batch_at_def)
  ultimately show ?thesis by (simp add: wrote_def)
qed (simp add: batch_adds_none)

lemma mapped_wrote: "batch_adds E s \<Longrightarrow> mapped g s s' \<Longrightarrow> wrote E (world s) s'"
  by (simp add: wrote_def batch_adds_def mapped_fields)

lemma exec_wrote:
  assumes s: "writer_ok E s" and c: "cmd_ok c"
  shows "wp (exec E c) (\<lambda>_. wrote E (world s)) (\<lambda>_. wrote E (world s)) s"
proof -
  have ok: "platform_ok E" "cas_inv E s" "own_batch E s" and adds: "batch_adds E s"
    using s by (simp_all add: writer_ok_def pack_ok_def)
  obtain g i where live: "live_pack E (world s) g i" using ok(2) by (auto simp: cas_inv_idle idle_inv_def)
  note kept = wrote_refl [OF adds]
  show ?thesis
  proof (cases c)
    case (CPut d)
    with wp_put_wrote [OF ok(1) _ ok(2,3) adds] c show ?thesis by (simp add: wp_simps wp_fun_eqs)
  next
    case (CGet h)
    with c show ?thesis
      by (auto simp: wp_simps wp_fun_eqs intro!: wp_get [OF ok(1,2) live] mapped_wrote [OF adds])
  next
    case CSync
    with wp_sync_wrote [OF ok(1,2) adds] show ?thesis by (simp add: wp_simps wp_fun_eqs)
  next
    case (CMetaPut k v)
    with wp_meta_put_wrote [OF ok adds] c show ?thesis by (simp add: wp_simps wp_fun_eqs)
  next
    case (CMetaDel k)
    with wp_meta_del_wrote [OF ok adds] c show ?thesis by (simp add: wp_simps wp_fun_eqs)
  qed (use c kept in \<open>auto simp: wp_simps wp_fun_eqs intro!: wp_has [OF ok(1,2)] wp_blob_size [OF ok(1,2)] wp_meta_get [OF ok(1,2)]\<close>)
qed

lemma perform_steps:
  assumes "writer_ok E s" and "act_ok E s a"
  shows "wp (perform E a)
    (\<lambda>_ s'. peers_run E (world s) (world s') \<and> (a = Close \<or> writer_ok E s'))
    (\<lambda>e s'. io_exn e \<and> (peers_run E (world s) (world s') \<or> (\<exists>live. a = Compact live) \<and> pack_lost E s')) s"
proof -
  have ok: "platform_ok E" "cas_inv E s" "own_batch E s" and adds: "batch_adds E s"
    using assms(1) by (simp_all add: writer_ok_def pack_ok_def)
  show ?thesis
  proof (cases a)
    case (Call c)
    have "wp (exec E c) (\<lambda>_ s'. pack_ok E s' \<and> wrote E (world s) s') (\<lambda>e s'. io_exn e \<and> wrote E (world s) s') s"
      by (rule wp_mono [OF wp_conj [OF exec_step exec_wrote]]) (use assms Call in \<open>auto simp: writer_ok_def\<close>)
    then show ?thesis
      unfolding Call perform.simps wp_thenE
      by (elim wp_mono) (auto simp: wp_ret writer_ok_def pack_ok_def dest: wrote_run wrote_adds)
  next
    case (Compact live)
    have "wp (compact E live) (\<lambda>_. compacted E live s) (\<lambda>e _. io_exn e) s"
      by (rule wp_compact [OF ok]) (use assms Compact in auto)
    moreover have "wp (compact E live) (\<lambda>_. wrote E (world s)) (\<lambda>_ s'. wrote E (world s) s' \<or> pack_lost E s') s"
      by (rule wp_compact_wrote [OF ok _ adds]) (use assms Compact in simp)
    ultimately have "wp (compact E live) (\<lambda>_ s'. compacted E live s s' \<and> wrote E (world s) s')
        (\<lambda>e s'. io_exn e \<and> (wrote E (world s) s' \<or> pack_lost E s')) s"
      by (rule wp_conj)
    then show ?thesis
      unfolding Compact perform.simps using ok(1)
      by (elim wp_mono) (auto simp: writer_ok_def pack_ok_def compacted_def own_batch_def batch_adds_none dest: wrote_run)
  next
    case Close
    have "wp (destroy E) (\<lambda>_ _. True) (\<lambda>_ _. False) s" by (rule wp_destroy [OF ok(1,2)]) simp
    from wp_conj [OF this wp_destroy_wrote [OF ok(1,2)]] show ?thesis unfolding Close perform.simps by (elim wp_mono) auto
  qed
qed

text \<open>C9: Whatever a writer is asked to do and whatever fails on the way, what it has done to the directory at the end of
  a call is a number of the steps that readers allow for: bytes behind the committed end of the pack, a commit that
  keeps what was committed, a new pack that is complete before it is installed, the lock, or a name that is not the
  live pack's removed. The one exception is the compaction that loses its pack.\<close>

theorem writers_are_peers:
  assumes "writer_ok E s" and "act_ok E s a"
  shows "wp (perform E a)
    (\<lambda>_ s'. peers_run E (world s) (world s') \<and> (a = Close \<or> writer_ok E s'))
    (\<lambda>e s'. io_exn e \<and> (peers_run E (world s) (world s') \<or> (\<exists>live. a = Compact live) \<and> pack_lost E s')) s"
  by (rule perform_steps [OF assms])

lemma sample_writer: "writer_ok sample sample_cas"
  using sample_pack_ok by (simp add: writer_ok_def batch_adds_def) (simp add: sample_cas_def)

theorem writers_are_peers_witness:
  "wp (perform sample (Call (CPut ''hi'')))
    (\<lambda>_ s'. peers_run sample (world sample_cas) (world s') \<and> writer_ok sample s') (\<lambda>e s'. io_exn e) sample_cas"
  by (rule wp_mono [OF writers_are_peers [OF sample_writer]]) (simp_all add: max_off_def)

section \<open>Readers beside writers\<close>

text \<open>Two processes with the same libraries.\<close>

definition same_lib :: "('e, 't) platform \<Rightarrow> ('e, 't) platform \<Rightarrow> bool" where
  "same_lib E F \<longleftrightarrow> blake3 F = blake3 E \<and> lz4_decompress F = lz4_decompress E \<and> mdb_committed F = mdb_committed E"

lemma same_lib_facts:
  assumes "same_lib E F"
  shows "live_pack F = live_pack E" "index_ok F = index_ok E" "mdb_committed F = mdb_committed E"
proof -
  have "decompress F = decompress E" using assms by (simp add: same_lib_def decompress_def fun_eq_iff)
  then have "unpack F = unpack E" by (simp add: unpack_def fun_eq_iff)
  then have "entry_blob F = entry_blob E" unfolding entry_blob_def by (simp only:)
  with assms show "live_pack F = live_pack E" "index_ok F = index_ok E" "mdb_committed F = mdb_committed E"
    unfolding live_pack_def index_ok_def same_lib_def by (simp_all only:)
qed

lemma same_lib_step: "same_lib E F \<Longrightarrow> peer_step F w w' \<Longrightarrow> peer_step E w w'"
  by (erule peer_step.cases; simp only: same_lib_facts; blast intro: peer_step.intros)

lemma same_lib_run: "same_lib E F \<Longrightarrow> peers_run F w w' \<Longrightarrow> peers_run E w w'"
  by (erule rtranclp_induct) (auto dest: same_lib_step)

text \<open>Any number of calls of any number of handles, one after the other, without the loss of a pack.\<close>

inductive writers_run :: "('e, 't) platform \<Rightarrow> 'e world \<Rightarrow> 'e world \<Rightarrow> bool" for E where
  idle: "writers_run E w w"
| act: "writers_run E w (world s) \<Longrightarrow> same_lib E F \<Longrightarrow> writer_ok F s \<Longrightarrow> act_ok F s a \<Longrightarrow> perform F a s = (r, s') \<Longrightarrow>
    \<not> pack_lost F (s' :: ('e, 't) cas) \<Longrightarrow> writers_run E w (world s')"

lemma writers_run_peers: "writers_run E w w' \<Longrightarrow> peers_run E w w'"
proof (induction rule: writers_run.induct)
  case (act w s F a r s')
  have "peers_run F (world s) (world s')"
    using perform_steps [OF act.hyps(3,4)] act.hyps(5,6) by (auto simp: wp_def split: sum.splits)
  from same_lib_run [OF act.hyps(2) this] act.IH show ?case by (rule rtranclp_trans [rotated])
qed simp

text \<open>So what a reader relies on holds beside writers that run this program.\<close>

lemma peers_of_writers:
  assumes "lz4_ok E" and "blake3_ok E" and "lmdb_ok E" and "\<And>n w. world_inv E w \<Longrightarrow> writers_run E w (others E n w)"
  shows "peers_ok E"
  using assms by (auto simp: peers_ok_def intro: writers_run_peers)

end
