(* ===== verification/Ingest_Gc.thy ===== *)
theory Ingest_Gc
  imports Ingest_Store
begin

text \<open>
  An ingest with the collection it ends with, due or not: the tree it answers is fresh, as long as the clock does not
  run through a whole time to live meanwhile and does not go back, so the collection spares it.
\<close>

section \<open>Trees whose blobs are kept\<close>

lemma tree_at_cong: "m' h = m h \<Longrightarrow> tree_at m' h = tree_at m h"
  by (simp add: tree_at_def)

lemma walk_kept:
  assumes kept: "\<And>h. refers m {r} h \<Longrightarrow> m' h = m h"
    and "refers m {r} (te_id e)" and "te_type e = CHR ''d'' \<Longrightarrow> dir_below m {r} (te_id e)"
  shows "walk m' e p = walk m e p \<and> (\<forall>x. walk m e p = Some x \<longrightarrow> refers m {r} (te_id x))"
  using assms(2,3)
proof (induction p arbitrary: e)
  case (Cons c cs)
  have same: "tree_at m' (te_id e) = tree_at m (te_id e)" using kept [OF Cons.prems(1)] by (rule tree_at_cong)
  show ?case
  proof (cases "te_type e = CHR ''d''")
    case True
    have sub: "refers m {r} (te_id e') \<and> (te_type e' = CHR ''d'' \<longrightarrow> dir_below m {r} (te_id e'))"
      if "tree_at m (te_id e) = Some es" "entry_named es c = Some e'" for es e'
    proof -
      have "e' \<in> set es" using that(2) by (auto simp: entry_named_def dest!: map_of_SomeD)
      then have "names m {r} e'" using that(1) Cons.prems(2) [OF True] by (auto simp: names_def)
      then show ?thesis using dir_below_names by (auto simp: refers_def)
    qed
    show ?thesis
      using Cons.IH sub True by (auto simp: same split: option.split)
  qed simp
qed simp

lemma holds_tree_kept:
  assumes "holds_tree m root fs" and kept: "\<And>h. refers m {root} h \<Longrightarrow> m' h = m h"
  shows "holds_tree m' root fs"
proof -
  have "refers m {root} root" "dir_below m {root} root" by (simp_all add: refers_def dir_below_root)
  then have w: "walk m' (root_entry root) p = walk m (root_entry root) p"
    "walk m (root_entry root) p = Some x \<Longrightarrow> m' (te_id x) = m (te_id x)" for p x
    using walk_kept [of m root m' "root_entry root" p] kept by (auto simp: root_entry_def)
  have "tree_at m' (te_id x) = tree_at m (te_id x)" if "walk m (root_entry root) p = Some x" for p x
    using w(2) [OF that] by (rule tree_at_cong)
  with assms(1) w show ?thesis unfolding holds_tree_def w(1) by (fastforce split: option.splits if_splits)
qed

section \<open>The steps before the collection\<close>

lemma wp_sync_meta:
  assumes s: "gc_ok E s"
    and Q: "\<And>s'. meta_is E s (reader_table E s Meta) s' \<Longrightarrow> tick s \<le> tick s' \<Longrightarrow> Q () s'" and R: "\<And>e s'. io_exn e \<Longrightarrow> R e s'"
  shows "wp (sync E) Q R s"
proof -
  note ok = gc_okD [OF s]
  have "wp (sync E) (\<lambda>_. synced E s) (\<lambda>e s'. io_exn e) s"
    by (rule wp_sync_own) (use ok in simp_all)
  from wp_conj [OF wp_conj [OF this sync_files] ages_wp [OF ages_sync]] show ?thesis
  proof (rule wp_mono)
    show "quiet E" using ok platform_okD(3) by blast
    fix u s'
    assume a: "(synced E s s' \<and> same_files s s') \<and> tick s \<le> tick s'"
    then have y: "synced E s s'" by simp
    then have tbl: "reader_table E s' = reader_table E s"
      by (simp add: synced_def reader_table_def [of E s'] batch_txn_def committed_tables_def)
    have "pack_ok E s'" using y ok by (simp add: synced_def pack_ok_def own_batch_def)
    then have "gc_ok E s'" using can_compact_same [of E s s'] a s tbl by (simp add: gc_ok_def)
    then have "meta_is E s (reader_table E s Meta) s'"
      using y tbl by (simp add: meta_is_def synced_def store_view_none)
    with a show "Q u s'" using Q by simp
  qed (simp add: R)
qed

lemma wp_sync_store:
  fixes s :: "('e, 't, 'z) tree_store_scheme"
  assumes s: "gc_ok E s" and t: "touches_ok s"
    and Q: "\<And>s'. meta_is E (no_touches s) (touched (pending_touch s) (reader_table E s Meta)) s' \<Longrightarrow> tick s \<le> tick s' \<Longrightarrow> Q () s'"
    and R: "\<And>e s'. io_exn e \<Longrightarrow> R e s'"
  shows "wp (sync_store E) Q R s"
  unfolding sync_store_def wp_thenE
proof (rule wp_flush_ages [OF s t _ R])
  fix s1 :: "('e, 't, 'z) tree_store_scheme"
  assume s1: "meta_is E (no_touches s) (touched (pending_touch s) (reader_table E s Meta)) s1" "tick s \<le> tick s1"
  then have ok: "gc_ok E s1" "reader_table E s1 Meta = touched (pending_touch s) (reader_table E s Meta)" by (simp_all add: meta_is_def)
  show "wp (sync E) Q R s1"
    by (rule wp_sync_meta [OF ok(1)]) (use s1 ok(2) meta_is_trans [OF s1(1)] Q R in auto)
qed

lemma wp_register_now:
  assumes s: "gc_ok E s"
    and Q: "\<And>s'. meta_is E s ((reader_table E s Meta)(root_key root tree \<mapsto> be64 (clock E (tick s)))) s' \<Longrightarrow> tick s \<le> tick s' \<Longrightarrow> Q () s'"
    and R: "\<And>e s'. io_exn e \<Longrightarrow> R e s'"
  shows "wp (register_root E root tree) Q R s"
proof -
  note ok = gc_okD [OF s]
  let ?s = "s\<lparr>tick := Suc (tick s)\<rparr>"
  have "wp (meta_put E (root_key root tree) (be64 (clock E (tick s))))
      (\<lambda>_. meta_is E s ((reader_table E s Meta)(root_key root tree \<mapsto> be64 (clock E (tick s))))) (\<lambda>e s'. io_exn e) ?s"
    by (rule wp_put_meta) (use s meta_is_trans [OF meta_is_tick [OF s]] in simp_all)
  from wp_conj [OF this ages_wp [OF ages_meta_put]]
  have "wp (meta_put E (root_key root tree) (be64 (clock E (tick s)))) Q R ?s"
    by (rule wp_mono) (auto intro!: Q R)
  with ok show ?thesis
    by (simp add: register_root_def now_ns_def wp_bindE wp_thenE wp_readS wp_ret wp_sys_eq platform_okD(3))
qed

section \<open>The whole ingest\<close>

lemma wp_finish_ingest:
  fixes s :: "('e, 't, 'z) tree_store_scheme"
  assumes s: "gc_ok E s" and t: "touches_ok s"
    and Q: "\<And>i n s1 s'. tick s \<le> i \<Longrightarrow> i \<le> n \<Longrightarrow> store_view E s1 = store_view E s \<Longrightarrow> ttl_ns s1 = ttl_ns s \<Longrightarrow> pending_touch s1 = [] \<Longrightarrow>
      reader_table E s1 Meta = touched (pending_touch s) ((reader_table E s Meta)(root_key root True \<mapsto> be64 (clock E i))) \<Longrightarrow>
      gc_keeps E (clock E n) s1 s' \<Longrightarrow> Q () s'"
    and R: "\<And>e s'. io_exn e \<Longrightarrow> R e s'"
  shows "wp (register_root E root True) (\<lambda>_. wp (sync_store E) (\<lambda>_. wp (maybe_gc E) Q R) R) R s"
proof (rule wp_register_now [OF s _ R])
  fix s1 :: "('e, 't, 'z) tree_store_scheme"
  assume s1: "meta_is E s ((reader_table E s Meta)(root_key root True \<mapsto> be64 (clock E (tick s)))) s1" "tick s \<le> tick s1"
  have m1: "pending_touch s1 = pending_touch s" "ttl_ns s1 = ttl_ns s" using s1 by (intro more_members; simp add: meta_is_def)+
  have ok1: "gc_ok E s1" "touches_ok s1" using s1 t m1 by (simp_all add: meta_is_def touches_ok_def)
  show "wp (sync_store E) (\<lambda>_. wp (maybe_gc E) Q R) R s1"
  proof (rule wp_sync_store [OF ok1 _ R])
    fix s2 :: "('e, 't, 'z) tree_store_scheme"
    assume s2: "meta_is E (no_touches s1) (touched (pending_touch s1) (reader_table E s1 Meta)) s2" "tick s1 \<le> tick s2"
    have "pending_touch s2 = pending_touch (no_touches s1)" "ttl_ns s2 = ttl_ns (no_touches s1)" using s2 by (intro more_members; simp add: meta_is_def)+
    then have m2: "pending_touch s2 = []" "ttl_ns s2 = ttl_ns s" using m1 by simp_all
    then have ok2: "gc_ok E s2" "touches_ok s2" using s2 by (simp_all add: meta_is_def touches_ok_def)
    show "wp (maybe_gc E) Q R s2"
    proof (rule wp_maybe_gc [OF ok2 _ R])
      fix s' n
      assume n: "tick s2 \<le> n" and "gc_done E (clock E n) s2 s'"
      with gc_done_keeps have "gc_keeps E (clock E n) s2 s'" by blast
      with s1 s2 m1 m2 n show "Q () s'"
        by (intro Q [of "tick s" n s2]) (simp_all add: meta_is_def)
    qed
  qed
qed

lemma can_compact_grown:
  assumes ok: "pack_ok E s" and c: "can_compact E s" and tbl: "reader_table E s' Meta = reader_table E s Meta"
    and small: "\<forall>i. length (inodes (world s') i) \<le> kMapSize"
  shows "can_compact E s'"
proof -
  obtain g i where p: "cas_inv E s" "live_pack E (world s) g i" using ok by (rule pack_okE)
  then have g: "table_gen (reader_table E s) = Some g" by (intro reader_ok)
  moreover have "find_inode (world s) (pack_name g) = Some i" using p(2) by (simp add: live_pack_def)
  ultimately have "g < g + 1" using c by (simp add: can_compact_def)
  moreover have "table_gen (reader_table E s') = Some g" using g tbl by (simp add: table_gen_def)
  ultimately show ?thesis using small by (simp add: can_compact_def)
qed

text \<open>From the start of the run, no time to live passes and the clock does not go back.\<close>

definition clock_ok :: "('e, 't) platform \<Rightarrow> ('e, 't, 'z) tree_store_scheme \<Rightarrow> bool" where
  "clock_ok E s \<longleftrightarrow> (\<forall>i j. tick s \<le> i \<longrightarrow> i \<le> j \<longrightarrow> clock E j - clock E i < ttl_ns s)"

definition touches_young :: "('e, 't) platform \<Rightarrow> ('e, 't, 'z) tree_store_scheme \<Rightarrow> bool" where
  "touches_young E s \<longleftrightarrow> (\<forall>x\<in>set (pending_touch s). \<forall>j\<ge>tick s. clock E j - snd x < ttl_ns s)"

lemma touched_cases: "touched batch mt k = mt k \<or> (\<exists>t. (k, t) \<in> set batch \<and> touched batch mt k = Some (be64 t))"
proof (cases "map_of (rev (map (\<lambda>x. (fst x, be64 (snd x))) batch)) k")
  case (Some v)
  then obtain x where "x \<in> set batch" "k = fst x" "v = be64 (snd x)" by (auto dest!: map_of_SomeD)
  then have "(k, snd x) \<in> set batch" "touched batch mt k = Some (be64 (snd x))" using Some by (simp_all add: touched_def)
  then show ?thesis by blast
qed (simp add: touched_def map_add_def)

lemma touched_upd: "k' \<noteq> k \<Longrightarrow> touched batch (mt(k \<mapsto> v)) k' = touched batch mt k'"
  by (simp add: touched_def map_add_def split: option.split)

lemma young_stamp: "now - t < ttl \<Longrightarrow> \<not> stale ttl now (be64 t)"
  by (simp add: stale_def rbe64_be64 not_le)

lemma fresh_ingested:
  assumes "clock_ok E s" and "touches_young E s" and "tick s \<le> i" and "i \<le> n"
    and "pending_touch s1 = []" and "ttl_ns s1 = ttl_ns s"
    and "reader_table E s1 Meta = touched (pending_touch s) ((reader_table E s Meta)(root_key root True \<mapsto> be64 (clock E i)))"
  shows "fresh_roots E (clock E n) s1 (CHR ''R'') = insert root (fresh_roots E (clock E n) s (CHR ''R''))"
    and "fresh_roots E (clock E n) s1 (CHR ''B'') = fresh_roots E (clock E n) s (CHR ''B'')"
proof -
  let ?mt = "(reader_table E s Meta)(root_key root True \<mapsto> be64 (clock E i))"
  have key: "CHR ''R'' # r = root_key root True \<longleftrightarrow> r = root" "CHR ''B'' # r \<noteq> root_key root True" for r
    by (auto simp: root_key_def)
  have none: "touched [] mt = mt" for mt by (simp add: touched_def)
  have young: "\<not> stale (ttl_ns s) (clock E n) (be64 t)" if "t = clock E i \<or> (root_key root True, t) \<in> set (pending_touch s)" for t
    using that assms(1-4) by (auto simp: clock_ok_def touches_young_def intro!: young_stamp)
  have root: "\<exists>v. touched (pending_touch s) ?mt (root_key root True) = Some v \<and> \<not> stale (ttl_ns s) (clock E n) v"
    using touched_cases [of "pending_touch s" ?mt "root_key root True"] young by auto
  show "fresh_roots E (clock E n) s1 (CHR ''R'') = insert root (fresh_roots E (clock E n) s (CHR ''R''))"
  proof (intro set_eqI)
    fix r
    show "r \<in> fresh_roots E (clock E n) s1 (CHR ''R'') \<longleftrightarrow> r \<in> insert root (fresh_roots E (clock E n) s (CHR ''R''))"
      using root key(1) touched_upd [of "CHR ''R'' # r" "root_key root True" "pending_touch s" "reader_table E s Meta"]
      by (cases "r = root") (simp_all add: fresh_roots_def assms(5-7) none root_key_def)
  qed
  show "fresh_roots E (clock E n) s1 (CHR ''B'') = fresh_roots E (clock E n) s (CHR ''B'')"
    by (simp add: fresh_roots_def assms(5-7) none touched_upd key(2))
qed

text \<open>What the collection at the end of an ingest leaves of the store \<open>m\<close>, which has the new tree and all there was.\<close>

definition ingest_keeps ::
  "('e, 't) platform \<Rightarrow> u64 \<Rightarrow> ('e, 't, 'z) tree_store_scheme \<Rightarrow> (bytes \<Rightarrow> bytes option) \<Rightarrow> bytes \<Rightarrow> fs_map \<Rightarrow> ('e, 't, 'z) tree_store_scheme \<Rightarrow> bool" where
  "ingest_keeps E now s m root fs s' \<longleftrightarrow>
     (let m' = store_view E s'; roots = insert root (fresh_roots E now s (CHR ''R'')) in
      m' \<subseteq>\<^sub>m m \<and> (\<forall>h\<in>fresh_roots E now s (CHR ''B''). m' h = m h) \<and>
      (kinds_differ m roots \<and> (\<forall>r\<in>roots. reader_table E s' Meta (CHR ''R'' # r) \<noteq> None) \<longrightarrow>
         holds_tree m' root fs \<and> (\<forall>h. refers m roots h \<longrightarrow> m' h = m h)))"

interpretation timed: blob_store "\<lambda>s. (pack_ok E s \<and> grown E m b s) \<and> k \<le> tick s" "store_view E" "pack_rest E" "get E" "blake3 E" "put E" for E m b k
proof (unfold_locales, goal_cases)
  case (1 s h)
  have "pack_ok E s \<and> grown E m b s" using 1 by simp
  from wp_conj [OF grown.fetch [OF this 1(2)] ages_wp [OF ages_get]] show ?case
    by (rule wp_mono) (use 1 in auto)
next
  case (5 s d)
  have "pack_ok E s \<and> grown E m b s" using 5 by simp
  from wp_conj [OF grown.store [OF this 5(2)] ages_wp [OF ages_put]] show ?case
    by (rule wp_mono) (use 5 in auto)
qed (use get_bad_length pack.digest_length pack.contents_digest in blast)+

lemma wp_ingest_collected:
  fixes s :: "('e, 't, 'z) tree_store_scheme"
  assumes s: "gc_ok E s" "touches_ok s" "touches_young E s" "clock_ok E s"
    and size: "\<forall>d\<in>set (ingest_blobs (blake3 E) arc). length d \<le> max_off" "\<forall>item\<in>set (fst (archive_items arc)). length (ti_data item) \<le> max_off"
    and free: "no_collision (blake3 E) (store_view E s) (ingest_blobs (blake3 E) arc)"
    and small: "below b s" "b + sum_list (map length (ingest_blobs (blake3 E) arc)) \<le> kMapSize"
    and Q: "\<And>root files fs n s'. tar_tree arc = Some fs \<Longrightarrow> tick s \<le> n \<Longrightarrow>
      holds_tree (blobs (blake3 E) (ingest_blobs (blake3 E) arc) ++ store_view E s) root fs \<Longrightarrow>
      ingest_keeps E (clock E n) s (blobs (blake3 E) (ingest_blobs (blake3 E) arc) ++ store_view E s) root fs s' \<Longrightarrow>
      Q \<lparr>ir_root = root, ir_files = files\<rparr> s'"
    and R: "\<And>e s'. io_exn e \<Longrightarrow> R e s'"
  shows "wp (ingest_archive E arc) Q R s"
proof -
  let ?ds = "ingest_blobs (blake3 E) arc" and ?h = "merkle (blake3 E) (fst (ingest_local (blake3 E) arc))"
  let ?m = "blobs (blake3 E) ?ds ++ store_view E s"
  have ok: "pack_ok E s" using s(1) by (simp add: gc_ok_def)
  show ?thesis
    unfolding ingest_archive_def wp_bindE
  proof (rule timed.wp_ingest_tree [OF conjI [OF conjI [OF ok grown_start [OF small(1)]] order.refl] size free])
    fix fs and s1 :: "('e, 't, 'z) tree_store_scheme"
    let ?files = "snd (ingest_local (blake3 E) arc)"
    assume fs: "tar_tree arc = Some fs" "(pack_ok E s1 \<and> grown E (store_view E s) b s1) \<and> tick s \<le> tick s1" "holds_tree (store_view E s1) ?h fs"
      "store_view E s1 = ?m" "pack_rest E s1 = pack_rest E s"
    have more: "cas.more s1 = cas.more s" "reader_table E s1 Meta = reader_table E s Meta" using fs(5) by (simp_all add: pack_rest_def)
    have same: "pending_touch s1 = pending_touch s" "ttl_ns s1 = ttl_ns s" "gc_interval_ns s1 = gc_interval_ns s" by (intro more_members more)+
    have "below kMapSize s1" using below_mono [OF grown_below [OF _ _ fs(4)] small(2)] fs(2) by blast
    then have "gc_ok E s1" using can_compact_grown [OF ok _ more(2)] s(1) fs(2) by (simp add: gc_ok_def below_def)
    moreover have "touches_ok s1" using s(2) same by (simp add: touches_ok_def)
    ultimately have "wp (register_root E ?h True) (\<lambda>_. wp (sync_store E) (\<lambda>_. wp (maybe_gc E) (\<lambda>_. Q \<lparr>ir_root = ?h, ir_files = ?files\<rparr>) R) R) R s1"
    proof (rule wp_finish_ingest [OF _ _ _ R])
      fix i n and s2 s' :: "('e, 't, 'z) tree_store_scheme"
      assume n: "tick s1 \<le> i" "i \<le> n" and s2: "store_view E s2 = store_view E s1" "ttl_ns s2 = ttl_ns s1" "pending_touch s2 = []"
        "reader_table E s2 Meta = touched (pending_touch s1) ((reader_table E s1 Meta)(root_key ?h True \<mapsto> be64 (clock E i)))"
        and kept: "gc_keeps E (clock E n) s2 s'"
      have "tick s \<le> i" using n(1) fs(2) by simp
      note fresh = fresh_ingested [OF s(4,3) this n(2) s2(3,2)[unfolded same] s2(4)[unfolded same more(2)]]
      have "ingest_keeps E (clock E n) s ?m ?h fs s'"
        using kept holds_tree_kept [OF fs(3)] refers_mono [of "{?h}" "insert ?h (fresh_roots E (clock E n) s (CHR ''R''))" ?m]
        by (simp add: ingest_keeps_def gc_keeps_def Let_def fresh s2(1) fs(4))
      then show "Q \<lparr>ir_root = ?h, ir_files = ?files\<rparr> s'" using fs n by (intro Q [of fs n]) auto
    qed
    then show "wp (case (?h, ?files) of (h, files) \<Rightarrow> thenE (register_root E h True)
        (thenE (sync_store E) (thenE (maybe_gc E) (ret \<lparr>ir_root = h, ir_files = files\<rparr>)))) Q R s1"
      by (simp add: wp_simps wp_fun_eqs)
  qed (rule R)
qed

end
