(* ===== verification/Fuzz.thy ===== *)
theory Fuzz
  imports Ingest_Store
begin

text \<open>
  The fuzz target (\<open>src/fuzz/fuzz_ingest.cc\<close>): it ingests arbitrary bytes as an archive and reads all of the tree
  back, once by walking and once by path. A result \<open>False\<close> stands for \<open>abort()\<close>.
\<close>

section \<open>The code\<close>

text \<open>A range-for with an exit: the loop ends at the first element that answers \<open>False\<close>.\<close>

fun all_of :: "'a list \<Rightarrow> ('a \<Rightarrow> ('s, bool) prog) \<Rightarrow> ('s, bool) prog" where
  "all_of [] f = ret True"
| "all_of (x # xs) f = bindE (f x) (\<lambda>go. if go then all_of xs f else ret False)"

definition child_path :: "bytes \<Rightarrow> bytes \<Rightarrow> bytes" where
  "child_path path name = (if path = [] then name else path @ CHR ''/'' # name)"

function fuzz_walk ::
  "(bytes \<Rightarrow> ('s, bytes option) prog) \<Rightarrow> (bytes \<Rightarrow> ('s, bytes option) prog) \<Rightarrow> bytes \<Rightarrow> bytes \<Rightarrow> bytes \<Rightarrow> nat \<Rightarrow>
     ('s \<times> cache, bool) prog" where
  "fuzz_walk fetch peek root tree_id path depth =
     (if 600 < depth then ret False
      else bindE (on_store (read_tree fetch tree_id)) (\<lambda>es. all_of es (\<lambda>e.
        bindE (walker_lookup fetch root (child_path path (te_name e))) (\<lambda>found. case found of
          None \<Rightarrow> ret False
        | Some f \<Rightarrow> if te_id f \<noteq> te_id e then ret False
            else if te_type e = CHR ''d'' then fuzz_walk fetch peek root (te_id e) (child_path path (te_name e)) (depth + 1)
            else bindE (on_store (peek (te_id e))) (\<lambda>v. ret (v \<noteq> None))))))"
  by pat_completeness auto
termination
  by (relation "measure (\<lambda>(fetch, peek, root, tree_id, path, depth). 601 - depth)") auto

declare fuzz_walk.simps [simp del]

text \<open>\<open>LLVMFuzzerTestOneInput\<close>: \<open>opened\<close> is what libarchive makes of the bytes.\<close>

definition fuzz_one ::
  "('e, 't) platform \<Rightarrow> 'c evp \<Rightarrow> bytes option + archive \<Rightarrow> (('e, 't, 'z) tree_store_scheme, bool) prog" where
  "fuzz_one E X opened = (case opened of Inl _ \<Rightarrow> ret True
   | Inr arc \<Rightarrow> tryE (bindE (ingest_archive E arc) (\<lambda>res.
       bindE (with_local Map.empty (fuzz_walk (get E) (get_view E) (ir_root res) (ir_root res) [] 0)) (\<lambda>go.
       if go then bindE (nar_sha256 X (get E) (get_view E) (ir_root res)) (\<lambda>_. ret True) else ret False)))
      (\<lambda>e. if no_exception e then throw e else ret True))"

section \<open>Paths of an archive\<close>

lemma child_join: "path_ok p \<Longrightarrow> child_path (join_path p) n = join_path (p @ [n])"
proof (induction p rule: join_path.induct)
  case (2 c)
  then show ?case by (simp add: child_path_def path_ok_def comp_ok_def)
next
  case (3 c d cs)
  then have "child_path (join_path (d # cs)) n = join_path ((d # cs) @ [n])" by (simp add: path_ok_def)
  moreover have "c \<noteq> []" "d \<noteq> []" using 3(2) by (simp_all add: path_ok_def comp_ok_def)
  moreover have "join_path (d # cs) \<noteq> []" using \<open>d \<noteq> []\<close> by (cases cs) auto
  ultimately show ?case by (simp add: child_path_def)
qed (simp add: child_path_def)

lemma tar_run_paths:
  assumes "tar_run items fs = Some fs'" and "\<forall>p. fs p \<noteq> None \<longrightarrow> path_ok p"
  shows "\<forall>p. fs' p \<noteq> None \<longrightarrow> path_ok p"
  using assms
proof (induction items arbitrary: fs)
  case (Cons item items)
  then obtain fs1 where fs1: "tar_apply item fs = Some fs1" "tar_run items fs1 = Some fs'" by (auto simp: bind_eq_Some_conv)
  then obtain p e where p: "split_path (ti_path item) = Some p" "fs1 = inserted fs p e"
    by (auto simp: tar_apply_def split: option.splits if_splits)
  have "path_ok q" if "fs1 q \<noteq> None" for q
    using that Cons.prems(2) split_path_ok [OF p(1)] path_ok_prefix [of p q]
    by (auto simp: p(2) inserted_def split: if_splits)
  with Cons.IH [OF fs1(2)] show ?case by blast
qed simp

lemma tar_tree_paths:
  assumes "tar_tree arc = Some fs" and "fs p \<noteq> None"
  shows "path_ok p"
proof -
  obtain items where "tar_run items [[] \<mapsto> Dir] = Some fs"
    using assms(1) by (auto simp: tar_tree_def split: prod.splits option.splits)
  then have "\<forall>p. fs p \<noteq> None \<longrightarrow> path_ok p" by (rule tar_run_paths) simp
  with assms(2) show ?thesis by blast
qed

section \<open>The walk\<close>

lemma walk_snoc: "walk m e (p @ [n]) = Option.bind (walk m e p) (\<lambda>x. walk m x [n])"
  by (induction p arbitrary: e) (auto split: option.split)

lemma wp_all_of:
  assumes "\<And>x s. x \<in> set xs \<Longrightarrow> I s \<Longrightarrow> wp (f x) (\<lambda>go s'. go \<and> I s') R s" and "I s"
  shows "wp (all_of xs f) (\<lambda>go s'. go \<and> I s') R s"
  using assms
proof (induction xs arbitrary: s)
  case (Cons x xs)
  have "wp (f x) (\<lambda>go. wp (if go then all_of xs f else ret False) (\<lambda>go s'. go \<and> I s') R) R s"
    by (rule wp_mono [OF Cons.prems(1) [OF _ Cons.prems(2)]]) (use Cons.IH [OF Cons.prems(1)] in auto)
  then show ?case by (simp add: wp_bindE)
qed (simp add: wp_ret)

context tree_reader
begin

lemma holds_rooted:
  assumes "ok s" and "holds_tree (contents s) root fs"
  shows "rooted (contents s) (root_entry root)" "\<not> incomplete (contents s) (root_entry root)"
proof -
  have "tree_at (contents s) (te_id e) \<noteq> None" if "walk (contents s) (root_entry root) cs = Some e" "te_type e = CHR ''d''" for cs e
    using assms(2) [unfolded holds_tree_def, THEN spec [of _ cs]] that by simp
  then show "rooted (contents s) (root_entry root)" "\<not> incomplete (contents s) (root_entry root)"
    using hash_length [OF assms(1)] by (auto simp: rooted_def incomplete_def tree_at_Some)
qed

lemma wp_fuzz_walk:
  assumes "ok s" and "contents s = m" and "cache_ok m c" and fs: "holds_tree m root fs"
    and paths: "\<And>p. fs p \<noteq> None \<Longrightarrow> path_ok p"
    and "walk m (root_entry root) p = Some e" and "te_type e = CHR ''d''"
    and R: "\<And>x sc. io_exn x \<Longrightarrow> ok (fst sc) \<Longrightarrow> contents (fst sc) = m \<Longrightarrow> R x sc"
  shows "wp (fuzz_walk fetch peek root (te_id e) (join_path p) (length p))
    (\<lambda>go sc. go \<and> ok (fst sc) \<and> contents (fst sc) = m \<and> cache_ok m (snd sc)) R (s, c)"
  using assms(1-3,6,7)
proof (induction "601 - length p" arbitrary: p e s c rule: less_induct)
  case less
  let ?I = "\<lambda>sc. ok (fst sc) \<and> contents (fst sc) = m \<and> cache_ok m (snd sc)"
  have p: "path_ok p" and tree: "tree_at m (te_id e) \<noteq> None"
    using fs [unfolded holds_tree_def, THEN spec [of _ p]] paths [of p] less.prems(4,5) by auto
  then have depth: "length p \<le> 512" by (simp add: path_ok_def kMaxTreeDepth_def)
  have len: "length (te_id e) = kHashLen" using tree hash_length [OF less.prems(1)] by (auto simp: less.prems(2) tree_at_Some)
  let ?f = "\<lambda>x. bindE (walker_lookup fetch root (child_path (join_path p) (te_name x))) (\<lambda>found. case found of
          None \<Rightarrow> ret False
        | Some f \<Rightarrow> if te_id f \<noteq> te_id x then ret False
            else if te_type x = CHR ''d'' then fuzz_walk fetch peek root (te_id x) (child_path (join_path p) (te_name x)) (length p + 1)
            else bindE (on_store (peek (te_id x))) (\<lambda>v. ret (v \<noteq> None)))"
  have entry: "wp (?f x) (\<lambda>go sc. go \<and> ?I sc) R (s1, c1)"
    if es: "tree_at m (te_id e) = Some es" "x \<in> set es" and s1: "ok s1" "contents s1 = m" "cache_ok m c1" for x es s1 c1
  proof -
    have named: "entry_named es (te_name x) = Some x" by (rule tree_ok_distinct [OF tree_at_ok [OF es(1)] es(2)])
    let ?q = "p @ [te_name x]"
    have at: "walk m (root_entry root) ?q = Some x"
      using es(1) named less.prems(5) by (simp add: walk_snoc less.prems(4))
    have q: "path_ok ?q"
      using fs [unfolded holds_tree_def, THEN spec [of _ ?q]] paths [of ?q] at by (auto split: if_splits)
    then have lookup: "split_path (child_path (join_path p) (te_name x)) = Some ?q"
      by (simp add: child_join [OF p] split_path_join)
    show ?thesis
      unfolding wp_bindE
    proof (rule trees.wp_walker_lookup [OF s1(1)], unfold s1(2) lookup)
      show "cache_ok m c1" by (rule s1(3))
      show "rooted m (root_entry root)" using holds_rooted(1) [OF s1(1)] fs by (simp add: s1(2))
      fix s' c'
      assume k: "trees.kept s1 s'" and c': "cache_ok m c'"
      then have s': "ok s'" "contents s' = m" by (simp_all add: trees.kept_def s1(2))
      show "wp (case Option.bind (Some ?q) (walk m (root_entry root)) of
          None \<Rightarrow> ret False
        | Some f \<Rightarrow> if te_id f \<noteq> te_id x then ret False
            else if te_type x = CHR ''d'' then fuzz_walk fetch peek root (te_id x) (child_path (join_path p) (te_name x)) (length p + 1)
            else bindE (on_store (peek (te_id x))) (\<lambda>v. ret (v \<noteq> None))) (\<lambda>go sc. go \<and> ?I sc) R (s', c')"
      proof (cases "te_type x = CHR ''d''")
        case True
        have "wp (fuzz_walk fetch peek root (te_id x) (join_path ?q) (length ?q)) (\<lambda>go sc. go \<and> ?I sc) R (s', c')"
          using less.hyps [OF _ s' c' at True] depth by simp
        with True at show ?thesis by (simp add: child_join [OF p])
      next
        case False
        then obtain d where d: "m (te_id x) = Some d"
          using fs [unfolded holds_tree_def, THEN spec [of _ ?q]] at by auto
        have "length (te_id x) = kHashLen" using hash_length [OF s'(1)] d by (simp add: s'(2))
        then have "wp (peek (te_id x)) (\<lambda>v s''. v \<noteq> None \<and> ?I (s'', c')) (\<lambda>y s''. R y (s'', c')) s'"
          using d c' s' R by (intro leaves.wp_fetch [OF s'(1)]) (auto simp: leaves.kept_def)
        with False at show ?thesis by (simp add: wp_simps wp_on_store)
      qed
    next
      fix y s' c'
      assume "io_exn y \<or> is_corrupt y \<and> incomplete m (root_entry root)" and k: "trees.kept s1 s'"
      then have "io_exn y" using holds_rooted(2) [OF s1(1)] fs by (simp add: s1(2))
      with k show "R y (s', c')" by (intro R) (simp_all add: trees.kept_def s1(2))
    qed
  qed
  have "wp (read_tree fetch (te_id e)) (\<lambda>es s1. wp (all_of es ?f) (\<lambda>go sc. go \<and> ?I sc) R (s1, c)) (\<lambda>y s1. R y (s1, c)) s"
  proof (rule trees.wp_read_tree [OF less.prems(1) len])
    fix es s1
    assume es: "tree_at (contents s) (te_id e) = Some es" and k: "trees.kept s s1"
    show "wp (all_of es ?f) (\<lambda>go sc. go \<and> ?I sc) R (s1, c)"
    proof (rule wp_all_of)
      show "?I (s1, c)" using k less.prems(3) by (simp add: trees.kept_def less.prems(2))
      fix x sc
      assume "x \<in> set es" "?I sc"
      then show "wp (?f x) (\<lambda>go sc. go \<and> ?I sc) R sc"
        using entry [of es x "fst sc" "snd sc"] es by (simp only: less.prems(2) prod.collapse)
    qed
  next
    fix y s1
    assume "io_exn y \<or> is_corrupt y \<and> tree_at (contents s) (te_id e) = None" and k: "trees.kept s s1"
    then have "io_exn y" using tree by (simp add: less.prems(2))
    with k show "R y (s1, c)" by (intro R) (simp_all add: trees.kept_def less.prems(2))
  qed
  with depth show ?case
    unfolding fuzz_walk.simps [of fetch peek root "te_id e"] by (simp add: wp_bindE wp_on_store)
qed

end

section \<open>One input\<close>

lemma io_exn_caught: "io_exn e \<or> bad_tree e \<Longrightarrow> \<not> no_exception e"
  by (cases e) (auto simp: no_exception_def bad_tree_def)

lemma wp_fuzz_one:
  fixes s :: "('e, 't, 'z) tree_store_scheme"
  assumes s: "es_ok E s" "gc_rests E (gc_interval_ns s) (reader_table E s Meta)"
    and size: "\<forall>d\<in>set (ingest_blobs (blake3 E) arc). length d \<le> max_off" "\<forall>item\<in>set (fst (archive_items arc)). length (ti_data item) \<le> max_off"
    and free: "no_collision (blake3 E) (store_view E s) (ingest_blobs (blake3 E) arc)"
    and small: "below b s" "b + sum_list (map length (ingest_blobs (blake3 E) arc)) \<le> kMapSize" and X: "evp_ok X"
  shows "wp (fuzz_one E X (Inr arc)) (\<lambda>go _. go) (\<lambda>_ _. False) s"
proof -
  have caught: "wp (if no_exception e then throw e else ret True) (\<lambda>go _. go) (\<lambda>_ _. False) s'"
    if "io_exn e \<or> bad_tree e" for e and s' :: "('e, 't, 'z) tree_store_scheme"
    using io_exn_caught [OF that] by (simp add: wp_ret)
  have "wp (bindE (ingest_archive E arc) (\<lambda>res. bindE (with_local Map.empty (fuzz_walk (get E) (get_view E) (ir_root res) (ir_root res) [] 0)) (\<lambda>go.
       if go then bindE (nar_sha256 X (get E) (get_view E) (ir_root res)) (\<lambda>_. ret True) else ret False))) (\<lambda>go _. go) (\<lambda>e _. io_exn e \<or> bad_tree e) s"
    unfolding wp_bindE [of "ingest_archive E arc"]
  proof (rule wp_ingest_archive [where sm = True and b = b, OF s size free])
    show "True \<longrightarrow> below b s \<and> b + sum_list (map length (ingest_blobs (blake3 E) arc)) \<le> kMapSize" using small by simp
    fix root files fs and s1 :: "('e, 't, 'z) tree_store_scheme"
    let ?m = "blobs (blake3 E) (ingest_blobs (blake3 E) arc) ++ store_view E s"
    assume fs: "tar_tree arc = Some fs" "holds_tree (store_view E s1) root fs" and at: "es_at E True (gc_interval_ns s) ?m (reader_table E s Meta) s1"
    have s1: "pack_ok E s1 \<and> packs_small s1" using at by (simp add: es_at_def es_is_def es_ok_def)
    have "wp (fuzz_walk (get E) (get_view E) root (te_id (root_entry root)) (join_path []) (length ([] :: bytes list)))
        (\<lambda>go sc. go \<and> (pack_ok E (fst sc) \<and> packs_small (fst sc)) \<and> store_view E (fst sc) = store_view E s1 \<and> cache_ok (store_view E s1) (snd sc))
        (\<lambda>e _. io_exn e \<or> bad_tree e) (s1, Map.empty)"
      by (rule small_trees.wp_fuzz_walk [OF s1 refl cache_ok_empty fs(2) tar_tree_paths [OF fs(1)]]) (simp_all add: root_entry_def)
    then have walk: "wp (with_local Map.empty (fuzz_walk (get E) (get_view E) root root [] 0)) (\<lambda>go s'. go \<and> pack_ok E s' \<and> packs_small s')
        (\<lambda>e _. io_exn e \<or> bad_tree e) s1"
      by (simp add: wp_with_local root_entry_def) (erule wp_mono, simp_all)
    have nar: "wp (nar_sha256 X (get E) (get_view E) root) (\<lambda>_ _. True) (\<lambda>e _. io_exn e \<or> bad_tree e) s'" if "pack_ok E s' \<and> packs_small s'" for s' :: "('e, 't, 'z) tree_store_scheme"
      by (rule small_trees.wp_nar_sha256 [OF that X]) auto
    show "wp (bindE (with_local Map.empty (fuzz_walk (get E) (get_view E) (ir_root \<lparr>ir_root = root, ir_files = files\<rparr>) (ir_root \<lparr>ir_root = root, ir_files = files\<rparr>) [] 0)) (\<lambda>go.
       if go then bindE (nar_sha256 X (get E) (get_view E) (ir_root \<lparr>ir_root = root, ir_files = files\<rparr>)) (\<lambda>_. ret True) else ret False)) (\<lambda>go _. go) (\<lambda>e _. io_exn e \<or> bad_tree e) s1"
      unfolding wp_bindE ingest_result.select_convs by (rule wp_mono [OF walk]) (use nar in \<open>simp_all add: wp_simps wp_fun_eqs\<close>)
  qed simp
  then have "wp (tryE (bindE (ingest_archive E arc) (\<lambda>res. bindE (with_local Map.empty (fuzz_walk (get E) (get_view E) (ir_root res) (ir_root res) [] 0)) (\<lambda>go.
       if go then bindE (nar_sha256 X (get E) (get_view E) (ir_root res)) (\<lambda>_. ret True) else ret False))) (\<lambda>e. if no_exception e then throw e else ret True)) (\<lambda>go _. go) (\<lambda>_ _. False) s"
    unfolding wp_tryE by (rule wp_mono) (use caught in blast)+
  then show ?thesis by (simp add: fuzz_one_def)
qed

end
