(* ===== verification/Fuzz_Spec.thy ===== *)
theory Fuzz_Spec
  imports Fuzz Fetch_Spec
begin

text \<open>
  What the fuzz target looks for: an input that makes the program abort.
\<close>

text \<open>C10: No input aborts the fuzz target, whatever fails on the way: every path of an ingested tree resolves to itself,
  no directory lies deeper than the ingest's limit, every file's blob can be read, and each failure is an exception
  that the target catches. The archive's blobs fit the range that is mapped together with the files there were, no hash collides, and
  the collection that ends an ingest is not due.\<close>

theorem fuzz_never_aborts:
  fixes s :: "('e, 't, 'z) tree_store_scheme"
  assumes "es_ok E s" and "gc_rests E (gc_interval_ns s) (reader_table E s Meta)"
    and "\<forall>d\<in>set (ingest_blobs (blake3 E) arc). length d \<le> max_off"
    and "\<forall>item\<in>set (fst (archive_items arc)). length (ti_data item) \<le> max_off"
    and "no_collision (blake3 E) (store_view E s) (ingest_blobs (blake3 E) arc)"
    and "below b s" and "b + sum_list (map length (ingest_blobs (blake3 E) arc)) \<le> kMapSize" and "evp_ok X"
  shows "wp (fuzz_one E X (Inr arc)) (\<lambda>go _. go) (\<lambda>_ _. False) s"
  by (rule wp_fuzz_one [OF assms])

theorem fuzz_never_aborts_witness:
  "fst (fuzz_one sample sample_evp (Inr sample_archive) resting_store) = Inr True"
proof -
  have "wp (fuzz_one sample sample_evp (Inr sample_archive)) (\<lambda>go _. go) (\<lambda>_ _. False) resting_store"
  proof (rule fuzz_never_aborts [OF resting_facts(1,2), where b = 1000])
    show "\<forall>d\<in>set (ingest_blobs (blake3 sample) sample_archive). length d \<le> max_off"
      "\<forall>item\<in>set (fst (archive_items sample_archive)). length (ti_data item) \<le> max_off"
      using sample_ingest_ok by simp_all
    show "no_collision (blake3 sample) (store_view sample resting_store) (ingest_blobs (blake3 sample) sample_archive)"
      unfolding no_collision_def resting_facts(3) by (simp add: sample_ingest) (simp add: tree_entry_bytes_def sample_hash_def)
    show "below 1000 resting_store"
      by (simp add: below_def resting_store_def sample_tree_store_def sample_with_def sample_cas_def sample_world_def cas.defs set_inode_def)
    show "1000 + sum_list (map length (ingest_blobs (blake3 sample) sample_archive)) \<le> kMapSize"
      by (simp add: ingest_blobs_def sample_tree_of sample_archive_items item_data_def kMapSize_def
        flush_blobs_def tree_blobs_def sub_dirs_def dir_bytes_def merkle.simps)
       (simp add: tree_entry_bytes_def sample_hash_def)
    show "evp_ok sample_evp" by (simp add: sample_evp_def evp_ok_def)
  qed
  then show ?thesis by (cases "fuzz_one sample sample_evp (Inr sample_archive) resting_store") (auto simp: wp_def split: sum.splits)
qed

end
