(* ===== verification/Keep_Spec.thy ===== *)
theory Keep_Spec
  imports Ingest_Gc Fuzz_Spec
begin

text \<open>
  An ingest and the collection that it may run before it answers.
\<close>

text \<open>C5: The collection at the end of an ingest, if one is due, spares what was ingested. After an ingest that returns, the store is
  what it was with the archive's tree, less what the collection removed: no file root that is fresh is gone; and if the new root
  and all fresh tree roots were found intact and none of their files is also one of their directories, the whole tree is there
  under the new root, and so is everything the fresh roots refer to. The clock does not go back during the run nor run through the
  time to live, and no pending touch is older than that.\<close>

theorem ingest_outlives_collection:
  fixes s :: "('e, 't, 'z) tree_store_scheme"
  assumes "gc_ok E s" and "touches_ok s" and "touches_young E s" and "clock_ok E s"
    and "\<forall>d\<in>set (ingest_blobs (blake3 E) arc). length d \<le> max_off"
    and "\<forall>item\<in>set (fst (archive_items arc)). length (ti_data item) \<le> max_off"
    and "no_collision (blake3 E) (store_view E s) (ingest_blobs (blake3 E) arc)"
    and "below b s" and "b + sum_list (map length (ingest_blobs (blake3 E) arc)) \<le> kMapSize"
  shows "wp (ingest_archive E arc)
    (\<lambda>res s'. \<exists>fs n. let m = blobs (blake3 E) (ingest_blobs (blake3 E) arc) ++ store_view E s in
       tar_tree arc = Some fs \<and> tick s \<le> n \<and> holds_tree m (ir_root res) fs \<and> ingest_keeps E (clock E n) s m (ir_root res) fs s')
    (\<lambda>e _. io_exn e) s"
  by (rule wp_ingest_collected [OF assms]) (auto simp: Let_def)

text \<open>A store whose collection is always due.\<close>

definition ripe_store :: "(tables, tables) tree_store" where
  "ripe_store = (sample_tree_store ''.'' [])\<lparr>pending_touch := [], ttl_ns := -1\<rparr>"

lemma ripe_facts:
  "gc_ok sample ripe_store" "touches_ok ripe_store" "touches_young sample ripe_store" "clock_ok sample ripe_store"
  "store_view sample ripe_store = [sample_hash ''.'' \<mapsto> ''.'']" "below 1000 ripe_store"
proof -
  have fits: "sample_fits ''.'' []" by (simp add: sample_fits_def)
  note f = sample_tree_store_facts [OF fits]
  have same: "cas_inv E (s\<lparr>ttl_ns := i\<rparr>) = cas_inv E s" "own_batch E (s\<lparr>ttl_ns := i\<rparr>) = own_batch E s"
    "reader_table E (s\<lparr>ttl_ns := i\<rparr>) = reader_table E s" "store_view E (s\<lparr>ttl_ns := i\<rparr>) = store_view E s"
    "can_compact E (s\<lparr>ttl_ns := i\<rparr>) = can_compact E s"
    for E :: "('e, 't) platform" and s :: "('e, 't, 'z) tree_store_scheme" and i
    by (simp_all add: cas_inv_def handle_maps_inv_def maps_below_def batch_inv_def batch_at_def map_at_def own_batch_def
        reader_table_def batch_txn_def store_view_def batch_view_def can_compact_def cong: option.case_cong)
  show "gc_ok sample ripe_store" "store_view sample ripe_store = [sample_hash ''.'' \<mapsto> ''.'']"
    using f by (simp_all add: ripe_store_def same gc_ok_def pack_ok_def) (simp add: can_compact_def)
  show "touches_ok ripe_store" "touches_young sample ripe_store" by (simp_all add: ripe_store_def touches_ok_def touches_young_def)
  have "clock sample j - clock sample i < -1" for i j
  proof -
    have "clock sample j - clock sample i = (of_nat j - of_nat i) * 1000" by (simp add: sample_def algebra_simps)
    moreover have "even ((of_nat j - of_nat i) * 1000 :: u64)" "odd (-1 :: u64)" by simp_all
    ultimately have "clock sample j - clock sample i \<noteq> -1" by metis
    then show ?thesis by (simp add: word_order.not_eq_extremum)
  qed
  then show "clock_ok sample ripe_store" by (simp add: clock_ok_def ripe_store_def)
  show "below 1000 ripe_store"
    by (simp add: below_def ripe_store_def sample_tree_store_def sample_with_def sample_cas_def sample_world_def cas.defs set_inode_def)
qed

theorem ingest_outlives_collection_witness:
  "wp (ingest_archive sample sample_archive)
    (\<lambda>res s'. \<exists>m fs n. m (sample_hash ''.'') = Some ''.'' \<and> fs [''d'', ''f''] = Some (File (CHR ''r'') ''hi'') \<and>
       holds_tree m (ir_root res) fs \<and> ingest_keeps sample (clock sample n) ripe_store m (ir_root res) fs s')
    (\<lambda>e _. io_exn e) ripe_store"
proof (rule wp_mono [OF ingest_outlives_collection [OF ripe_facts(1-4), where b = 1000]])
  show "\<forall>d\<in>set (ingest_blobs (blake3 sample) sample_archive). length d \<le> max_off"
    "\<forall>item\<in>set (fst (archive_items sample_archive)). length (ti_data item) \<le> max_off"
    using sample_ingest_ok by simp_all
  show "no_collision (blake3 sample) (store_view sample ripe_store) (ingest_blobs (blake3 sample) sample_archive)"
    unfolding no_collision_def ripe_facts(5) by (simp add: sample_ingest) (simp add: tree_entry_bytes_def sample_hash_def)
  show "1000 + sum_list (map length (ingest_blobs (blake3 sample) sample_archive)) \<le> kMapSize"
    by (simp add: ingest_blobs_def sample_tree_of sample_archive_items item_data_def kMapSize_def
      flush_blobs_def tree_blobs_def sub_dirs_def dir_bytes_def merkle.simps)
     (simp add: tree_entry_bytes_def sample_hash_def)
  fix res and s' :: "(tables, tables) tree_store"
  let ?m = "blobs (blake3 sample) (ingest_blobs (blake3 sample) sample_archive) ++ store_view sample ripe_store"
  assume "\<exists>fs n. let m = ?m in tar_tree sample_archive = Some fs \<and> tick ripe_store \<le> n \<and> holds_tree m (ir_root res) fs \<and>
    ingest_keeps sample (clock sample n) ripe_store m (ir_root res) fs s'"
  then obtain fs n where fs: "tar_tree sample_archive = Some fs" "holds_tree ?m (ir_root res) fs"
    "ingest_keeps sample (clock sample n) ripe_store ?m (ir_root res) fs s'" by (auto simp: Let_def)
  moreover have "?m (sample_hash ''.'') = Some ''.''" by (simp add: ripe_facts(5))
  moreover have "fs [''d'', ''f''] = Some (File (CHR ''r'') ''hi'')" using fs(1) sample_tar_tree by auto
  ultimately show "\<exists>m fs n. m (sample_hash ''.'') = Some ''.'' \<and> fs [''d'', ''f''] = Some (File (CHR ''r'') ''hi'') \<and>
      holds_tree m (ir_root res) fs \<and> ingest_keeps sample (clock sample n) ripe_store m (ir_root res) fs s'"
    by (intro exI [of _ ?m] exI [of _ fs] exI [of _ n] conjI)
qed (use ripe_facts in simp_all)

end
