(* ===== verification/Fs_Path.thy ===== *)
theory Fs_Path
  imports Prelude
begin

text \<open>
  \<open>std::filesystem::path\<close> on POSIX, as far as the plugin uses it: a path is its text.
\<close>

definition file_name :: "bytes \<Rightarrow> bytes" where
  "file_name p = rev (takeWhile (\<lambda>c. c \<noteq> CHR ''/'') (rev p))"

text \<open>The directory without the slashes behind it, unless it is the root.\<close>

definition parent_path :: "bytes \<Rightarrow> bytes" where
  "parent_path p = (let dir = dropWhile (\<lambda>c. c \<noteq> CHR ''/'') (rev p); bare = dropWhile (\<lambda>c. c = CHR ''/'') dir
     in if dir = [] then [] else if bare = [] then ''/'' else rev bare)"

definition path_append :: "bytes \<Rightarrow> bytes \<Rightarrow> bytes" where
  "path_append p q = (if prefix ''/'' q then q else if p = [] \<or> suffix ''/'' p then p @ q else p @ CHR ''/'' # q)"

text \<open>A name of a directory entry.\<close>

definition entry_name :: "bytes \<Rightarrow> bool" where
  "entry_name n \<longleftrightarrow> n \<noteq> [] \<and> CHR ''/'' \<notin> set n"

lemma file_name_slash:
  assumes "CHR ''/'' \<notin> set n"
  shows "file_name n = n" "file_name (dir @ CHR ''/'' # n) = n"
proof -
  have all: "\<And>c. c \<in> set (rev n) \<Longrightarrow> c \<noteq> CHR ''/''" using assms by auto
  then have bare: "takeWhile (\<lambda>c. c \<noteq> CHR ''/'') (rev n) = rev n" by (simp add: takeWhile_eq_all_conv)
  show "file_name n = n" by (simp only: file_name_def bare rev_rev_ident)
  have "takeWhile (\<lambda>c. c \<noteq> CHR ''/'') (rev n @ CHR ''/'' # rev dir) = rev n"
    using takeWhile_append2 [of "rev n" "\<lambda>c. c \<noteq> CHR ''/''"] all by simp
  then show "file_name (dir @ CHR ''/'' # n) = n" by (simp add: file_name_def)
qed

lemma file_name_append: "entry_name n \<Longrightarrow> file_name (path_append dir n) = n"
  by (auto simp: entry_name_def path_append_def prefix_def suffix_def file_name_slash)

end
