(* ===== verification/Loader.thy ===== *)
theory Loader
  imports Mem_Tree Fs_Path
begin

text \<open>
  The shim Nix loads as its plugin (\<open>src/plugin/loader.cc\<close>). It looks for the build of the plugin whose Nix libraries are
  those of the running process and loads that one; loading another build would map the libraries a second time. The
  dynamic linker and the file system are the record \<open>loader_env\<close>.
\<close>

section \<open>The code\<close>

text \<open>\<open>own_object\<close> is what \<open>dladdr\<close> says of the shim, \<open>is_mapped\<close> whether \<open>dlopen\<close> with \<open>RTLD_NOLOAD\<close> finds a library,
  \<open>load_error\<close> what \<open>dlerror\<close> says if loading fails. A directory iterator gives names and may fail behind the last
  one; one that cannot be opened gives none.\<close>

record loader_env =
  on_apple :: bool
  module_suffix :: bytes
  env_override :: "bytes option"
  own_object :: "bytes option"
  is_mapped :: "bytes \<Rightarrow> bool"
  list_dir :: "bytes \<Rightarrow> bytes list \<times> bytes option"
  file_exists :: "bytes \<Rightarrow> bytes + bool"
  load_error :: "bytes \<Rightarrow> bytes option"

record loader_proc =
  loaded_objects :: "bytes list"
  stderr_text :: bytes

subsection \<open>The search\<close>

definition nix_store_soname :: "loader_env \<Rightarrow> bytes \<Rightarrow> bytes" where
  "nix_store_soname L soversion = (if on_apple L then ''libnixstore.'' @ soversion @ ''.dylib'' else ''libnixstore.so.'' @ soversion)"

definition warn :: "bytes \<Rightarrow> (loader_proc, unit) prog" where
  "warn message = modS (\<lambda>s. s\<lparr>stderr_text := stderr_text s @ ''nix-tarmac: '' @ message @ ''. falling back to the builtin fetcher'' @ [CHR 0x0A]\<rparr>)"

definition host_has :: "loader_env \<Rightarrow> bytes \<Rightarrow> bool" where
  "host_has L soname = is_mapped L soname"

definition versions_dir :: "loader_env \<Rightarrow> bytes" where
  "versions_dir L = (case own_object L of None \<Rightarrow> []
   | Some object \<Rightarrow> path_append (parent_path (parent_path object)) ''nix-tarmac-versions'')"

fun first_build :: "loader_env \<Rightarrow> bytes \<Rightarrow> bytes list \<Rightarrow> bytes option \<Rightarrow> exn + bytes" where
  "first_build L dir [] failure = (case failure of None \<Rightarrow> Inr [] | Some err \<Rightarrow> Inl (SystemError err))"
| "first_build L dir (name # names) failure = (let entry = path_append dir name in
     if host_has L (nix_store_soname L (file_name entry)) then Inr (path_append entry (''nix-tarmac.'' @ module_suffix L))
     else first_build L dir names failure)"

definition plugin_for_running_nix :: "loader_env \<Rightarrow> exn + bytes" where
  "plugin_for_running_nix L = (let dir = versions_dir L in case list_dir L dir of (names, failure) \<Rightarrow> first_build L dir names failure)"

text \<open>\<open>std::filesystem::exists\<close> without an error code throws what is not just absence.\<close>

definition nix_plugin_entry :: "loader_env \<Rightarrow> (loader_proc, unit) prog" where
  "nix_plugin_entry L = bindE (case env_override L of Some p \<Rightarrow> ret p | None \<Rightarrow> liftE (plugin_for_running_nix L)) (\<lambda>plugin.
     bindE (if plugin = [] then ret False
       else (case file_exists L plugin of Inl err \<Rightarrow> throw (SystemError err) | Inr b \<Rightarrow> ret b)) (\<lambda>found.
     if \<not> found then warn (''no plugin build matching the loaded libnixstore in '' @ quoted (versions_dir L))
     else (case load_error L plugin of
         None \<Rightarrow> modS (\<lambda>s. s\<lparr>loaded_objects := loaded_objects s @ [plugin]\<rparr>)
       | Some msg \<Rightarrow> warn (''failed to load '' @ quoted plugin @ '': '' @ msg))))"

section \<open>What it finds\<close>

text \<open>The build for version \<open>v\<close>.\<close>

definition build_of :: "loader_env \<Rightarrow> bytes \<Rightarrow> bytes" where
  "build_of L v = path_append (path_append (versions_dir L) v) (''nix-tarmac.'' @ module_suffix L)"

definition host_version :: "loader_env \<Rightarrow> bytes \<Rightarrow> bool" where
  "host_version L v \<longleftrightarrow> is_mapped L (nix_store_soname L v)"

lemma first_build_find:
  "\<forall>n\<in>set names. entry_name n \<Longrightarrow> first_build L (versions_dir L) names failure =
    (case find (host_version L) names of Some v \<Rightarrow> Inr (build_of L v)
     | None \<Rightarrow> (case failure of None \<Rightarrow> Inr [] | Some err \<Rightarrow> Inl (SystemError err)))"
  by (induction names) (simp_all add: Let_def host_has_def host_version_def build_of_def file_name_append)

lemma build_of_nonempty: "build_of L v \<noteq> []"
  by (simp add: build_of_def path_append_def)

end
