(* ===== verification/Loader_Spec.thy ===== *)
theory Loader_Spec
  imports Loader
begin

text \<open>
  What the shim promises: never a build for another Nix, and always a build or a word about it.
\<close>

text \<open>C16: Without an override the shim loads at most one object, and only the build of the first listed version whose
  Nix library the process has mapped already; if that build is there and loads, it does load it. In all other cases it loads nothing
  and says so on the standard error; if the file system fails it throws, with nothing loaded and nothing said.\<close>

theorem only_matching_build_is_loaded:
  assumes "env_override L = None" and "\<forall>n\<in>set (fst (list_dir L (versions_dir L))). entry_name n"
  shows "wp (nix_plugin_entry L)
    (\<lambda>_ s'. case find (host_version L) (fst (list_dir L (versions_dir L))) of
       None \<Rightarrow> loaded_objects s' = loaded_objects s \<and> strict_prefix (stderr_text s) (stderr_text s')
     | Some v \<Rightarrow> if file_exists L (build_of L v) = Inr True \<and> load_error L (build_of L v) = None
         then loaded_objects s' = loaded_objects s @ [build_of L v] \<and> stderr_text s' = stderr_text s
         else loaded_objects s' = loaded_objects s \<and> strict_prefix (stderr_text s) (stderr_text s'))
    (\<lambda>e s'. (\<exists>err. e = SystemError err) \<and> s' = s) s"
proof -
  let ?names = "fst (list_dir L (versions_dir L))" and ?failure = "snd (list_dir L (versions_dir L))"
  have build: "plugin_for_running_nix L = (case find (host_version L) ?names of Some v \<Rightarrow> Inr (build_of L v)
     | None \<Rightarrow> (case ?failure of None \<Rightarrow> Inr [] | Some err \<Rightarrow> Inl (SystemError err)))"
    using first_build_find [OF assms(2), of L ?failure] by (simp add: plugin_for_running_nix_def Let_def case_prod_beta)
  show ?thesis
    unfolding nix_plugin_entry_def assms(1) build
    by (cases "find (host_version L) ?names"; cases ?failure)
      (auto simp: strict_prefix_def wp_simps wp_fun_eqs warn_def build_of_nonempty wp_case_sum wp_case_option split: sum.split option.split)
qed

text \<open>A process with Nix 2.35 between two installed builds.\<close>

definition sample_loader :: loader_env where
  "sample_loader = \<lparr>on_apple = False, module_suffix = ''so'', env_override = None, own_object = Some ''/nix/lib/nix/plugins/nix-tarmac.so'',
     is_mapped = (\<lambda>l. l = ''libnixstore.so.2.35.0''), list_dir = (\<lambda>d. (if d = ''/nix/lib/nix/nix-tarmac-versions'' then [''2.34.1'', ''2.35.0'', ''2.36.0''] else [], None)),
     file_exists = (\<lambda>_. Inr True), load_error = (\<lambda>_. None)\<rparr>"

theorem only_matching_build_is_loaded_witness:
  "wp (nix_plugin_entry sample_loader)
    (\<lambda>_ s'. s' = \<lparr>loaded_objects = [''/nix/lib/nix/nix-tarmac-versions/2.35.0/nix-tarmac.so''], stderr_text = []\<rparr>)
    (\<lambda>e _. \<exists>err. e = SystemError err) \<lparr>loaded_objects = [], stderr_text = []\<rparr>"
proof (rule wp_mono [OF only_matching_build_is_loaded])
  have dir: "versions_dir sample_loader = ''/nix/lib/nix/nix-tarmac-versions''" by code_simp
  have names: "fst (list_dir sample_loader (versions_dir sample_loader)) = [''2.34.1'', ''2.35.0'', ''2.36.0'']"
    unfolding dir by (simp add: sample_loader_def)
  have found: "find (host_version sample_loader) [''2.34.1'', ''2.35.0'', ''2.36.0''] = Some ''2.35.0''"
    by (simp add: host_version_def nix_store_soname_def) (simp add: sample_loader_def)
  have build: "build_of sample_loader ''2.35.0'' = ''/nix/lib/nix/nix-tarmac-versions/2.35.0/nix-tarmac.so''" by code_simp
  have there: "file_exists sample_loader p = Inr True" "load_error sample_loader p = None" for p by (simp_all add: sample_loader_def)
  show "env_override sample_loader = None" by (simp add: sample_loader_def)
  show "\<forall>n\<in>set (fst (list_dir sample_loader (versions_dir sample_loader))). entry_name n" by (simp add: names entry_name_def)
  fix s' :: loader_proc
  assume "case find (host_version sample_loader) (fst (list_dir sample_loader (versions_dir sample_loader))) of
       None \<Rightarrow> loaded_objects s' = loaded_objects \<lparr>loaded_objects = [], stderr_text = []\<rparr> \<and>
         strict_prefix (stderr_text \<lparr>loaded_objects = [], stderr_text = []\<rparr>) (stderr_text s')
     | Some v \<Rightarrow> if file_exists sample_loader (build_of sample_loader v) = Inr True \<and> load_error sample_loader (build_of sample_loader v) = None
         then loaded_objects s' = loaded_objects \<lparr>loaded_objects = [], stderr_text = []\<rparr> @ [build_of sample_loader v] \<and>
           stderr_text s' = stderr_text \<lparr>loaded_objects = [], stderr_text = []\<rparr>
         else loaded_objects s' = loaded_objects \<lparr>loaded_objects = [], stderr_text = []\<rparr> \<and>
           strict_prefix (stderr_text \<lparr>loaded_objects = [], stderr_text = []\<rparr>) (stderr_text s')"
  then show "s' = \<lparr>loaded_objects = [''/nix/lib/nix/nix-tarmac-versions/2.35.0/nix-tarmac.so''], stderr_text = []\<rparr>"
    unfolding names found by (simp add: build there)
qed auto

end
