(* ===== verification/Store_Config.thy ===== *)
theory Store_Config
  imports Ctx Fs_Path
begin

text \<open>
  The settings of the evaluation store and what rests on them (\<open>TarmacStoreConfig\<close> and the rest of \<open>TarmacStore\<close> in
  \<open>src/plugin/store.cc\<close>): the directory of a store and the reference that names it, and whose path infos are trusted.
  Settings, query parameters and keys are Nix's (\<open>config_lib\<close>).
\<close>

section \<open>The code\<close>

text \<open>\<open>read_setting\<close> is a setting's value from the parameters of a store reference, or its default; \<open>query_params\<close> are the
  parameters that a store with these settings is named with. \<open>check_signatures\<close> counts the good ones.\<close>

type_synonym params = "bytes \<Rightarrow> bytes option"

record ('i, 'k) config_lib =
  cache_home :: bytes
  global_require_sigs :: bool
  read_setting :: "bytes \<Rightarrow> bool \<Rightarrow> params \<Rightarrow> exn + bool"
  query_params :: "params \<Rightarrow> params"
  default_keys :: "exn + 'k"
  check_signatures :: "'i \<Rightarrow> 'k \<Rightarrow> nat"

record store_config =
  sc_dir :: bytes
  sc_require_sigs :: bool
  sc_path_info_cache :: nat
  sc_params :: params

record store_reference =
  ref_scheme :: bytes
  ref_authority :: bytes
  ref_params :: params

definition default_dir :: "('i, 'k) config_lib \<Rightarrow> bytes" where
  "default_dir C = path_append (cache_home C) ''tarmac''"

text \<open>The constructor from parameters, and the one from a reference.\<close>

definition base_config :: "('i, 'k) config_lib \<Rightarrow> params \<Rightarrow> exn + store_config" where
  "base_config C params = (case read_setting C ''require-sigs'' (global_require_sigs C) params of Inl e \<Rightarrow> Inl e
   | Inr b \<Rightarrow> Inr \<lparr>sc_dir = default_dir C, sc_require_sigs = b, sc_path_info_cache = 0, sc_params = params\<rparr>)"

definition uri_config :: "('i, 'k) config_lib \<Rightarrow> bytes \<Rightarrow> params \<Rightarrow> exn + store_config" where
  "uri_config C authority params = (case base_config C params of Inl e \<Rightarrow> Inl e
   | Inr c \<Rightarrow> Inr (if authority \<noteq> [] then c\<lparr>sc_dir := authority\<rparr> else c))"

definition uri_scheme :: bytes where
  "uri_scheme = ''tarmac''"

definition get_reference :: "('i, 'k) config_lib \<Rightarrow> store_config \<Rightarrow> store_reference" where
  "get_reference C c = \<lparr>ref_scheme = uri_scheme, ref_authority = sc_dir c, ref_params = query_params C (sc_params c)\<rparr>"

text \<open>The store's constructor: the local variable says whether the process has a context for the directory.\<close>

definition open_store :: "('e, 't) platform \<Rightarrow> store_config \<Rightarrow> (('e, 't, 'z) tree_store_scheme \<times> bool, unit) prog" where
  "open_store E c = ctx_get E (sc_dir c)"

text \<open>\<open>std::call_once\<close>: the keys read, if they have been; a call that throws leaves the flag unset.\<close>

definition public_keys :: "('i, 'k) config_lib \<Rightarrow> ('k option, 'k) prog" where
  "public_keys C = bindE (readS (\<lambda>k. k)) (\<lambda>seen. case seen of Some k \<Rightarrow> ret k
   | None \<Rightarrow> bindE (liftE (default_keys C)) (\<lambda>k. thenE (modS (\<lambda>_. Some k)) (ret k)))"

definition path_info_is_untrusted :: "('i, 'k) config_lib \<Rightarrow> store_config \<Rightarrow> 'i \<Rightarrow> ('k option, bool) prog" where
  "path_info_is_untrusted C c info =
     (if sc_require_sigs c then bindE (public_keys C) (\<lambda>k. ret (check_signatures C info k = 0)) else ret False)"

definition is_trusted_client :: "bool option" where
  "is_trusted_client = Some True"

definition read_invalid_derivation ::
  "('e, 't) platform \<Rightarrow> ('h, 'ca, 'drv) nix \<Rightarrow> bytes \<Rightarrow> (('e, 't, 'z) tree_store_scheme, 'drv) prog" where
  "read_invalid_derivation E N path = read_derivation E N path"

definition register_drv_output :: "'o \<Rightarrow> ('s, unit) prog" where
  "register_drv_output out = throw (NixError ''registerDrvOutput'')"

definition query_realisation :: "'o \<Rightarrow> ('s, 'r option) prog" where
  "query_realisation out = ret None"

definition get_fs_accessor ::
  "('e, 't) platform \<Rightarrow> ('h, 'ca, 'drv) nix \<Rightarrow> bytes \<Rightarrow> bool \<Rightarrow> (('e, 't, 'z) tree_store_scheme, accessor option) prog" where
  "get_fs_accessor E N path require_valid = accessor_for E N path"

section \<open>What is relied on\<close>

text \<open>The parameters a store is named with say of each setting what its own said.\<close>

definition config_ok :: "('i, 'k) config_lib \<Rightarrow> bool" where
  "config_ok C \<longleftrightarrow> (\<forall>k d ps. read_setting C k d (query_params C ps) = read_setting C k d ps)"

lemma default_dir_nonempty: "default_dir C \<noteq> []"
  by (simp add: default_dir_def path_append_def)

lemma uri_config_dir: "uri_config C authority ps = Inr c \<Longrightarrow> sc_dir c = (if authority = [] then default_dir C else authority)"
  by (auto simp: uri_config_def base_config_def split: sum.splits)

end
