(* ===== verification/Config_Spec.thy ===== *)
theory Config_Spec
  imports Store_Config Eval_Spec
begin

text \<open>
  What the settings of the evaluation store promise.
\<close>


definition sample_config :: "(bytes, bytes) config_lib" where
  "sample_config = \<lparr>cache_home = ''/home/u/.cache/nix'', global_require_sigs = True,
     read_setting = (\<lambda>k d ps. case ps k of None \<Rightarrow> Inr d | Some v \<Rightarrow> if v = ''true'' then Inr True else if v = ''false'' then Inr False else Inl (NixError ''bool'')),
     query_params = (\<lambda>ps. ps), default_keys = Inr ''key'', check_signatures = (\<lambda>i k. if i = k then 1 else 0)\<rparr>"


text \<open>A path info is untrusted exactly if the store requires signatures and none of the default keys' is good. The keys are read
  only if signatures are required, and only once; if reading them fails, the next call tries again.\<close>

theorem trust_follows_signatures:
  assumes "\<forall>k. seen = Some k \<longrightarrow> default_keys C = Inr k"
  shows "wp (path_info_is_untrusted C c info)
    (\<lambda>untrusted seen'. (untrusted \<longleftrightarrow> sc_require_sigs c \<and> (\<exists>k. default_keys C = Inr k \<and> check_signatures C info k = 0)) \<and>
       (\<forall>k. seen' = Some k \<longrightarrow> default_keys C = Inr k) \<and> (seen' = seen \<or> seen = None \<and> sc_require_sigs c))
    (\<lambda>e seen'. sc_require_sigs c \<and> default_keys C = Inl e \<and> seen' = None) seen"
  using assms
  by (cases seen; cases "default_keys C") (auto simp: path_info_is_untrusted_def public_keys_def wp_simps)

theorem trust_follows_signatures_witness:
  "\<exists>c. uri_config sample_config ''/store'' Map.empty = Inr c \<and>
    wp (path_info_is_untrusted sample_config c ''other'') (\<lambda>untrusted seen. untrusted) (\<lambda>_ _. False) None"
proof -
  obtain c where c: "uri_config sample_config ''/store'' Map.empty = Inr c" "sc_require_sigs c"
    by (auto simp: uri_config_def base_config_def sample_config_def)
  have "wp (path_info_is_untrusted sample_config c ''other'') (\<lambda>untrusted seen. untrusted) (\<lambda>_ _. False) None"
    by (rule wp_mono [OF trust_follows_signatures]) (use c(2) in \<open>auto simp: sample_config_def\<close>)
  with c(1) show ?thesis by blast
qed

end
