(* ===== verification/Spec2Isabelle.thy ===== *)
theory Spec2Isabelle
  imports Fetch_Spec Writer_Spec Keep_Spec Loader_Spec Config_Spec
begin

text \<open>
  A model of nix-tarmac: a content-addressed store for source trees (\<open>src/src\<close>) and the evaluation store
  that a Nix plugin keeps in it (\<open>src/plugin\<close>).

  Parts and theories, in the order of the calls (each imports those above it):
    \<^item> \<open>Prelude\<close>: state-passing programs that may throw (\<open>prog\<close>), their weakest preconditions
      (\<open>wp\<close>) and rules; \<open>Encodings\<close>: little and big endian words, hex and decimal digits.
    \<^item> \<open>Platform\<close>, \<open>Platform_Rules\<close>: what the code calls. A world of inodes, directory entries, a lock owner and an
      LMDB environment; system calls with outcomes a parameter chooses (\<open>Fine\<close>, \<open>Short\<close>, \<open>Fail\<close>); BLAKE3,
      LZ4 and LMDB as functions of a record \<open>platform\<close> whose documented behaviour is \<open>platform_ok\<close>.
    \<^item> \<open>Pack_Index\<close>, \<open>Pack_Map\<close>, \<open>Pack_Cas\<close>, \<open>Pack_Compact\<close>, \<open>Pack_Open\<close>: \<open>pack_cas.cpp\<close>. The record \<open>cas\<close> is
      \<open>PackCas::Impl\<close>; a \<open>shared_ptr<Mapping>\<close> is an index into the list of mappings made.
    \<^item> \<open>Pack_Inv\<close>, \<open>Pack_Io\<close>, \<open>Pack_Lookup\<close>, \<open>Pack_Batch\<close>, \<open>Pack_Put\<close>, \<open>Pack_Meta\<close>, \<open>Compact_Copy\<close>, \<open>Compact_Inv\<close>,
      \<open>Meta_Scan\<close>: the invariant \<open>cas_inv\<close> (every index entry denotes a blob inside its pack, the batch appends
      behind the committed end) and one rule per operation, failures included.
    \<^item> \<open>Tree_Codec\<close>, \<open>Blob_Store\<close>, \<open>Tree_Store\<close>: tree objects and \<open>TreeStore\<close> (\<open>tree.cpp\<close>, \<open>tree.hpp\<close>); \<open>blob_source\<close> and
      \<open>blob_store\<close> are the interfaces the tree code has to the pack, interpreted on \<open>get\<close>, \<open>get_view\<close> and \<open>put\<close>.
    \<^item> \<open>Mem_Tree\<close>, \<open>Flush\<close>, \<open>Paths\<close>, \<open>Walker\<close>, \<open>Nar\<close>, \<open>Nar_Dump\<close>: the tree an ingest builds, its storage, the lookup of a
      path in stored trees, the NAR of one.
    \<^item> \<open>Tar_Items\<close>, \<open>Item_Queue\<close>, \<open>Ingest\<close>, \<open>Ingest_Tree\<close>: reading an archive, the two threads of \<open>ingest_archive\<close>
      as a step relation, and what the ingest stores.
    \<^item> \<open>Ticks\<close>, \<open>Mark_Live\<close>, \<open>Gc\<close>: the order in which a program reads the clock, and the garbage collection.
    \<^item> \<open>Nix_Compat\<close>: the interface of derivations as different versions of Nix name it (\<open>nix_compat.hh\<close>); the version built
      against is a field of the record \<open>nix_api\<close>.
    \<^item> \<open>Accessor\<close>, \<open>Eval_Store\<close>: \<open>PackAccessor\<close> (\<open>pack_accessor.hh\<close>), \<open>TarmacStore\<close>, \<open>BlobAccessor\<close> and
      \<open>StoreViewAccessor\<close> (\<open>store.cc\<close>). Requests of the source accessor interface are the datatype \<open>request\<close>; what the code
      calls of Nix and of the JSON library is the record \<open>nix\<close>, its behaviour \<open>nix_ok\<close>. \<open>accessor_source\<close> is the interface
      accessors have to the pack.
    \<^item> \<open>Objects\<close>, \<open>Eval_Inv\<close>, \<open>View_Inv\<close>: file system objects, the requests on one as a file system answers them
      (\<open>fs_answer\<close>), and the evaluation store as a map from base names to objects (\<open>object_at\<close>).
    \<^item> \<open>Open_Inv\<close>, \<open>Ctx\<close>: opening a directory that a crash, another version or a corrupt read left behind
      (\<open>store_dir\<close>, \<open>foreign_dir\<close>, \<open>poisoned\<close>), and the context of a store in the plugin (\<open>ctx.hh\<close>).
    \<^item> \<open>Source_Reader\<close>, \<open>Fetcher\<close>, \<open>Fetch_Inv\<close>: the callback through which libarchive reads a response (\<open>read_cb\<close>), and the tarball scheme (\<open>tarmac.cc\<close>), from URLs and attributes to the accessor of a fetched tree. What it
      calls of Nix (URLs, hashes, fetcher cache, transfer) is the record \<open>fetch_lib\<close>; \<open>stripped\<close> relates the tree of an archive
      to the one that is answered.
    \<^item> \<open>Peers\<close>, \<open>Reader\<close>: other processes that write to the directory between two calls (\<open>peer_step\<close>), what is stable
      under their steps (\<open>pinned\<close>), and \<open>get\<close> of a process that reads beside them.
    \<^item> \<open>Writer\<close>, \<open>Writer_Compact\<close>: the calls of a handle leave the directory at the end of such steps (\<open>wrote\<close>), so what a
      reader relies on holds beside writers that run this program.
    \<^item> \<open>Pack_Growth\<close>, \<open>Ingest_Store\<close>, \<open>Fuzz\<close>: how far an ingest lets the pack grow (\<open>below\<close>), an ingest into an evaluation
      store, and the fuzz target (\<open>fuzz_ingest.cc\<close>) that reads back what it stored.
    \<^item> \<open>Ingest_Gc\<close>: an ingest with the collection it ends with (\<open>ingest_keeps\<close>), as long as the clock behaves (\<open>clock_ok\<close>).
    \<^item> \<open>Fs_Path\<close>, \<open>Loader\<close>, \<open>Store_Config\<close>: paths as \<open>std::filesystem\<close> takes them apart, the shim that loads the plugin
      (\<open>loader.cc\<close>), the settings and the trust of the evaluation store (\<open>store.cc\<close>). The dynamic linker is the record
      \<open>loader_env\<close>, Nix's settings are the record \<open>config_lib\<close>.
    \<^item> \<open>Sample\<close>, \<open>Sample_Store\<close>: a concrete platform and stores on it; \<open>Pack_Spec\<close>, \<open>Tree_Spec\<close>, \<open>Ingest_Spec\<close>,
      \<open>Gc_Spec\<close>, \<open>Eval_Spec\<close>, \<open>Ctx_Spec\<close>, \<open>Fetch_Spec\<close>, \<open>Reader_Spec\<close>, \<open>Writer_Spec\<close>, \<open>Fuzz_Spec\<close>, \<open>Keep_Spec\<close>,
      \<open>Loader_Spec\<close>, \<open>Config_Spec\<close>: the properties, each with an instance on them.

  Bounds. Offsets and sizes are 64-bit words, wrap-around included; no file reaches 2^63 bytes. Every loop ends
  without fuel: the read, write and hash loops by the bytes left, the lock loop by its timeout, the walker by
  the path, the NAR dump by its depth limit of 512, the marker because there are finitely many ids a tree object
  can name.

  Not modelled: the mutexes around the mappings and the touches (their critical sections are atomic), memory
  exhaustion, the benchmarks and tests; of the plugin the registration of the store type with its documentation,
  and of \<open>nix_compat.hh\<close> the renamings that leave no trace in behaviour (types, includes, headers).
  \<open>fetched_tree_is_archive\<close> is about fetches after which no collection is due; \<open>ingest_outlives_collection\<close> says what one keeps.
\<close>

end
